(* ===== verification/Prelude.thy ===== *)
theory Prelude
  imports Main "HOL-Library.Word" "HOL-Library.Tree" "HOL-Library.Monad_Syntax"
begin

text \<open>
  Shared vocabulary of the development: the C integer types, the alignment macro and the size
  constants of \<^verbatim>\<open>allocator/*.h\<close>, the collections of rewrite rules the component theories add
  to, and the generic facts on words, lists and binary trees that more than one component uses.

  A \<^verbatim>\<open>size_t\<close> is a 64-bit word: its arithmetic wraps around as the code's does.
  \<^verbatim>\<open>HEAP_SIZE\<close> is a compile-time parameter of the code (\<^verbatim>\<open>#ifndef HEAP_SIZE\<close>, overridden by the
  Makefile with \<^verbatim>\<open>-DHEAP_SIZE\<close>), so every operation that reads it takes it as an argument.
\<close>

type_synonym size_t = "64 word"
type_synonym byte = "8 word"

unbundle bit_operations_syntax

named_theorems frame_simps \<open>what an operation leaves unchanged\<close>
named_theorems geometry \<open>arithmetic of blocks, slots and aligned sizes\<close>


section \<open>Constants of the headers\<close>

definition MAX_OBJECT_SIZE :: size_t where
  "MAX_OBJECT_SIZE = 2008"

definition BLOCK_SIZE :: size_t where
  "BLOCK_SIZE = 4 * 1024"

definition BLOCK_HEADER_SIZE :: size_t where
  "BLOCK_HEADER_SIZE = 80"

text \<open>\<^verbatim>\<open>GET_SIZE_WITH_ALIGNMENT(size)\<close> of \<^verbatim>\<open>allocator.h\<close>, with the wrap-around of \<^verbatim>\<open>size_t\<close>.\<close>

definition GET_SIZE_WITH_ALIGNMENT :: "size_t \<Rightarrow> size_t" where
  "GET_SIZE_WITH_ALIGNMENT sz = (if sz mod 8 = 0 then 0 else 8 - sz mod 8) + sz"

lemma unat_word_mod: "unat (a mod b) = unat a mod unat b"
  by (rule unat_mod)

lemma unat_size_t: "unat (a :: size_t) < 2 ^ 64"
  using unsigned_less [where w = a and 'a = nat] by simp

lemma unat_add_no_wrap:
  fixes a b :: "'a::len word"
  assumes "unat a + unat b < 2 ^ LENGTH('a)"
  shows "unat (a + b) = unat a + unat b"
  using assms by (simp add: unat_word_ariths)

lemma unat_sub_no_wrap:
  fixes a b :: "'a::len word"
  assumes "b \<le> a"
  shows "unat (a - b) = unat a - unat b"
  using assms by (simp add: unat_sub)

text \<open>
  Up to the last multiple of 8 that fits in a \<^verbatim>\<open>size_t\<close> the macro rounds up to the next multiple
  of 8; above it, it wraps around to 0.
\<close>

lemma round_up_8:
  fixes n :: nat
  assumes "n mod 8 \<noteq> 0"
  shows "(n + 7) div 8 * 8 = n + (8 - n mod 8)"
proof -
  obtain q r where n: "n = r + 8 * q" and r: "r < 8" "0 < r"
    using assms that [of "n mod 8" "n div 8"] by simp
  have "n + 7 = (r + 7) + 8 * q"
    using n by simp
  then have "(n + 7) div 8 = q + (r + 7) div 8"
    using div_mult_self2 [of 8 "r + 7" q] by simp
  moreover have "(r + 7) div 8 = 1"
    using r by (intro div_nat_eqI) simp_all
  moreover have "n mod 8 = r"
    using n r by simp
  ultimately show ?thesis
    using n r by simp
qed

lemma unat_align [geometry]:
  assumes "unat sz \<le> 2 ^ 64 - 8"
  shows "unat (GET_SIZE_WITH_ALIGNMENT sz) = (unat sz + 7) div 8 * 8"
proof (cases "sz mod 8 = 0")
  case True
  then have "unat sz mod 8 = 0"
    using unat_word_mod [of sz 8] by simp
  then have "(unat sz + 7) div 8 * 8 = unat sz" by presburger
  with True show ?thesis by (simp add: GET_SIZE_WITH_ALIGNMENT_def)
next
  case False
  have m: "unat (sz mod 8) = unat sz mod 8"
    using unat_word_mod [of sz 8] by simp
  with False have nz: "unat sz mod 8 \<noteq> 0"
    by (metis unat_eq_zero)
  have lt: "unat sz mod 8 < 8" by simp
  have le: "sz mod 8 \<le> 8"
    using lt by (simp add: word_le_nat_alt m)
  have pad: "unat (8 - sz mod 8) = 8 - unat sz mod 8"
    using unat_sub_no_wrap [OF le] by (simp add: m)
  have up: "(unat sz + 7) div 8 * 8 = unat sz + (8 - unat sz mod 8)"
    by (rule round_up_8 [OF nz])
  then have eq: "8 - unat sz mod 8 + unat sz = (unat sz + 7) div 8 * 8"
    by simp
  have "(unat sz + 7) div 8 * 8 < 2 ^ 64"
    unfolding up using assms nz by simp
  with eq have "unat (8 - sz mod 8 + sz) = (unat sz + 7) div 8 * 8"
    using pad by (subst unat_add_no_wrap) simp_all
  with False show ?thesis by (simp add: GET_SIZE_WITH_ALIGNMENT_def)
qed


section \<open>Trees of node numbers\<close>

text \<open>Facts on \<^typ>\<open>'a tree\<close> through the in-order list, used for both index structures.\<close>

text \<open>Sorting by a key, strictly: no two elements share one.\<close>

definition sorted_by :: "('a \<Rightarrow> 'k::linorder) \<Rightarrow> 'a list \<Rightarrow> bool" where
  "sorted_by k xs \<longleftrightarrow> sorted_wrt (<) (map k xs)"

lemma sorted_by_Nil [simp]: "sorted_by k []"
  by (simp add: sorted_by_def)

lemma sorted_by_Cons [simp]:
  "sorted_by k (x # xs) \<longleftrightarrow> (\<forall>y \<in> set xs. k x < k y) \<and> sorted_by k xs"
  by (simp add: sorted_by_def)

lemma sorted_by_append [simp]:
  "sorted_by k (xs @ ys) \<longleftrightarrow>
     sorted_by k xs \<and> sorted_by k ys \<and> (\<forall>x \<in> set xs. \<forall>y \<in> set ys. k x < k y)"
  by (auto simp: sorted_by_def sorted_wrt_append)

lemma sorted_by_cong: "(\<And>x. x \<in> set xs \<Longrightarrow> k x = k' x) \<Longrightarrow> sorted_by k xs = sorted_by k' xs"
  unfolding sorted_by_def by (metis map_cong)

lemma sorted_by_distinct_keys: "sorted_by k xs \<Longrightarrow> distinct (map k xs)"
  by (simp add: sorted_by_def strict_sorted_iff)

lemma sorted_by_distinct: "sorted_by k xs \<Longrightarrow> distinct xs"
  using sorted_by_distinct_keys distinct_map by blast

lemma sorted_by_inj:
  "sorted_by k xs \<Longrightarrow> x \<in> set xs \<Longrightarrow> y \<in> set xs \<Longrightarrow> k x = k y \<Longrightarrow> x = y"
  using sorted_by_distinct_keys [of k xs] by (simp add: distinct_map inj_on_def)

lemma sorted_by_filter: "sorted_by k xs \<Longrightarrow> sorted_by k (filter P xs)"
  by (induction xs) auto

lemma sorted_by_butlast:
  "sorted_by k xs \<Longrightarrow> xs \<noteq> [] \<Longrightarrow>
     sorted_by k (butlast xs) \<and> (\<forall>x \<in> set (butlast xs). k x < k (last xs))"
  by (induction xs rule: rev_induct) auto

end
