(* ===== verification/Memory.thy ===== *)
theory Memory
  imports Prelude
begin

text \<open>
  The byte memory of the process, 64-bit loads and stores at arbitrary addresses (little-endian, as
  on the x86-64 the code is written for), and \<^verbatim>\<open>memops/gc_mem.c\<close>. Addresses wrap around at
  \<open>2 ^ 64\<close>; the distance \<open>c - a\<close> of two addresses is computed on words too, so \<open>c - a < 8\<close> says that
  \<open>c\<close> is one of the eight bytes at \<open>a\<close>. The laws of 64-bit memory that the components use are the
  locale \<open>word_memory\<close>.
\<close>

type_synonym mem = "size_t \<Rightarrow> byte"

definition load64 :: "mem \<Rightarrow> size_t \<Rightarrow> size_t" where
  "load64 m a = foldr (OR) (map (\<lambda>i. push_bit (8 * i) (ucast (m (a + of_nat i)))) [0..<8]) 0"

definition store64 :: "mem \<Rightarrow> size_t \<Rightarrow> size_t \<Rightarrow> mem" where
  "store64 m a v = (\<lambda>c. if c - a < 8 then ucast (drop_bit (8 * unat (c - a)) v) else m c)"

text \<open>A block of bytes: the unaligned 128-bit loads and stores of the code.\<close>

definition load_bytes :: "mem \<Rightarrow> size_t \<Rightarrow> nat \<Rightarrow> byte list" where
  "load_bytes m a n = map (\<lambda>i. m (a + of_nat i)) [0..<n]"

definition store_bytes :: "mem \<Rightarrow> size_t \<Rightarrow> byte list \<Rightarrow> mem" where
  "store_bytes m a bs = (\<lambda>c. if unat (c - a) < length bs then bs ! unat (c - a) else m c)"


section \<open>Filling and copying\<close>

text \<open>The two loops of \<^verbatim>\<open>gc_memset\<close> from index \<open>i\<close>, and the index where the first one stops.\<close>

partial_function (option) memset_chunks ::
  "size_t \<Rightarrow> byte list \<Rightarrow> size_t \<Rightarrow> size_t \<Rightarrow> mem \<Rightarrow> (size_t \<times> mem) option" where
  "memset_chunks ptr fill count i m =
     (if i + 16 \<le> count then memset_chunks ptr fill count (i + 16) (store_bytes m (ptr + i) fill)
      else Some (i, m))"

partial_function (option) memset_tail ::
  "size_t \<Rightarrow> byte \<Rightarrow> size_t \<Rightarrow> size_t \<Rightarrow> mem \<Rightarrow> mem option" where
  "memset_tail ptr v count i m =
     (if i < count then memset_tail ptr v count (i + 1) (m(ptr + i := v)) else Some m)"

text \<open>\<^verbatim>\<open>value\<close> is an \<^verbatim>\<open>int\<close>, converted to \<^verbatim>\<open>unsigned char\<close>.\<close>

definition gc_memset :: "size_t \<Rightarrow> 32 word \<Rightarrow> size_t \<Rightarrow> mem \<Rightarrow> (size_t \<times> mem) option" where
  "gc_memset dest val count m = do {
     (i, m) \<leftarrow> memset_chunks dest (replicate 16 (ucast val)) count 0 m;
     m \<leftarrow> memset_tail dest (ucast val) count i m;
     Some (dest, m)
   }"

partial_function (option) memcpy_chunks ::
  "size_t \<Rightarrow> size_t \<Rightarrow> size_t \<Rightarrow> size_t \<Rightarrow> mem \<Rightarrow> (size_t \<times> mem) option" where
  "memcpy_chunks d s count i m =
     (if i + 16 \<le> count
      then memcpy_chunks d s count (i + 16) (store_bytes m (d + i) (load_bytes m (s + i) 16))
      else Some (i, m))"

partial_function (option) memcpy_tail ::
  "size_t \<Rightarrow> size_t \<Rightarrow> size_t \<Rightarrow> size_t \<Rightarrow> mem \<Rightarrow> mem option" where
  "memcpy_tail d s count i m =
     (if i < count then memcpy_tail d s count (i + 1) (m(d + i := m (s + i))) else Some m)"

definition gc_memcpy :: "size_t \<Rightarrow> size_t \<Rightarrow> size_t \<Rightarrow> mem \<Rightarrow> (size_t \<times> mem) option" where
  "gc_memcpy dest src count m = do {
     (i, m) \<leftarrow> memcpy_chunks dest src count 0 m;
     m \<leftarrow> memcpy_tail dest src count i m;
     Some (dest, m)
   }"


section \<open>64-bit loads and stores\<close>

lemma bit_foldr_or: "bit (foldr (OR) (map f xs) 0) n \<longleftrightarrow> (\<exists>i \<in> set xs. bit (f i) n)"
  for f :: "nat \<Rightarrow> size_t"
  by (induction xs) (auto simp: bit_or_iff)

lemma bit_load64: "bit (load64 m a) n \<longleftrightarrow> n < 64 \<and> bit (m (a + of_nat (n div 8))) (n mod 8)"
proof -
  have byte: "bit (push_bit (8 * i) (ucast b :: size_t)) n \<longleftrightarrow> i = n div 8 \<and> n < 64 \<and> bit b (n mod 8)"
    for i and b :: byte
  proof
    assume "bit (push_bit (8 * i) (ucast b :: size_t)) n"
    then have A: "8 * i \<le> n" "n < 64" "bit b (n - 8 * i)"
      by (auto simp: bit_push_bit_iff bit_unsigned_iff)
    then have "n - 8 * i < 8" using bit_imp_le_length [of b] by fastforce
    then have "n div 8 = i" using A by (intro div_nat_eqI) auto
    with A show "i = n div 8 \<and> n < 64 \<and> bit b (n mod 8)"
      by (auto simp: minus_mult_div_eq_mod [symmetric])
  qed (auto simp: bit_push_bit_iff bit_unsigned_iff minus_mult_div_eq_mod)
  have "n < 64 \<Longrightarrow> n div 8 < 8" by (simp add: div_less_iff_less_mult)
  then show ?thesis
    unfolding load64_def bit_foldr_or byte by auto
qed

lemma bit_byte_of:
  "bit (ucast (drop_bit (8 * k) v) :: byte) j \<longleftrightarrow> j < 8 \<and> bit (v :: size_t) (8 * k + j)"
  by (auto simp: bit_unsigned_iff bit_drop_bit_eq)

lemma unat_of_nat_small: "k < 2 ^ 64 \<Longrightarrow> unat (of_nat k :: size_t) = k"
  by (simp add: unat_of_nat)

lemma of_nat_diff_word: "k < 2 ^ 64 \<Longrightarrow> unat (a + of_nat k - a :: size_t) = k"
  by (simp add: unat_of_nat)

lemma load64_store64: "load64 (store64 m a v) a = v"
proof (rule bit_word_eqI)
  fix n assume n: "n < LENGTH(64)"
  then have k: "n div 8 < 8" by (simp add: div_less_iff_less_mult)
  then have u: "unat (a + of_nat (n div 8) - a :: size_t) = n div 8" by (intro of_nat_diff_word) simp
  then have "a + of_nat (n div 8) - a < 8" using k by (simp add: word_less_nat_alt)
  then have "store64 m a v (a + of_nat (n div 8)) = ucast (drop_bit (8 * (n div 8)) v)"
    using u by (simp add: store64_def)
  then show "bit (load64 (store64 m a v) a) n = bit v n"
    using n unfolding bit_load64 by (simp add: bit_byte_of)
qed

text \<open>What a load only depends on, and when two words do not overlap.\<close>

lemma load64_cong: "(\<And>i. i < 8 \<Longrightarrow> m' (a + of_nat i) = m (a + of_nat i)) \<Longrightarrow> load64 m' a = load64 m a"
  by (rule bit_word_eqI) (auto simp: bit_load64 div_less_iff_less_mult)

definition apart :: "size_t \<Rightarrow> size_t \<Rightarrow> bool" where
  "apart a b \<longleftrightarrow> 8 \<le> b - a \<and> 8 \<le> a - b"

lemma apart_sym: "apart a b = apart b a"
  by (auto simp: apart_def)

lemma apart_byte:
  assumes "apart a b" and "i < 8"
  shows "\<not> b + of_nat i - a < 8"
proof
  assume less: "b + of_nat i - a < 8"
  let ?x = "unat (b + of_nat i - a)" and ?y = "unat (a - b)" and ?d = "unat (b - a)"
  have x: "?x < 8" and y: "8 \<le> ?y" and d: "8 \<le> ?d"
    using less assms(1) by (simp_all add: apart_def word_le_nat_alt word_less_nat_alt)
  have lt: "?y < 2 ^ 64" "?d < 2 ^ 64" by (rule unat_size_t)+
  have "(?x + ?y) mod 2 ^ 64 = unat (b + of_nat i - a + (a - b))"
    by (subst unat_word_ariths) simp
  also have "\<dots> = i" using assms(2) by (simp add: unat_of_nat)
  finally have xy: "(?x + ?y) mod 2 ^ 64 = i" .
  have "(?d + ?y) mod 2 ^ 64 = unat (b - a + (a - b))" by (subst unat_word_ariths) simp
  then have dy: "(?d + ?y) mod 2 ^ 64 = 0" by simp
  have mod1: "(u + v) mod 2 ^ 64 = (if u + v < 2 ^ 64 then u + v else u + v - 2 ^ 64)"
    if "u < 2 ^ 64" "v < 2 ^ 64" for u v :: nat
    using that by (simp add: mod_if)
  have "?x < 2 ^ 64" by (rule unat_size_t)
  with xy dy mod1 lt have "(if ?x + ?y < 2 ^ 64 then ?x + ?y else ?x + ?y - 2 ^ 64) = i"
    "(if ?d + ?y < 2 ^ 64 then ?d + ?y else ?d + ?y - 2 ^ 64) = 0" by metis+
  then show False using x y d lt assms(2) by (simp split: if_splits)
qed

lemma load64_store64_apart: "apart a b \<Longrightarrow> load64 (store64 m a v) b = load64 m b"
  by (rule load64_cong) (simp add: store64_def apart_byte)



text \<open>
  What the components rely on: a word read back is the word stored, and a store does not change a
  word apart from it. The consequence they all use is for a loop that stores one value to a list of
  addresses.
\<close>

locale word_memory =
  fixes load :: "'m \<Rightarrow> 'a \<Rightarrow> 'v" and store :: "'m \<Rightarrow> 'a \<Rightarrow> 'v \<Rightarrow> 'm"
    and sep :: "'a \<Rightarrow> 'a \<Rightarrow> bool"
  assumes load_store: "load (store m a v) a = v"
    and load_store_sep: "sep a b \<Longrightarrow> load (store m a v) b = load m b"
begin

lemma load_fold_sep:
  "\<forall>b \<in> set as. sep b a \<Longrightarrow> load (fold (\<lambda>b m. store m b v) as m) a = load m a"
  by (induction as arbitrary: m) (simp_all add: load_store_sep)

lemma load_fold_in:
  "a \<in> set as \<Longrightarrow> \<forall>b \<in> set as. b = a \<or> sep b a \<Longrightarrow> load (fold (\<lambda>b m. store m b v) as m) a = v"
proof (induction as arbitrary: m)
  case (Cons b as)
  show ?case
  proof (cases "a \<in> set as")
    case True
    with Cons show ?thesis by simp
  next
    case False
    then have b: "b = a" using Cons.prems(1) by simp
    have "\<forall>c \<in> set as. sep c a" using Cons.prems(2) False by auto
    then show ?thesis using b by (simp add: load_fold_sep load_store)
  qed
qed simp

end

interpretation mem64: word_memory load64 store64 apart
  by unfold_locales (simp_all add: load64_store64 load64_store64_apart)


section \<open>What the loops write\<close>

lemma window:
  assumes "i + k \<le> 2 ^ 64"
  shows "unat (c - (d + of_nat i) :: size_t) < k \<longleftrightarrow> i \<le> unat (c - d) \<and> unat (c - d) < i + k"
    and "i \<le> unat (c - d) \<Longrightarrow> i < 2 ^ 64 \<Longrightarrow> unat (c - (d + of_nat i) :: size_t) = unat (c - d) - i"
proof -
  let ?x = "c - d"
  have e: "c - (d + of_nat i) = ?x - of_nat i" by simp
  have x: "unat ?x < 2 ^ 64" by (rule unat_size_t)
  have sub: "unat (?x - of_nat i) = (if i \<le> unat ?x then unat ?x - i else unat ?x + 2 ^ 64 - i)"
    if "i < 2 ^ 64"
    using that unat_sub_if' [of ?x "of_nat i"] by (simp add: unat_of_nat)
  show "i \<le> unat ?x \<Longrightarrow> i < 2 ^ 64 \<Longrightarrow> unat (c - (d + of_nat i)) = unat ?x - i"
    unfolding e using sub by simp
  show "unat (c - (d + of_nat i)) < k \<longleftrightarrow> i \<le> unat ?x \<and> unat ?x < i + k"
  proof (cases "i < 2 ^ 64")
    case True
    then show ?thesis unfolding e using sub assms x by auto
  next
    case False
    then have "k = 0" using assms by simp
    then show ?thesis by simp
  qed
qed

lemma of_nat_unat_word: "of_nat (unat x) = (x :: size_t)"
  by (rule word_unat_eq_iff [THEN iffD2]) (simp add: unat_of_nat)

text \<open>The first \<open>i\<close> bytes at \<open>d\<close> replaced by the bytes \<open>f\<close>.\<close>

definition prefix_set :: "size_t \<Rightarrow> (nat \<Rightarrow> byte) \<Rightarrow> mem \<Rightarrow> nat \<Rightarrow> mem" where
  "prefix_set d f m i = (\<lambda>c. if unat (c - d) < i then f (unat (c - d)) else m c)"

lemma prefix_set_0 [simp]: "prefix_set d f m 0 = m"
  by (simp add: prefix_set_def)

lemma prefix_set_store:
  assumes "i + length bs \<le> 2 ^ 64" and "\<And>j. j < length bs \<Longrightarrow> bs ! j = f (i + j)"
  shows "store_bytes (prefix_set d f m i) (d + of_nat i) bs = prefix_set d f m (i + length bs)"
proof
  fix c
  show "store_bytes (prefix_set d f m i) (d + of_nat i) bs c = prefix_set d f m (i + length bs) c"
  proof (cases "unat (c - (d + of_nat i)) < length bs")
    case True
    then have w: "i \<le> unat (c - d)" "unat (c - d) < i + length bs" using window(1) [OF assms(1)] by auto
    then have "i < 2 ^ 64" using unat_size_t [of "c - d"] by linarith
    then have "unat (c - (d + of_nat i)) = unat (c - d) - i" using window(2) [OF assms(1) w(1)] by simp
    then show ?thesis using True w assms(2) [of "unat (c - d) - i"]
      by (simp add: store_bytes_def prefix_set_def)
  next
    case False
    then show ?thesis using window(1) [OF assms(1), of c d]
      by (auto simp: store_bytes_def prefix_set_def)
  qed
qed

lemma prefix_set_upd:
  assumes "i < 2 ^ 64" and "v = f i"
  shows "(prefix_set d f m i)(d + of_nat i := v) = prefix_set d f m (i + 1)"
proof -
  have "m'(a := w) = store_bytes m' a [w]" for m' :: mem and a w
    by (auto simp: store_bytes_def fun_eq_iff unat_eq_zero)
  then show ?thesis using prefix_set_store [of i "[v]" f d m] assms by simp
qed

text \<open>
  The loop test on indices. It is exact while the count is below \<open>2 ^ 64 - 16\<close>; above, \<open>i + 16\<close> wraps
  around and the first loop would not end. No object is that large.
\<close>

lemma index_step:
  fixes n :: size_t
  assumes "i \<le> unat n" and "unat n + 16 < 2 ^ 64"
  shows "of_nat i + 16 \<le> n \<longleftrightarrow> i + 16 \<le> unat n"
proof -
  have "unat (of_nat i + 16 :: size_t) = i + 16"
    using assms by (subst unat_add_no_wrap) (simp_all add: unat_of_nat)
  then show ?thesis by (simp add: word_le_nat_alt)
qed

lemma index_less:
  fixes n :: size_t
  assumes "i \<le> unat n"
  shows "of_nat i < n \<longleftrightarrow> i < unat n"
  using assms unat_size_t [of n] by (simp add: word_less_nat_alt unat_of_nat)

lemma memset_chunks_runs:
  assumes "i \<le> unat n" and "unat n + 16 < 2 ^ 64"
  shows "\<exists>j. i \<le> j \<and> j \<le> unat n \<and> memset_chunks d (replicate 16 v) n (of_nat i) (prefix_set d (\<lambda>_. v) m i)
    = Some (of_nat j, prefix_set d (\<lambda>_. v) m j)"
  using assms
proof (induction "unat n - i" arbitrary: i rule: less_induct)
  case less
  show ?case
  proof (cases "i + 16 \<le> unat n")
    case True
    have st: "store_bytes (prefix_set d (\<lambda>_. v) m i) (d + of_nat i) (replicate 16 v)
        = prefix_set d (\<lambda>_. v) m (i + 16)"
      using True unat_size_t [of n] prefix_set_store [of i "replicate 16 v" "\<lambda>_. v" d m] by simp
    have "unat n - (i + 16) < unat n - i" using True by simp
    then obtain j where "i + 16 \<le> j" "j \<le> unat n"
      "memset_chunks d (replicate 16 v) n (of_nat (i + 16)) (prefix_set d (\<lambda>_. v) m (i + 16))
        = Some (of_nat j, prefix_set d (\<lambda>_. v) m j)"
      using less.hyps [OF _ True less.prems(2)] by blast
    moreover from this have "memset_chunks d (replicate 16 v) n (of_nat i) (prefix_set d (\<lambda>_. v) m i)
        = Some (of_nat j, prefix_set d (\<lambda>_. v) m j)"
      using True less.prems by (subst memset_chunks.simps) (simp add: index_step st)
    ultimately show ?thesis by (intro exI [of _ j]) simp
  next
    case False
    then have "memset_chunks d (replicate 16 v) n (of_nat i) (prefix_set d (\<lambda>_. v) m i)
        = Some (of_nat i, prefix_set d (\<lambda>_. v) m i)"
      using less.prems by (subst memset_chunks.simps) (simp add: index_step)
    with less.prems show ?thesis by blast
  qed
qed

lemma memset_tail_runs:
  assumes "i \<le> unat n"
  shows "memset_tail d v n (of_nat i) (prefix_set d (\<lambda>_. v) m i) = Some (prefix_set d (\<lambda>_. v) m (unat n))"
  using assms
proof (induction "unat n - i" arbitrary: i)
  case 0
  then show ?case by (subst memset_tail.simps) (simp add: index_less)
next
  case (Suc k)
  have "i < 2 ^ 64" using Suc.hyps(2) unat_size_t [of n] by linarith
  then have "(prefix_set d (\<lambda>_. v) m i)(d + of_nat i := v) = prefix_set d (\<lambda>_. v) m (i + 1)"
    by (rule prefix_set_upd) simp
  moreover have "memset_tail d v n (of_nat (i + 1)) (prefix_set d (\<lambda>_. v) m (i + 1))
      = Some (prefix_set d (\<lambda>_. v) m (unat n))"
    using Suc.hyps(1) [of "i + 1"] Suc.hyps(2) by simp
  moreover have "of_nat i < n" using Suc by (simp add: index_less)
  ultimately show ?case by (subst memset_tail.simps) (simp add: add.commute)
qed

lemma memcpy_chunks_runs:
  assumes "i \<le> unat n" and "unat n + 16 < 2 ^ 64"
    and sep: "\<And>k. k < unat n \<Longrightarrow> unat n \<le> unat (s + of_nat k - d)"
  shows "\<exists>j. i \<le> j \<and> j \<le> unat n
    \<and> memcpy_chunks d s n (of_nat i) (prefix_set d (\<lambda>k. m (s + of_nat k)) m i)
      = Some (of_nat j, prefix_set d (\<lambda>k. m (s + of_nat k)) m j)"
  using assms(1,2)
proof (induction "unat n - i" arbitrary: i rule: less_induct)
  case less
  let ?f = "\<lambda>k. m (s + of_nat k)"
  show ?case
  proof (cases "i + 16 \<le> unat n")
    case True
    have rd: "load_bytes (prefix_set d ?f m i) (s + of_nat i) 16 = map (\<lambda>k. ?f (i + k)) [0..<16]"
      unfolding load_bytes_def
    proof (rule map_cong [OF refl])
      fix k assume "k \<in> set [0..<16]"
      then have "i + k < unat n" using True by simp
      then have "i \<le> unat (s + of_nat (i + k) - d)" using sep [of "i + k"] True by linarith
      then show "prefix_set d ?f m i (s + of_nat i + of_nat k) = ?f (i + k)"
        by (simp add: prefix_set_def add.assoc)
    qed
    have st: "store_bytes (prefix_set d ?f m i) (d + of_nat i) (map (\<lambda>k. ?f (i + k)) [0..<16])
        = prefix_set d ?f m (i + 16)"
      using True unat_size_t [of n] prefix_set_store [of i "map (\<lambda>k. ?f (i + k)) [0..<16]" ?f d m] by simp
    have st': "store_bytes (prefix_set d ?f m i) (d + of_nat i) (load_bytes (prefix_set d ?f m i) (s + of_nat i) 16)
        = prefix_set d ?f m (i + 16)"
      unfolding rd by (rule st)
    have "unat n - (i + 16) < unat n - i" using True by simp
    then obtain j where "i + 16 \<le> j" "j \<le> unat n"
      "memcpy_chunks d s n (of_nat (i + 16)) (prefix_set d ?f m (i + 16)) = Some (of_nat j, prefix_set d ?f m j)"
      using less.hyps [OF _ True less.prems(2)] by blast
    moreover from this have "memcpy_chunks d s n (of_nat i) (prefix_set d ?f m i) = Some (of_nat j, prefix_set d ?f m j)"
      using True less.prems by (subst memcpy_chunks.simps) (simp add: index_step st')
    ultimately show ?thesis by (intro exI [of _ j]) simp
  next
    case False
    then have "memcpy_chunks d s n (of_nat i) (prefix_set d ?f m i) = Some (of_nat i, prefix_set d ?f m i)"
      using less.prems by (subst memcpy_chunks.simps) (simp add: index_step)
    with less.prems show ?thesis by blast
  qed
qed

lemma memcpy_tail_runs:
  assumes "i \<le> unat n"
    and sep: "\<And>k. k < unat n \<Longrightarrow> unat n \<le> unat (s + of_nat k - d)"
  shows "memcpy_tail d s n (of_nat i) (prefix_set d (\<lambda>k. m (s + of_nat k)) m i)
    = Some (prefix_set d (\<lambda>k. m (s + of_nat k)) m (unat n))"
  using assms(1)
proof (induction "unat n - i" arbitrary: i)
  case 0
  then show ?case by (subst memcpy_tail.simps) (simp add: index_less)
next
  case (Suc k)
  let ?f = "\<lambda>k. m (s + of_nat k)"
  have i: "i < unat n" using Suc.hyps(2) by linarith
  have "i < 2 ^ 64" using i unat_size_t [of n] by linarith
  moreover have "prefix_set d ?f m i (s + of_nat i) = ?f i"
    using sep [OF i] i by (simp add: prefix_set_def)
  ultimately have "(prefix_set d ?f m i)(d + of_nat i := prefix_set d ?f m i (s + of_nat i))
      = prefix_set d ?f m (i + 1)"
    by (intro prefix_set_upd) simp_all
  moreover have "memcpy_tail d s n (of_nat (i + 1)) (prefix_set d ?f m (i + 1))
      = Some (prefix_set d ?f m (unat n))"
    using Suc.hyps(1) [of "i + 1"] Suc.hyps(2) by simp
  moreover have "of_nat i < n" using i by (simp add: index_less)
  ultimately show ?case by (subst memcpy_tail.simps) (simp add: add.commute)
qed


lemma memset_exact:
  assumes "unat count + 16 < 2 ^ 64"
  shows "gc_memset dest val count m
    = Some (dest, \<lambda>c. if unat (c - dest) < unat count then ucast val else m c)"
proof -
  let ?v = "ucast val :: byte"
  obtain j where j: "j \<le> unat count"
    and c: "memset_chunks dest (replicate 16 ?v) count 0 m = Some (of_nat j, prefix_set dest (\<lambda>_. ?v) m j)"
    using memset_chunks_runs [of 0 count dest ?v m] assms by auto
  then show ?thesis
    using memset_tail_runs [OF j, of dest ?v m] by (simp add: gc_memset_def prefix_set_def)
qed

lemma memcpy_exact:
  assumes "unat count + 16 < 2 ^ 64"
    and "\<forall>k < unat count. unat count \<le> unat (src + of_nat k - dest)"
  shows "gc_memcpy dest src count m
    = Some (dest, \<lambda>c. if unat (c - dest) < unat count then m (src + (c - dest)) else m c)"
proof -
  let ?f = "\<lambda>k. m (src + of_nat k)"
  have sep: "\<And>k. k < unat count \<Longrightarrow> unat count \<le> unat (src + of_nat k - dest)" using assms(2) by blast
  obtain j where j: "j \<le> unat count"
    and c: "memcpy_chunks dest src count 0 m = Some (of_nat j, prefix_set dest ?f m j)"
    using memcpy_chunks_runs [of 0 count src dest m] sep assms(1) by auto
  have "prefix_set dest ?f m (unat count) = (\<lambda>c. if unat (c - dest) < unat count then m (src + (c - dest)) else m c)"
    by (auto simp: prefix_set_def fun_eq_iff of_nat_unat_word)
  then show ?thesis
    using memcpy_tail_runs [OF j, of src dest m] sep c by (simp add: gc_memcpy_def)
qed


section \<open>Properties\<close>

text \<open>C24: for every count below \<open>2 ^ 64 - 16\<close>, gc_memset returns its argument and writes the low byte
  of the value to exactly the bytes of the range, whatever mixture of 16-byte and single stores
  covers it.\<close>

theorem gc_memset_correct:
  assumes "unat count + 16 < 2 ^ 64"
  shows "gc_memset dest val count m
    = Some (dest, \<lambda>c. if unat (c - dest) < unat count then ucast val else m c)"
  by (rule memset_exact [OF assms])

theorem gc_memset_correct_witness:
  "gc_memset 100 257 37 (\<lambda>_. 0) = Some (100, \<lambda>c. if unat (c - 100) < unat (37 :: size_t) then ucast (257 :: 32 word) else 0)"
  by (rule gc_memset_correct) simp

text \<open>Gc_memcpy of a range that does not overlap its destination returns the destination, which
  then holds the bytes of the source; no other byte changes.\<close>

theorem gc_memcpy_correct:
  assumes "unat count + 16 < 2 ^ 64"
    and "\<forall>k < unat count. unat count \<le> unat (src + of_nat k - dest)"
  shows "gc_memcpy dest src count m
    = Some (dest, \<lambda>c. if unat (c - dest) < unat count then m (src + (c - dest)) else m c)"
  by (rule memcpy_exact [OF assms])

theorem gc_memcpy_correct_witness:
  "gc_memcpy 100 4096 24 (\<lambda>c. ucast c)
    = Some (100, \<lambda>c. if unat (c - 100) < unat (24 :: size_t) then ucast (4096 + (c - 100)) else ucast c)"
proof (rule gc_memcpy_correct)
  show "\<forall>k < unat (24 :: size_t). unat (24 :: size_t) \<le> unat (4096 + of_nat k - 100 :: size_t)"
  proof (intro allI impI)
    fix k assume k: "k < unat (24 :: size_t)"
    have "4096 + of_nat k - 100 = (of_nat (3996 + k) :: size_t)" by simp
    then have "unat (4096 + of_nat k - 100 :: size_t) = 3996 + k"
      using k by (simp only: unat_of_nat) simp
    then show "unat (24 :: size_t) \<le> unat (4096 + of_nat k - 100 :: size_t)" by simp
  qed
qed simp

end
