(* ===== verification/Bitmap.thy ===== *)
theory Bitmap
  imports Memory
begin

text \<open>
  \<^verbatim>\<open>allocator/bitmap.c\<close> and the layout of a small block (\<^verbatim>\<open>allocator/small-allocator.h\<close>): the slider at
  offset 0, the object size at 8, the mark bitmap of 64 bytes at 16, the slots from 80 on. The heap
  start is an argument; \<open>None\<close> is the division by zero on a block whose object size is 0.
\<close>

definition GET_BITMAP_ADDR :: "size_t \<Rightarrow> size_t" where
  "GET_BITMAP_ADDR block_addr = block_addr + 16"

definition GET_OBJECT_SIZE_ADDR :: "size_t \<Rightarrow> size_t" where
  "GET_OBJECT_SIZE_ADDR block_addr = block_addr + 8"

definition GET_SLIDER_POSITION_ADDR :: "size_t \<Rightarrow> size_t" where
  "GET_SLIDER_POSITION_ADDR block_addr = block_addr + 0"

definition BITMAP_BYTES_COUNT :: nat where
  "BITMAP_BYTES_COUNT = 64"

lemmas layout = GET_BITMAP_ADDR_def GET_OBJECT_SIZE_ADDR_def GET_SLIDER_POSITION_ADDR_def
  BLOCK_HEADER_SIZE_def BLOCK_SIZE_def

text \<open>
  The common computation of both bit functions: the address of the byte and the position in it. The
  index is an \<^verbatim>\<open>int\<close>: truncated to 32 bits, and sign-extended when it is divided by a \<^verbatim>\<open>size_t\<close>.
\<close>

definition object_bit :: "size_t \<Rightarrow> mem \<Rightarrow> size_t \<Rightarrow> (size_t \<times> size_t) option" where
  "object_bit heap_start m object_addr =
     (let object_relative_addr = object_addr - heap_start;
          block_addr = object_addr - (object_relative_addr mod BLOCK_SIZE);
          objects_addr = block_addr + BLOCK_HEADER_SIZE;
          bitmap_addr = GET_BITMAP_ADDR block_addr;
          object_size = load64 m (GET_OBJECT_SIZE_ADDR block_addr);
          object_size_with_alignment = GET_SIZE_WITH_ALIGNMENT object_size
      in if object_size_with_alignment = 0 then None
         else
           (let object_index = ucast ((object_addr - objects_addr) div object_size_with_alignment) :: 32 word
            in Some (bitmap_addr + scast object_index div 8, scast object_index mod 8)))"

definition get_bit_by_address :: "size_t \<Rightarrow> mem \<Rightarrow> size_t \<Rightarrow> byte option" where
  "get_bit_by_address heap_start m object_addr = do {
     (byte_position, bit_position) \<leftarrow> object_bit heap_start m object_addr;
     Some (drop_bit (unat bit_position) (m byte_position) AND 1)
   }"

definition set_bit_by_address :: "size_t \<Rightarrow> size_t \<Rightarrow> byte \<Rightarrow> mem \<Rightarrow> mem option" where
  "set_bit_by_address heap_start object_addr b m = do {
     (byte_position, bit_position) \<leftarrow> object_bit heap_start m object_addr;
     if drop_bit (unat bit_position) (m byte_position) AND 1 \<noteq> b
     then Some (m(byte_position := m byte_position XOR push_bit (unat bit_position) 1))
     else Some m
   }"

text \<open>The loops over the 64-bit words of the bitmap: \<open>j\<close> words are left, \<open>a\<close> is the next one.\<close>

fun bitmap_words_empty :: "nat \<Rightarrow> mem \<Rightarrow> size_t \<Rightarrow> bool" where
  "bitmap_words_empty 0 m a = True"
| "bitmap_words_empty (Suc j) m a = (if load64 m a \<noteq> 0 then False else bitmap_words_empty j m (a + 8))"

definition is_bitmap_empty :: "mem \<Rightarrow> size_t \<Rightarrow> bool" where
  "is_bitmap_empty m block_addr = bitmap_words_empty (BITMAP_BYTES_COUNT div 8) m (GET_BITMAP_ADDR block_addr)"

fun clear_bitmap_words :: "nat \<Rightarrow> size_t \<Rightarrow> mem \<Rightarrow> mem" where
  "clear_bitmap_words 0 a m = m"
| "clear_bitmap_words (Suc j) a m = clear_bitmap_words j (a + 8) (store64 m a 0)"


section \<open>Blocks and slots\<close>

text \<open>
  A block starts at a multiple of 4096 from the heap start; its slot \<open>k\<close> for objects of aligned size
  \<open>n\<close>, and how many slots fit.
\<close>

definition block_at :: "size_t \<Rightarrow> size_t \<Rightarrow> bool" where
  "block_at heap_start b \<longleftrightarrow> 4096 dvd unat (b - heap_start)"

definition slot :: "size_t \<Rightarrow> nat \<Rightarrow> nat \<Rightarrow> size_t" where
  "slot b n k = b + of_nat (80 + n * k)"

definition slots :: "nat \<Rightarrow> nat" where
  "slots n = (4096 - 80) div n"

text \<open>The mark of slot \<open>k\<close> of the block at \<open>b\<close>: bit \<open>k\<close> of its bitmap.\<close>

definition slot_marked :: "mem \<Rightarrow> size_t \<Rightarrow> nat \<Rightarrow> bool" where
  "slot_marked m b k = bit (m (b + 16 + of_nat (k div 8))) (k mod 8)"

lemma slot_fits: "0 < n \<Longrightarrow> k < slots n \<longleftrightarrow> 80 + n * k + n \<le> 4096"
  using div_greater_zero_iff less_eq_div_iff_mult_less_eq [of n "Suc k" "4096 - 80"]
  by (auto simp: slots_def Suc_le_eq algebra_simps)

lemma slots_bound: "8 \<le> n \<Longrightarrow> slots n \<le> 502"
  using div_le_mono2 [of 8 n "4096 - 80"] by (simp add: slots_def)

lemma block_room:
  assumes "block_at s b" and "j < 4096"
  shows "unat (b - s) + j < 2 ^ 64"
proof -
  obtain q where q: "unat (b - s) = 4096 * q" using assms(1) by (auto simp: block_at_def)
  have "4096 * q < 4096 * 2 ^ 52" using unat_size_t [of "b - s"] by (simp add: q)
  then have "q + 1 \<le> 2 ^ 52" by simp
  then have "4096 * (q + 1) \<le> 4096 * 2 ^ 52" by (rule mult_le_mono2)
  then show ?thesis using assms(2) by (simp add: q)
qed

lemma block_offset:
  assumes "block_at s b" and "j < 4096"
  shows "b + of_nat j - (b + of_nat j - s) mod BLOCK_SIZE = b"
proof -
  have u: "unat (of_nat j :: size_t) = j" using assms(2) by (simp add: unat_of_nat)
  have "unat (b - s + of_nat j) = unat (b - s) + j"
    using block_room [OF assms] u by (simp add: unat_add_no_wrap)
  moreover obtain q where q: "unat (b - s) = 4096 * q" using assms(1) by (auto simp: block_at_def)
  ultimately have "unat (b - s + of_nat j) mod 4096 = j" using assms(2) by simp
  then have "unat ((b - s + of_nat j) mod 4096) = j" using unat_word_mod [of "b - s + of_nat j" 4096] by simp
  then have "(b - s + of_nat j) mod 4096 = of_nat j" using u by (metis word_unat_eq_iff)
  then show ?thesis by (simp add: BLOCK_SIZE_def algebra_simps)
qed


text \<open>The bit of a slot: it is in the bitmap of the slot's own block.\<close>

lemma object_bit_slot:
  assumes b: "block_at s b" and n: "unat (GET_SIZE_WITH_ALIGNMENT (load64 m (b + 8))) = n"
    and n8: "8 \<le> n" and k: "k < slots n"
  shows "object_bit s m (slot b n k) = Some (b + 16 + of_nat (k div 8), of_nat (k mod 8))"
proof -
  let ?al = "GET_SIZE_WITH_ALIGNMENT (load64 m (b + 8))"
  have fit: "80 + n * k + n \<le> 4096" using slot_fits [of n k] n8 k by simp
  then have j: "80 + n * k < 4096" using n8 by linarith
  have k502: "k < 502" using slots_bound [OF n8] k by simp
  have blk: "slot b n k - (slot b n k - s) mod BLOCK_SIZE = b"
    unfolding slot_def by (rule block_offset [OF b j])
  have ne: "?al \<noteq> 0" using n n8 by auto
  have "slot b n k - (b + BLOCK_HEADER_SIZE) = of_nat (n * k)"
    by (simp add: slot_def BLOCK_HEADER_SIZE_def)
  moreover have "unat (of_nat (n * k) :: size_t) = n * k" using j by (intro unat_of_nat_small) simp
  ultimately have "unat ((slot b n k - (b + BLOCK_HEADER_SIZE)) div ?al) = k"
    using n n8 by (simp add: unat_div)
  then have q: "(slot b n k - (b + BLOCK_HEADER_SIZE)) div ?al = of_nat k"
    using k502 by (intro word_unat_eq_iff [THEN iffD2]) (simp add: unat_of_nat)
  have i: "(scast (ucast (of_nat k :: size_t) :: 32 word) :: size_t) = of_nat k"
  proof -
    have "(ucast (of_nat k :: size_t) :: 32 word) = of_nat k"
      using k502 by (simp add: unsigned_of_nat take_bit_nat_eq_self)
    moreover have "signed_take_bit 31 (int k) = int k"
      using k502 by (intro signed_take_bit_int_eq_self) simp_all
    then have "(scast (of_nat k :: 32 word) :: size_t) = of_nat k"
      by (simp add: signed_of_nat)
    ultimately show ?thesis by simp
  qed
  have "of_nat k div (8 :: size_t) = of_nat (k div 8)" "of_nat k mod (8 :: size_t) = of_nat (k mod 8)"
    using k502 by (simp_all add: word_unat_eq_iff unat_div unat_word_mod unat_of_nat)
  then show ?thesis
    using ne by (simp add: object_bit_def Let_def blk q i GET_BITMAP_ADDR_def GET_OBJECT_SIZE_ADDR_def)
qed


section \<open>Reading and writing marks\<close>

lemma drop_bit_and_1: "drop_bit j x AND 1 = (if bit x j then 1 else 0)" for x :: "'a::len word"
proof (rule bit_word_eqI)
  show "bit (drop_bit j x AND 1) n = bit (if bit x j then 1 else 0 :: 'a word) n" for n
    by (cases n) (simp_all add: bit_simps)
qed

lemma get_bit_slot:
  assumes "block_at s b" and "unat (GET_SIZE_WITH_ALIGNMENT (load64 m (b + 8))) = n"
    and "8 \<le> n" and "k < slots n"
  shows "get_bit_by_address s m (slot b n k) = Some (if slot_marked m b k then 1 else 0)"
proof -
  have "unat (of_nat (k mod 8) :: size_t) = k mod 8" by (simp add: unat_of_nat)
  then show ?thesis
    using object_bit_slot [OF assms] by (simp add: get_bit_by_address_def slot_marked_def drop_bit_and_1)
qed

text \<open>Writing the mark \<open>v\<close> of slot \<open>k\<close>.\<close>

definition put_mark :: "size_t \<Rightarrow> nat \<Rightarrow> bool \<Rightarrow> mem \<Rightarrow> mem" where
  "put_mark b k v m = (if slot_marked m b k = v then m
     else m(b + 16 + of_nat (k div 8) := m (b + 16 + of_nat (k div 8)) XOR push_bit (k mod 8) 1))"

lemma set_bit_slot:
  assumes "block_at s b" and "unat (GET_SIZE_WITH_ALIGNMENT (load64 m (b + 8))) = n"
    and "8 \<le> n" and "k < slots n"
  shows "set_bit_by_address s (slot b n k) (if v then 1 else 0) m = Some (put_mark b k v m)"
proof -
  have "unat (of_nat (k mod 8) :: size_t) = k mod 8" by (simp add: unat_of_nat)
  then show ?thesis
    using object_bit_slot [OF assms] by (auto simp: set_bit_by_address_def put_mark_def slot_marked_def drop_bit_and_1)
qed

lemma bitmap_byte_inj:
  assumes "i < 64" and "j < 64" and "b + 16 + of_nat i = (b + 16 + of_nat j :: size_t)"
  shows "i = j"
proof -
  have "(of_nat i :: size_t) = of_nat j" using assms(3) by simp
  then have "unat (of_nat i :: size_t) = unat (of_nat j :: size_t)" by simp
  then show ?thesis using assms(1,2) by (simp add: unat_of_nat)
qed

lemma slot_marked_put:
  assumes "k < 512" and "j < 512"
  shows "slot_marked (put_mark b k v m) b j = (if j = k then v else slot_marked m b j)"
proof -
  have d: "j div 8 < 64" "k div 8 < 64" using assms by (simp_all add: div_less_iff_less_mult)
  let ?a = "b + 16 + of_nat (k div 8)"
  have x: "bit (x XOR push_bit (k mod 8) 1) (j mod 8) = (if j mod 8 = k mod 8 then \<not> bit x (j mod 8) else bit x (j mod 8))"
    for x :: byte
    using bit_imp_le_length [of x "j mod 8"] by (auto simp: bit_simps)
  have jk: "j = k \<longleftrightarrow> j div 8 = k div 8 \<and> j mod 8 = k mod 8" by (metis div_mult_mod_eq)
  have ab: "b + 16 + of_nat (j div 8) = ?a \<longleftrightarrow> j div 8 = k div 8" using bitmap_byte_inj d by auto
  show ?thesis
  proof (cases "slot_marked m b k = v")
    case True
    then show ?thesis by (simp add: put_mark_def)
  next
    case False
    then show ?thesis
      using x [of "m ?a"] ab jk by (auto simp: put_mark_def slot_marked_def)
  qed
qed

text \<open>Only the 64 bytes of this bitmap change.\<close>

lemma put_mark_other:
  assumes "k < 512" and "\<not> c - (b + 16) < 64"
  shows "put_mark b k v m c = m c"
proof -
  have "k div 8 < 64" using assms(1) by (simp add: div_less_iff_less_mult)
  then have "unat (of_nat (k div 8) :: size_t) < 64" by (simp add: unat_of_nat)
  then have "(of_nat (k div 8) :: size_t) < 64" by (simp add: word_less_nat_alt)
  then have "c \<noteq> b + 16 + of_nat (k div 8)" using assms(2) by auto
  then show ?thesis by (simp add: put_mark_def)
qed

text \<open>The emptiness test looks at every bit, and clearing clears every bit.\<close>

lemma word_zero_bits: "(w :: size_t) = 0 \<longleftrightarrow> (\<forall>n < 64. \<not> bit w n)"
  by (auto intro: bit_word_eqI)

lemma load64_bits:
  "load64 m (b + 16 + of_nat (8 * w)) = 0 \<longleftrightarrow> (\<forall>n < 64. \<not> slot_marked m b (64 * w + n))"
proof -
  have "bit (load64 m (b + 16 + of_nat (8 * w))) n = slot_marked m b (64 * w + n)" if "n < 64" for n
  proof -
    have "(64 * w + n) div 8 = 8 * w + n div 8" "(64 * w + n) mod 8 = n mod 8"
      using div_mult_self2 [of 8 n "8 * w"] mod_mult_self2 [of n 8 "8 * w"] by (simp_all add: add.commute)
    then show ?thesis using that by (simp add: bit_load64 slot_marked_def add.assoc)
  qed
  then show ?thesis by (auto simp: word_zero_bits)
qed

lemma bitmap_words_empty_iff:
  "bitmap_words_empty j m (b + 16 + of_nat (8 * w))
    \<longleftrightarrow> (\<forall>k. 64 * w \<le> k \<and> k < 64 * (w + j) \<longrightarrow> \<not> slot_marked m b k)"
proof (induction j arbitrary: w)
  case (Suc j)
  have step: "b + 16 + of_nat (8 * w) + 8 = b + 16 + of_nat (8 * Suc w)" by simp
  have split: "(\<forall>k. 64 * w \<le> k \<and> k < 64 * (w + Suc j) \<longrightarrow> P k)
      \<longleftrightarrow> (\<forall>n < 64. P (64 * w + n)) \<and> (\<forall>k. 64 * Suc w \<le> k \<and> k < 64 * (Suc w + j) \<longrightarrow> P k)" for P
  proof (intro iffI allI impI conjI)
    fix k
    assume p: "(\<forall>n < 64. P (64 * w + n)) \<and> (\<forall>k. 64 * Suc w \<le> k \<and> k < 64 * (Suc w + j) \<longrightarrow> P k)"
      and k: "64 * w \<le> k \<and> k < 64 * (w + Suc j)"
    show "P k"
    proof (cases "k < 64 * w + 64")
      case True
      then have "k - 64 * w < 64" using k by linarith
      then have "P (64 * w + (k - 64 * w))" using p by blast
      then show ?thesis using k by simp
    next
      case False
      then have "64 * Suc w \<le> k \<and> k < 64 * (Suc w + j)" using k by simp
      then show ?thesis using p by blast
    qed
  qed simp_all
  show ?case
    unfolding bitmap_words_empty.simps load64_bits step Suc split [of "\<lambda>k. \<not> slot_marked m b k"] by simp
qed auto

lemma is_bitmap_empty_marks: "is_bitmap_empty m b \<longleftrightarrow> (\<forall>k < 512. \<not> slot_marked m b k)"
  using bitmap_words_empty_iff [of 8 m b 0]
  by (simp add: is_bitmap_empty_def BITMAP_BYTES_COUNT_def GET_BITMAP_ADDR_def)

text \<open>The words written by a clearing loop, and what is left of the memory.\<close>

lemma clear_bitmap_words_fold:
  "clear_bitmap_words j a m = fold (\<lambda>c m. store64 m c 0) (map (\<lambda>i. a + of_nat (8 * i)) [0..<j]) m"
proof (induction j arbitrary: a m)
  case (Suc j)
  have "map (\<lambda>i. a + of_nat (8 * i)) [0..<Suc j] = a # map (\<lambda>i. a + 8 + of_nat (8 * i)) [0..<j]"
    unfolding map_upt_Suc by (simp add: add.assoc)
  then show ?case using Suc by simp
qed simp

lemma clear_bitmap_words_byte:
  assumes "8 * j < 2 ^ 64"
  shows "clear_bitmap_words j a m = (\<lambda>c. if unat (c - a) < 8 * j then 0 else m c)"
proof -
  have "clear_bitmap_words j a m c = (if unat (c - a) < 8 * j then 0 else m c)" for c
    using assms
  proof (induction j arbitrary: a m)
    case (Suc j)
    have z: "store64 m a 0 c = (if unat (c - a) < 8 then 0 else m c)"
      by (simp add: store64_def word_less_nat_alt)
    have "unat (c - (a + of_nat 8)) < 8 * j \<longleftrightarrow> 8 \<le> unat (c - a) \<and> unat (c - a) < 8 + 8 * j"
      using Suc.prems by (intro window) simp
    then show ?case using Suc.IH [of "a + 8" "store64 m a 0"] Suc.prems z by auto
  qed simp
  then show ?thesis by blast
qed


lemma load64_same_outside:
  assumes "\<And>c. \<not> c - (b + 16) < 64 \<Longrightarrow> m' c = m c" and "j < 16 \<and> j mod 8 = 0 \<or> 80 \<le> j \<and> j < 4096"
  shows "load64 m' (b + of_nat j) = load64 m (b + of_nat j)"
proof (rule load64_cong)
  fix i :: nat assume i: "i < 8"
  have lt: "j + i < 16 \<or> 80 \<le> j + i" using assms(2) i by (elim disjE) (presburger, simp)
  have ji: "j + i < 5000" using assms(2) i by auto
  have "b + of_nat j + of_nat i - (b + 16) = of_nat (j + i) - 16" by simp
  moreover have "\<not> of_nat (j + i) - (16 :: size_t) < 64"
  proof
    assume "of_nat (j + i) - (16 :: size_t) < 64"
    moreover have "unat (of_nat (j + i) :: size_t) = j + i" using ji by (intro unat_of_nat_small) simp
    then have "unat (of_nat (j + i) - (16 :: size_t)) = (if 16 \<le> j + i then j + i - 16 else j + i + 2 ^ 64 - 16)"
      using unat_sub_if' [of "of_nat (j + i)" "16 :: size_t"] by simp
    ultimately show False using lt by (auto simp: word_less_nat_alt split: if_splits)
  qed
  ultimately have "\<not> b + of_nat j + of_nat i - (b + 16) < 64" by (simp only: simp_thms)
  then show "m' (b + of_nat j + of_nat i) = m (b + of_nat j + of_nat i)" by (rule assms(1))
qed


section \<open>Properties\<close>

text \<open>C23: a mark bit round trip. For slots \<open>j\<close>, \<open>k\<close> of a block whose header holds the object size,
  set_bit_by_address on slot \<open>k\<close> returns; get_bit_by_address then reads the new bit on slot \<open>k\<close> and
  the old bit on every other slot, and no byte outside the block's bitmap has changed.\<close>

theorem mark_bit_roundtrip:
  assumes "block_at s b" and "unat (GET_SIZE_WITH_ALIGNMENT (load64 m (b + 8))) = n"
    and "8 \<le> n" and "k < slots n" and "j < slots n"
  shows "\<exists>m'. set_bit_by_address s (slot b n k) (if v then 1 else 0) m = Some m'
    \<and> get_bit_by_address s m' (slot b n j)
      = (if j = k then Some (if v then 1 else 0) else get_bit_by_address s m (slot b n j))
    \<and> (\<forall>c. \<not> c - (b + 16) < 64 \<longrightarrow> m' c = m c)"
proof (intro exI conjI)
  have k512: "k < 512" "j < 512" using slots_bound [OF assms(3)] assms(4,5) by simp_all
  show "set_bit_by_address s (slot b n k) (if v then 1 else 0) m = Some (put_mark b k v m)"
    by (rule set_bit_slot [OF assms(1-4)])
  show same: "\<forall>c. \<not> c - (b + 16) < 64 \<longrightarrow> put_mark b k v m c = m c"
    using put_mark_other [OF k512(1)] by blast
  have "load64 (put_mark b k v m) (b + 8) = load64 m (b + 8)"
    using load64_same_outside [of b "put_mark b k v m" m 8] same by simp
  then have sz: "unat (GET_SIZE_WITH_ALIGNMENT (load64 (put_mark b k v m) (b + 8))) = n" using assms(2) by simp
  show "get_bit_by_address s (put_mark b k v m) (slot b n j)
      = (if j = k then Some (if v then 1 else 0) else get_bit_by_address s m (slot b n j))"
    unfolding get_bit_slot [OF assms(1) sz assms(3,5)] get_bit_slot [OF assms(1-3,5)]
    by (simp add: slot_marked_put [OF k512] if_distrib)
qed

theorem mark_bit_roundtrip_witness:
  "\<exists>m'. set_bit_by_address 8192 (slot 12288 24 7) (if True then 1 else 0) (store64 (\<lambda>_. 0) (12288 + 8) 24) = Some m'
    \<and> get_bit_by_address 8192 m' (slot 12288 24 9)
      = (if (9 :: nat) = 7 then Some (if True then 1 else 0)
         else get_bit_by_address 8192 (store64 (\<lambda>_. 0) (12288 + 8) 24) (slot 12288 24 9))
    \<and> (\<forall>c. \<not> c - (12288 + 16) < 64 \<longrightarrow> m' c = store64 (\<lambda>_. 0) (12288 + 8) 24 c)"
proof (rule mark_bit_roundtrip)
  show "unat (GET_SIZE_WITH_ALIGNMENT (load64 (store64 (\<lambda>_. 0) (12288 + 8) 24) (12288 + 8))) = 24"
    unfolding load64_store64 by (simp add: GET_SIZE_WITH_ALIGNMENT_def)
qed (simp_all add: block_at_def slots_def)

text \<open>Is_bitmap_empty answers true exactly when none of the 512 mark bits of the block is set.\<close>

theorem is_bitmap_empty_iff:
  "is_bitmap_empty m b = (\<forall>k < 512. \<not> slot_marked m b k)"
  by (rule is_bitmap_empty_marks)

theorem is_bitmap_empty_iff_witness:
  "is_bitmap_empty (\<lambda>_. 0) 4096" unfolding is_bitmap_empty_iff by (simp add: slot_marked_def)

end
