(* ===== verification/Log.thy ===== *)
theory Log
  imports Prelude
begin

text \<open>
  The accounting of \<^verbatim>\<open>logging/log.c\<close> as the default build compiles it: without \<^verbatim>\<open>-DLOG\<close> the
  function \<^verbatim>\<open>log\<close> keeps one case, the successful allocation, and no text is written. The event and
  result codes are the macros of \<^verbatim>\<open>log.h\<close>; they are pairwise distinct numbers there.
\<close>

datatype log_type = INIT_ALLOCATOR | DESTROY_ALLOCATOR | ALLOCATE_NEW_OBJECT | MARK | SWEEP | OTHER

datatype log_result =
  O_EMPTY_BLOCK | O_HEADER | B_HEAP_ERROR | HEAP_ERROR | B_ERROR | ERROR | OK | START | ALIVE

record log_state =
  last_object_size :: size_t
  memory_limit :: size_t
  memory_used :: size_t
  object_count :: size_t
  m_size :: size_t

definition set_memory_limit :: "size_t \<Rightarrow> size_t \<Rightarrow> log_state \<Rightarrow> log_state" where
  "set_memory_limit heap_size percent g = g\<lparr>memory_limit := heap_size * percent div 100\<rparr>"

definition log :: "log_type \<Rightarrow> log_result \<Rightarrow> log_state \<Rightarrow> log_state" where
  "log ty res g =
     (case ty of
        ALLOCATE_NEW_OBJECT \<Rightarrow>
          (case res of
             OK \<Rightarrow> g\<lparr>object_count := object_count g + 1,
                     memory_used := memory_used g + last_object_size g\<rparr>
           | _ \<Rightarrow> g)
      | _ \<Rightarrow> g)"

definition check_the_space :: "size_t \<Rightarrow> log_state \<Rightarrow> log_result \<times> log_state" where
  "check_the_space object_size g =
     (let g = g\<lparr>last_object_size := object_size\<rparr> in
      if memory_used g + object_size > memory_limit g then (ERROR, g) else (OK, g))"

definition log_mark_alive :: "size_t \<Rightarrow> log_state \<Rightarrow> log_state" where
  "log_mark_alive object_size g = log MARK ALIVE (g\<lparr>m_size := m_size g + object_size\<rparr>)"

lemma log_other [simp]:
  "ty \<noteq> ALLOCATE_NEW_OBJECT \<or> res \<noteq> OK \<Longrightarrow> log ty res g = g"
  by (auto simp: log_def split: log_type.splits log_result.splits)

text \<open>
  The order every allocator uses: announce the size, then record the success. The bytes in use and
  the number of objects grow by this object.
\<close>

lemma account_object:
  assumes "check_the_space sz g = (r, g')"
  shows "memory_used (log ALLOCATE_NEW_OBJECT OK g') = memory_used g + sz"
    and "object_count (log ALLOCATE_NEW_OBJECT OK g') = object_count g + 1"
    and "memory_limit (log ALLOCATE_NEW_OBJECT OK g') = memory_limit g"
  using assms by (auto simp: check_the_space_def log_def Let_def split: if_splits)

text \<open>The limit is only reported: the answer is \<^const>\<open>ERROR\<close> exactly above the limit.\<close>

lemma check_the_space_result:
  "fst (check_the_space sz g) = (if memory_limit g < memory_used g + sz then ERROR else OK)"
  by (simp add: check_the_space_def Let_def)

end
