(* ===== verification/Small_Allocator.thy ===== *)
theory Small_Allocator
  imports Bitmap Log
begin

text \<open>
  \<^verbatim>\<open>allocator/small-allocator.c\<close>: blocks of 4096 bytes, each for objects of one size. A block is
  described by its entry of \<^verbatim>\<open>NODES_LIST\<close>; a node is its index there, \<open>None\<close> is \<^verbatim>\<open>NULL\<close>. The
  list heads, the thread-local cache of the last block used (by thread, then by size) and the heap
  bounds are the state; slider, size and marks of a block are bytes of its header in the memory. An
  operation is atomic here; \<^theory_text>\<open>Small_Threads\<close> has \<^verbatim>\<open>allocate_small_object\<close> step by step, with the spin locks.
\<close>

record block_node =
  block_addr :: size_t
  next_node :: "nat option"

record small_state =
  START_ALLOCATOR_HEAP :: size_t
  END_ALLOCATOR_HEAP :: size_t
  SEGREG_LIST :: "nat \<Rightarrow> nat option"
  NODES_LIST :: "nat \<Rightarrow> block_node"
  EMPTY_LIST_HEAD :: "nat option"
  nodes_cache :: "nat \<Rightarrow> nat \<Rightarrow> nat option"

definition OBJECT_SIZE_UPPER_BOUND :: nat where
  "OBJECT_SIZE_UPPER_BOUND = unat MAX_OBJECT_SIZE + 1"

definition BLOCKS_COUNT :: "size_t \<Rightarrow> nat" where
  "BLOCKS_COUNT HEAP_SIZE = unat (HEAP_SIZE div BLOCK_SIZE)"


section \<open>Initialisation\<close>

text \<open>The loop of \<^verbatim>\<open>__init_small_allocator\<close>: \<open>k\<close> nodes are left, \<open>i\<close> is the next one.\<close>

fun init_nodes :: "nat \<Rightarrow> nat \<Rightarrow> nat \<Rightarrow> size_t \<Rightarrow> (nat \<Rightarrow> block_node) \<times> mem \<Rightarrow> (nat \<Rightarrow> block_node) \<times> mem" where
  "init_nodes 0 i count start (ns, m) = (ns, m)"
| "init_nodes (Suc k) i count start (ns, m) =
     (let b = start + BLOCK_SIZE * of_nat i in
      init_nodes k (i + 1) count start
        (ns(i := \<lparr>block_addr = b, next_node = (if i \<noteq> count - 1 then Some (i + 1) else None)\<rparr>),
         store64 m b (b + BLOCK_HEADER_SIZE)))"

text \<open>\<^verbatim>\<open>mapped\<close> is the answer of \<^verbatim>\<open>mmap\<close>; \<^verbatim>\<open>MAP_FAILED\<close> is the address of all ones.\<close>

definition init_small_allocator ::
  "size_t \<Rightarrow> size_t \<Rightarrow> small_state \<times> mem \<times> log_state \<Rightarrow> small_state \<times> mem \<times> log_state" where
  "init_small_allocator HEAP_SIZE mapped = (\<lambda>(s, m, g).
     let s = s\<lparr>START_ALLOCATOR_HEAP := mapped\<rparr> in
     if mapped = -1 then (s, m, log INIT_ALLOCATOR ERROR g)
     else
       (let count = BLOCKS_COUNT HEAP_SIZE;
            (ns, m) = init_nodes count 0 count mapped (NODES_LIST s, m)
        in (s\<lparr>END_ALLOCATOR_HEAP := mapped + HEAP_SIZE, NODES_LIST := ns, EMPTY_LIST_HEAD := Some 0\<rparr>, m, g)))"


section \<open>Headers and lists\<close>

definition init_header :: "block_node \<Rightarrow> size_t \<Rightarrow> mem \<Rightarrow> mem" where
  "init_header entry object_size m =
     (let b = block_addr entry;
          m = store64 m (GET_OBJECT_SIZE_ADDR b) object_size;
          m = store64 m (GET_SLIDER_POSITION_ADDR b) (b + BLOCK_HEADER_SIZE)
      in clear_bitmap_words (BITMAP_BYTES_COUNT div 8) (GET_BITMAP_ADDR b) m)"

partial_function (option) clear_list :: "(nat \<Rightarrow> block_node) \<Rightarrow> nat option \<Rightarrow> mem \<Rightarrow> mem option" where
  "clear_list ns curr_entry m =
     (case curr_entry of
        None \<Rightarrow> Some m
      | Some c \<Rightarrow> clear_list ns (next_node (ns c))
          (clear_bitmap_words (BITMAP_BYTES_COUNT div 8) (GET_BITMAP_ADDR (block_addr (ns c))) m))"

text \<open>The sizes \<open>i, i + 1, \<dots>\<close>, \<open>k\<close> of them.\<close>

fun clear_lists :: "nat \<Rightarrow> nat \<Rightarrow> small_state \<Rightarrow> mem \<Rightarrow> mem option" where
  "clear_lists 0 i s m = Some m"
| "clear_lists (Suc k) i s m =
     do { m \<leftarrow> clear_list (NODES_LIST s) (SEGREG_LIST s i) m; clear_lists k (i + 1) s m }"

definition fill_all_bitmaps_with_zeros :: "small_state \<Rightarrow> mem \<Rightarrow> mem option" where
  "fill_all_bitmaps_with_zeros s m = clear_lists (OBJECT_SIZE_UPPER_BOUND - 1) 1 s m"

definition allocate_new_block :: "small_state \<times> log_state \<Rightarrow> nat option \<times> small_state \<times> log_state" where
  "allocate_new_block = (\<lambda>(s, g).
     case EMPTY_LIST_HEAD s of
       None \<Rightarrow> (None, s, log OTHER O_EMPTY_BLOCK g)
     | Some result \<Rightarrow>
         (Some result,
          s\<lparr>EMPTY_LIST_HEAD := next_node (NODES_LIST s result),
            NODES_LIST := (NODES_LIST s)(result := (NODES_LIST s result)\<lparr>next_node := None\<rparr>)\<rparr>, g))"

definition get_block_from_segreg_list :: "nat \<Rightarrow> small_state \<Rightarrow> nat option \<times> small_state" where
  "get_block_from_segreg_list object_size s =
     (case SEGREG_LIST s object_size of
        None \<Rightarrow> (None, s)
      | Some c \<Rightarrow>
          (Some c, s\<lparr>SEGREG_LIST := (SEGREG_LIST s)(object_size := next_node (NODES_LIST s c))\<rparr>))"

definition set_cache :: "nat \<Rightarrow> nat \<Rightarrow> nat option \<Rightarrow> small_state \<Rightarrow> small_state" where
  "set_cache t object_size c s =
     s\<lparr>nodes_cache := (nodes_cache s)(t := (nodes_cache s t)(object_size := c))\<rparr>"

text \<open>\<^verbatim>\<open>clear_cache\<close> empties the cache of the thread that runs it.\<close>

definition clear_cache :: "nat \<Rightarrow> small_state \<Rightarrow> small_state" where
  "clear_cache t s = s\<lparr>nodes_cache := (nodes_cache s)
     (t := (\<lambda>i. if i < OBJECT_SIZE_UPPER_BOUND then None else nodes_cache s t i))\<rparr>"


section \<open>Allocation\<close>

text \<open>
  The inner loop of \<^verbatim>\<open>allocate_small_object\<close>: from the slider to the first unmarked slot, clearing the
  marks it passes. It answers whether it found one, and where it stopped.
\<close>

partial_function (option) slide ::
  "size_t \<Rightarrow> size_t \<Rightarrow> size_t \<Rightarrow> size_t \<Rightarrow> mem \<Rightarrow> (bool \<times> size_t \<times> mem) option" where
  "slide heap_start b sz slider_position m =
     (if slider_position + sz \<le> b + BLOCK_SIZE then do {
        v \<leftarrow> get_bit_by_address heap_start m slider_position;
        if v = 0 then
          Some (True, slider_position, store64 m (GET_SLIDER_POSITION_ADDR b) slider_position)
        else do {
          m \<leftarrow> set_bit_by_address heap_start slider_position 0 m;
          slide heap_start b sz (slider_position + sz) m
        }
      } else Some (False, slider_position, m))"

definition slide_block :: "small_state \<Rightarrow> nat \<Rightarrow> size_t \<Rightarrow> mem \<Rightarrow> (bool \<times> size_t \<times> mem) option" where
  "slide_block s c sz m =
     (let b = block_addr (NODES_LIST s c) in
      slide (START_ALLOCATOR_HEAP s) b sz (load64 m (GET_SLIDER_POSITION_ADDR b)) m)"

text \<open>
  The outer loop: \<open>cached = Some c\<close> is the turn with \<^verbatim>\<open>is_checking_cache\<close>, the others take a block from
  the list of the size or, when that is empty, a new one. The answer is \<open>None\<close> where the code
  returns \<^verbatim>\<open>NULL\<close>, otherwise the block where the loop was left.
\<close>

partial_function (option) find_block ::
  "nat \<Rightarrow> size_t \<Rightarrow> size_t \<Rightarrow> nat option \<Rightarrow> small_state \<Rightarrow> mem \<Rightarrow> log_state
    \<Rightarrow> (nat option \<times> small_state \<times> mem \<times> log_state) option" where
  "find_block t object_size n cached s m g =
     (case cached of
        Some c \<Rightarrow> do {
          (is_block_found, slider_position, m) \<leftarrow> slide_block s c n m;
          let s = (if slider_position + n > block_addr (NODES_LIST s c) + BLOCK_SIZE
                   then set_cache t (unat object_size) None s else s);
          if is_block_found then Some (Some c, s, m, g)
          else find_block t object_size n None s m g
        }
      | None \<Rightarrow>
          (case get_block_from_segreg_list (unat object_size) s of
             (Some c, s) \<Rightarrow> do {
               (is_block_found, slider_position, m) \<leftarrow> slide_block s c n m;
               if is_block_found then Some (Some c, s, m, g)
               else find_block t object_size n None s m g
             }
           | (None, s) \<Rightarrow>
               (case allocate_new_block (s, g) of
                  (None, s, g) \<Rightarrow> do {
                    m \<leftarrow> fill_all_bitmaps_with_zeros s m;
                    Some (None, s, m, g)
                  }
                | (Some c, s, g) \<Rightarrow> Some (Some c, s, init_header (NODES_LIST s c) object_size m, g))))"

definition allocate_small_object ::
  "nat \<Rightarrow> size_t \<Rightarrow> small_state \<times> mem \<times> log_state \<Rightarrow> (size_t \<times> small_state \<times> mem \<times> log_state) option" where
  "allocate_small_object t object_size = (\<lambda>(s, m, g). do {
     let n = GET_SIZE_WITH_ALIGNMENT object_size;
     let (cts_result, g) = check_the_space n g;
     (r, s, m, g) \<leftarrow> find_block t object_size n (nodes_cache s t (unat object_size)) s m g;
     case r of
       None \<Rightarrow> Some (0, s, m, g)
     | Some c \<Rightarrow> do {
         let b = block_addr (NODES_LIST s c);
         let slider_position = load64 m (GET_SLIDER_POSITION_ADDR b);
         let new_slider_position = slider_position + n;
         let s = set_cache t (unat object_size) (if new_slider_position \<ge> b + BLOCK_SIZE then None else Some c) s;
         let m = store64 m (GET_SLIDER_POSITION_ADDR b) new_slider_position;
         Some (slider_position, s, m, log ALLOCATE_NEW_OBJECT OK g)
       }
   })"

definition get_block_addr :: "small_state \<Rightarrow> size_t \<Rightarrow> size_t" where
  "get_block_addr s object_addr =
     (let object_relative_addr = object_addr - START_ALLOCATOR_HEAP s
      in object_addr - object_relative_addr mod BLOCK_SIZE)"

end
