(* ===== verification/Small_Blocks.thy ===== *)
theory Small_Blocks
  imports Small_Allocator
begin

text \<open>
  One block of the small heap: where it lies, the objects sizes it can have, its free slots, and
  what the inner loop of the allocator (\<open>slide\<close>), the header initialisation and the bitmap clearing
  do to it. Block \<open>i\<close> of the heap starting at \<open>B\<close> is \<open>blk B i\<close>.
\<close>

definition blk :: "size_t \<Rightarrow> nat \<Rightarrow> size_t" where
  "blk B i = B + of_nat (4096 * i)"

text \<open>The mapping does not reach the last page of the address space, so that no slot address wraps.\<close>

definition small_room :: "size_t \<Rightarrow> size_t \<Rightarrow> bool" where
  "small_room H B \<longleftrightarrow> unat B + unat H + 4096 < 2 ^ 64"

lemma BLOCKS_COUNT_nat: "BLOCKS_COUNT H = unat H div 4096"
  by (simp add: BLOCKS_COUNT_def BLOCK_SIZE_def unat_div)

lemma block_in_heap: "i < BLOCKS_COUNT H \<Longrightarrow> 4096 * i + 4096 \<le> unat H"
  using less_eq_div_iff_mult_less_eq [of 4096 "Suc i" "unat H"]
  by (simp add: BLOCKS_COUNT_nat Suc_le_eq algebra_simps)

lemma unat_blk:
  assumes "small_room H B" and "i < BLOCKS_COUNT H"
  shows "unat (blk B i) = unat B + 4096 * i"
proof -
  have lt: "unat B + 4096 * i < 2 ^ 64" using assms(1) block_in_heap [OF assms(2)] by (simp add: small_room_def)
  then have "unat (of_nat (4096 * i) :: size_t) = 4096 * i" by (intro unat_of_nat_small) simp
  then show ?thesis unfolding blk_def using lt by (subst unat_add_no_wrap) simp_all
qed

lemma blk_end:
  assumes "small_room H B" and "i < BLOCKS_COUNT H"
  shows "unat (blk B i) + 8192 < 2 ^ 64"
  using assms block_in_heap [OF assms(2)] by (simp add: unat_blk small_room_def)

lemma blk_block: assumes "small_room H B" and "i < BLOCKS_COUNT H" shows "block_at B (blk B i)"
proof -
  have "4096 * i < 2 ^ 64" using unat_blk [OF assms] unat_size_t [of "blk B i"] by simp
  then have "unat (of_nat (4096 * i) :: size_t) = 4096 * i" by (intro unat_of_nat_small) simp
  then show ?thesis by (simp add: block_at_def blk_def)
qed

text \<open>Offsets from a block that ends below \<open>2 ^ 64\<close> are differences of numbers.\<close>

lemma offset_less:
  fixes a b :: size_t
  assumes "unat b + 8192 < 2 ^ 64" and "w \<le> 4096"
  shows "unat (a - b) < w \<longleftrightarrow> unat b \<le> unat a \<and> unat a < unat b + w"
  using assms unat_sub_if' [of a b] by (auto split: if_splits)

lemma offset_add:
  assumes "unat b + 8192 < 2 ^ 64" and "j \<le> 4096"
  shows "unat (b + of_nat j :: size_t) = unat b + j"
  using assms by (subst unat_add_no_wrap) (simp_all add: unat_of_nat)

lemma blk_apart:
  assumes "small_room H B" and "i < BLOCKS_COUNT H" and "k < BLOCKS_COUNT H" and "i \<noteq> k" and "j < 4096"
  shows "\<not> blk B k + of_nat j - blk B i < 80"
proof
  assume "blk B k + of_nat j - blk B i < 80"
  then have "unat (blk B k + of_nat j - blk B i) < 80" by (simp add: word_less_nat_alt)
  then have "unat B + 4096 * i \<le> unat B + 4096 * k + j \<and> unat B + 4096 * k + j < unat B + 4096 * i + 80"
    using offset_less [OF blk_end [OF assms(1,2)]] offset_add [OF blk_end [OF assms(1,3)], of j] assms
    by (simp add: unat_blk)
  then show False using assms(4,5) by linarith
qed


section \<open>Sizes and slots\<close>

text \<open>The aligned size of the objects of a block for size \<open>k\<close>, as a number.\<close>

definition al :: "nat \<Rightarrow> nat" where
  "al k = (k + 7) div 8 * 8"

definition size_ok :: "nat \<Rightarrow> bool" where
  "size_ok k \<longleftrightarrow> 1 \<le> k \<and> k < OBJECT_SIZE_UPPER_BOUND"

lemma size_ok_iff: "size_ok k \<longleftrightarrow> 1 \<le> k \<and> k \<le> 2008"
  by (auto simp: size_ok_def OBJECT_SIZE_UPPER_BOUND_def MAX_OBJECT_SIZE_def)

lemma al_bounds: assumes "size_ok k" shows "8 \<le> al k" and "al k \<le> 2008" and "8 dvd al k" and "k \<le> al k"
proof -
  have k: "1 \<le> k" "k \<le> 2008" using assms by (simp_all add: size_ok_iff)
  have "1 \<le> (k + 7) div 8" using k by (simp add: less_eq_div_iff_mult_less_eq)
  then show "8 \<le> al k" unfolding al_def by simp
  have "(k + 7) div 8 < 252" using k by (simp add: div_less_iff_less_mult)
  then show "al k \<le> 2008" unfolding al_def by simp
  have "(k + 7) div 8 * 8 + (k + 7) mod 8 = k + 7" by (rule div_mult_mod_eq)
  moreover have "(k + 7) mod 8 < 8" by simp
  ultimately show "k \<le> al k" unfolding al_def by linarith
  show "8 dvd al k" by (simp add: al_def)
qed

lemma unat_size_ok: "size_ok k \<Longrightarrow> unat (of_nat k :: size_t) = k"
  by (intro unat_of_nat_small) (simp add: size_ok_iff)

lemma align_size_ok: "size_ok k \<Longrightarrow> unat (GET_SIZE_WITH_ALIGNMENT (of_nat k)) = al k"
  using unat_size_ok [of k] by (subst unat_align) (simp_all add: al_def size_ok_iff)

lemma align_word: "size_ok k \<Longrightarrow> GET_SIZE_WITH_ALIGNMENT (of_nat k) = of_nat (al k)"
  using align_size_ok [of k] by (metis of_nat_unat_word)

lemma slots_ok: assumes "size_ok k" shows "1 \<le> slots (al k)" and "slots (al k) < 512"
proof -
  show "1 \<le> slots (al k)" using al_bounds [OF assms] by (simp add: slots_def less_eq_div_iff_mult_less_eq)
  show "slots (al k) < 512" using slots_bound [OF al_bounds(1) [OF assms]] by simp
qed

lemma slot_end:
  assumes "size_ok k" and "j \<le> slots (al k)"
  shows "80 + al k * j \<le> 4096"
proof (cases j)
  case (Suc i)
  have "i < slots (al k)" using Suc assms(2) by simp
  then have "80 + al k * i + al k \<le> 4096" using slot_fits [of "al k" i] al_bounds(1) [OF assms(1)] by simp
  then show ?thesis by (simp add: Suc)
qed simp

lemma unat_slot:
  assumes "unat b + 8192 < 2 ^ 64" and "size_ok k" and "j \<le> slots (al k)"
  shows "unat (slot b (al k) j) = unat b + 80 + al k * j"
  using offset_add [OF assms(1) slot_end [OF assms(2,3)]] by (simp add: slot_def)

lemma slot_step: "slot b n j + of_nat n = slot b n (j + 1)"
  by (simp add: slot_def algebra_simps)

text \<open>The loop test of the allocator, on slot numbers.\<close>

lemma slot_guard:
  assumes "unat b + 8192 < 2 ^ 64" and "size_ok k" and "j \<le> slots (al k)"
  shows "slot b (al k) j + of_nat (al k) \<le> b + BLOCK_SIZE \<longleftrightarrow> j < slots (al k)"
proof -
  have e: "80 + al k * j \<le> 4096" by (rule slot_end [OF assms(2,3)])
  have b: "unat (b + BLOCK_SIZE) = unat b + 4096"
    using assms(1) by (subst unat_add_no_wrap) (simp_all add: BLOCK_SIZE_def)
  have "unat (of_nat (al k) :: size_t) = al k" using al_bounds(2) [OF assms(2)] by (intro unat_of_nat_small) simp
  show ?thesis
  proof (cases "j < slots (al k)")
    case True
    then have "unat (slot b (al k) (j + 1)) \<le> unat b + 4096"
      using unat_slot [OF assms(1,2), of "j + 1"] slot_end [OF assms(2), of "j + 1"] by simp
    then show ?thesis using True by (simp add: slot_step b word_le_nat_alt)
  next
    case False
    then have "4096 < 80 + al k * j + al k"
      using slot_fits [of "al k" j] al_bounds(1) [OF assms(2)] by (simp add: not_le [symmetric])
    moreover have small: "80 + al k * j + al k \<le> 8192" using e al_bounds(2) [OF assms(2)] by simp
    then have "unat (of_nat (80 + al k * j + al k) :: size_t) = 80 + al k * j + al k"
      by (intro unat_of_nat_small) simp
    then have "unat (b + of_nat (80 + al k * j + al k)) = unat b + (80 + al k * j + al k)"
      using small assms(1) by (subst unat_add_no_wrap) simp_all
    moreover have "slot b (al k) j + of_nat (al k) = b + of_nat (80 + al k * j + al k)"
      by (simp add: slot_def)
    ultimately have "unat b + 4096 < unat (slot b (al k) j + of_nat (al k))" by (simp only:)
    then show ?thesis using False b by (simp add: word_le_nat_alt)
  qed
qed


section \<open>Headers\<close>

definition sized :: "mem \<Rightarrow> size_t \<Rightarrow> nat \<Rightarrow> bool" where
  "sized m b k \<longleftrightarrow> size_ok k \<and> load64 m (b + 8) = of_nat k"

definition opened :: "mem \<Rightarrow> size_t \<Rightarrow> nat \<Rightarrow> bool" where
  "opened m b k \<longleftrightarrow> sized m b k \<and> (\<exists>j \<le> slots (al k). load64 m b = slot b (al k) j)"

text \<open>A slot is free when the slider has not passed it and it is not marked.\<close>

definition free_slot :: "mem \<Rightarrow> size_t \<Rightarrow> nat \<Rightarrow> nat \<Rightarrow> bool" where
  "free_slot m b k j \<longleftrightarrow> j < slots (al k) \<and> unat (load64 m b - b) \<le> 80 + al k * j \<and> \<not> slot_marked m b j"

definition slot_range :: "size_t \<Rightarrow> nat \<Rightarrow> nat \<Rightarrow> nat set" where
  "slot_range b k j = {unat b + 80 + al k * j ..< unat b + 80 + al k * j + al k}"

definition free_slots :: "mem \<Rightarrow> size_t \<Rightarrow> nat \<Rightarrow> nat set" where
  "free_slots m b k = (\<Union>j \<in> {j. free_slot m b k j}. slot_range b k j)"

text \<open>Only the header of the block at \<open>b\<close> differs.\<close>

definition agree_off :: "size_t \<Rightarrow> mem \<Rightarrow> mem \<Rightarrow> bool" where
  "agree_off b m m' \<longleftrightarrow> (\<forall>a. \<not> a - b < 80 \<longrightarrow> m' a = m a)"

lemma agree_off_refl [simp]: "agree_off b m m"
  by (simp add: agree_off_def)

lemma agree_off_trans: "agree_off b m m' \<Longrightarrow> agree_off b m' m'' \<Longrightarrow> agree_off b m m''"
  by (simp add: agree_off_def)

lemma free_slot_at:
  assumes "size_ok k" and "load64 m b = slot b (al k) j0" and "j0 \<le> slots (al k)"
  shows "free_slot m b k j \<longleftrightarrow> j0 \<le> j \<and> j < slots (al k) \<and> \<not> slot_marked m b j"
proof -
  have "80 + al k * j0 \<le> 4096" by (rule slot_end [OF assms(1,3)])
  then have "unat (of_nat (80 + al k * j0) :: size_t) = 80 + al k * j0" by (intro unat_of_nat_small) simp
  then have "unat (load64 m b - b) = 80 + al k * j0" by (simp add: assms(2) slot_def)
  then show ?thesis using al_bounds(1) [OF assms(1)] by (auto simp: free_slot_def)
qed

lemma offset_small:
  assumes "i \<le> 8192" and "j \<le> 8192"
  shows "unat (b + of_nat j - (b + of_nat i) :: size_t) = (if i \<le> j then j - i else j + 2 ^ 64 - i)"
proof -
  have "b + of_nat j - (b + of_nat i) = of_nat j - (of_nat i :: size_t)" by simp
  then show ?thesis using assms unat_sub_if' [of "of_nat j :: size_t" "of_nat i"] by (auto simp: unat_of_nat)
qed

lemma in_header: "j \<le> 8192 \<Longrightarrow> b + of_nat j - b < (80 :: size_t) \<longleftrightarrow> j < 80"
  using offset_small [of 0 j b] by (simp add: word_less_nat_alt)

text \<open>A 64-bit store into the header, at the slider or the size.\<close>

lemma store_header_byte:
  assumes "i \<le> 8192" and "j \<le> 8192" and "j < i \<or> i + 8 \<le> j"
  shows "store64 m (b + of_nat i) v (b + of_nat j) = m (b + of_nat j)"
  using offset_small [OF assms(1,2), of b] assms(1,3) by (auto simp: store64_def word_less_nat_alt split: if_splits)

lemma store_header_marked:
  assumes "i \<le> 8" and "n < 512"
  shows "slot_marked (store64 m (b + of_nat i) v) b n = slot_marked m b n"
proof -
  have "n div 8 < 64" using assms(2) by (simp add: div_less_iff_less_mult)
  then have "store64 m (b + of_nat i) v (b + of_nat (16 + n div 8)) = m (b + of_nat (16 + n div 8))"
    using assms(1) by (intro store_header_byte) simp_all
  then show ?thesis by (simp add: slot_marked_def add.assoc)
qed

lemma past_header:
  assumes "\<not> a - b < (80 :: size_t)" and "i \<le> 80"
  shows "unat (a - (b + of_nat i)) = unat (a - b) - i"
proof -
  have "unat (of_nat i :: size_t) = i" using assms(2) by (intro unat_of_nat_small) simp
  then have "unat (a - b - of_nat i) = unat (a - b) - i"
    using assms by (subst unat_sub_no_wrap) (simp_all add: word_less_nat_alt word_le_nat_alt)
  then show ?thesis by (simp only: diff_diff_eq)
qed

lemma store_header_off:
  assumes "i \<le> 72"
  shows "agree_off b m (store64 m (b + of_nat i) v)"
  unfolding agree_off_def
proof (intro allI impI)
  fix a assume a: "\<not> a - b < 80"
  have "unat (a - (b + of_nat i)) = unat (a - b) - i" using past_header [OF a] assms by simp
  moreover have "80 \<le> unat (a - b)" using a by (simp add: word_less_nat_alt)
  ultimately have "\<not> unat (a - (b + of_nat i)) < 8" using assms by linarith
  then show "store64 m (b + of_nat i) v a = m a" by (simp add: store64_def word_less_nat_alt)
qed

lemma put_mark_off: assumes "k < 512" shows "agree_off b m (put_mark b k v m)"
  unfolding agree_off_def
proof (intro allI impI)
  fix a assume a: "\<not> a - b < 80"
  have "unat (a - (b + 16)) = unat (a - b) - 16" using past_header [OF a, of 16] by simp
  then show "put_mark b k v m a = m a"
    using a by (intro put_mark_other [OF assms]) (simp add: word_less_nat_alt)
qed

lemma slider_sep: "apart (b + 8) b" "apart b (b + 8)"
  using offset_small [of 8 0 b] offset_small [of 0 8 b] by (simp_all add: apart_def word_le_nat_alt)

lemma put_mark_header:
  assumes "k < 512"
  shows "load64 (put_mark b k v m) b = load64 m b" and "load64 (put_mark b k v m) (b + 8) = load64 m (b + 8)"
  using load64_same_outside [of b "put_mark b k v m" m 0] load64_same_outside [of b "put_mark b k v m" m 8]
    put_mark_other [OF assms] by simp_all



section \<open>The inner loop\<close>

text \<open>
  From slot \<open>j\<close> the loop returns; it stops at the first slot \<open>j'\<close> that is not marked, or behind the
  last one, and has cleared the marks in between. The slider is written only when a slot is found.
\<close>

definition slid :: "size_t \<Rightarrow> nat \<Rightarrow> nat \<Rightarrow> nat \<Rightarrow> mem \<Rightarrow> mem \<Rightarrow> bool" where
  "slid b k j j' m m' \<longleftrightarrow> j \<le> j' \<and> j' \<le> slots (al k)
     \<and> (\<forall>i. j \<le> i \<and> i < j' \<longrightarrow> slot_marked m b i)
     \<and> (j' < slots (al k) \<longrightarrow> \<not> slot_marked m b j')
     \<and> (\<forall>i < 512. slot_marked m' b i = (slot_marked m b i \<and> \<not> (j \<le> i \<and> i < j')))
     \<and> load64 m' (b + 8) = load64 m (b + 8)
     \<and> load64 m' b = (if j' < slots (al k) then slot b (al k) j' else load64 m b)
     \<and> agree_off b m m'"

lemma slide_runs:
  assumes blk: "block_at s b" "unat b + 8192 < 2 ^ 64" and "sized m b k" and "j \<le> slots (al k)"
  shows "\<exists>j' m'. slide s b (of_nat (al k)) (slot b (al k) j) m
      = Some (j' < slots (al k), slot b (al k) j', m') \<and> slid b k j j' m m'"
  using assms(3,4)
proof (induction "slots (al k) - j" arbitrary: j m)
  case 0
  have k: "size_ok k" using 0(2) by (simp add: sized_def)
  have j: "j = slots (al k)" using 0(1,3) by simp
  have "\<not> slot b (al k) j + of_nat (al k) \<le> b + BLOCK_SIZE" using slot_guard [OF blk(2) k 0(3)] j by simp
  then have "slide s b (of_nat (al k)) (slot b (al k) j) m = Some (False, slot b (al k) j, m)"
    by (subst slide.simps) simp
  then show ?case using j by (intro exI [of _ j] exI [of _ m]) (auto simp: slid_def)
next
  case (Suc n)
  have k: "size_ok k" and ld: "load64 m (b + 8) = of_nat k" using Suc.prems(1) by (simp_all add: sized_def)
  have lt: "j < slots (al k)" using Suc.hyps(2) by simp
  have j512: "j < 512" using lt slots_ok(2) [OF k] by simp
  have sz: "unat (GET_SIZE_WITH_ALIGNMENT (load64 m (b + 8))) = al k" by (simp add: ld align_size_ok [OF k])
  have go: "slot b (al k) j + of_nat (al k) \<le> b + BLOCK_SIZE" using slot_guard [OF blk(2) k Suc.prems(2)] lt by simp
  note get = get_bit_slot [OF blk(1) sz al_bounds(1) [OF k] lt]
  note put = set_bit_slot [OF blk(1) sz al_bounds(1) [OF k] lt, of False, simplified]
  show ?case
  proof (cases "slot_marked m b j")
    case False
    have "slide s b (of_nat (al k)) (slot b (al k) j) m
        = Some (True, slot b (al k) j, store64 m (b + of_nat 0) (slot b (al k) j))"
      using go get False by (subst slide.simps) (simp add: GET_SLIDER_POSITION_ADDR_def)
    moreover have "slid b k j j m (store64 m (b + of_nat 0) (slot b (al k) j))"
      using lt False store_header_marked [of 0 _ m b] store_header_off [of 0 b m]
        load64_store64 [of m b] load64_store64_apart [OF slider_sep(2), of m]
      by (auto simp: slid_def)
    ultimately show ?thesis using lt by (intro exI [of _ j]) auto
  next
    case True
    let ?m = "put_mark b j False m"
    have "sized ?m b k" using Suc.prems(1) by (simp add: sized_def put_mark_header [OF j512])
    moreover have "n = slots (al k) - (j + 1)" "j + 1 \<le> slots (al k)" using Suc.hyps(2) lt by simp_all
    ultimately obtain j' m' where r: "slide s b (of_nat (al k)) (slot b (al k) (j + 1)) ?m
        = Some (j' < slots (al k), slot b (al k) j', m')" and c: "slid b k (j + 1) j' ?m m'"
      using Suc.hyps(1) by blast
    have "slide s b (of_nat (al k)) (slot b (al k) j) m = Some (j' < slots (al k), slot b (al k) j', m')"
      using go get True put r by (subst slide.simps) (simp add: slot_step)
    moreover have "slid b k j j' m m'"
    proof -
      have mk: "\<And>i. i < 512 \<Longrightarrow> slot_marked ?m b i = (slot_marked m b i \<and> i \<noteq> j)"
        using slot_marked_put [OF j512, of _ b False m] by simp
      have s512: "slots (al k) < 512" by (rule slots_ok(2) [OF k])
      have jj: "j + 1 \<le> j'" "j' \<le> slots (al k)" and a: "\<And>i. j + 1 \<le> i \<Longrightarrow> i < j' \<Longrightarrow> slot_marked ?m b i"
        and b: "j' < slots (al k) \<Longrightarrow> \<not> slot_marked ?m b j'"
        and d: "\<And>i. i < 512 \<Longrightarrow> slot_marked m' b i = (slot_marked ?m b i \<and> \<not> (j + 1 \<le> i \<and> i < j'))"
        and h: "load64 m' (b + 8) = load64 ?m (b + 8)"
          "load64 m' b = (if j' < slots (al k) then slot b (al k) j' else load64 ?m b)" "agree_off b ?m m'"
        using c by (simp_all add: slid_def)
      have "slot_marked m b i" if i: "j \<le> i" "i < j'" for i
        using a [of i] mk [of i] that True s512 jj(2) by (cases "i = j") simp_all
      moreover have "\<not> slot_marked m b j'" if "j' < slots (al k)"
        using b [OF that] mk [of j'] that s512 jj(1) by simp
      moreover have "slot_marked m' b i = (slot_marked m b i \<and> \<not> (j \<le> i \<and> i < j'))" if "i < 512" for i
        using d [OF that] mk [OF that] jj(1) by auto
      ultimately show ?thesis
        using jj h put_mark_header [OF j512, of b False m] agree_off_trans [OF put_mark_off [OF j512]]
        unfolding slid_def by auto
    qed
    ultimately show ?thesis by blast
  qed
qed

text \<open>What that means for the free slots.\<close>

lemma slid_free:
  assumes "size_ok k" and "load64 m b = slot b (al k) j" and "j \<le> slots (al k)" and "slid b k j j' m m'"
  shows "j' < slots (al k) \<Longrightarrow> free_slot m b k j' \<and> free_slots m' b k = free_slots m b k"
    and "\<not> j' < slots (al k) \<Longrightarrow> free_slots m b k = {}"
proof -
  have s512: "slots (al k) < 512" by (rule slots_ok(2) [OF assms(1)])
  note f = free_slot_at [OF assms(1-3)]
  show "free_slots m b k = {}" if "\<not> j' < slots (al k)"
    using that assms(4) f by (auto simp: slid_def free_slots_def)
  assume lt: "j' < slots (al k)"
  have f': "free_slot m' b k i \<longleftrightarrow> j' \<le> i \<and> i < slots (al k) \<and> \<not> slot_marked m' b i" for i
    using assms(4) lt by (intro free_slot_at [OF assms(1)]) (simp_all add: slid_def)
  have "free_slot m' b k i = free_slot m b k i" for i
  proof (cases "i < slots (al k)")
    case True
    then have "slot_marked m' b i = (slot_marked m b i \<and> \<not> (j \<le> i \<and> i < j'))" "j \<le> j'"
      "j \<le> i \<and> i < j' \<longrightarrow> slot_marked m b i"
      using assms(4) s512 by (simp_all add: slid_def)
    then show ?thesis unfolding f f' by (auto simp: not_less)
  qed (simp add: free_slot_def)
  then show "free_slot m b k j' \<and> free_slots m' b k = free_slots m b k"
    using f lt assms(4) by (simp add: free_slots_def slid_def)
qed



section \<open>Taking a slot, opening a block, clearing the marks\<close>

lemma slot_range_free: "free_slot m b k j \<Longrightarrow> slot_range b k j \<subseteq> free_slots m b k"
  by (auto simp: free_slots_def)

lemma advance_slider:
  assumes "sized m b k" and "load64 m b = slot b (al k) j" and "j < slots (al k)"
    and "m' = store64 m b (slot b (al k) (j + 1))"
  shows "opened m' b k" and "agree_off b m m'"
    and "free_slots m' b k \<subseteq> free_slots m b k - slot_range b k j"
    and "\<forall>i < 512. slot_marked m' b i = slot_marked m b i"
proof -
  have k: "size_ok k" using assms(1) by (simp add: sized_def)
  have ld: "load64 m' b = slot b (al k) (j + 1)" "load64 m' (b + 8) = load64 m (b + 8)"
    using load64_store64_apart [OF slider_sep(2), of m b] by (simp_all add: assms(4) load64_store64)
  then show "opened m' b k" using assms(1,3) by (auto simp: opened_def sized_def intro: exI [of _ "j + 1"])
  show "agree_off b m m'" using store_header_off [of 0 b m] by (simp add: assms(4))
  show mk: "\<forall>i < 512. slot_marked m' b i = slot_marked m b i"
    using store_header_marked [of 0 _ m b] by (simp add: assms(4))
  have f: "free_slot m b k i \<longleftrightarrow> j \<le> i \<and> i < slots (al k) \<and> \<not> slot_marked m b i" for i
    using assms(3) by (intro free_slot_at [OF k assms(2)]) simp
  have f': "free_slot m' b k i \<longleftrightarrow> j + 1 \<le> i \<and> i < slots (al k) \<and> \<not> slot_marked m' b i" for i
    using assms(3) by (intro free_slot_at [OF k ld(1)]) simp
  have "slot_range b k i \<inter> slot_range b k j = {}" if "j + 1 \<le> i" for i
  proof -
    have "al k * (j + 1) \<le> al k * i" using that by (rule mult_le_mono2)
    then show ?thesis by (auto simp: slot_range_def)
  qed
  moreover have "free_slot m' b k i \<Longrightarrow> free_slot m b k i" for i
    using f f' mk slots_ok(2) [OF k] by auto
  ultimately show "free_slots m' b k \<subseteq> free_slots m b k - slot_range b k j"
    using f' unfolding free_slots_def by blast
qed

lemma block_exhausted:
  assumes "unat b + 8192 < 2 ^ 64" and "size_ok k" and "load64 m b = slot b (al k) j"
    and "j \<le> slots (al k)" and "b + BLOCK_SIZE \<le> slot b (al k) j"
  shows "free_slots m b k = {}"
proof -
  have "unat (b + BLOCK_SIZE) = unat b + 4096"
    using assms(1) by (subst unat_add_no_wrap) (simp_all add: BLOCK_SIZE_def)
  then have "4096 \<le> 80 + al k * j" using assms(5) unat_slot [OF assms(1,2,4)] by (simp add: word_le_nat_alt)
  then have "\<not> j < slots (al k)" using slot_fits [of "al k" j] al_bounds(1) [OF assms(2)] by linarith
  then have "\<not> free_slot m b k i" for i unfolding free_slot_at [OF assms(2-4)] by linarith
  then show ?thesis unfolding free_slots_def by blast
qed

definition cleared :: "size_t \<Rightarrow> mem \<Rightarrow> mem" where
  "cleared b m = clear_bitmap_words 8 (b + 16) m"

lemma cleared_marks: "k < 512 \<Longrightarrow> \<not> slot_marked (cleared b m) b k"
proof -
  assume "k < 512"
  then have k: "k div 8 < 64" by (simp add: div_less_iff_less_mult)
  then have "unat (b + 16 + of_nat (k div 8) - (b + 16)) = k div 8" by (intro of_nat_diff_word) simp
  then show ?thesis using k by (simp add: cleared_def clear_bitmap_words_byte slot_marked_def)
qed

lemma cleared_off: "agree_off b m (cleared b m)"
  unfolding agree_off_def
proof (intro allI impI)
  fix a assume a: "\<not> a - b < 80"
  have "unat (a - (b + 16)) = unat (a - b) - 16" using past_header [OF a, of 16] by simp
  moreover have "80 \<le> unat (a - b)" using a by (simp add: word_less_nat_alt)
  ultimately have "\<not> unat (a - (b + 16)) < 64" by linarith
  then show "cleared b m a = m a" by (simp add: cleared_def clear_bitmap_words_byte)
qed

lemma cleared_header: "load64 (cleared b m) b = load64 m b" "load64 (cleared b m) (b + 8) = load64 m (b + 8)"
proof -
  have sep: "apart (b + 16 + of_nat (8 * i)) b \<and> apart (b + 16 + of_nat (8 * i)) (b + 8)" if "i < 8" for i
  proof -
    have e: "b + 16 + of_nat (8 * i) = b + of_nat (16 + 8 * i)" by simp
    have "unat (b - (b + of_nat (16 + 8 * i))) = 2 ^ 64 - (16 + 8 * i)"
      "unat (b + of_nat (16 + 8 * i) - b) = 16 + 8 * i"
      "unat (b + 8 - (b + of_nat (16 + 8 * i))) = 8 + 2 ^ 64 - (16 + 8 * i)"
      "unat (b + of_nat (16 + 8 * i) - (b + 8)) = 16 + 8 * i - 8"
      using that offset_small [of "16 + 8 * i" 0 b] offset_small [of 0 "16 + 8 * i" b]
        offset_small [of "16 + 8 * i" 8 b] offset_small [of 8 "16 + 8 * i" b]
      by (simp_all del: of_nat_add of_nat_mult)
    then show ?thesis using that unfolding e apart_def word_le_nat_alt by simp linarith
  qed
  show "load64 (cleared b m) b = load64 m b" "load64 (cleared b m) (b + 8) = load64 m (b + 8)"
    unfolding cleared_def clear_bitmap_words_fold using sep by (auto intro!: mem64.load_fold_sep)
qed

lemma init_header_opens:
  assumes "size_ok k" and "m' = init_header e (of_nat k) m" and "b = block_addr e"
  shows "sized m' b k" and "load64 m' b = slot b (al k) 0" and "agree_off b m m'"
    and "\<forall>i < 512. \<not> slot_marked m' b i"
proof -
  let ?m1 = "store64 m (b + of_nat 8) (of_nat k)"
  let ?m2 = "store64 ?m1 (b + of_nat 0) (b + 80)"
  have m': "m' = cleared b ?m2"
    by (simp add: assms init_header_def cleared_def GET_OBJECT_SIZE_ADDR_def GET_SLIDER_POSITION_ADDR_def
        GET_BITMAP_ADDR_def BLOCK_HEADER_SIZE_def BITMAP_BYTES_COUNT_def Let_def)
  show "load64 m' b = slot b (al k) 0"
    using load64_store64 [of ?m1 b "b + 80"] by (simp add: m' cleared_header slot_def)
  have "load64 ?m2 (b + 8) = of_nat k"
    using load64_store64_apart [OF slider_sep(2), of ?m1 b] load64_store64 [of m "b + 8"] by simp
  then show "sized m' b k" using assms(1) by (simp add: m' cleared_header sized_def)
  show "agree_off b m m'" unfolding m'
    by (rule agree_off_trans [OF agree_off_trans [OF store_header_off store_header_off] cleared_off]) simp_all
  show "\<forall>i < 512. \<not> slot_marked m' b i" using cleared_marks by (simp add: m')
qed

end
