(* ===== verification/Chains.thy ===== *)
theory Chains
  imports Prelude
begin

text \<open>
  NULL-terminated lists linked through a field: the empty-block list and the per-size lists of the
  small allocator, and the list of the registered threads.
\<close>

fun chain :: "('n \<Rightarrow> 'n option) \<Rightarrow> 'n option \<Rightarrow> 'n list \<Rightarrow> bool" where
  "chain nx p [] \<longleftrightarrow> p = None"
| "chain nx p (x # xs) \<longleftrightarrow> p = Some x \<and> chain nx (nx x) xs"

lemma chain_None [simp]: "chain nx None xs \<longleftrightarrow> xs = []"
  by (cases xs) auto

lemma chain_Some: "chain nx (Some x) xs \<longleftrightarrow> (\<exists>ys. xs = x # ys \<and> chain nx (nx x) ys)"
  by (cases xs) auto

lemma chain_cong: "(\<And>x. x \<in> set xs \<Longrightarrow> nx' x = nx x) \<Longrightarrow> chain nx' p xs = chain nx p xs"
  by (induction xs arbitrary: p) auto

lemma chain_unique: "chain nx p xs \<Longrightarrow> chain nx p ys \<Longrightarrow> xs = ys"
proof (induction xs arbitrary: p ys)
  case (Cons x xs)
  then show ?case by (cases ys) auto
qed simp

text \<open>A list that ends has no node twice: behind its second occurrence the list would be its own tail.\<close>

lemma chain_append: "chain nx p (xs @ y # ys) \<Longrightarrow> chain nx (Some y) (y # ys)"
  by (induction xs arbitrary: p) auto

lemma chain_distinct: "chain nx p xs \<Longrightarrow> distinct xs"
proof (induction xs arbitrary: p)
  case (Cons x xs)
  have "x \<notin> set xs"
  proof
    assume "x \<in> set xs"
    then obtain ys zs where xs: "xs = ys @ x # zs" using split_list by metis
    have "chain nx (nx x) (ys @ x # zs)" using Cons.prems xs by simp
    then have "chain nx (Some x) (x # zs)" by (rule chain_append)
    moreover have "chain nx (Some x) (x # xs)" using Cons.prems by simp
    ultimately have "zs = xs" using chain_unique by blast
    then show False using arg_cong [OF xs, of length] by simp
  qed
  then show ?case using Cons by auto
qed simp


text \<open>A segment of a list, from \<open>p\<close> up to but not including \<open>r\<close>.\<close>

fun lseg :: "('n \<Rightarrow> 'n option) \<Rightarrow> 'n option \<Rightarrow> 'n list \<Rightarrow> 'n option \<Rightarrow> bool" where
  "lseg nx p [] r \<longleftrightarrow> p = r"
| "lseg nx p (x # xs) r \<longleftrightarrow> p = Some x \<and> lseg nx (nx x) xs r"

lemma chain_append_iff: "chain nx p (xs @ y # ys) \<longleftrightarrow> lseg nx p xs (Some y) \<and> chain nx (nx y) ys"
  by (induction xs arbitrary: p) auto

lemma lseg_cong: "(\<And>x. x \<in> set xs \<Longrightarrow> nx' x = nx x) \<Longrightarrow> lseg nx' p xs r = lseg nx p xs r"
  by (induction xs arbitrary: p) auto

end
