(* ===== verification/Small_Heap.thy ===== *)
theory Small_Heap
  imports Small_Blocks Chains
begin

text \<open>
  The invariant of the small allocator, the free bytes of the small heap, and the allocation of an
  object. A ghost map \<open>pl\<close> says where each block is: in the list of empty blocks, in the list of a
  size, in the cache of a thread for a size, or in none of them (a block that is full).
\<close>

datatype place = In_empty | In_segreg nat | In_cache nat nat | Detached

definition nx :: "small_state \<Rightarrow> nat \<Rightarrow> nat option" where
  "nx s i = next_node (NODES_LIST s i)"

fun placed :: "mem \<Rightarrow> size_t \<Rightarrow> place \<Rightarrow> bool" where
  "placed m b In_empty \<longleftrightarrow> load64 m (b + 8) = 0"
| "placed m b (In_segreg k) \<longleftrightarrow> opened m b k"
| "placed m b (In_cache t k) \<longleftrightarrow> opened m b k"
| "placed m b Detached \<longleftrightarrow> (\<exists>k. sized m b k)"

fun free_at :: "mem \<Rightarrow> size_t \<Rightarrow> place \<Rightarrow> nat set" where
  "free_at m b In_empty = {unat b + 80 ..< unat b + 4096}"
| "free_at m b (In_segreg k) = free_slots m b k"
| "free_at m b (In_cache t k) = free_slots m b k"
| "free_at m b Detached = {}"

definition lists_ok ::
  "nat \<Rightarrow> small_state \<Rightarrow> (nat \<Rightarrow> place) \<Rightarrow> nat list \<Rightarrow> (nat \<Rightarrow> nat list) \<Rightarrow> bool" where
  "lists_ok N s pl es ss \<longleftrightarrow>
     chain (nx s) (EMPTY_LIST_HEAD s) es \<and> set es = {i. i < N \<and> pl i = In_empty}
     \<and> (\<forall>k. size_ok k \<longrightarrow> chain (nx s) (SEGREG_LIST s k) (ss k) \<and> set (ss k) = {i. i < N \<and> pl i = In_segreg k})
     \<and> (\<forall>t k i. size_ok k \<longrightarrow> (nodes_cache s t k = Some i \<longleftrightarrow> i < N \<and> pl i = In_cache t k))"

lemma lists_empty:
  assumes "lists_ok N s pl es ss"
  shows "chain (nx s) (EMPTY_LIST_HEAD s) es" and "set es = {i. i < N \<and> pl i = In_empty}"
  using assms by (simp_all add: lists_ok_def)

lemma lists_segreg:
  assumes "lists_ok N s pl es ss" and "size_ok k"
  shows "chain (nx s) (SEGREG_LIST s k) (ss k)" and "set (ss k) = {i. i < N \<and> pl i = In_segreg k}"
  using assms by (simp_all add: lists_ok_def)

lemma lists_cache:
  "lists_ok N s pl es ss \<Longrightarrow> size_ok k \<Longrightarrow> nodes_cache s t k = Some i \<longleftrightarrow> i < N \<and> pl i = In_cache t k"
  by (simp add: lists_ok_def)

definition small_inv ::
  "size_t \<Rightarrow> small_state \<Rightarrow> mem \<Rightarrow> (nat \<Rightarrow> place) \<Rightarrow> nat list \<Rightarrow> (nat \<Rightarrow> nat list) \<Rightarrow> bool" where
  "small_inv H s m pl es ss \<longleftrightarrow>
     small_room H (START_ALLOCATOR_HEAP s)
     \<and> END_ALLOCATOR_HEAP s = START_ALLOCATOR_HEAP s + H
     \<and> (\<forall>i < BLOCKS_COUNT H. block_addr (NODES_LIST s i) = blk (START_ALLOCATOR_HEAP s) i)
     \<and> lists_ok (BLOCKS_COUNT H) s pl es ss
     \<and> (\<forall>i < BLOCKS_COUNT H. placed m (blk (START_ALLOCATOR_HEAP s) i) (pl i))"

definition free_bytes :: "size_t \<Rightarrow> small_state \<Rightarrow> mem \<Rightarrow> (nat \<Rightarrow> place) \<Rightarrow> nat set" where
  "free_bytes H s m pl = (\<Union>i < BLOCKS_COUNT H. free_at m (blk (START_ALLOCATOR_HEAP s) i) (pl i))"

text \<open>Only headers of blocks differ: the objects of the heap are not touched.\<close>

definition headers_only :: "size_t \<Rightarrow> size_t \<Rightarrow> mem \<Rightarrow> mem \<Rightarrow> bool" where
  "headers_only H B m m' \<longleftrightarrow> (\<forall>a. (\<forall>i < BLOCKS_COUNT H. \<not> a - blk B i < 80) \<longrightarrow> m' a = m a)"

lemma headers_only_refl [simp]: "headers_only H B m m"
  by (simp add: headers_only_def)

lemma headers_only_trans: "headers_only H B m m' \<Longrightarrow> headers_only H B m' m'' \<Longrightarrow> headers_only H B m m''"
  by (simp add: headers_only_def)

lemma headers_only_block: "c < BLOCKS_COUNT H \<Longrightarrow> agree_off (blk B c) m m' \<Longrightarrow> headers_only H B m m'"
  by (auto simp: headers_only_def agree_off_def)


section \<open>Other blocks are not affected\<close>

lemma same_block:
  assumes "\<And>j. j < 80 \<Longrightarrow> m' (b + of_nat j) = m (b + of_nat j)"
  shows "load64 m' b = load64 m b" and "load64 m' (b + 8) = load64 m (b + 8)"
    and "n < 512 \<Longrightarrow> slot_marked m' b n = slot_marked m b n"
proof -
  have a: "m' (b + 8 + of_nat i) = m (b + 8 + of_nat i)" if "i < 8" for i
    using assms [of "8 + i"] that by (simp add: add.assoc)
  show "load64 m' b = load64 m b" by (rule load64_cong) (simp add: assms)
  show "load64 m' (b + 8) = load64 m (b + 8)" by (rule load64_cong) (rule a)
  assume "n < 512"
  then have "n div 8 < 64" by (simp add: div_less_iff_less_mult)
  then show "slot_marked m' b n = slot_marked m b n"
    using assms [of "16 + n div 8"] by (simp add: slot_marked_def add.assoc)
qed

lemma same_block_free:
  assumes "load64 m' b = load64 m b" and "\<And>n. n < 512 \<Longrightarrow> slot_marked m' b n = slot_marked m b n" and "size_ok k"
  shows "free_slots m' b k = free_slots m b k"
proof -
  have "free_slot m' b k j = free_slot m b k j" for j
    using assms slots_ok(2) [OF assms(3)] by (cases "j < slots (al k)") (simp_all add: free_slot_def)
  then show ?thesis by (simp add: free_slots_def)
qed

lemma other_block:
  assumes "small_room H B" and "c < BLOCKS_COUNT H" and "i < BLOCKS_COUNT H" and "i \<noteq> c"
    and "agree_off (blk B c) m m'" and "placed m (blk B i) p"
  shows "placed m' (blk B i) p" and "free_at m' (blk B i) p = free_at m (blk B i) p"
proof -
  have "m' (blk B i + of_nat j) = m (blk B i + of_nat j)" if "j < 80" for j
    using assms(5) blk_apart [OF assms(1-3) assms(4) [symmetric], of j] that by (simp add: agree_off_def)
  note same = same_block [of m' "blk B i" m, OF this]
  have "sized m' (blk B i) = sized m (blk B i)" by (simp add: fun_eq_iff sized_def same)
  then show "placed m' (blk B i) p" using assms(6) same(1,2) by (cases p) (simp_all add: opened_def)
  show "free_at m' (blk B i) p = free_at m (blk B i) p"
    using assms(6) same_block_free [OF same(1,3)] by (cases p) (simp_all add: opened_def sized_def)
qed

text \<open>A detached block may change its header as long as it keeps a size.\<close>

lemma small_inv_header:
  assumes inv: "small_inv H s m pl es ss" and c: "c < BLOCKS_COUNT H" "pl c = Detached"
    and off: "agree_off (blk (START_ALLOCATOR_HEAP s) c) m m'"
    and sz: "sized m' (blk (START_ALLOCATOR_HEAP s) c) k"
  shows "small_inv H s m' pl es ss" and "free_bytes H s m' pl = free_bytes H s m pl"
proof -
  let ?B = "START_ALLOCATOR_HEAP s"
  have room: "small_room H ?B" and pm: "\<And>i. i < BLOCKS_COUNT H \<Longrightarrow> placed m (blk ?B i) (pl i)"
    using inv by (simp_all add: small_inv_def)
  have "placed m' (blk ?B i) (pl i) \<and> free_at m' (blk ?B i) (pl i) = free_at m (blk ?B i) (pl i)"
    if i: "i < BLOCKS_COUNT H" for i
  proof (cases "i = c")
    case True
    then show ?thesis using c(2) sz by auto
  next
    case False
    then show ?thesis using other_block [OF room c(1) i False off pm [OF i]] by blast
  qed
  then show "small_inv H s m' pl es ss" "free_bytes H s m' pl = free_bytes H s m pl"
    using inv by (auto simp: small_inv_def free_bytes_def)
qed


section \<open>Moving a block\<close>

lemma free_bytes_detach:
  assumes "c < BLOCKS_COUNT H"
  shows "free_bytes H s m pl = free_at m (blk (START_ALLOCATOR_HEAP s) c) (pl c) \<union> free_bytes H s m (pl(c := Detached))"
proof -
  have detach: "(\<Union>i < BLOCKS_COUNT H. f i (pl i)) = f c (pl c) \<union> (\<Union>i < BLOCKS_COUNT H. f i ((pl(c := Detached)) i))"
    if "f c Detached = {}" for f :: "nat \<Rightarrow> place \<Rightarrow> nat set"
    using assms that by (auto split: if_splits)
  show ?thesis
    unfolding free_bytes_def by (rule detach [of "\<lambda>i p. free_at m (blk (START_ALLOCATOR_HEAP s) i) p"]) simp
qed

lemma placed_detached: "placed m b (In_segreg k) \<Longrightarrow> placed m b Detached"
  "placed m b (In_cache t k) \<Longrightarrow> placed m b Detached"
  by (auto simp: opened_def)

lemma small_inv_move:
  assumes "small_inv H s m pl es ss" and "lists_ok (BLOCKS_COUNT H) s' (pl(c := p)) es' ss'"
    and "START_ALLOCATOR_HEAP s' = START_ALLOCATOR_HEAP s" and "END_ALLOCATOR_HEAP s' = END_ALLOCATOR_HEAP s"
    and "\<And>i. block_addr (NODES_LIST s' i) = block_addr (NODES_LIST s i)"
    and "c < BLOCKS_COUNT H \<Longrightarrow> placed m (blk (START_ALLOCATOR_HEAP s) c) p"
  shows "small_inv H s' m (pl(c := p)) es' ss'"
  using assms by (simp add: small_inv_def)

text \<open>The lists when a block leaves one of them, or a cache, and when it comes to a cache.\<close>

lemma lists_take_segreg:
  assumes li: "lists_ok N s pl es ss" and k: "size_ok k" and hd: "SEGREG_LIST s k = Some c"
  obtains cs where "ss k = c # cs" "c < N" "pl c = In_segreg k"
    "lists_ok N (s\<lparr>SEGREG_LIST := (SEGREG_LIST s)(k := next_node (NODES_LIST s c))\<rparr>) (pl(c := Detached)) es (ss(k := cs))"
proof -
  have ch: "chain (nx s) (SEGREG_LIST s k) (ss k)" and st: "set (ss k) = {i. i < N \<and> pl i = In_segreg k}"
    using li k by (simp_all add: lists_ok_def)
  obtain cs where cs: "ss k = c # cs" "chain (nx s) (nx s c) cs" using ch hd by (auto simp: chain_Some)
  have c: "c < N" "pl c = In_segreg k" using cs(1) st by auto
  have "c \<notin> set cs" using chain_distinct [OF ch] cs(1) by simp
  let ?s = "s\<lparr>SEGREG_LIST := (SEGREG_LIST s)(k := next_node (NODES_LIST s c))\<rparr>"
  have nx: "nx ?s = nx s" by (simp add: nx_def fun_eq_iff)
  have "lists_ok N ?s (pl(c := Detached)) es (ss(k := cs))"
    using li cs(2) st c \<open>c \<notin> set cs\<close> cs(1) unfolding lists_ok_def nx by (auto simp: nx_def)
  then show thesis by (rule that [OF cs(1) c])
qed

lemma lists_take_empty:
  assumes li: "lists_ok N s pl es ss" and hd: "EMPTY_LIST_HEAD s = Some c"
  obtains es' where "es = c # es'" "c < N" "pl c = In_empty"
    "lists_ok N (s\<lparr>EMPTY_LIST_HEAD := next_node (NODES_LIST s c)\<rparr>) (pl(c := Detached)) es' ss"
proof -
  have ch: "chain (nx s) (EMPTY_LIST_HEAD s) es" and st: "set es = {i. i < N \<and> pl i = In_empty}"
    using li by (simp_all add: lists_ok_def)
  obtain es' where es: "es = c # es'" "chain (nx s) (nx s c) es'" using ch hd by (auto simp: chain_Some)
  have c: "c < N" "pl c = In_empty" using es(1) st by auto
  have "c \<notin> set es'" using chain_distinct [OF ch] es(1) by simp
  let ?s = "s\<lparr>EMPTY_LIST_HEAD := next_node (NODES_LIST s c)\<rparr>"
  have nx: "nx ?s = nx s" by (simp add: nx_def fun_eq_iff)
  have "lists_ok N ?s (pl(c := Detached)) es' ss"
    using li es st c \<open>c \<notin> set es'\<close> unfolding lists_ok_def nx by (auto simp: nx_def)
  then show thesis by (rule that [OF es(1) c])
qed

lemma lists_relink:
  assumes li: "lists_ok N s pl es ss" and c: "pl c = Detached"
  shows "lists_ok N (s\<lparr>NODES_LIST := (NODES_LIST s)(c := (NODES_LIST s c)\<lparr>next_node := p\<rparr>)\<rparr>) pl es ss"
proof -
  let ?s = "s\<lparr>NODES_LIST := (NODES_LIST s)(c := (NODES_LIST s c)\<lparr>next_node := p\<rparr>)\<rparr>"
  have nx: "nx ?s i = nx s i" if "i \<noteq> c" for i using that by (simp add: nx_def)
  have "c \<notin> set es" "size_ok k \<Longrightarrow> c \<notin> set (ss k)" for k using li c by (auto simp: lists_ok_def)
  then have "chain (nx ?s) q es = chain (nx s) q es" "size_ok k \<Longrightarrow> chain (nx ?s) q (ss k) = chain (nx s) q (ss k)" for q k
    by (auto intro!: chain_cong nx)
  then show ?thesis using li by (simp add: lists_ok_def)
qed

lemma take_segreg:
  assumes inv: "small_inv H s m pl es ss" and k: "size_ok k" and hd: "SEGREG_LIST s k = Some c"
  shows "\<exists>cs s'. get_block_from_segreg_list k s = (Some c, s') \<and> ss k = c # cs \<and> c < BLOCKS_COUNT H
    \<and> pl c = In_segreg k \<and> small_inv H s' m (pl(c := Detached)) es (ss(k := cs))
    \<and> START_ALLOCATOR_HEAP s' = START_ALLOCATOR_HEAP s \<and> NODES_LIST s' = NODES_LIST s \<and> nodes_cache s' = nodes_cache s"
proof -
  have li: "lists_ok (BLOCKS_COUNT H) s pl es ss" using inv by (simp add: small_inv_def)
  let ?s = "s\<lparr>SEGREG_LIST := (SEGREG_LIST s)(k := next_node (NODES_LIST s c))\<rparr>"
  obtain cs where cs: "ss k = c # cs" and c: "c < BLOCKS_COUNT H" "pl c = In_segreg k"
    and "lists_ok (BLOCKS_COUNT H) ?s (pl(c := Detached)) es (ss(k := cs))"
    using lists_take_segreg [OF li k hd] by blast
  moreover have "placed m (blk (START_ALLOCATOR_HEAP s) c) Detached"
    using inv c placed_detached(1) by (fastforce simp: small_inv_def)
  ultimately have "small_inv H ?s m (pl(c := Detached)) es (ss(k := cs))"
    by (intro small_inv_move [OF inv]) simp_all
  moreover have "get_block_from_segreg_list k s = (Some c, ?s)" by (simp add: get_block_from_segreg_list_def hd)
  ultimately show ?thesis using cs c by auto
qed


text \<open>The head of the list of empty blocks, and the header it gets.\<close>

lemma small_inv_relabel:
  assumes "small_inv H s m pl es ss" and "\<And>i. i \<noteq> c \<Longrightarrow> pl' i = pl i"
    and "\<And>i. i < BLOCKS_COUNT H \<Longrightarrow> placed m' (blk (START_ALLOCATOR_HEAP s) i) (pl' i)"
    and "lists_ok (BLOCKS_COUNT H) s' pl' es' ss'"
    and "START_ALLOCATOR_HEAP s' = START_ALLOCATOR_HEAP s" and "END_ALLOCATOR_HEAP s' = END_ALLOCATOR_HEAP s"
    and "\<And>i. block_addr (NODES_LIST s' i) = block_addr (NODES_LIST s i)"
  shows "small_inv H s' m' pl' es' ss'"
  using assms by (simp add: small_inv_def)

lemma take_empty:
  assumes inv: "small_inv H s m pl es ss" and hd: "EMPTY_LIST_HEAD s = Some c" and k: "size_ok k"
  shows "\<exists>es' s'. allocate_new_block (s, g) = (Some c, s', g) \<and> es = c # es' \<and> c < BLOCKS_COUNT H
    \<and> pl c = In_empty
    \<and> small_inv H s' (init_header (NODES_LIST s' c) (of_nat k) m) (pl(c := Detached)) es' ss
    \<and> START_ALLOCATOR_HEAP s' = START_ALLOCATOR_HEAP s \<and> nodes_cache s' = nodes_cache s
    \<and> block_addr (NODES_LIST s' c) = blk (START_ALLOCATOR_HEAP s) c
    \<and> free_bytes H s' (init_header (NODES_LIST s' c) (of_nat k) m) (pl(c := Detached)) = free_bytes H s m (pl(c := Detached))"
proof -
  let ?B = "START_ALLOCATOR_HEAP s" and ?N = "BLOCKS_COUNT H"
  have li: "lists_ok ?N s pl es ss" using inv by (simp add: small_inv_def)
  obtain es' where es: "es = c # es'" and c: "c < ?N" "pl c = In_empty"
    and taken: "lists_ok ?N (s\<lparr>EMPTY_LIST_HEAD := next_node (NODES_LIST s c)\<rparr>) (pl(c := Detached)) es' ss"
    using lists_take_empty [OF li hd] by blast
  let ?s = "s\<lparr>EMPTY_LIST_HEAD := next_node (NODES_LIST s c),
    NODES_LIST := (NODES_LIST s)(c := (NODES_LIST s c)\<lparr>next_node := None\<rparr>)\<rparr>"
  let ?m = "init_header (NODES_LIST ?s c) (of_nat k) m"
  have b: "block_addr (NODES_LIST ?s c) = blk ?B c" using inv c(1) by (simp add: small_inv_def)
  have lists: "lists_ok ?N ?s (pl(c := Detached)) es' ss"
    using lists_relink [OF taken, of c None] by simp
  note h = init_header_opens [OF k refl b [symmetric], of m]
  have room: "small_room H ?B" using inv by (simp add: small_inv_def)
  have other: "placed ?m (blk ?B i) (pl i) \<and> free_at ?m (blk ?B i) (pl i) = free_at m (blk ?B i) (pl i)"
    if "i < ?N" "i \<noteq> c" for i
    using other_block [OF room c(1) that h(3)] inv that(1) by (simp add: small_inv_def)
  have "small_inv H ?s ?m (pl(c := Detached)) es' ss"
    by (rule small_inv_relabel [OF inv _ _ lists, where c = c]) (use other h(1) in auto)
  moreover have "free_bytes H ?s ?m (pl(c := Detached)) = free_bytes H s m (pl(c := Detached))"
    unfolding free_bytes_def by (rule SUP_cong [OF refl]) (use other in auto)
  moreover have "allocate_new_block (s, g) = (Some c, ?s, g)" by (simp add: allocate_new_block_def hd)
  ultimately show ?thesis using es(1) c b by auto
qed

text \<open>Dropping a block from the cache, and putting one there.\<close>

lemma set_cache_simps [simp]:
  "START_ALLOCATOR_HEAP (set_cache t k c s) = START_ALLOCATOR_HEAP s"
  "END_ALLOCATOR_HEAP (set_cache t k c s) = END_ALLOCATOR_HEAP s"
  "NODES_LIST (set_cache t k c s) = NODES_LIST s"
  "SEGREG_LIST (set_cache t k c s) = SEGREG_LIST s"
  "EMPTY_LIST_HEAD (set_cache t k c s) = EMPTY_LIST_HEAD s"
  "nx (set_cache t k c s) = nx s"
  "nodes_cache (set_cache t k c s) t' k' = (if t' = t \<and> k' = k then c else nodes_cache s t' k')"
  "set_cache t k c (set_cache t k d s) = set_cache t k c s"
  by (auto simp: set_cache_def nx_def fun_eq_iff)

lemma lists_uncache:
  assumes li: "lists_ok N s pl es ss" and k: "size_ok k" and hd: "nodes_cache s t k = Some c"
  shows "c < N" and "pl c = In_cache t k" and "lists_ok N (set_cache t k None s) (pl(c := Detached)) es ss"
proof -
  show c: "c < N" "pl c = In_cache t k" using li k hd by (auto simp: lists_ok_def)
  have cc: "nodes_cache s t' k' = Some i \<longleftrightarrow> i < N \<and> pl i = In_cache t' k'"
    if "size_ok k'" for t' k' i using li that by (simp add: lists_ok_def)
  have "nodes_cache (set_cache t k None s) t' k' = Some i \<longleftrightarrow> i < N \<and> (pl(c := Detached)) i = In_cache t' k'"
    if k': "size_ok k'" for t' k' i
  proof (cases "t' = t \<and> k' = k")
    case True
    then show ?thesis using cc [OF k, of t i] hd by auto
  next
    case False
    then show ?thesis using cc [OF k', of t' i] c(2) by auto
  qed
  then show "lists_ok N (set_cache t k None s) (pl(c := Detached)) es ss"
    using li c(2) unfolding lists_ok_def by auto
qed

lemma lists_recache:
  assumes "lists_ok N s pl es ss" and "size_ok k" and "nodes_cache s t k = None" and "c < N" "pl c = Detached"
  shows "lists_ok N (set_cache t k (Some c) s) (pl(c := In_cache t k)) es ss"
  using assms unfolding lists_ok_def by (auto; metis option.distinct(1) place.distinct)

lemma uncache:
  assumes inv: "small_inv H s m pl es ss" and k: "size_ok k" and hd: "nodes_cache s t k = Some c"
  shows "c < BLOCKS_COUNT H" and "pl c = In_cache t k"
    and "small_inv H (set_cache t k None s) m (pl(c := Detached)) es ss"
proof -
  have li: "lists_ok (BLOCKS_COUNT H) s pl es ss" using inv by (simp add: small_inv_def)
  note u = lists_uncache [OF li k hd]
  show "c < BLOCKS_COUNT H" "pl c = In_cache t k" by (rule u)+
  have "placed m (blk (START_ALLOCATOR_HEAP s) c) Detached"
    using inv u(1,2) placed_detached(2) by (fastforce simp: small_inv_def)
  then show "small_inv H (set_cache t k None s) m (pl(c := Detached)) es ss"
    using u(3) by (intro small_inv_move [OF inv]) simp_all
qed

lemma recache:
  assumes inv: "small_inv H s m pl es ss" and k: "size_ok k" and none: "nodes_cache s t k = None"
    and c: "c < BLOCKS_COUNT H" "pl c = Detached" and op: "opened m (blk (START_ALLOCATOR_HEAP s) c) k"
  shows "small_inv H (set_cache t k (Some c) s) m (pl(c := In_cache t k)) es ss"
proof -
  have "lists_ok (BLOCKS_COUNT H) (set_cache t k (Some c) s) (pl(c := In_cache t k)) es ss"
    using inv none c k by (intro lists_recache) (simp_all add: small_inv_def)
  then show ?thesis using op by (intro small_inv_move [OF inv]) simp_all
qed


section \<open>Clearing all marks\<close>

lemma small_inv_cleared:
  assumes inv: "small_inv H s m pl es ss" and c: "c < BLOCKS_COUNT H"
  shows "small_inv H s (cleared (blk (START_ALLOCATOR_HEAP s) c) m) pl es ss"
proof -
  let ?B = "START_ALLOCATOR_HEAP s"
  let ?m = "cleared (blk ?B c) m"
  have "placed ?m (blk ?B i) (pl i)" if i: "i < BLOCKS_COUNT H" for i
  proof (cases "i = c")
    case True
    have "sized ?m (blk ?B c) = sized m (blk ?B c)" by (simp add: fun_eq_iff sized_def cleared_header)
    moreover have "placed m (blk ?B c) (pl c)" using inv c by (simp add: small_inv_def)
    ultimately show ?thesis using True by (cases "pl c") (simp_all add: opened_def cleared_header)
  next
    case False
    then show ?thesis using other_block(1) [OF _ c i False cleared_off] inv i by (simp add: small_inv_def)
  qed
  then show ?thesis using inv by (simp add: small_inv_def)
qed

definition clear_blocks :: "small_state \<Rightarrow> nat list \<Rightarrow> mem \<Rightarrow> mem" where
  "clear_blocks s xs m = fold (\<lambda>c. cleared (block_addr (NODES_LIST s c))) xs m"

lemma small_inv_clear_blocks:
  assumes "small_inv H s m pl es ss" and "set xs \<subseteq> {..<BLOCKS_COUNT H}"
  shows "small_inv H s (clear_blocks s xs m) pl es ss \<and> headers_only H (START_ALLOCATOR_HEAP s) m (clear_blocks s xs m)"
  using assms
proof (induction xs arbitrary: m)
  case (Cons c xs)
  let ?m = "cleared (blk (START_ALLOCATOR_HEAP s) c) m"
  have c: "c < BLOCKS_COUNT H" using Cons.prems(2) by simp
  have b: "block_addr (NODES_LIST s c) = blk (START_ALLOCATOR_HEAP s) c" using Cons.prems(1) c by (simp add: small_inv_def)
  have "small_inv H s (clear_blocks s xs ?m) pl es ss \<and> headers_only H (START_ALLOCATOR_HEAP s) ?m (clear_blocks s xs ?m)"
    using Cons.IH [OF small_inv_cleared [OF Cons.prems(1) c]] Cons.prems(2) by simp
  then show ?case
    using headers_only_trans [OF headers_only_block [OF c cleared_off]] b by (auto simp: clear_blocks_def)
qed (simp add: clear_blocks_def)

lemma clear_list_runs:
  "chain (nx s) p xs \<Longrightarrow> clear_list (NODES_LIST s) p m = Some (clear_blocks s xs m)"
proof (induction xs arbitrary: p m)
  case Nil
  then show ?case by (subst clear_list.simps) (simp add: clear_blocks_def)
next
  case (Cons x xs)
  then show ?case
    by (subst clear_list.simps)
      (simp add: clear_blocks_def nx_def cleared_def BITMAP_BYTES_COUNT_def GET_BITMAP_ADDR_def)
qed

lemma clear_lists_runs:
  assumes "\<forall>j. i \<le> j \<and> j < i + k \<longrightarrow> chain (nx s) (SEGREG_LIST s j) (ss j)"
  shows "clear_lists k i s m = Some (clear_blocks s (concat (map ss [i..<i + k])) m)"
  using assms
proof (induction k arbitrary: i m)
  case (Suc k)
  have u: "[i..<i + Suc k] = i # [i + 1..<i + 1 + k]" using upt_conv_Cons [of i "i + Suc k"] by simp
  have c: "chain (nx s) (SEGREG_LIST s i) (ss i)" using Suc.prems by simp
  have "clear_lists k (i + 1) s (clear_blocks s (ss i) m)
      = Some (clear_blocks s (concat (map ss [i + 1..<i + 1 + k])) (clear_blocks s (ss i) m))"
    by (rule Suc.IH) (use Suc.prems in auto)
  then show ?case unfolding u clear_lists.simps clear_list_runs [OF c] by (simp add: clear_blocks_def del: upt_Suc)
qed (simp add: clear_blocks_def)

definition listed :: "(nat \<Rightarrow> nat list) \<Rightarrow> nat list" where
  "listed ss = concat (map ss [1..<OBJECT_SIZE_UPPER_BOUND])"

lemma fill_all_runs:
  assumes inv: "small_inv H s m pl es ss"
  shows "fill_all_bitmaps_with_zeros s m = Some (clear_blocks s (listed ss) m)"
    and "small_inv H s (clear_blocks s (listed ss) m) pl es ss"
    and "headers_only H (START_ALLOCATOR_HEAP s) m (clear_blocks s (listed ss) m)"
    and "set (listed ss) = {i. i < BLOCKS_COUNT H \<and> (\<exists>k. size_ok k \<and> pl i = In_segreg k)}"
proof -
  have li: "lists_ok (BLOCKS_COUNT H) s pl es ss" using inv by (simp add: small_inv_def)
  have ch: "\<forall>j. 1 \<le> j \<and> j < 1 + (OBJECT_SIZE_UPPER_BOUND - 1) \<longrightarrow> chain (nx s) (SEGREG_LIST s j) (ss j)"
    using li by (auto simp: lists_ok_def size_ok_def)
  have "1 + (OBJECT_SIZE_UPPER_BOUND - 1) = OBJECT_SIZE_UPPER_BOUND"
    by (simp add: OBJECT_SIZE_UPPER_BOUND_def)
  then show "fill_all_bitmaps_with_zeros s m = Some (clear_blocks s (listed ss) m)"
    unfolding fill_all_bitmaps_with_zeros_def clear_lists_runs [OF ch] listed_def by simp
  show s: "set (listed ss) = {i. i < BLOCKS_COUNT H \<and> (\<exists>k. size_ok k \<and> pl i = In_segreg k)}"
    using li by (auto simp: listed_def lists_ok_def size_ok_def)
  then show "small_inv H s (clear_blocks s (listed ss) m) pl es ss"
    "headers_only H (START_ALLOCATOR_HEAP s) m (clear_blocks s (listed ss) m)"
    using small_inv_clear_blocks [OF inv, of "listed ss"] by auto
qed



section \<open>Finding a block\<close>

text \<open>The loop on a block that is out of all lists.\<close>

lemma slide_detached:
  assumes inv: "small_inv H s m pl es ss" and c: "c < BLOCKS_COUNT H" "pl c = Detached"
    and op: "opened m (blk (START_ALLOCATOR_HEAP s) c) k"
  obtains f pos m' where "slide_block s c (of_nat (al k)) m = Some (f, pos, m')"
    and "f \<longleftrightarrow> \<not> pos + of_nat (al k) > blk (START_ALLOCATOR_HEAP s) c + BLOCK_SIZE"
    and "small_inv H s m' pl es ss" and "free_bytes H s m' pl = free_bytes H s m pl"
    and "agree_off (blk (START_ALLOCATOR_HEAP s) c) m m'"
    and "\<not> f \<Longrightarrow> free_slots m (blk (START_ALLOCATOR_HEAP s) c) k = {}"
    and "f \<Longrightarrow> \<exists>j. j < slots (al k) \<and> load64 m' (blk (START_ALLOCATOR_HEAP s) c) = slot (blk (START_ALLOCATOR_HEAP s) c) (al k) j
      \<and> free_slot m' (blk (START_ALLOCATOR_HEAP s) c) k j
      \<and> sized m' (blk (START_ALLOCATOR_HEAP s) c) k
      \<and> free_slots m' (blk (START_ALLOCATOR_HEAP s) c) k = free_slots m (blk (START_ALLOCATOR_HEAP s) c) k"
proof -
  let ?B = "START_ALLOCATOR_HEAP s" and ?b = "blk (START_ALLOCATOR_HEAP s) c"
  have room: "small_room H ?B" and b: "block_addr (NODES_LIST s c) = ?b"
    using inv c(1) by (simp_all add: small_inv_def)
  obtain j where sz: "sized m ?b k" and j: "j \<le> slots (al k)" "load64 m ?b = slot ?b (al k) j"
    using op by (auto simp: opened_def)
  have k: "size_ok k" using sz by (simp add: sized_def)
  obtain j' m' where run: "slide ?B ?b (of_nat (al k)) (slot ?b (al k) j) m = Some (j' < slots (al k), slot ?b (al k) j', m')"
    and sl: "slid ?b k j j' m m'"
    using slide_runs [OF blk_block [OF room c(1)] blk_end [OF room c(1)] sz j(1)] by blast
  have j': "j' \<le> slots (al k)" and sz': "sized m' ?b k" and off: "agree_off ?b m m'"
    using sl sz by (simp_all add: slid_def sized_def)
  note fr = slid_free [OF k j(2,1) sl]
  show ?thesis
  proof (rule that [of "j' < slots (al k)" "slot ?b (al k) j'" m'])
    show "slide_block s c (of_nat (al k)) m = Some (j' < slots (al k), slot ?b (al k) j', m')"
      using run j(2) by (simp add: slide_block_def b GET_SLIDER_POSITION_ADDR_def)
    show "j' < slots (al k) \<longleftrightarrow> \<not> slot ?b (al k) j' + of_nat (al k) > ?b + BLOCK_SIZE"
      using slot_guard [OF blk_end [OF room c(1)] k j'] by (simp add: not_less)
    show "small_inv H s m' pl es ss" "free_bytes H s m' pl = free_bytes H s m pl"
      by (rule small_inv_header [OF inv c off sz'])+
    show "agree_off ?b m m'" by (rule off)
    show "free_slots m ?b k = {}" if "\<not> j' < slots (al k)" using fr(2) that .
    assume lt: "j' < slots (al k)"
    have ld: "load64 m' ?b = slot ?b (al k) j'" using sl lt by (simp add: slid_def)
    have "\<not> slot_marked m' ?b j'"
      using sl lt slots_ok(2) [OF k] by (simp add: slid_def)
    then have "free_slot m' ?b k j'" using free_slot_at [OF k ld j'] lt by simp
    then show "\<exists>i. i < slots (al k) \<and> load64 m' ?b = slot ?b (al k) i \<and> free_slot m' ?b k i
        \<and> sized m' ?b k \<and> free_slots m' ?b k = free_slots m ?b k"
      using lt ld sz' fr(1) [OF lt] by blast
  qed
qed

text \<open>
  The result of the search, in one predicate: on success a block out of all lists whose slider stands
  at a free slot, all of whose free bytes were free before; on failure no block of this size is left,
  and the bitmaps of all listed blocks have been cleared.
\<close>

definition found_block ::
  "size_t \<Rightarrow> nat \<Rightarrow> nat \<Rightarrow> nat set \<Rightarrow> nat option \<Rightarrow> small_state \<Rightarrow> mem \<Rightarrow> (nat \<Rightarrow> place) \<Rightarrow> (nat \<Rightarrow> nat list) \<Rightarrow> bool" where
  "found_block H t k F r s m pl ss \<longleftrightarrow>
     (case r of
        None \<Rightarrow> (\<forall>i < BLOCKS_COUNT H. pl i \<noteq> In_empty \<and> pl i \<noteq> In_segreg k)
          \<and> (\<exists>m0. m = clear_blocks s (listed ss) m0 \<and> free_bytes H s m0 pl \<subseteq> F)
      | Some c \<Rightarrow> c < BLOCKS_COUNT H \<and> pl c = Detached
          \<and> (let b = blk (START_ALLOCATOR_HEAP s) c in
              (\<exists>j < slots (al k). load64 m b = slot b (al k) j \<and> free_slot m b k j) \<and> sized m b k
              \<and> free_slots m b k \<union> free_bytes H s m pl \<subseteq> F))"

definition no_room :: "size_t \<Rightarrow> small_state \<Rightarrow> mem \<Rightarrow> (nat \<Rightarrow> place) \<Rightarrow> nat \<Rightarrow> bool" where
  "no_room H s m pl k \<longleftrightarrow> (\<forall>i < BLOCKS_COUNT H. pl i \<noteq> In_empty
     \<and> (pl i = In_segreg k \<longrightarrow> free_slots m (blk (START_ALLOCATOR_HEAP s) i) k = {}))"

text \<open>Without a block of the size: a new block, or \<^verbatim>\<open>NULL\<close>.\<close>

lemma find_block_new:
  assumes inv: "small_inv H s m pl es ss" and k: "size_ok k" and hd: "SEGREG_LIST s k = None"
  shows "\<exists>r s' m' pl' es' ss'. find_block t (of_nat k) (of_nat (al k)) None s m g = Some (r, s', m', g)
    \<and> small_inv H s' m' pl' es' ss' \<and> nodes_cache s' = nodes_cache s
    \<and> START_ALLOCATOR_HEAP s' = START_ALLOCATOR_HEAP s \<and> headers_only H (START_ALLOCATOR_HEAP s) m m'
    \<and> found_block H t k (free_bytes H s m pl) r s' m' pl' ss'
    \<and> (r = None \<longrightarrow> no_room H s m pl k)"
proof -
  let ?B = "START_ALLOCATOR_HEAP s"
  have u: "unat (of_nat k :: size_t) = k" by (rule unat_size_ok [OF k])
  have li: "lists_ok (BLOCKS_COUNT H) s pl es ss" using inv by (simp add: small_inv_def)
  have "ss k = []" using lists_segreg(1) [OF li k] hd by simp
  then have nos: "\<forall>i < BLOCKS_COUNT H. pl i \<noteq> In_segreg k" using lists_segreg(2) [OF li k] by auto
  show ?thesis
  proof (cases "EMPTY_LIST_HEAD s")
    case None
    then have "es = []" using lists_empty(1) [OF li] by simp
    then have noe: "\<forall>i < BLOCKS_COUNT H. pl i \<noteq> In_empty" using lists_empty(2) [OF li] by auto
    let ?m = "clear_blocks s (listed ss) m"
    have run: "find_block t (of_nat k) (of_nat (al k)) None s m g = Some (None, s, ?m, g)"
      using fill_all_runs(1) [OF inv]
      by (subst find_block.simps) (simp add: u get_block_from_segreg_list_def hd allocate_new_block_def None)
    have fb: "found_block H t k (free_bytes H s m pl) None s ?m pl ss"
      unfolding found_block_def using noe nos by auto
    have nr: "no_room H s m pl k" using noe nos by (simp add: no_room_def)
    show ?thesis
      by (intro exI [of _ None] exI [of _ s] exI [of _ ?m] exI [of _ pl] exI [of _ es] exI [of _ ss] conjI impI
          run fill_all_runs(2,3) [OF inv] refl fb nr)
  next
    case (Some c)
    obtain es' s' where new: "allocate_new_block (s, g) = (Some c, s', g)" and es: "es = c # es'"
      and c: "c < BLOCKS_COUNT H" "pl c = In_empty"
      and i': "small_inv H s' (init_header (NODES_LIST s' c) (of_nat k) m) (pl(c := Detached)) es' ss"
      and s': "START_ALLOCATOR_HEAP s' = ?B" "nodes_cache s' = nodes_cache s"
      and b: "block_addr (NODES_LIST s' c) = blk ?B c"
      and fr: "free_bytes H s' (init_header (NODES_LIST s' c) (of_nat k) m) (pl(c := Detached))
        = free_bytes H s m (pl(c := Detached))"
      using take_empty [OF inv Some k, of g] by blast
    let ?m = "init_header (NODES_LIST s' c) (of_nat k) m" and ?b = "blk ?B c"
    note h = init_header_opens [OF k refl b [symmetric], of m]
    have run: "find_block t (of_nat k) (of_nat (al k)) None s m g = Some (Some c, s', ?m, g)"
      using new by (subst find_block.simps) (simp add: u get_block_from_segreg_list_def hd)
    have f0: "free_slot ?m ?b k 0"
      using free_slot_at [OF k h(2), of 0] h(4) slots_ok [OF k] by simp
    have "free_slots ?m ?b k \<subseteq> free_at m ?b (pl c)"
    proof -
      have "80 + al k * j + al k \<le> 4096" if "free_slot ?m ?b k j" for j
        using that slot_fits [of "al k" j] al_bounds(1) [OF k] by (simp add: free_slot_def)
      then show ?thesis using c(2) by (fastforce simp: free_slots_def slot_range_def)
    qed
    then have "free_slots ?m ?b k \<union> free_bytes H s' ?m (pl(c := Detached)) \<subseteq> free_bytes H s m pl"
      using free_bytes_detach [OF c(1), of s m pl] fr by auto
    then have fb: "found_block H t k (free_bytes H s m pl) (Some c) s' ?m (pl(c := Detached)) ss"
      using c(1) h(1,2) f0 slots_ok(1) [OF k] s'(1) by (auto simp: found_block_def Let_def intro!: exI [of _ 0])
    show ?thesis
      by (intro exI [of _ "Some c"] exI [of _ s'] exI [of _ ?m] exI [of _ "pl(c := Detached)"] exI [of _ es'] exI [of _ ss]
          conjI run i' s' fb headers_only_block [OF c(1) h(3)]) simp
  qed
qed


lemma find_block_lists:
  assumes "small_inv H s m pl es ss" and "size_ok k" and "nodes_cache s t k = None"
  shows "\<exists>r s' m' pl' es' ss'. find_block t (of_nat k) (of_nat (al k)) None s m g = Some (r, s', m', g)
    \<and> small_inv H s' m' pl' es' ss' \<and> nodes_cache s' = nodes_cache s
    \<and> START_ALLOCATOR_HEAP s' = START_ALLOCATOR_HEAP s \<and> headers_only H (START_ALLOCATOR_HEAP s) m m'
    \<and> found_block H t k (free_bytes H s m pl) r s' m' pl' ss'
    \<and> (r = None \<longrightarrow> no_room H s m pl k)"
  using assms
proof (induction "length (ss k)" arbitrary: s m pl ss rule: less_induct)
  case less
  let ?B = "START_ALLOCATOR_HEAP s"
  note inv = less.prems(1) and k = less.prems(2)
  show ?case
  proof (cases "SEGREG_LIST s k")
    case None
    then show ?thesis by (rule find_block_new [OF inv k])
  next
    case (Some c)
    let ?b = "blk ?B c" and ?pl = "pl(c := Detached)"
    obtain cs s1 where get: "get_block_from_segreg_list k s = (Some c, s1)" and cs: "ss k = c # cs"
      and c: "c < BLOCKS_COUNT H" "pl c = In_segreg k"
      and i1: "small_inv H s1 m ?pl es (ss(k := cs))"
      and s1: "START_ALLOCATOR_HEAP s1 = ?B" "nodes_cache s1 = nodes_cache s"
      using take_segreg [OF inv k Some] by blast
    have op: "opened m ?b k" using inv c by (auto simp: small_inv_def)
    obtain f pos m' where run: "slide_block s1 c (of_nat (al k)) m = Some (f, pos, m')"
      and i': "small_inv H s1 m' ?pl es (ss(k := cs))" and fr: "free_bytes H s1 m' ?pl = free_bytes H s1 m ?pl"
      and off: "agree_off ?b m m'" and no: "\<not> f \<Longrightarrow> free_slots m ?b k = {}"
      and yes: "f \<Longrightarrow> \<exists>j. j < slots (al k) \<and> load64 m' ?b = slot ?b (al k) j \<and> free_slot m' ?b k j
        \<and> sized m' ?b k \<and> free_slots m' ?b k = free_slots m ?b k"
      using slide_detached [OF i1 c(1), of k] op s1(1) by (metis fun_upd_same)
    have F: "free_bytes H s m pl = free_slots m ?b k \<union> free_bytes H s1 m' ?pl"
      using free_bytes_detach [OF c(1), of s m pl] c(2) fr s1(1) by (simp add: free_bytes_def)
    have u: "unat (of_nat k :: size_t) = k" by (rule unat_size_ok [OF k])
    show ?thesis
    proof (cases f)
      case True
      have "find_block t (of_nat k) (of_nat (al k)) None s m g = Some (Some c, s1, m', g)"
        using get run True by (subst find_block.simps) (simp add: u)
      moreover have "found_block H t k (free_bytes H s m pl) (Some c) s1 m' ?pl (ss(k := cs))"
        using yes [OF True] c(1) s1(1) F unfolding found_block_def Let_def by auto
      ultimately show ?thesis using i' s1 headers_only_block [OF c(1) off] by blast
    next
      case False
      have step: "find_block t (of_nat k) (of_nat (al k)) None s m g = find_block t (of_nat k) (of_nat (al k)) None s1 m' g"
        using get run False by (subst find_block.simps) (simp add: u)
      have "length ((ss(k := cs)) k) < length (ss k)" by (simp add: cs)
      moreover have "nodes_cache s1 t k = None" using s1(2) less.prems(3) by simp
      ultimately obtain r s' m2 pl' es' ss' where rec: "find_block t (of_nat k) (of_nat (al k)) None s1 m' g = Some (r, s', m2, g)"
        "small_inv H s' m2 pl' es' ss'" "nodes_cache s' = nodes_cache s1" "START_ALLOCATOR_HEAP s' = START_ALLOCATOR_HEAP s1"
        "headers_only H (START_ALLOCATOR_HEAP s1) m' m2" "found_block H t k (free_bytes H s1 m' ?pl) r s' m2 pl' ss'"
        and nr: "r = None \<longrightarrow> no_room H s1 m' ?pl k"
        using less.hyps [OF _ i' k] by blast
      have "no_room H s m pl k" if "r = None"
        unfolding no_room_def
      proof (intro allI impI)
        fix i assume i: "i < BLOCKS_COUNT H"
        have n: "?pl i \<noteq> In_empty" "?pl i = In_segreg k \<longrightarrow> free_slots m' (blk ?B i) k = {}"
          using nr that i s1(1) by (simp_all add: no_room_def)
        have same: "free_slots m' (blk ?B i) k = free_slots m (blk ?B i) k" if "i \<noteq> c" "pl i = In_segreg k"
          using other_block(2) [OF _ c(1) i that(1) off, of "In_segreg k"] inv i that(2) by (auto simp: small_inv_def)
        show "pl i \<noteq> In_empty \<and> (pl i = In_segreg k \<longrightarrow> free_slots m (blk ?B i) k = {})"
          using n same no [OF False] c(2) by (cases "i = c") simp_all
      qed
      then show ?thesis using rec s1 step headers_only_trans [OF headers_only_block [OF c(1) off]] F no [OF False] by simp blast
    qed
  qed
qed


text \<open>
  The whole search, with the turn on the cached block. The cache entry is dropped here in the
  statement only: the caller overwrites it next.
\<close>

lemma set_cache_None: "nodes_cache s t k = None \<Longrightarrow> set_cache t k None s = s"
  by (cases s) (auto simp: set_cache_def fun_eq_iff)

lemma slide_block_cache [simp]: "slide_block (set_cache t k c s) = slide_block s"
  by (simp add: fun_eq_iff slide_block_def)

lemma free_bytes_cache [simp]: "free_bytes H (set_cache t k c s) = free_bytes H s"
  by (simp add: fun_eq_iff free_bytes_def)

definition no_room_for :: "size_t \<Rightarrow> small_state \<Rightarrow> mem \<Rightarrow> (nat \<Rightarrow> place) \<Rightarrow> nat \<Rightarrow> nat \<Rightarrow> bool" where
  "no_room_for H s m pl t k \<longleftrightarrow> (\<forall>i < BLOCKS_COUNT H. pl i \<noteq> In_empty
     \<and> (pl i = In_segreg k \<or> pl i = In_cache t k \<longrightarrow> free_slots m (blk (START_ALLOCATOR_HEAP s) i) k = {}))"

lemma find_block_runs:
  assumes inv: "small_inv H s m pl es ss" and k: "size_ok k"
  shows "\<exists>r s' m' pl' es' ss'.
      find_block t (of_nat k) (of_nat (al k)) (nodes_cache s t k) s m g = Some (r, s', m', g)
    \<and> small_inv H (set_cache t k None s') m' pl' es' ss'
    \<and> START_ALLOCATOR_HEAP s' = START_ALLOCATOR_HEAP s \<and> headers_only H (START_ALLOCATOR_HEAP s) m m'
    \<and> found_block H t k (free_bytes H s m pl) r (set_cache t k None s') m' pl' ss'
    \<and> (r = None \<longrightarrow> no_room_for H s m pl t k \<and> set_cache t k None s' = s')"
proof (cases "nodes_cache s t k")
  case None
  have "pl i \<noteq> In_cache t k" if "i < BLOCKS_COUNT H" for i
    using inv k None that lists_cache [of "BLOCKS_COUNT H" s pl es ss k t i] by (auto simp: small_inv_def)
  then have "no_room_for H s m pl t k" if "no_room H s m pl k"
    using that by (auto simp: no_room_for_def no_room_def)
  with find_block_lists [OF inv k None] None set_cache_None show ?thesis by metis
next
  case (Some c)
  let ?B = "START_ALLOCATOR_HEAP s" and ?s = "set_cache t k None s" and ?pl = "pl(c := Detached)"
  let ?b = "blk ?B c"
  note c = uncache(1,2) [OF inv k Some] and i1 = uncache(3) [OF inv k Some]
  have op: "opened m ?b k" and badr: "block_addr (NODES_LIST s c) = ?b" using inv c by (auto simp: small_inv_def)
  obtain f pos m' where run: "slide_block s c (of_nat (al k)) m = Some (f, pos, m')"
    and fpos: "f \<longleftrightarrow> \<not> pos + of_nat (al k) > ?b + BLOCK_SIZE"
    and i': "small_inv H ?s m' ?pl es ss" and fr: "free_bytes H s m' ?pl = free_bytes H s m ?pl"
    and off: "agree_off ?b m m'" and no: "\<not> f \<Longrightarrow> free_slots m ?b k = {}"
    and yes: "f \<Longrightarrow> \<exists>j. j < slots (al k) \<and> load64 m' ?b = slot ?b (al k) j \<and> free_slot m' ?b k j
      \<and> sized m' ?b k \<and> free_slots m' ?b k = free_slots m ?b k"
    using slide_detached [OF i1 c(1), of k] op by (metis fun_upd_same set_cache_simps(1) slide_block_cache free_bytes_cache)
  have F: "free_bytes H s m pl = free_slots m ?b k \<union> free_bytes H s m' ?pl"
    using free_bytes_detach [OF c(1), of s m pl] c(2) fr by simp
  have u: "unat (of_nat k :: size_t) = k" by (rule unat_size_ok [OF k])
  show ?thesis
  proof (cases f)
    case True
    have "find_block t (of_nat k) (of_nat (al k)) (nodes_cache s t k) s m g = Some (Some c, s, m', g)"
      using run fpos True by (subst find_block.simps) (simp add: u Some badr)
    moreover have "found_block H t k (free_bytes H s m pl) (Some c) ?s m' ?pl ss"
      using yes [OF True] c(1) F unfolding found_block_def Let_def by auto
    ultimately show ?thesis using i' headers_only_block [OF c(1) off] by blast
  next
    case False
    have step: "find_block t (of_nat k) (of_nat (al k)) (nodes_cache s t k) s m g
        = find_block t (of_nat k) (of_nat (al k)) None ?s m' g"
      using run fpos False by (subst find_block.simps) (simp add: u Some badr)
    obtain r s' m2 pl' es' ss' where rec: "find_block t (of_nat k) (of_nat (al k)) None ?s m' g = Some (r, s', m2, g)"
      "small_inv H s' m2 pl' es' ss'" and ca: "nodes_cache s' = nodes_cache ?s" and B: "START_ALLOCATOR_HEAP s' = ?B"
      "headers_only H ?B m' m2" "found_block H t k (free_bytes H s m' ?pl) r s' m2 pl' ss'"
      and nr: "r = None \<longrightarrow> no_room H ?s m' ?pl k"
      using find_block_lists [OF i' k, of t g] by auto
    have s': "set_cache t k None s' = s'" using ca by (intro set_cache_None) simp
    have "no_room_for H s m pl t k" if "r = None"
      unfolding no_room_for_def
    proof (intro allI impI)
      fix i assume i: "i < BLOCKS_COUNT H"
      have n: "?pl i \<noteq> In_empty" "?pl i = In_segreg k \<longrightarrow> free_slots m' (blk ?B i) k = {}"
        using nr that i by (simp_all add: no_room_def)
      have same: "free_slots m' (blk ?B i) k = free_slots m (blk ?B i) k" if "i \<noteq> c" "pl i = In_segreg k"
        using other_block(2) [OF _ c(1) i that(1) off, of "In_segreg k"] inv i that(2) by (auto simp: small_inv_def)
      have "i = c" if "pl i = In_cache t k"
      proof -
        have "nodes_cache s t k = Some i"
          using inv k i that lists_cache [of "BLOCKS_COUNT H" s pl es ss k t i] by (simp add: small_inv_def)
        then show ?thesis using Some by simp
      qed
      then show "pl i \<noteq> In_empty \<and> (pl i = In_segreg k \<or> pl i = In_cache t k \<longrightarrow> free_slots m (blk ?B i) k = {})"
        using n same no [OF False] c(2) by (cases "i = c") auto
    qed
    then show ?thesis
      using rec B s' step headers_only_trans [OF headers_only_block [OF c(1) off]] F no [OF False]
      by (intro exI [of _ r] exI [of _ s'] exI [of _ m2] exI [of _ pl'] exI [of _ es'] exI [of _ ss']) simp
  qed
qed


section \<open>Allocating\<close>

lemma free_at_bound:
  assumes "placed m b p" shows "free_at m b p \<subseteq> {unat b + 80 ..< unat b + 4096}"
proof -
  have "free_slots m b k \<subseteq> {unat b + 80 ..< unat b + 4096}" if k: "size_ok k" for k
  proof -
    have "80 + al k * j + al k \<le> 4096" if "free_slot m b k j" for j
      using that slot_fits [of "al k" j] al_bounds(1) [OF k] by (simp add: free_slot_def)
    then show ?thesis by (fastforce simp: free_slots_def slot_range_def)
  qed
  then show ?thesis using assms by (cases p) (auto simp: opened_def sized_def)
qed

lemma free_bytes_elsewhere:
  assumes inv: "small_inv H s m pl es ss" and c: "c < BLOCKS_COUNT H" "pl c = Detached"
    and "x \<in> free_bytes H s m pl"
  shows "x < unat (blk (START_ALLOCATOR_HEAP s) c) + 80 \<or> unat (blk (START_ALLOCATOR_HEAP s) c) + 4096 \<le> x"
proof -
  let ?B = "START_ALLOCATOR_HEAP s"
  have room: "small_room H ?B" using inv by (simp add: small_inv_def)
  obtain i where i: "i < BLOCKS_COUNT H" "x \<in> free_at m (blk ?B i) (pl i)"
    using assms(4) by (auto simp: free_bytes_def)
  then have "x \<in> {unat (blk ?B i) + 80 ..< unat (blk ?B i) + 4096}"
    using free_at_bound [of m "blk ?B i" "pl i"] inv by (auto simp: small_inv_def)
  then have x: "unat ?B + 4096 * i + 80 \<le> x" "x < unat ?B + 4096 * i + 4096" by (simp_all add: unat_blk [OF room i(1)])
  have "i \<noteq> c" using i(2) c(2) by auto
  then have "i + 1 \<le> c \<or> c + 1 \<le> i" by auto
  then have "4096 * i + 4096 \<le> 4096 * c \<or> 4096 * c + 4096 \<le> 4096 * i" by auto
  then show ?thesis using x by (auto simp: unat_blk [OF room c(1)])
qed


text \<open>From the block found: the object, the slider behind it, the block back in the cache.\<close>

lemma finish_block:
  assumes inv: "small_inv H (set_cache t k None s) m pl es ss" and k: "size_ok k"
    and fb: "found_block H t k F (Some c) (set_cache t k None s) m pl ss"
  shows "\<exists>j < slots (al k). let b = blk (START_ALLOCATOR_HEAP s) c; new = slot b (al k) (j + 1);
      s' = set_cache t k (if new \<ge> b + BLOCK_SIZE then None else Some c) s; m' = store64 m b new in
    load64 m b = slot b (al k) j \<and> c < BLOCKS_COUNT H \<and> block_addr (NODES_LIST s c) = b
    \<and> (\<exists>pl'. small_inv H s' m' pl' es ss \<and> free_bytes H s' m' pl' \<subseteq> F - slot_range b k j)
    \<and> slot_range b k j \<subseteq> F \<and> agree_off b m m'"
proof -
  let ?s = "set_cache t k None s" and ?B = "START_ALLOCATOR_HEAP s"
  let ?b = "blk ?B c"
  have c: "c < BLOCKS_COUNT H" "pl c = Detached" and sz: "sized m ?b k"
    and F: "free_slots m ?b k \<union> free_bytes H ?s m pl \<subseteq> F"
    and "\<exists>j < slots (al k). load64 m ?b = slot ?b (al k) j \<and> free_slot m ?b k j"
    using fb by (simp_all add: found_block_def Let_def)
  then obtain j where j: "j < slots (al k)" "load64 m ?b = slot ?b (al k) j" "free_slot m ?b k j" by blast
  have room: "small_room H ?B" and badr: "block_addr (NODES_LIST s c) = ?b" using inv c(1) by (simp_all add: small_inv_def)
  let ?new = "slot ?b (al k) (j + 1)"
  let ?m = "store64 m ?b ?new"
  note adv = advance_slider [OF sz j(2,1) refl]
  have i2: "small_inv H ?s ?m pl es ss" "free_bytes H ?s ?m pl = free_bytes H ?s m pl"
    using small_inv_header [OF inv c, of ?m k] adv(1,2) by (auto simp: opened_def)
  have range: "slot_range ?b k j \<subseteq> {unat ?b + 80 ..< unat ?b + 4096}"
    using slot_fits [of "al k" j] al_bounds(1) [OF k] j(1) by (fastforce simp: slot_range_def)
  have "free_bytes H s m pl \<inter> slot_range ?b k j = {}"
    using free_bytes_elsewhere [OF inv c] range by fastforce
  then have el: "free_bytes H s m pl \<subseteq> F - slot_range ?b k j" using F by auto
  have "\<exists>pl'. small_inv H (set_cache t k (if ?new \<ge> ?b + BLOCK_SIZE then None else Some c) s) ?m pl' es ss
      \<and> free_bytes H s ?m pl' \<subseteq> F - slot_range ?b k j"
  proof (cases "?new \<ge> ?b + BLOCK_SIZE")
    case True
    then show ?thesis using i2 el by (intro exI [of _ pl]) simp
  next
    case False
    have "small_inv H (set_cache t k (Some c) s) ?m (pl(c := In_cache t k)) es ss"
      using recache [OF i2(1) k _ c, of t] adv(1) by simp
    moreover have "(pl(c := In_cache t k))(c := Detached) = pl" using c(2) by (simp add: fun_eq_iff)
    then have "free_bytes H s ?m (pl(c := In_cache t k)) = free_slots ?m ?b k \<union> free_bytes H s ?m pl"
      using free_bytes_detach [OF c(1), of s ?m "pl(c := In_cache t k)"] by simp
    then have "free_bytes H s ?m (pl(c := In_cache t k)) \<subseteq> F - slot_range ?b k j"
      using adv(3) F el i2(2) by auto
    ultimately show ?thesis using False by auto
  qed
  then show ?thesis
    using j c(1) badr adv(2) F slot_range_free [OF j(3)] by (intro exI [of _ j]) (auto simp: Let_def)
qed

lemma allocate_small_runs:
  assumes inv: "small_inv H s m pl es ss" and k: "size_ok k"
  shows "\<exists>a s' m' g' pl' es' ss'. allocate_small_object t (of_nat k) (s, m, g) = Some (a, s', m', g')
    \<and> small_inv H s' m' pl' es' ss' \<and> START_ALLOCATOR_HEAP s' = START_ALLOCATOR_HEAP s
    \<and> headers_only H (START_ALLOCATOR_HEAP s) m m'
    \<and> (a = 0 \<and> no_room_for H s m pl t k
          \<and> (\<exists>m0. m' = clear_blocks s' (listed ss') m0 \<and> free_bytes H s' m0 pl' \<subseteq> free_bytes H s m pl)
       \<or> (\<exists>i < BLOCKS_COUNT H. \<exists>j < slots (al k). a = slot (blk (START_ALLOCATOR_HEAP s) i) (al k) j
          \<and> slot_range (blk (START_ALLOCATOR_HEAP s) i) k j \<subseteq> free_bytes H s m pl
          \<and> free_bytes H s' m' pl' \<subseteq> free_bytes H s m pl - slot_range (blk (START_ALLOCATOR_HEAP s) i) k j))"
proof -
  let ?F = "free_bytes H s m pl" and ?B = "START_ALLOCATOR_HEAP s"
  have u: "unat (of_nat k :: size_t) = k" by (rule unat_size_ok [OF k])
  obtain res g1 where cs: "check_the_space (of_nat (al k)) g = (res, g1)" by fastforce
  obtain r s1 m1 pl1 es1 ss1 where
    run: "find_block t (of_nat k) (of_nat (al k)) (nodes_cache s t k) s m g1 = Some (r, s1, m1, g1)"
    and i1: "small_inv H (set_cache t k None s1) m1 pl1 es1 ss1"
    and s1: "START_ALLOCATOR_HEAP s1 = ?B" and ho: "headers_only H ?B m m1"
    and fb: "found_block H t k ?F r (set_cache t k None s1) m1 pl1 ss1"
    and nr: "r = None \<longrightarrow> no_room_for H s m pl t k \<and> set_cache t k None s1 = s1"
    using find_block_runs [OF inv k, of t g1] by blast
  show ?thesis
  proof (cases r)
    case None
    have "allocate_small_object t (of_nat k) (s, m, g) = Some (0, s1, m1, g1)"
      using run None by (simp add: allocate_small_object_def align_word [OF k] cs u)
    moreover have "set_cache t k None s1 = s1" "no_room_for H s m pl t k" using nr None by simp_all
    moreover have "\<exists>m0. m1 = clear_blocks s1 (listed ss1) m0 \<and> free_bytes H s1 m0 pl1 \<subseteq> ?F"
      using fb None nr by (simp add: found_block_def)
    ultimately show ?thesis using i1 s1 ho
      by (intro exI [of _ 0] exI [of _ s1] exI [of _ m1] exI [of _ g1] exI [of _ pl1] exI [of _ es1] exI [of _ ss1]) simp
  next
    case (Some c)
    let ?b = "blk ?B c"
    obtain j pl' where j: "j < slots (al k)" and ld: "load64 m1 ?b = slot ?b (al k) j" and c: "c < BLOCKS_COUNT H"
      and b: "block_addr (NODES_LIST s1 c) = ?b"
      and i': "small_inv H (set_cache t k (if slot ?b (al k) (j + 1) \<ge> ?b + BLOCK_SIZE then None else Some c) s1)
          (store64 m1 ?b (slot ?b (al k) (j + 1))) pl' es1 ss1"
      and fr: "free_bytes H s1 (store64 m1 ?b (slot ?b (al k) (j + 1))) pl' \<subseteq> ?F - slot_range ?b k j"
      and sub: "slot_range ?b k j \<subseteq> ?F" and off: "agree_off ?b m1 (store64 m1 ?b (slot ?b (al k) (j + 1)))"
      using finish_block [OF i1 k, of ?F c] fb Some s1 by (auto simp: Let_def)
    let ?s = "set_cache t k (if slot ?b (al k) (j + 1) \<ge> ?b + BLOCK_SIZE then None else Some c) s1"
    let ?m = "store64 m1 ?b (slot ?b (al k) (j + 1))"
    have "allocate_small_object t (of_nat k) (s, m, g)
        = Some (slot ?b (al k) j, ?s, ?m, log ALLOCATE_NEW_OBJECT OK g1)"
      using run Some by (simp add: allocate_small_object_def align_word [OF k] cs u b ld GET_SLIDER_POSITION_ADDR_def slot_step Let_def)
    moreover have "headers_only H ?B m ?m" using headers_only_trans [OF ho headers_only_block [OF c off]] .
    moreover have "free_bytes H ?s ?m pl' \<subseteq> ?F - slot_range ?b k j" using fr by simp
    ultimately show ?thesis using i' s1 j c sub by (metis set_cache_simps(1))
  qed
qed

end
