(* ===== verification/Index_Trees.thy ===== *)
theory Index_Trees
  imports Prelude
begin

text \<open>
  Reference algorithms on immutable trees: what the pointer programs of
  \<^verbatim>\<open>allocator/binary-search-tree.c\<close> and \<^verbatim>\<open>allocator/treap.c\<close> compute when the nodes they
  reach form a tree. The elements stand for tree nodes; a key function (the address of a node's
  block) orders them and a priority function (the size of its block) heap-orders the treap. Every
  fact is stated through the in-order list, so the component proofs never look at tree shapes.
\<close>


section \<open>Insertion at a leaf and the ends of the in-order list\<close>

fun tinsert :: "('a \<Rightarrow> 'k::linorder) \<Rightarrow> 'a \<Rightarrow> 'a tree \<Rightarrow> 'a tree" where
  "tinsert k n Leaf = Node Leaf n Leaf"
| "tinsert k n (Node l i r) =
     (if k n < k i then Node (tinsert k n l) i r else Node l i (tinsert k n r))"

fun leftmost :: "'a tree \<Rightarrow> 'a option" where
  "leftmost Leaf = None"
| "leftmost (Node l i r) = (if l = Leaf then Some i else leftmost l)"

fun rightmost :: "'a tree \<Rightarrow> 'a option" where
  "rightmost Leaf = None"
| "rightmost (Node l i r) = (if r = Leaf then Some i else rightmost r)"

fun tdelmin :: "'a tree \<Rightarrow> 'a tree" where
  "tdelmin Leaf = Leaf"
| "tdelmin (Node l i r) = (if l = Leaf then r else Node (tdelmin l) i r)"

fun tdelmax :: "'a tree \<Rightarrow> 'a tree" where
  "tdelmax Leaf = Leaf"
| "tdelmax (Node l i r) = (if r = Leaf then l else Node l i (tdelmax r))"

lemma set_tinsert [simp]: "set_tree (tinsert k n t) = insert n (set_tree t)"
  by (induction t) auto

text \<open>No left children at all: what insertions in increasing order build.\<close>

fun right_spine :: "'a tree \<Rightarrow> bool" where
  "right_spine Leaf \<longleftrightarrow> True"
| "right_spine (Node l i r) \<longleftrightarrow> l = Leaf \<and> right_spine r"

lemma right_spine_tinsert:
  "right_spine t \<Longrightarrow> \<forall>i \<in> set_tree t. k i < k n \<Longrightarrow> right_spine (tinsert k n t)"
  by (induction t) (auto dest: less_not_sym)

lemma insort_key_append_le:
  "\<forall>y \<in> set ys. k n < k y \<Longrightarrow> insort_key k n (xs @ ys) = insort_key k n xs @ ys"
proof (induction xs)
  case Nil
  then show ?case by (cases ys) auto
qed simp

lemma insort_key_append_gt:
  "\<forall>x \<in> set xs. k x < k n \<Longrightarrow> insort_key k n (xs @ ys) = xs @ insort_key k n ys"
  by (induction xs) auto

lemma inorder_tinsert:
  "sorted_by k (inorder t) \<Longrightarrow> k n \<notin> k ` set_tree t \<Longrightarrow>
     inorder (tinsert k n t) = insort_key k n (inorder t)"
proof (induction t)
  case (Node l i r)
  show ?case
  proof (cases "k n < k i")
    case True
    have "\<forall>y \<in> set (i # inorder r). k n < k y"
      using Node.prems True by (auto intro: less_trans)
    then have "insort_key k n (inorder l @ i # inorder r) = insort_key k n (inorder l) @ i # inorder r"
      by (rule insort_key_append_le)
    with Node True show ?thesis by (simp add: image_Un)
  next
    case False
    then have gt: "k i < k n"
      using Node.prems by (metis imageI linorder_neqE tree.set_intros(2))
    have "\<forall>x \<in> set (inorder l @ [i]). k x < k n"
      using Node.prems gt by (auto intro: less_trans)
    then have "insort_key k n ((inorder l @ [i]) @ inorder r)
        = (inorder l @ [i]) @ insort_key k n (inorder r)"
      by (rule insort_key_append_gt)
    with Node False show ?thesis by (simp add: image_Un)
  qed
qed simp

lemma sorted_by_insort:
  "sorted_by k xs \<Longrightarrow> k n \<notin> k ` set xs \<Longrightarrow> sorted_by k (insort_key k n xs)"
  by (induction xs) (auto simp: set_insort_key order.strict_iff_order)

lemma sorted_tinsert:
  "sorted_by k (inorder t) \<Longrightarrow> k n \<notin> k ` set_tree t \<Longrightarrow> sorted_by k (inorder (tinsert k n t))"
  by (simp add: inorder_tinsert sorted_by_insort)

lemma leftmost_hd: "leftmost t = (if t = Leaf then None else Some (hd (inorder t)))"
  by (induction t) (auto simp: hd_append)

lemma rightmost_last: "rightmost t = (if t = Leaf then None else Some (last (inorder t)))"
  by (induction t) (auto simp: last_append)

lemma inorder_tdelmin: "inorder (tdelmin t) = tl (inorder t)"
  by (induction t) auto

lemma inorder_tdelmax: "inorder (tdelmax t) = butlast (inorder t)"
  by (induction t) (auto simp: butlast_append)

lemma inorder_Nil_iff [simp]: "inorder t = [] \<longleftrightarrow> t = Leaf"
  by (cases t) auto

lemma inorder_leftmost:
  "leftmost t = Some m \<Longrightarrow> inorder t = m # inorder (tdelmin t)"
  by (auto simp: leftmost_hd inorder_tdelmin split: if_splits)

lemma inorder_rightmost:
  "rightmost t = Some m \<Longrightarrow> inorder t = inorder (tdelmax t) @ [m]"
  by (auto simp: rightmost_last inorder_tdelmax split: if_splits)

lemma leftmost_mem: "leftmost t = Some m \<Longrightarrow> m \<in> set_tree t"
  by (auto simp flip: set_inorder simp: leftmost_hd split: if_splits)

lemma rightmost_mem: "rightmost t = Some m \<Longrightarrow> m \<in> set_tree t"
  by (auto simp flip: set_inorder simp: rightmost_last split: if_splits)

lemma set_tree_leftmost:
  "leftmost t = Some m \<Longrightarrow> set_tree t = insert m (set_tree (tdelmin t))"
  by (drule inorder_leftmost) (metis list.simps(15) set_inorder)

lemma set_tree_rightmost:
  "rightmost t = Some m \<Longrightarrow> set_tree t = insert m (set_tree (tdelmax t))"
  by (drule inorder_rightmost) (metis Un_commute insert_is_Un list.simps(15) set_append set_empty set_inorder)

lemma leftmost_notin:
  "leftmost t = Some m \<Longrightarrow> distinct (inorder t) \<Longrightarrow> m \<notin> set_tree (tdelmin t)"
  by (metis distinct.simps(2) inorder_leftmost set_inorder)

lemma rightmost_notin:
  "rightmost t = Some m \<Longrightarrow> distinct (inorder t) \<Longrightarrow> m \<notin> set_tree (tdelmax t)"
  by (drule inorder_rightmost) (simp flip: set_inorder)

lemma set_tdelmin_subset: "set_tree (tdelmin t) \<subseteq> set_tree t"
  by (induction t) auto

lemma set_tdelmax_subset: "set_tree (tdelmax t) \<subseteq> set_tree t"
  by (induction t) auto

lemma leftmost_None [simp]: "leftmost t = None \<longleftrightarrow> t = Leaf"
  by (simp add: leftmost_hd)

lemma rightmost_None [simp]: "rightmost t = None \<longleftrightarrow> t = Leaf"
  by (simp add: rightmost_last)


section \<open>Search\<close>

text \<open>By key, and for the element whose region \<open>c i\<close> holds the address.\<close>

fun tfind :: "('a \<Rightarrow> 'k::linorder) \<Rightarrow> 'k \<Rightarrow> 'a tree \<Rightarrow> 'a option" where
  "tfind k a Leaf = None"
| "tfind k a (Node l i r) =
     (if a = k i then Some i else if a < k i then tfind k a l else tfind k a r)"

fun tfind_region :: "('a \<Rightarrow> 'k::linorder) \<Rightarrow> ('a \<Rightarrow> bool) \<Rightarrow> 'k \<Rightarrow> 'a tree \<Rightarrow> 'a option" where
  "tfind_region k c a Leaf = None"
| "tfind_region k c a (Node l i r) =
     (if c i then Some i
      else if a < k i then tfind_region k c a l else tfind_region k c a r)"

lemma tfind_sound: "tfind k a t = Some i \<Longrightarrow> i \<in> set_tree t \<and> k i = a"
  by (induction t) (auto split: if_splits)

lemma tfind_complete:
  "sorted_by k (inorder t) \<Longrightarrow> i \<in> set_tree t \<Longrightarrow> tfind k (k i) t = Some i"
proof (induction t)
  case (Node l j r)
  consider "i = j" | "i \<in> set_tree l" "k i < k j" | "i \<in> set_tree r" "k j < k i"
    using Node.prems by auto
  then show ?case
    by cases (use Node less_not_sym less_imp_neq in \<open>auto dest: less_not_sym\<close>)
qed simp

lemma tfind_iff:
  assumes "sorted_by k (inorder t)"
  shows "tfind k a t = Some i \<longleftrightarrow> i \<in> set_tree t \<and> k i = a"
  using tfind_sound [of k a t i] tfind_complete [OF assms, of i] by blast

lemma tfind_region_sound: "tfind_region k c a t = Some i \<Longrightarrow> i \<in> set_tree t \<and> c i"
  by (induction t) (auto split: if_splits)

lemma tfind_region_complete:
  assumes "sorted_by k (inorder t)" and "i \<in> set_tree t" and "c i"
    and "\<forall>j \<in> set_tree t. c j \<longrightarrow> j = i"
    and "\<forall>j \<in> set_tree t. k i < k j \<longrightarrow> a < k j"
    and "\<forall>j \<in> set_tree t. k j < k i \<longrightarrow> \<not> a < k j"
  shows "tfind_region k c a t = Some i"
  using assms
proof (induction t)
  case (Node l j r)
  consider (here) "i = j" | (lt) "i \<in> set_tree l" "k i < k j" | (gt) "i \<in> set_tree r" "k j < k i"
    using Node.prems(1,2) by auto
  then show ?case
  proof cases
    case here
    with Node.prems(3) show ?thesis by simp
  next
    case lt
    then have "\<not> c j" "a < k j"
      using Node.prems(4,5) by auto
    moreover have "tfind_region k c a l = Some i"
      using lt Node.prems by (intro Node.IH(1)) simp_all
    ultimately show ?thesis by simp
  next
    case gt
    then have "\<not> c j" "\<not> a < k j"
      using Node.prems(4,6) by auto
    moreover have "tfind_region k c a r = Some i"
      using gt Node.prems by (intro Node.IH(2)) simp_all
    ultimately show ?thesis by simp
  qed
qed simp


section \<open>Deletion that moves the successor's block into the deleted node\<close>

text \<open>
  \<^verbatim>\<open>remove_bst\<close> deletes by key. Where the node found has two children, the code does not unlink
  that node: it copies the block of its in-order successor into it and unlinks the successor. So
  the result is a tree, the node that left it, and the new assignment of blocks to nodes.
\<close>

fun tdelete ::
  "('v \<Rightarrow> 'k::linorder) \<Rightarrow> 'k \<Rightarrow> 'a tree \<Rightarrow> ('a \<Rightarrow> 'v) \<Rightarrow> 'a tree \<times> 'a option \<times> ('a \<Rightarrow> 'v)" where
  "tdelete k a Leaf bl = (Leaf, None, bl)"
| "tdelete k a (Node l i r) bl =
     (if a < k (bl i) then
        (let (l', x, bl') = tdelete k a l bl in (Node l' i r, x, bl'))
      else if k (bl i) < a then
        (let (r', x, bl') = tdelete k a r bl in (Node l i r', x, bl'))
      else if l = Leaf then (r, Some i, bl)
      else if r = Leaf then (l, Some i, bl)
      else (Node l i (tdelmin r), leftmost r,
            (case leftmost r of None \<Rightarrow> bl | Some m \<Rightarrow> bl(i := bl m))))"

lemma tdelete_outside: "i \<notin> set_tree t \<Longrightarrow> snd (snd (tdelete k a t bl)) i = bl i"
  by (induction t) (auto simp: case_prod_beta split: option.split)

lemma tdelete_frame:
  "tdelete k a t bl = (t', x, bl') \<Longrightarrow> i \<notin> set_tree t \<Longrightarrow> bl' i = bl i"
  using tdelete_outside [of i t k a bl] by simp

text \<open>Only the blocks of the tree's own nodes matter.\<close>

lemma tdelete_agree:
  "\<forall>i \<in> set_tree t. f i = g i \<Longrightarrow>
     fst (tdelete k a t f) = fst (tdelete k a t g)
     \<and> fst (snd (tdelete k a t f)) = fst (snd (tdelete k a t g))
     \<and> (\<forall>i \<in> set_tree t. snd (snd (tdelete k a t f)) i = snd (snd (tdelete k a t g)) i)"
proof (induction t)
  case (Node l i r)
  have out: "snd (snd (tdelete k a u f)) j = snd (snd (tdelete k a u g)) j"
    if "j \<notin> set_tree u" "j \<in> set_tree (Node l i r)" for u j
    using that Node.prems by (auto simp: tdelete_outside)
  have m: "f m = g m" if "leftmost r = Some m" for m
    using leftmost_mem [OF that] Node.prems by simp
  have IHl: "fst (tdelete k a l f) = fst (tdelete k a l g)"
      "fst (snd (tdelete k a l f)) = fst (snd (tdelete k a l g))"
      "\<forall>i \<in> set_tree l. snd (snd (tdelete k a l f)) i = snd (snd (tdelete k a l g)) i"
    using Node.IH(1) Node.prems by auto
  have IHr: "fst (tdelete k a r f) = fst (tdelete k a r g)"
      "fst (snd (tdelete k a r f)) = fst (snd (tdelete k a r g))"
      "\<forall>i \<in> set_tree r. snd (snd (tdelete k a r f)) i = snd (snd (tdelete k a r g)) i"
    using Node.IH(2) Node.prems by auto
  have l: "snd (snd (tdelete k a l f)) j = snd (snd (tdelete k a l g)) j"
    if "j \<in> set_tree (Node l i r)" for j
    using out [of j l] IHl(3) that by blast
  have r: "snd (snd (tdelete k a r f)) j = snd (snd (tdelete k a r g)) j"
    if "j \<in> set_tree (Node l i r)" for j
    using out [of j r] IHr(3) that by blast
  have fi: "f i = g i" using Node.prems by simp
  show ?case
  proof (cases "a < k (g i)")
    case True
    with fi IHl(1,2) l show ?thesis by (simp add: case_prod_beta)
  next
    case False
    show ?thesis
    proof (cases "k (g i) < a")
      case True
      with False fi IHr(1,2) r show ?thesis by (simp add: case_prod_beta)
    next
      case False2: False
      with False fi Node.prems m show ?thesis
        by (simp add: case_prod_beta split: option.split)
    qed
  qed
qed simp

lemma tdelete_cong:
  assumes "\<And>i. i \<in> set_tree t \<Longrightarrow> f i = g i" and "tdelete k a t g = (t', x, g)"
  shows "tdelete k a t f = (t', x, f)"
proof -
  have ag: "fst (tdelete k a t f) = t'" "fst (snd (tdelete k a t f)) = x"
    "\<forall>i \<in> set_tree t. snd (snd (tdelete k a t f)) i = g i"
    using tdelete_agree [of t f g k a] assms by auto
  have "snd (snd (tdelete k a t f)) i = f i" for i
    using ag(3) assms(1) tdelete_outside [of i t k a f] by (cases "i \<in> set_tree t") auto
  then have "snd (snd (tdelete k a t f)) = f" by blast
  with ag show ?thesis by (metis prod.collapse)
qed

lemma tdelete_shrinks:
  "tdelete k a t bl = (t', x, bl') \<Longrightarrow>
     set_tree t' \<subseteq> set_tree t \<and> (\<forall>m. x = Some m \<longrightarrow> m \<in> set_tree t)"
proof (induction t arbitrary: t' x bl')
  case (Node l i r)
  then show ?case
    by (fastforce split: if_splits prod.splits dest: leftmost_mem subsetD [OF set_tdelmin_subset])
qed simp

lemma filter_key_absent:
  "\<forall>i \<in> set xs. f i \<noteq> a \<Longrightarrow> filter (\<lambda>i. f i \<noteq> a) xs = xs"
  unfolding filter_id_conv .

lemma inorder_tdelete:
  assumes "tdelete k a t bl = (t', x, bl')" and "sorted_by (\<lambda>i. k (bl i)) (inorder t)"
  shows "map bl' (inorder t') = filter (\<lambda>b. k b \<noteq> a) (map bl (inorder t))
    \<and> (case x of
         None \<Rightarrow> a \<notin> (\<lambda>i. k (bl i)) ` set_tree t \<and> t' = t \<and> bl' = bl
       | Some m \<Rightarrow> a \<in> (\<lambda>i. k (bl i)) ` set_tree t \<and> m \<in> set_tree t \<and> m \<notin> set_tree t'
           \<and> set_tree t = insert m (set_tree t') \<and> bl' m = bl m)"
  using assms
proof (induction t arbitrary: t' x bl')
  case (Node l i r)
  note srt = Node.prems(2)
  have d: "distinct (inorder (Node l i r))"
    using sorted_by_distinct [OF srt] .
  consider (lt) "a < k (bl i)" | (gt) "k (bl i) < a" | (eq) "k (bl i) = a"
    using linorder_neqE by blast
  then show ?case
  proof cases
    case lt
    obtain l' bl2 where e: "tdelete k a l bl = (l', x, bl2)" "t' = Node l' i r" "bl' = bl2"
      using Node.prems(1) lt by (auto split: prod.splits)
    have same: "bl2 j = bl j" if "j \<in> insert i (set_tree r)" for j
      using tdelete_frame [OF e(1)] d that by auto
    have ab: "\<forall>j \<in> insert i (set_tree r). k (bl j) \<noteq> a"
      using srt lt by (auto dest: less_trans)
    have IH: "map bl2 (inorder l') = filter (\<lambda>b. k b \<noteq> a) (map bl (inorder l))
      \<and> (case x of
         None \<Rightarrow> a \<notin> (\<lambda>i. k (bl i)) ` set_tree l \<and> l' = l \<and> bl2 = bl
       | Some m \<Rightarrow> a \<in> (\<lambda>i. k (bl i)) ` set_tree l \<and> m \<in> set_tree l \<and> m \<notin> set_tree l'
           \<and> set_tree l = insert m (set_tree l') \<and> bl2 m = bl m)"
      using Node.IH(1) [OF e(1)] srt by simp
    have "map bl2 (i # inorder r) = filter (\<lambda>b. k b \<noteq> a) (map bl (i # inorder r))"
      using same ab by (simp add: filter_map filter_key_absent comp_def)
    with IH e ab d show ?thesis by (auto split: option.splits)
  next
    case gt
    obtain r' bl2 where e: "tdelete k a r bl = (r', x, bl2)" "t' = Node l i r'" "bl' = bl2"
      using Node.prems(1) gt less_not_sym [OF gt] by (auto split: prod.splits)
    have same: "bl2 j = bl j" if "j \<in> insert i (set_tree l)" for j
      using tdelete_frame [OF e(1)] d that by auto
    have ab: "\<forall>j \<in> insert i (set_tree l). k (bl j) \<noteq> a"
      using srt gt by (auto dest: less_trans)
    have IH: "map bl2 (inorder r') = filter (\<lambda>b. k b \<noteq> a) (map bl (inorder r))
      \<and> (case x of
         None \<Rightarrow> a \<notin> (\<lambda>i. k (bl i)) ` set_tree r \<and> r' = r \<and> bl2 = bl
       | Some m \<Rightarrow> a \<in> (\<lambda>i. k (bl i)) ` set_tree r \<and> m \<in> set_tree r \<and> m \<notin> set_tree r'
           \<and> set_tree r = insert m (set_tree r') \<and> bl2 m = bl m)"
      using Node.IH(2) [OF e(1)] srt by simp
    have "map bl2 (inorder l @ [i]) = filter (\<lambda>b. k b \<noteq> a) (map bl (inorder l @ [i]))"
      using same ab by (simp add: filter_map filter_key_absent comp_def)
    with IH e ab d show ?thesis by (auto split: option.splits)
  next
    case eq
    have ab: "\<forall>j \<in> set_tree l \<union> set_tree r. k (bl j) \<noteq> a"
      using srt eq by auto
    show ?thesis
    proof (cases "l = Leaf \<or> r = Leaf")
      case True
      with Node.prems(1) eq ab d show ?thesis
        by (auto split: if_splits simp: filter_map filter_key_absent comp_def)
    next
      case False
      then obtain m where m: "leftmost r = Some m"
        by (cases "leftmost r") auto
      have t': "t' = Node l i (tdelmin r)" and x: "x = Some m" and bl': "bl' = bl(i := bl m)"
        using Node.prems(1) eq False m by auto
      have r: "inorder r = m # inorder (tdelmin r)"
        using m by (rule inorder_leftmost)
      have sr: "set_tree r = insert m (set_tree (tdelmin r))"
        using m by (rule set_tree_leftmost)
      have md: "m \<notin> set_tree (tdelmin r)" "m \<noteq> i" "m \<notin> set_tree l" "i \<notin> set_tree l"
          "i \<notin> set_tree (tdelmin r)"
        using d r sr by (auto simp flip: set_inorder)
      have km: "k (bl m) \<noteq> a" using ab sr by simp
      have upd: "map bl' (inorder t') = map bl (inorder l) @ bl m # map bl (inorder (tdelmin r))"
        using md by (simp add: t' bl')
      have fl: "filter (\<lambda>b. k b \<noteq> a) (map bl xs) = map bl xs"
        if "set xs \<subseteq> set_tree l \<union> set_tree r" for xs
        using ab that by (auto simp: filter_id_conv)
      have "filter (\<lambda>b. k b \<noteq> a) (map bl (inorder (Node l i r)))
          = filter (\<lambda>b. k b \<noteq> a) (map bl (inorder l)) @ filter (\<lambda>b. k b \<noteq> a) (map bl (inorder r))"
        using eq by simp
      also have "\<dots> = map bl (inorder l) @ bl m # map bl (inorder (tdelmin r))"
        using fl [of "inorder l"] fl [of "inorder (tdelmin r)"] km sr by (simp add: r subset_insertI2)
      finally have "map bl' (inorder t') = filter (\<lambda>b. k b \<noteq> a) (map bl (inorder (Node l i r)))"
        using upd by simp
      moreover have "set_tree (Node l i r) = insert m (set_tree t')" "m \<notin> set_tree t'"
        using t' sr md by auto
      moreover have "bl' m = bl m" "m \<in> set_tree (Node l i r)"
        using bl' md sr by auto
      moreover have "a \<in> (\<lambda>i. k (bl i)) ` set_tree (Node l i r)"
        using eq by auto
      ultimately show ?thesis
        using x by (simp only: option.case) blast
    qed
  qed
qed simp

lemma sorted_tdelete:
  assumes "tdelete k a t bl = (t', x, bl')" and "sorted_by (\<lambda>i. k (bl i)) (inorder t)"
  shows "sorted_by (\<lambda>i. k (bl' i)) (inorder t')"
proof -
  have "map (\<lambda>i. k (bl' i)) (inorder t') = map k (map bl' (inorder t'))"
    by simp
  also have "map bl' (inorder t') = filter (\<lambda>b. k b \<noteq> a) (map bl (inorder t))"
    using inorder_tdelete [OF assms] by blast
  finally have "map (\<lambda>i. k (bl' i)) (inorder t') = map k (filter (\<lambda>b. k b \<noteq> a) (map bl (inorder t)))" .
  moreover have "sorted_by k (map bl (inorder t))"
    using assms(2) by (simp add: sorted_by_def comp_def)
  then have "sorted_by k (filter (\<lambda>b. k b \<noteq> a) (map bl (inorder t)))"
    by (rule sorted_by_filter)
  ultimately show ?thesis by (simp add: sorted_by_def)
qed

text \<open>Deleting the key of an end of the in-order list only drops that node.\<close>

lemma tdelete_leftmost:
  "sorted_by (\<lambda>i. k (bl i)) (inorder t) \<Longrightarrow> leftmost t = Some m \<Longrightarrow>
     tdelete k (k (bl m)) t bl = (tdelmin t, Some m, bl)"
proof (induction t)
  case (Node l i r)
  show ?case
  proof (cases "l = Leaf")
    case True
    with Node.prems show ?thesis by auto
  next
    case False
    then have m: "leftmost l = Some m" using Node.prems by simp
    then have "k (bl m) < k (bl i)"
      using Node.prems(1) leftmost_mem by fastforce
    with Node.IH(1) [OF _ m] Node.prems(1) False show ?thesis by auto
  qed
qed simp

lemma tdelete_rightmost:
  "sorted_by (\<lambda>i. k (bl i)) (inorder t) \<Longrightarrow> rightmost t = Some m \<Longrightarrow>
     tdelete k (k (bl m)) t bl = (tdelmax t, Some m, bl)"
proof (induction t)
  case (Node l i r)
  show ?case
  proof (cases "r = Leaf")
    case True
    with Node.prems show ?thesis by auto
  next
    case False
    then have m: "rightmost r = Some m" using Node.prems by simp
    then have "k (bl i) < k (bl m)"
      using Node.prems(1) rightmost_mem by fastforce
    with Node.IH(2) [OF _ m] Node.prems(1) False show ?thesis by auto
  qed
qed simp



section \<open>Split, merge and removal of a heap-ordered tree\<close>

fun tsplit :: "('a \<Rightarrow> 'k::linorder) \<Rightarrow> 'k \<Rightarrow> 'a tree \<Rightarrow> 'a tree \<times> 'a tree" where
  "tsplit k a Leaf = (Leaf, Leaf)"
| "tsplit k a (Node l i r) =
     (if a < k i then (let (x, y) = tsplit k a l in (x, Node y i r))
      else (let (x, y) = tsplit k a r in (Node l i x, y)))"

fun tmerge :: "('a \<Rightarrow> 'p::linorder) \<Rightarrow> 'a tree \<Rightarrow> 'a tree \<Rightarrow> 'a tree" where
  "tmerge p Leaf t = t"
| "tmerge p (Node a i b) Leaf = Node a i b"
| "tmerge p (Node a i b) (Node c j d) =
     (if p i > p j then Node a i (tmerge p b (Node c j d))
      else Node (tmerge p (Node a i b) c) j d)"

fun tremove ::
  "('a \<Rightarrow> 'k::linorder) \<Rightarrow> ('a \<Rightarrow> 'p::linorder) \<Rightarrow> 'k \<Rightarrow> 'a tree \<Rightarrow> 'a tree \<times> 'a option" where
  "tremove k p a Leaf = (Leaf, None)"
| "tremove k p a (Node l i r) =
     (if k i = a then (tmerge p l r, Some i)
      else if a < k i then (let (l', x) = tremove k p a l in (Node l' i r, x))
      else (let (r', x) = tremove k p a r in (Node l i r', x)))"

text \<open>Every node's priority is at least that of the nodes below it.\<close>

fun maxheap :: "('a \<Rightarrow> 'p::linorder) \<Rightarrow> 'a tree \<Rightarrow> bool" where
  "maxheap p Leaf \<longleftrightarrow> True"
| "maxheap p (Node l i r) \<longleftrightarrow>
     (\<forall>j \<in> set_tree l \<union> set_tree r. p j \<le> p i) \<and> maxheap p l \<and> maxheap p r"

lemma tmerge_Leaf [simp]: "tmerge p t Leaf = t"
  by (cases t) auto

lemma inorder_tmerge [simp]: "inorder (tmerge p l r) = inorder l @ inorder r"
  by (induction p l r rule: tmerge.induct) auto

lemma set_tmerge [simp]: "set_tree (tmerge p l r) = set_tree l \<union> set_tree r"
  by (metis inorder_tmerge set_append set_inorder)

lemma maxheap_cong: "(\<And>i. i \<in> set_tree t \<Longrightarrow> p i = q i) \<Longrightarrow> maxheap p t = maxheap q t"
  by (induction t) simp_all

lemma tmerge_cong:
  "(\<And>i. i \<in> set_tree l \<union> set_tree r \<Longrightarrow> p i = q i) \<Longrightarrow> tmerge p l r = tmerge q l r"
  by (induction p l r rule: tmerge.induct) auto

lemma maxheap_tmerge: "maxheap p l \<Longrightarrow> maxheap p r \<Longrightarrow> maxheap p (tmerge p l r)"
proof (induction p l r rule: tmerge.induct)
  case (3 p a i b c j d)
  show ?case
  proof (cases "p i > p j")
    case True
    have "\<forall>x \<in> insert j (set_tree c \<union> set_tree d). p x \<le> p i"
      using "3.prems" True by (auto intro: order.trans less_imp_le)
    with 3 True show ?thesis by auto
  next
    case False
    have "\<forall>x \<in> insert i (set_tree a \<union> set_tree b). p x \<le> p j"
      using "3.prems" False by (auto intro: order.trans)
    with 3 False show ?thesis by auto
  qed
qed auto

lemma tsplit_inorder:
  "tsplit k a t = (x, y) \<Longrightarrow> inorder x @ inorder y = inorder t"
  by (induction t arbitrary: x y) (auto split: if_splits prod.splits)

lemma tsplit_set:
  assumes "tsplit k a t = (x, y)"
  shows "set_tree t = set_tree x \<union> set_tree y"
  using tsplit_inorder [OF assms] by (metis set_append set_inorder)

lemma tsplit_keys:
  assumes "tsplit k a t = (x, y)" and "sorted_by k (inorder t)"
  shows "(\<forall>i \<in> set_tree x. k i \<le> a) \<and> (\<forall>i \<in> set_tree y. a < k i)"
  using assms
proof (induction t arbitrary: x y)
  case (Node l i r)
  show ?case
  proof (cases "a < k i")
    case True
    then obtain y' where e: "tsplit k a l = (x, y')" "y = Node y' i r"
      using Node.prems(1) by (auto split: prod.splits)
    have "\<forall>j \<in> set_tree r. a < k j"
      using Node.prems(2) True by (auto dest: less_trans)
    with Node.IH(1) [OF e(1)] e Node.prems(2) True show ?thesis by auto
  next
    case False
    then obtain x' where e: "tsplit k a r = (x', y)" "x = Node l i x'"
      using Node.prems(1) by (auto split: prod.splits)
    have "\<forall>j \<in> set_tree l. k j \<le> a"
      using Node.prems(2) False by (auto dest: less_imp_le order.trans)
    with Node.IH(2) [OF e(1)] e Node.prems(2) False show ?thesis by auto
  qed
qed auto

lemma tsplit_filter:
  assumes "tsplit k a t = (x, y)" and "sorted_by k (inorder t)"
  shows "inorder x = filter (\<lambda>i. k i \<le> a) (inorder t)"
    and "inorder y = filter (\<lambda>i. a < k i) (inorder t)"
proof -
  have io: "inorder t = inorder x @ inorder y"
    using tsplit_inorder [OF assms(1)] by simp
  have kx: "\<forall>i \<in> set_tree x. k i \<le> a" and ky: "\<forall>i \<in> set_tree y. a < k i"
    using tsplit_keys [OF assms] by auto
  have "filter (\<lambda>i. k i \<le> a) (inorder x) = inorder x" "filter (\<lambda>i. k i \<le> a) (inorder y) = []"
    using kx ky by (auto simp: filter_id_conv filter_empty_conv not_le)
  then show "inorder x = filter (\<lambda>i. k i \<le> a) (inorder t)"
    by (simp add: io)
  have "filter (\<lambda>i. a < k i) (inorder x) = []" "filter (\<lambda>i. a < k i) (inorder y) = inorder y"
    using kx ky by (auto simp: filter_id_conv filter_empty_conv not_less)
  then show "inorder y = filter (\<lambda>i. a < k i) (inorder t)"
    by (simp add: io)
qed

lemma maxheap_tsplit:
  "tsplit k a t = (x, y) \<Longrightarrow> maxheap p t \<Longrightarrow> maxheap p x \<and> maxheap p y"
proof (induction t arbitrary: x y)
  case (Node l i r)
  show ?case
  proof (cases "a < k i")
    case True
    then obtain y' where e: "tsplit k a l = (x, y')" "y = Node y' i r"
      using Node.prems(1) by (auto split: prod.splits)
    have "maxheap p x \<and> maxheap p y'"
      using Node.IH(1) [OF e(1)] Node.prems(2) by simp
    with e Node.prems(2) tsplit_set [OF e(1)] show ?thesis by auto
  next
    case False
    then obtain x' where e: "tsplit k a r = (x', y)" "x = Node l i x'"
      using Node.prems(1) by (auto split: prod.splits)
    have "maxheap p x' \<and> maxheap p y"
      using Node.IH(2) [OF e(1)] Node.prems(2) by simp
    with e Node.prems(2) tsplit_set [OF e(1)] show ?thesis by auto
  qed
qed auto

lemma maxheap_tdelmin: "maxheap p t \<Longrightarrow> maxheap p (tdelmin t)"
  by (induction t) (auto dest: subsetD [OF set_tdelmin_subset])

lemma maxheap_tdelmax: "maxheap p t \<Longrightarrow> maxheap p (tdelmax t)"
  by (induction t) (auto dest: subsetD [OF set_tdelmax_subset])

lemma tremove_spec:
  "tremove k p a t = (t', x) \<Longrightarrow> sorted_by k (inorder t) \<Longrightarrow>
     inorder t' = filter (\<lambda>i. k i \<noteq> a) (inorder t)
     \<and> (case x of None \<Rightarrow> a \<notin> k ` set_tree t | Some i \<Rightarrow> i \<in> set_tree t \<and> k i = a)"
proof (induction t arbitrary: t' x)
  case (Node l i r)
  have fl: "filter (\<lambda>i. k i \<noteq> a) xs = xs" if "\<forall>j \<in> set xs. k j \<noteq> a" for xs
    using that by (simp add: filter_id_conv)
  consider (eq) "k i = a" | (lt) "a < k i" | (gt) "k i < a"
    using linorder_neqE by blast
  then show ?case
  proof cases
    case eq
    have "\<forall>j \<in> set_tree l \<union> set_tree r. k j \<noteq> a"
      using Node.prems(2) eq by auto
    with eq Node.prems(1) fl [of "inorder l"] fl [of "inorder r"] show ?thesis by auto
  next
    case lt
    then obtain l' where e: "tremove k p a l = (l', x)" "t' = Node l' i r"
      using Node.prems(1) less_imp_neq [OF lt] by (auto split: prod.splits)
    have "\<forall>j \<in> set_tree r. k j \<noteq> a"
      using Node.prems(2) lt by (auto dest: less_trans)
    with lt e Node.IH(1) [OF e(1)] Node.prems(2) fl [of "inorder r"] show ?thesis
      by (auto split: option.splits)
  next
    case gt
    then obtain r' where e: "tremove k p a r = (r', x)" "t' = Node l i r'"
      using Node.prems(1) less_imp_neq [OF gt] less_not_sym [OF gt] by (auto split: prod.splits)
    have "\<forall>j \<in> set_tree l. k j \<noteq> a"
      using Node.prems(2) gt by (auto dest: less_trans)
    with gt e Node.IH(2) [OF e(1)] Node.prems(2) fl [of "inorder l"] show ?thesis
      by (auto split: option.splits)
  qed
qed auto

lemma set_tremove:
  assumes "tremove k p a t = (t', x)" and "sorted_by k (inorder t)"
  shows "set_tree t' = {i \<in> set_tree t. k i \<noteq> a}"
  using tremove_spec [OF assms] by (metis set_filter set_inorder)

lemma maxheap_tremove:
  "tremove k p a t = (t', x) \<Longrightarrow> sorted_by k (inorder t) \<Longrightarrow> maxheap p t \<Longrightarrow> maxheap p t'"
proof (induction t arbitrary: t' x)
  case (Node l i r)
  consider (eq) "k i = a" | (lt) "a < k i" | (gt) "k i < a"
    using linorder_neqE by blast
  then show ?case
  proof cases
    case eq
    with Node.prems show ?thesis by (auto intro: maxheap_tmerge)
  next
    case lt
    then obtain l' where e: "tremove k p a l = (l', x)" "t' = Node l' i r"
      using Node.prems(1) less_imp_neq [OF lt] by (auto split: prod.splits)
    have s: "set_tree l' = {j \<in> set_tree l. k j \<noteq> a}"
      using set_tremove [OF e(1)] Node.prems(2) by simp
    from Node.IH(1) [OF e(1)] e Node.prems(2,3) s show ?thesis by auto
  next
    case gt
    then obtain r' where e: "tremove k p a r = (r', x)" "t' = Node l i r'"
      using Node.prems(1) less_imp_neq [OF gt] less_not_sym [OF gt] by (auto split: prod.splits)
    have s: "set_tree r' = {j \<in> set_tree r. k j \<noteq> a}"
      using set_tremove [OF e(1)] Node.prems(2) by simp
    from Node.IH(2) [OF e(1)] e Node.prems(2,3) s show ?thesis by auto
  qed
qed auto

text \<open>The root of a heap-ordered tree is the best fit a search by priority can find.\<close>

lemma maxheap_root:
  "maxheap p (Node l i r) \<Longrightarrow> j \<in> set_tree (Node l i r) \<Longrightarrow> p j \<le> p i"
  by auto

end
