(* ===== verification/Tree_Store.thy ===== *)
theory Tree_Store
  imports Index_Trees
begin

text \<open>
  The nodes of \<^verbatim>\<open>allocator/large-allocator.h\<close>: \<^verbatim>\<open>Header\<close>, \<^verbatim>\<open>TreeNode\<close> and pointers to nodes.
  A \<^verbatim>\<open>TreeNode*\<close> is \<open>None\<close> for \<^verbatim>\<open>NULL\<close> or \<open>Some i\<close> for \<^verbatim>\<open>&TREENODES_LIST[i]\<close>; the node array is
  a store from numbers to nodes, which the operations mutate in place. A pointer program returns
  \<open>None\<close> where the C code does not return: it dereferences \<^verbatim>\<open>NULL\<close> or loops for ever (on a cyclic
  structure). \<open>tree_at h p t\<close> says that the nodes reached from \<open>p\<close> form the tree \<open>t\<close>; with
  \<open>distinct (inorder t)\<close> no node is shared.
\<close>

type_synonym tptr = "nat option"

record Header =
  addr :: size_t
  bsize :: size_t
  isMarked :: bool

record TreeNode =
  block :: Header
  left :: tptr
  right :: tptr

type_synonym tstore = "nat \<Rightarrow> TreeNode"

abbreviation key :: "tstore \<Rightarrow> nat \<Rightarrow> size_t" where
  "key h i \<equiv> addr (block (h i))"

abbreviation prio :: "tstore \<Rightarrow> nat \<Rightarrow> size_t" where
  "prio h i \<equiv> bsize (block (h i))"

definition set_left :: "nat \<Rightarrow> tptr \<Rightarrow> tstore \<Rightarrow> tstore" where
  "set_left i p h = h(i := (h i)\<lparr>left := p\<rparr>)"

definition set_right :: "nat \<Rightarrow> tptr \<Rightarrow> tstore \<Rightarrow> tstore" where
  "set_right i p h = h(i := (h i)\<lparr>right := p\<rparr>)"

definition set_block :: "nat \<Rightarrow> Header \<Rightarrow> tstore \<Rightarrow> tstore" where
  "set_block i b h = h(i := (h i)\<lparr>block := b\<rparr>)"

text \<open>\<^verbatim>\<open>node->left = node->right = NULL\<close>\<close>

definition unlink :: "nat \<Rightarrow> tstore \<Rightarrow> tstore" where
  "unlink i h = h(i := (h i)\<lparr>left := None, right := None\<rparr>)"

lemmas store_defs = set_left_def set_right_def set_block_def unlink_def

fun tree_at :: "tstore \<Rightarrow> tptr \<Rightarrow> nat tree \<Rightarrow> bool" where
  "tree_at h p Leaf \<longleftrightarrow> p = None"
| "tree_at h p (Node l i r) \<longleftrightarrow>
     p = Some i \<and> tree_at h (left (h i)) l \<and> tree_at h (right (h i)) r"

text \<open>The pointer to the root of a tree.\<close>

fun troot :: "'a tree \<Rightarrow> 'a option" where
  "troot Leaf = None"
| "troot (Node l i r) = Some i"

lemma tree_at_troot: "tree_at h p t \<Longrightarrow> p = troot t"
  by (cases t) auto

lemma troot_None [simp]: "troot t = None \<longleftrightarrow> t = Leaf"
  by (cases t) auto

text \<open>The blocks of a tree in the order of its nodes, and what changes and does not.\<close>

definition blocks :: "tstore \<Rightarrow> nat tree \<Rightarrow> Header list" where
  "blocks h t = map (\<lambda>i. block (h i)) (inorder t)"

definition same_outside :: "nat set \<Rightarrow> tstore \<Rightarrow> tstore \<Rightarrow> bool" where
  "same_outside X h h' \<longleftrightarrow> (\<forall>i. i \<notin> X \<longrightarrow> h' i = h i)"

definition same_blocks :: "tstore \<Rightarrow> tstore \<Rightarrow> bool" where
  "same_blocks h h' \<longleftrightarrow> (\<forall>i. block (h' i) = block (h i))"

definition lone :: "tstore \<Rightarrow> nat \<Rightarrow> bool" where
  "lone h n \<longleftrightarrow> left (h n) = None \<and> right (h n) = None"

lemma tree_at_None [simp]: "tree_at h None t \<longleftrightarrow> t = Leaf"
  by (cases t) auto

lemma tree_at_Leaf_iff: "tree_at h p t \<Longrightarrow> p = None \<longleftrightarrow> t = Leaf"
  by (cases t) auto

lemma tree_at_Some:
  assumes "tree_at h (Some i) t"
  obtains l r where "t = Node l i r" "tree_at h (left (h i)) l" "tree_at h (right (h i)) r"
  using assms by (cases t) auto

lemma tree_at_lone: "lone h n \<Longrightarrow> tree_at h (Some n) (Node Leaf n Leaf)"
  by (simp add: lone_def)

text \<open>A tree only depends on the pointers of its own nodes.\<close>

lemma tree_at_cong:
  "(\<And>i. i \<in> set_tree t \<Longrightarrow> left (h' i) = left (h i) \<and> right (h' i) = right (h i)) \<Longrightarrow>
     tree_at h' p t = tree_at h p t"
  by (induction t arbitrary: p) auto

lemma tree_at_frame:
  assumes "tree_at h p t" and "same_outside X h h'" and "X \<inter> set_tree t = {}"
  shows "tree_at h' p t"
proof -
  have "left (h' i) = left (h i) \<and> right (h' i) = right (h i)" if "i \<in> set_tree t" for i
    using assms(2,3) that by (auto simp: same_outside_def)
  then have "tree_at h' p t = tree_at h p t"
    by (rule tree_at_cong)
  with assms(1) show ?thesis by simp
qed

text \<open>A structure determines the tree: two trees at one pointer are equal.\<close>

lemma tree_at_unique: "tree_at h p t \<Longrightarrow> tree_at h p u \<Longrightarrow> t = u"
proof (induction t arbitrary: p u)
  case Leaf
  then show ?case by simp
next
  case (Node l i r)
  then show ?case by (cases u) auto
qed

lemma same_outside_refl [simp]: "same_outside X h h"
  by (simp add: same_outside_def)

lemma same_outside_trans:
  "same_outside X h h' \<Longrightarrow> same_outside Y h' h'' \<Longrightarrow> X \<union> Y \<subseteq> Z \<Longrightarrow> same_outside Z h h''"
  by (simp add: same_outside_def subset_iff) metis

lemma same_outside_mono: "same_outside X h h' \<Longrightarrow> X \<subseteq> Y \<Longrightarrow> same_outside Y h h'"
  by (auto simp: same_outside_def)

lemma same_blocks_refl [simp]: "same_blocks h h"
  by (simp add: same_blocks_def)

lemma same_blocks_trans: "same_blocks h h' \<Longrightarrow> same_blocks h' h'' \<Longrightarrow> same_blocks h h''"
  by (simp add: same_blocks_def)

lemma same_blocks_blocks: "same_blocks h h' \<Longrightarrow> blocks h' t = blocks h t"
  by (simp add: same_blocks_def blocks_def)

lemma same_blocks_prio: "same_blocks h h' \<Longrightarrow> prio h' = prio h"
  by (rule ext) (simp add: same_blocks_def)

lemma same_blocks_key: "same_blocks h h' \<Longrightarrow> key h' = key h"
  by (rule ext) (simp add: same_blocks_def)

lemma blocks_cong:
  "(\<And>i. i \<in> set_tree t \<Longrightarrow> block (h' i) = block (h i)) \<Longrightarrow> blocks h' t = blocks h t"
  by (simp add: blocks_def)

lemma blocks_simps [simp]:
  "blocks h Leaf = []"
  "blocks h (Node l i r) = blocks h l @ block (h i) # blocks h r"
  by (simp_all add: blocks_def)

lemma blocks_Nil_iff [simp]: "blocks h t = [] \<longleftrightarrow> t = Leaf"
  by (simp add: blocks_def)

lemma set_blocks: "set (blocks h t) = (\<lambda>i. block (h i)) ` set_tree t"
  by (simp add: blocks_def)

lemma length_blocks: "length (blocks h t) = length (inorder t)"
  by (simp add: blocks_def)

text \<open>How the four kinds of write act on the observations above.\<close>

lemma left_writes [simp]:
  "left (set_left i p h j) = (if j = i then p else left (h j))"
  "left (set_right i p h j) = left (h j)"
  "left (set_block i b h j) = left (h j)"
  "left (unlink i h j) = (if j = i then None else left (h j))"
  by (simp_all add: store_defs)

lemma right_writes [simp]:
  "right (set_left i p h j) = right (h j)"
  "right (set_right i p h j) = (if j = i then p else right (h j))"
  "right (set_block i b h j) = right (h j)"
  "right (unlink i h j) = (if j = i then None else right (h j))"
  by (simp_all add: store_defs)

lemma block_writes [simp]:
  "block (set_left i p h j) = block (h j)"
  "block (set_right i p h j) = block (h j)"
  "block (set_block i b h j) = (if j = i then b else block (h j))"
  "block (unlink i h j) = block (h j)"
  by (simp_all add: store_defs)

lemma same_outside_writes [simp]:
  "i \<in> X \<Longrightarrow> same_outside X h (set_left i p h') = same_outside X h h'"
  "i \<in> X \<Longrightarrow> same_outside X h (set_right i p h') = same_outside X h h'"
  "i \<in> X \<Longrightarrow> same_outside X h (set_block i b h') = same_outside X h h'"
  "i \<in> X \<Longrightarrow> same_outside X h (unlink i h') = same_outside X h h'"
  by (auto simp: same_outside_def store_defs)

lemma same_blocks_writes [simp]:
  "same_blocks h (set_left i p h') \<longleftrightarrow> same_blocks h h'"
  "same_blocks h (set_right i p h') \<longleftrightarrow> same_blocks h h'"
  "same_blocks h (unlink i h') \<longleftrightarrow> same_blocks h h'"
  by (auto simp: same_blocks_def split: if_splits)

lemma tree_at_set_block [simp]: "tree_at (set_block i b h) p t = tree_at h p t"
  by (rule tree_at_cong) simp

lemma tree_at_set_left_other [simp]:
  "i \<notin> set_tree t \<Longrightarrow> tree_at (set_left i q h) p t = tree_at h p t"
  by (rule tree_at_cong) auto

lemma tree_at_set_right_other [simp]:
  "i \<notin> set_tree t \<Longrightarrow> tree_at (set_right i q h) p t = tree_at h p t"
  by (rule tree_at_cong) auto

lemma tree_at_unlink_other [simp]:
  "i \<notin> set_tree t \<Longrightarrow> tree_at (unlink i h) p t = tree_at h p t"
  by (rule tree_at_cong) auto

end
