(* ===== verification/Regions.thy ===== *)
theory Regions
  imports Tree_Store "HOL-Library.Multiset"
begin

text \<open>
  Address ranges of blocks as intervals of natural numbers. \<open>tiles a e bs\<close> says that the blocks
  \<open>bs\<close>, in this order and with no gap or overlap, fill the range from \<open>a\<close> up to \<open>e\<close>; it is how
  the development states that the large heap is partitioned into free and occupied regions.
\<close>

abbreviation reg_lo :: "Header \<Rightarrow> nat" where
  "reg_lo b \<equiv> unat (addr b)"

definition reg_hi :: "Header \<Rightarrow> nat" where
  "reg_hi b = unat (addr b) + unat (bsize b)"

fun tiles :: "nat \<Rightarrow> nat \<Rightarrow> Header list \<Rightarrow> bool" where
  "tiles a e [] \<longleftrightarrow> a = e"
| "tiles a e (b # bs) \<longleftrightarrow> reg_lo b = a \<and> 0 < unat (bsize b) \<and> tiles (reg_hi b) e bs"

text \<open>The C test \<^verbatim>\<open>b.addr <= a && a < b.addr + b.size\<close>, on words.\<close>

definition holds_addr :: "size_t \<Rightarrow> Header \<Rightarrow> bool" where
  "holds_addr a b \<longleftrightarrow> addr b \<le> a \<and> a < addr b + bsize b"

lemma tiles_append:
  "tiles a e (xs @ ys) \<longleftrightarrow> (\<exists>m. tiles a m xs \<and> tiles m e ys)"
  by (induction xs arbitrary: a) auto

lemma tiles_le: "tiles a e bs \<Longrightarrow> a \<le> e"
  by (induction bs arbitrary: a) (auto simp: reg_hi_def, fastforce)

lemma tiles_bounds: "tiles a e bs \<Longrightarrow> b \<in> set bs \<Longrightarrow> a \<le> reg_lo b \<and> reg_lo b < reg_hi b \<and> reg_hi b \<le> e"
proof (induction bs arbitrary: a)
  case (Cons c cs)
  show ?case
  proof (cases "b = c")
    case True
    with Cons.prems show ?thesis using tiles_le by (auto simp: reg_hi_def)
  next
    case False
    then have "reg_hi c \<le> reg_lo b \<and> reg_lo b < reg_hi b \<and> reg_hi b \<le> e"
      using Cons by auto
    with Cons.prems show ?thesis by (auto simp: reg_hi_def)
  qed
qed simp

lemma tiles_sorted: "tiles a e bs \<Longrightarrow> sorted_by addr bs"
proof (induction bs arbitrary: a)
  case (Cons b bs)
  have "addr b < addr c" if "c \<in> set bs" for c
    using Cons.prems tiles_bounds [of "reg_hi b" e bs c] that
    by (auto simp: word_less_nat_alt reg_hi_def)
  with Cons show ?case by auto
qed simp

lemma tiles_disjoint:
  "tiles a e bs \<Longrightarrow> b \<in> set bs \<Longrightarrow> c \<in> set bs \<Longrightarrow> b \<noteq> c \<Longrightarrow> reg_hi b \<le> reg_lo c \<or> reg_hi c \<le> reg_lo b"
proof (induction bs arbitrary: a)
  case (Cons d ds)
  have "reg_hi d \<le> reg_lo x" if "x \<in> set ds" for x
    using Cons.prems(1) tiles_bounds [of "reg_hi d" e ds x] that by simp
  with Cons show ?case by auto
qed simp

lemma tiles_distinct: "tiles a e bs \<Longrightarrow> distinct bs"
  using tiles_sorted sorted_by_distinct by blast

lemma tiles_sum: "tiles a e bs \<Longrightarrow> a + sum_list (map (\<lambda>b. unat (bsize b)) bs) = e"
  by (induction bs arbitrary: a) (auto simp: reg_hi_def, fastforce)

text \<open>Cutting a block in two, and joining two neighbours, keeps the tiling.\<close>

lemma tiles_cut:
  assumes "tiles a e (xs @ b # ys)" and "reg_lo c = reg_lo b" and "reg_hi c = reg_lo d"
    and "reg_hi d = reg_hi b" and "0 < unat (bsize c)" and "0 < unat (bsize d)"
  shows "tiles a e (xs @ c # d # ys)"
  using assms by (auto simp: tiles_append)

lemma tiles_join:
  assumes "tiles a e (xs @ c # d # ys)" and "reg_lo b = reg_lo c" and "reg_hi b = reg_hi d"
  shows "tiles a e (xs @ b # ys)"
proof -
  obtain m where m: "tiles a m xs" "reg_lo c = m" "0 < unat (bsize c)" "reg_lo d = reg_hi c"
      "0 < unat (bsize d)" "tiles (reg_hi d) e ys"
    using assms(1) by (auto simp: tiles_append)
  have "0 < unat (bsize b)" using m assms(2,3) by (simp add: reg_hi_def)
  with m assms(2,3) show ?thesis by (auto simp: tiles_append)
qed

lemma tiles_adjacent:
  assumes "tiles a e bs" and "b \<in> set bs" and "c \<in> set bs" and "reg_hi b = reg_lo c"
  shows "\<exists>xs ys. bs = xs @ b # c # ys"
proof -
  obtain xs zs where bs: "bs = xs @ b # zs" using assms(2) split_list by metis
  have tz: "tiles (reg_hi b) e zs" and tx: "tiles a (reg_lo b) xs"
    using assms(1) by (auto simp: bs tiles_append)
  have lt: "reg_lo b < reg_hi b" using tiles_bounds [OF assms(1,2)] by blast
  have "c \<notin> set xs" using tiles_bounds [OF tx, of c] lt assms(4) by auto
  moreover have "c \<noteq> b" using assms(4) lt by auto
  ultimately have "c \<in> set zs" using assms(3) bs by simp
  then obtain us vs where zs: "zs = us @ c # vs" using split_list by metis
  have "tiles (reg_hi b) (reg_lo c) us" using tz by (auto simp: zs tiles_append)
  then have "us = []"
    using assms(4) tiles_bounds [of "reg_hi b" "reg_lo c" us "hd us"]
    by (cases us) auto
  with bs zs show ?thesis by auto
qed

text \<open>The word test is the interval test while ranges end below \<open>2 ^ 64\<close>.\<close>

lemma unat_reg_hi: "reg_hi b < 2 ^ 64 \<Longrightarrow> unat (addr b + bsize b) = reg_hi b"
  by (simp add: reg_hi_def unat_add_no_wrap)

lemma holds_addr_iff:
  "reg_hi b < 2 ^ 64 \<Longrightarrow> holds_addr a b \<longleftrightarrow> reg_lo b \<le> unat a \<and> unat a < reg_hi b"
  by (simp add: holds_addr_def word_le_nat_alt word_less_nat_alt unat_reg_hi)

lemma tiles_mset_sub:
  assumes "mset bs = mset (xs @ ys)" and "b \<in> set xs \<union> set ys"
  shows "b \<in> set bs"
  using assms by (metis mset_eq_setD set_append)

end
