(* ===== verification/Bst.thy ===== *)
theory Bst
  imports Regions
begin

text \<open>
  \<^verbatim>\<open>allocator/binary-search-tree.c\<close> on the node store: insertion, exact and containing-region
  search and removal, and what each computes on a proper tree. \<^verbatim>\<open>cleanup_bst\<close>, which also calls
  the treap, is in \<open>Sweep_Large\<close>.
\<close>


section \<open>The operations\<close>

partial_function (option) insert_bst :: "tstore \<Rightarrow> tptr \<Rightarrow> tptr \<Rightarrow> (tptr \<times> tstore) option" where
  "insert_bst h root node =
     (case root of
        None \<Rightarrow> Some (node, h)
      | Some r \<Rightarrow>
          (case node of
             None \<Rightarrow> None
           | Some n \<Rightarrow>
               if key h n < key h r then do {
                 (p, h) \<leftarrow> insert_bst h (left (h r)) node;
                 Some (root, set_left r p h)
               } else do {
                 (p, h) \<leftarrow> insert_bst h (right (h r)) node;
                 Some (root, set_right r p h)
               }))"

partial_function (option) search_bst :: "tstore \<Rightarrow> tptr \<Rightarrow> size_t \<Rightarrow> tptr option" where
  "search_bst h root a =
     (case root of
        None \<Rightarrow> Some None
      | Some r \<Rightarrow>
          if a = key h r then Some root
          else if a < key h r then search_bst h (left (h r)) a
          else search_bst h (right (h r)) a)"

partial_function (option) ext_search_bst :: "tstore \<Rightarrow> tptr \<Rightarrow> size_t \<Rightarrow> tptr option" where
  "ext_search_bst h root a =
     (case root of
        None \<Rightarrow> Some None
      | Some r \<Rightarrow>
          if key h r \<le> a \<and> a < key h r + prio h r then Some root
          else if a < key h r then ext_search_bst h (left (h r)) a
          else ext_search_bst h (right (h r)) a)"

text \<open>
  The loop of \<^verbatim>\<open>remove_bst\<close> that looks for the in-order successor: \<^verbatim>\<open>min_node_parent\<close> and
  \<^verbatim>\<open>min_node\<close> when it stops.
\<close>

partial_function (option) min_node_loop :: "tstore \<Rightarrow> nat \<Rightarrow> nat \<Rightarrow> (nat \<times> nat) option" where
  "min_node_loop h min_node_parent min_node =
     (case left (h min_node) of
        None \<Rightarrow> Some (min_node_parent, min_node)
      | Some l \<Rightarrow> min_node_loop h min_node l)"

text \<open>The new root, the value written to \<^verbatim>\<open>*removed\<close>, and the store.\<close>

partial_function (option) remove_bst ::
  "tstore \<Rightarrow> tptr \<Rightarrow> size_t \<Rightarrow> (tptr \<times> tptr \<times> tstore) option" where
  "remove_bst h root a =
     (case root of
        None \<Rightarrow> Some (None, None, h)
      | Some r \<Rightarrow>
          if a < key h r then do {
            (p, removed, h) \<leftarrow> remove_bst h (left (h r)) a;
            Some (root, removed, set_left r p h)
          } else if a > key h r then do {
            (p, removed, h) \<leftarrow> remove_bst h (right (h r)) a;
            Some (root, removed, set_right r p h)
          } else if left (h r) = None then Some (right (h r), root, unlink r h)
          else
            (case right (h r) of
               None \<Rightarrow> Some (left (h r), root, unlink r h)
             | Some rr \<Rightarrow> do {
                 (min_node_parent, min_node) \<leftarrow> min_node_loop h r rr;
                 let h = set_block r (block (h min_node)) h;
                 if left (h min_node_parent) = Some min_node then do {
                   (p, removed, h) \<leftarrow> remove_bst h (Some min_node) (key h min_node);
                   Some (root, removed, set_left min_node_parent p h)
                 } else do {
                   (p, removed, h) \<leftarrow> remove_bst h (Some min_node) (key h min_node);
                   Some (root, removed, set_right min_node_parent p h)
                 }
               }))"


section \<open>Insertion\<close>

text \<open>
  A node with no children, outside the tree, is linked in as \<^const>\<open>tinsert\<close> says; no block
  changes and no other node is written.
\<close>

lemma insert_bst_refines:
  assumes "tree_at h root t" and "distinct (inorder t)" and "lone h n" and "n \<notin> set_tree t"
  shows "\<exists>h'. insert_bst h root (Some n) = Some (troot (tinsert (key h) n t), h')
    \<and> tree_at h' (troot (tinsert (key h) n t)) (tinsert (key h) n t)
    \<and> same_outside (set_tree t) h h' \<and> same_blocks h h'"
  using assms
proof (induction t arbitrary: root)
  case Leaf
  then show ?case
    by (subst insert_bst.simps) (simp add: lone_def)
next
  case (Node l i r)
  have i: "i \<notin> set_tree l" "i \<notin> set_tree r" "set_tree l \<inter> set_tree r = {}" "n \<noteq> i"
    using Node.prems by auto
  have root: "root = Some i" and tl: "tree_at h (left (h i)) l" and tr: "tree_at h (right (h i)) r"
    using Node.prems(1) by auto
  show ?case
  proof (cases "key h n < key h i")
    case True
    obtain h1 where e: "insert_bst h (left (h i)) (Some n) = Some (troot (tinsert (key h) n l), h1)"
      and t1: "tree_at h1 (troot (tinsert (key h) n l)) (tinsert (key h) n l)"
      and o1: "same_outside (set_tree l) h h1" and b1: "same_blocks h h1"
      using Node.IH(1) [OF tl] Node.prems by auto
    have hi: "h1 i = h i" using o1 i by (simp add: same_outside_def)
    have tr1: "tree_at h1 (right (h i)) r"
      using tree_at_frame [OF tr o1] i by blast
    have "insert_bst h root (Some n)
        = Some (Some i, set_left i (troot (tinsert (key h) n l)) h1)"
      using True root e by (subst insert_bst.simps) simp
    moreover have "tree_at (set_left i (troot (tinsert (key h) n l)) h1) (Some i)
        (Node (tinsert (key h) n l) i r)"
      using t1 tr1 i hi by simp
    moreover have "same_outside (set_tree (Node l i r)) h
        (set_left i (troot (tinsert (key h) n l)) h1)"
      using same_outside_mono [OF o1, of "set_tree (Node l i r)"] by auto
    ultimately show ?thesis
      using True b1 by auto
  next
    case False
    obtain h1 where e: "insert_bst h (right (h i)) (Some n) = Some (troot (tinsert (key h) n r), h1)"
      and t1: "tree_at h1 (troot (tinsert (key h) n r)) (tinsert (key h) n r)"
      and o1: "same_outside (set_tree r) h h1" and b1: "same_blocks h h1"
      using Node.IH(2) [OF tr] Node.prems by auto
    have hi: "h1 i = h i" using o1 i by (simp add: same_outside_def)
    have tl1: "tree_at h1 (left (h i)) l"
      using tree_at_frame [OF tl o1] i by blast
    have "insert_bst h root (Some n)
        = Some (Some i, set_right i (troot (tinsert (key h) n r)) h1)"
      using False root e by (subst insert_bst.simps) simp
    moreover have "tree_at (set_right i (troot (tinsert (key h) n r)) h1) (Some i)
        (Node l i (tinsert (key h) n r))"
      using t1 tl1 i hi by simp
    moreover have "same_outside (set_tree (Node l i r)) h
        (set_right i (troot (tinsert (key h) n r)) h1)"
      using same_outside_mono [OF o1, of "set_tree (Node l i r)"] by auto
    ultimately show ?thesis
      using False b1 by auto
  qed
qed


lemma map_insort_key:
  "map g (insort_key (\<lambda>i. k (g i)) x xs) = insort_key k (g x) (map g xs)"
  by (induction xs) auto

text \<open>On a search tree the new block is inserted in address order.\<close>

lemma insert_bst_blocks:
  assumes "tree_at h p t" and "distinct (inorder t)" and "lone h n" and "n \<notin> set_tree t"
    and "sorted_by (key h) (inorder t)" and "key h n \<notin> key h ` set_tree t"
  shows "\<exists>q h' t'. insert_bst h p (Some n) = Some (q, h') \<and> tree_at h' q t'
    \<and> set_tree t' = insert n (set_tree t) \<and> distinct (inorder t')
    \<and> sorted_by (key h') (inorder t')
    \<and> blocks h' t' = insort_key addr (block (h n)) (blocks h t)
    \<and> (right_spine t \<and> (\<forall>b \<in> set (blocks h t). addr b < key h n) \<longrightarrow> right_spine t')
    \<and> same_outside (set_tree t) h h' \<and> same_blocks h h'"
proof -
  let ?t = "tinsert (key h) n t"
  obtain h' where r: "insert_bst h p (Some n) = Some (troot ?t, h')" and t: "tree_at h' (troot ?t) ?t"
    and o: "same_outside (set_tree t) h h'" and b: "same_blocks h h'"
    using insert_bst_refines [OF assms(1-4)] by blast
  have io: "inorder ?t = insort_key (key h) n (inorder t)"
    by (rule inorder_tinsert [OF assms(5,6)])
  have srt: "sorted_by (key h) (inorder ?t)" by (rule sorted_tinsert [OF assms(5,6)])
  then have d: "distinct (inorder ?t)" by (rule sorted_by_distinct)
  have "blocks h' ?t = blocks h ?t" using b by (rule same_blocks_blocks)
  also have "\<dots> = insort_key addr (block (h n)) (blocks h t)"
    unfolding blocks_def io by (rule map_insort_key)
  finally have bl: "blocks h' ?t = insort_key addr (block (h n)) (blocks h t)" .
  have srt': "sorted_by (key h') (inorder ?t)" using srt same_blocks_key [OF b] by simp
  have sp: "right_spine t \<and> (\<forall>b \<in> set (blocks h t). addr b < key h n) \<longrightarrow> right_spine ?t"
    using right_spine_tinsert [of t "key h" n] by (simp add: set_blocks)
  show ?thesis
    by (rule exI [of _ "troot ?t"], rule exI [of _ h'], rule exI [of _ ?t])
      (intro conjI r t set_tinsert d srt' bl sp o b)
qed


section \<open>Search\<close>

text \<open>Both searches return on every tree, with the reference result, and write nothing.\<close>

lemma search_bst_refines:
  "tree_at h root t \<Longrightarrow> search_bst h root a = Some (tfind (key h) a t)"
proof (induction t arbitrary: root)
  case Leaf
  then show ?case by (subst search_bst.simps) simp
next
  case (Node l i r)
  then show ?case by (subst search_bst.simps) auto
qed

lemma ext_search_bst_refines:
  "tree_at h root t \<Longrightarrow>
     ext_search_bst h root a = Some (tfind_region (key h) (\<lambda>i. holds_addr a (block (h i))) a t)"
proof (induction t arbitrary: root)
  case Leaf
  then show ?case by (subst ext_search_bst.simps) simp
next
  case (Node l i r)
  then show ?case by (subst ext_search_bst.simps) (auto simp: holds_addr_def)
qed


section \<open>Removal\<close>

text \<open>The inner call of \<^verbatim>\<open>remove_bst\<close>: a node without a left child, removed by its own key.\<close>

lemma remove_bst_own_key:
  "left (h m) = None \<Longrightarrow> remove_bst h (Some m) (key h m) = Some (right (h m), Some m, unlink m h)"
  by (subst remove_bst.simps) simp

text \<open>
  The successor loop ends at the leftmost node. Either that is where it started, or its parent is
  a node of the tree whose left child it is, and relinking that child drops the leftmost node.
\<close>

lemma min_node_loop_refines:
  assumes "tree_at h (Some m0) r" and "distinct (inorder r)" and "par \<notin> set_tree r"
  shows "\<exists>p m. min_node_loop h par m0 = Some (p, m) \<and> leftmost r = Some m \<and> left (h m) = None
    \<and> (p = par \<and> m = m0 \<and> tree_at h (right (h m)) (tdelmin r)
       \<or> p \<in> set_tree r \<and> p \<noteq> m \<and> left (h p) = Some m
          \<and> tree_at (set_left p (right (h m)) (unlink m h)) (Some m0) (tdelmin r))"
  using assms
proof (induction r arbitrary: m0 par)
  case Leaf
  then show ?case by simp
next
  case (Node a j b)
  have m0: "m0 = j" and ta: "tree_at h (left (h j)) a" and tb: "tree_at h (right (h j)) b"
    using Node.prems(1) by auto
  show ?case
  proof (cases "a = Leaf")
    case True
    then have "left (h j) = None" using ta by simp
    with True m0 tb show ?thesis by (subst min_node_loop.simps) simp
  next
    case False
    then obtain j1 where j1: "left (h j) = Some j1"
      using ta tree_at_Leaf_iff by fastforce
    have ta1: "tree_at h (Some j1) a" using ta j1 by simp
    have ja: "j \<notin> set_tree a" "j \<notin> set_tree b" "set_tree a \<inter> set_tree b = {}"
      and da: "distinct (inorder a)"
      using Node.prems(2) by auto
    obtain p m where e: "min_node_loop h j j1 = Some (p, m)" and lm: "leftmost a = Some m"
      and nl: "left (h m) = None"
      and cs: "p = j \<and> m = j1 \<and> tree_at h (right (h m)) (tdelmin a)
         \<or> p \<in> set_tree a \<and> p \<noteq> m \<and> left (h p) = Some m
            \<and> tree_at (set_left p (right (h m)) (unlink m h)) (Some j1) (tdelmin a)"
      using Node.IH(1) [OF ta1 da ja(1)] by blast
    have mm: "m \<in> set_tree a" using lm by (rule leftmost_mem)
    have run: "min_node_loop h par m0 = Some (p, m)"
      using m0 j1 e by (subst min_node_loop.simps) simp
    have sub: "set_tree (tdelmin a) \<subseteq> set_tree a" by (rule set_tdelmin_subset)
    have md: "m \<notin> set_tree (tdelmin a)"
      using leftmost_notin [OF lm da] .
    from cs show ?thesis
    proof
      assume c: "p = j \<and> m = j1 \<and> tree_at h (right (h m)) (tdelmin a)"
      have "j \<notin> set_tree (tdelmin a)" "m \<notin> set_tree b" "m \<noteq> j"
        using mm ja sub by auto
      moreover have "tree_at h (right (h m)) (tdelmin a)" using c by blast
      ultimately have "tree_at (set_left j (right (h m)) (unlink m h)) (Some j) (Node (tdelmin a) j b)"
        using ja md tb by simp
      with run lm nl c m0 mm ja j1 False show ?thesis by auto
    next
      assume c: "p \<in> set_tree a \<and> p \<noteq> m \<and> left (h p) = Some m
            \<and> tree_at (set_left p (right (h m)) (unlink m h)) (Some j1) (tdelmin a)"
      then have "p \<noteq> j" "m \<noteq> j" "p \<notin> set_tree b" "m \<notin> set_tree b"
        using mm ja by auto
      then have "tree_at (set_left p (right (h m)) (unlink m h)) (Some j) (Node (tdelmin a) j b)"
        using c j1 tb by auto
      with run lm nl c m0 False show ?thesis by auto
    qed
  qed
qed

text \<open>
  \<^const>\<open>remove_bst\<close> computes \<^const>\<open>tdelete\<close>: the tree, the node that leaves it and the blocks of
  all nodes; the node that leaves has no children and no node outside the tree is written.
\<close>

lemma remove_bst_refines:
  assumes "tree_at h root t" and "distinct (inorder t)"
    and "tdelete addr a t (\<lambda>i. block (h i)) = (t', x, bl')"
  shows "\<exists>h'. remove_bst h root a = Some (troot t', x, h') \<and> tree_at h' (troot t') t'
    \<and> same_outside (set_tree t) h h' \<and> (\<forall>i. block (h' i) = bl' i)
    \<and> (\<forall>m. x = Some m \<longrightarrow> lone h' m)"
  using assms
proof (induction t arbitrary: root t' x bl')
  case Leaf
  then show ?case by (subst remove_bst.simps) auto
next
  case (Node l i r)
  have root: "root = Some i" and tl: "tree_at h (left (h i)) l" and tr: "tree_at h (right (h i)) r"
    using Node.prems(1) by auto
  have dl: "distinct (inorder l)" and dr: "distinct (inorder r)"
    and d: "i \<notin> set_tree l" "i \<notin> set_tree r" "set_tree l \<inter> set_tree r = {}"
    using Node.prems(2) by auto
  consider (lt) "a < key h i" | (gt) "key h i < a" | (eq) "key h i = a"
    using linorder_neqE by blast
  then show ?case
  proof cases
    case lt
    then obtain l' where td: "tdelete addr a l (\<lambda>i. block (h i)) = (l', x, bl')" and t': "t' = Node l' i r"
      using Node.prems(3) by (auto split: prod.splits)
    obtain h1 where e: "remove_bst h (left (h i)) a = Some (troot l', x, h1)"
      and t1: "tree_at h1 (troot l') l'" and o1: "same_outside (set_tree l) h h1"
      and b1: "\<forall>i. block (h1 i) = bl' i" and n1: "\<forall>m. x = Some m \<longrightarrow> lone h1 m"
      using Node.IH(1) [OF tl dl td] by blast
    have hi: "h1 i = h i" using o1 d by (simp add: same_outside_def)
    have tr1: "tree_at h1 (right (h i)) r" using tree_at_frame [OF tr o1] d by blast
    have sl: "set_tree l' \<subseteq> set_tree l" "\<forall>m. x = Some m \<longrightarrow> m \<in> set_tree l"
      using tdelete_shrinks [OF td] by auto
    then have il: "i \<notin> set_tree l'" using d by blast
    have "remove_bst h root a = Some (Some i, x, set_left i (troot l') h1)"
      using lt root e by (subst remove_bst.simps) simp
    moreover have "tree_at (set_left i (troot l') h1) (Some i) t'"
      using t1 tr1 hi d il t' by simp
    moreover have "same_outside (set_tree (Node l i r)) h (set_left i (troot l') h1)"
      using same_outside_mono [OF o1, of "set_tree (Node l i r)"] by auto
    moreover have "\<forall>m. x = Some m \<longrightarrow> lone (set_left i (troot l') h1) m"
      using n1 sl d by (auto simp: lone_def)
    ultimately show ?thesis
      using b1 t' by auto
  next
    case gt
    then obtain r' where td: "tdelete addr a r (\<lambda>i. block (h i)) = (r', x, bl')" and t': "t' = Node l i r'"
      using Node.prems(3) less_not_sym [OF gt] by (auto split: prod.splits)
    obtain h1 where e: "remove_bst h (right (h i)) a = Some (troot r', x, h1)"
      and t1: "tree_at h1 (troot r') r'" and o1: "same_outside (set_tree r) h h1"
      and b1: "\<forall>i. block (h1 i) = bl' i" and n1: "\<forall>m. x = Some m \<longrightarrow> lone h1 m"
      using Node.IH(2) [OF tr dr td] by blast
    have hi: "h1 i = h i" using o1 d by (simp add: same_outside_def)
    have tl1: "tree_at h1 (left (h i)) l" using tree_at_frame [OF tl o1] d by blast
    have sr: "set_tree r' \<subseteq> set_tree r" "\<forall>m. x = Some m \<longrightarrow> m \<in> set_tree r"
      using tdelete_shrinks [OF td] by auto
    then have ir: "i \<notin> set_tree r'" using d by blast
    have "remove_bst h root a = Some (Some i, x, set_right i (troot r') h1)"
      using gt less_not_sym [OF gt] root e by (subst remove_bst.simps) simp
    moreover have "tree_at (set_right i (troot r') h1) (Some i) t'"
      using t1 tl1 hi d ir t' by simp
    moreover have "same_outside (set_tree (Node l i r)) h (set_right i (troot r') h1)"
      using same_outside_mono [OF o1, of "set_tree (Node l i r)"] by auto
    moreover have "\<forall>m. x = Some m \<longrightarrow> lone (set_right i (troot r') h1) m"
      using n1 sr d by (auto simp: lone_def)
    ultimately show ?thesis
      using b1 t' by auto
  next
    case eq
    show ?thesis
    proof (cases "l = Leaf \<or> r = Leaf")
      case True
      then have t': "t' = (if l = Leaf then r else l)" and x: "x = Some i"
        and bl': "bl' = (\<lambda>i. block (h i))"
        using Node.prems(3) eq by (auto split: if_splits)
      have lr: "left (h i) = troot l" "right (h i) = troot r"
        using tl tr tree_at_troot by auto
      have "remove_bst h root a = Some (troot t', Some i, unlink i h)"
        using True eq root lr t' by (subst remove_bst.simps) (auto split: option.splits)
      moreover have "tree_at (unlink i h) (troot t') t'"
        using True tl tr d lr t' by auto
      ultimately show ?thesis
        using x bl' by (auto simp: lone_def)
    next
      case False
      then obtain li ri where li: "left (h i) = Some li" and ri: "right (h i) = Some ri"
        using tl tr tree_at_Leaf_iff by (metis not_None_eq)
      have tr': "tree_at h (Some ri) r" using tr ri by simp
      obtain p m where e: "min_node_loop h i ri = Some (p, m)" and lm: "leftmost r = Some m"
        and nl: "left (h m) = None"
        and cs: "p = i \<and> m = ri \<and> tree_at h (right (h m)) (tdelmin r)
           \<or> p \<in> set_tree r \<and> p \<noteq> m \<and> left (h p) = Some m
              \<and> tree_at (set_left p (right (h m)) (unlink m h)) (Some ri) (tdelmin r)"
        using min_node_loop_refines [OF tr' dr d(2)] by blast
      have mr: "m \<in> set_tree r" using lm by (rule leftmost_mem)
      have mi: "m \<noteq> i" and ml: "m \<notin> set_tree l" using mr d by auto
      have md: "m \<notin> set_tree (tdelmin r)"
        using leftmost_notin [OF lm dr] .
      have id: "i \<notin> set_tree (tdelmin r)" using d(2) by (auto dest: subsetD [OF set_tdelmin_subset])
      have t': "t' = Node l i (tdelmin r)" and x: "x = Some m"
        and bl': "bl' = (\<lambda>i. block (h i))(i := block (h m))"
        using Node.prems(3) eq False lm by auto
      have leftchild: "li \<in> set_tree l"
        using tl li by (cases l) auto
      have ti: "troot t' = Some i" by (simp add: t')
      define h1 where "h1 = set_block i (block (h m)) h"
      have own: "remove_bst h1 (Some m) (key h m) = Some (right (h m), Some m, unlink m h1)"
        using remove_bst_own_key [of h1 m] nl mi by (simp add: h1_def)
      from cs show ?thesis
      proof
        assume c: "p = i \<and> m = ri \<and> tree_at h (right (h m)) (tdelmin r)"
        then have tm: "tree_at h (right (h m)) (tdelmin r)" by blast
        have lm': "li \<noteq> m"
          using ml leftchild by blast
        have run: "remove_bst h root a
            = Some (Some i, Some m, set_right i (right (h m)) (unlink m h1))"
          using eq root li ri e c lm' own mi
          by (subst remove_bst.simps) (simp add: Let_def h1_def)
        have "tree_at (set_right i (right (h m)) (unlink m h1)) (Some i) t'"
          using tm tl t' mi ml md d id by (simp add: h1_def)
        moreover have "same_outside (set_tree (Node l i r)) h (set_right i (right (h m)) (unlink m h1))"
          using mr by (simp add: h1_def)
        moreover have "\<forall>j. block (set_right i (right (h m)) (unlink m h1) j) = bl' j"
          using mi by (simp add: bl' h1_def)
        moreover have "lone (set_right i (right (h m)) (unlink m h1)) m"
          using mi by (simp add: lone_def)
        ultimately show ?thesis
          using run by (simp only: ti x) blast
      next
        assume c: "p \<in> set_tree r \<and> p \<noteq> m \<and> left (h p) = Some m
            \<and> tree_at (set_left p (right (h m)) (unlink m h)) (Some ri) (tdelmin r)"
        have pi: "p \<noteq> i" "p \<notin> set_tree l" using c d by auto
        have run: "remove_bst h root a
            = Some (Some i, Some m, set_left p (right (h m)) (unlink m h1))"
          using eq root li ri e c own mi pi
          by (subst remove_bst.simps) (simp add: Let_def h1_def)
        have "tree_at (set_left p (right (h m)) (unlink m h1)) (Some ri) (tdelmin r)
            = tree_at (set_left p (right (h m)) (unlink m h)) (Some ri) (tdelmin r)"
          by (rule tree_at_cong) (auto simp: h1_def)
        then have "tree_at (set_left p (right (h m)) (unlink m h1)) (Some i) t'"
          using c tl t' mi ml pi ri d by (simp add: h1_def)
        moreover have "same_outside (set_tree (Node l i r)) h (set_left p (right (h m)) (unlink m h1))"
          using mr c by (simp add: h1_def)
        moreover have "\<forall>j. block (set_left p (right (h m)) (unlink m h1) j) = bl' j"
          using mi pi by (simp add: bl' h1_def)
        moreover have "lone (set_left p (right (h m)) (unlink m h1)) m"
          using mi c by (simp add: lone_def)
        ultimately show ?thesis
          using run by (simp only: ti x) blast
      qed
    qed
  qed
qed


text \<open>In terms of the blocks the tree holds.\<close>

lemma remove_bst_blocks:
  assumes t: "tree_at h root t" and srt: "sorted_by (key h) (inorder t)"
  shows "\<exists>p x h' t'. remove_bst h root a = Some (p, x, h') \<and> tree_at h' p t'
    \<and> sorted_by (key h') (inorder t')
    \<and> blocks h' t' = filter (\<lambda>b. addr b \<noteq> a) (blocks h t)
    \<and> (case x of
         None \<Rightarrow> a \<notin> key h ` set_tree t
       | Some m \<Rightarrow> a \<in> key h ` set_tree t \<and> lone h' m \<and> m \<notin> set_tree t'
           \<and> set_tree t = insert m (set_tree t'))
    \<and> same_outside (set_tree t) h h'"
proof -
  obtain t' x bl' where td: "tdelete addr a t (\<lambda>i. block (h i)) = (t', x, bl')"
    by (cases "tdelete addr a t (\<lambda>i. block (h i))") auto
  have d: "distinct (inorder t)" using srt by (rule sorted_by_distinct)
  obtain h' where r: "remove_bst h root a = Some (troot t', x, h')" and t': "tree_at h' (troot t') t'"
    and o: "same_outside (set_tree t) h h'" and b: "\<forall>i. block (h' i) = bl' i"
    and l: "\<forall>m. x = Some m \<longrightarrow> lone h' m"
    using remove_bst_refines [OF t d td] by blast
  have bl': "bl' = (\<lambda>i. block (h' i))" using b by auto
  note I = inorder_tdelete [OF td srt]
  have "blocks h' t' = filter (\<lambda>b. addr b \<noteq> a) (blocks h t)"
    using I unfolding blocks_def bl' by blast
  moreover have "sorted_by (key h') (inorder t')"
    using sorted_tdelete [OF td srt] unfolding bl' .
  moreover have "case x of
         None \<Rightarrow> a \<notin> key h ` set_tree t
       | Some m \<Rightarrow> a \<in> key h ` set_tree t \<and> lone h' m \<and> m \<notin> set_tree t'
           \<and> set_tree t = insert m (set_tree t')"
    using I l by (auto split: option.splits)
  ultimately show ?thesis using r t' o by blast
qed

text \<open>
  Where the node found has two children, the node handed back is the in-order successor's, and it
  carries the successor's block, which the tree keeps: the block that was removed is lost.
\<close>

lemma remove_bst_successor:
  assumes t: "tree_at h root (Node l i r)" and srt: "sorted_by (key h) (inorder (Node l i r))"
    and l: "l \<noteq> Leaf" and m: "leftmost r = Some m"
  shows "\<exists>p h' t'. remove_bst h root (key h i) = Some (p, Some m, h') \<and> tree_at h' p t'
    \<and> block (h' m) = block (h m) \<and> block (h m) \<in> set (blocks h' t')
    \<and> block (h i) \<notin> set (blocks h' t') \<and> block (h' m) \<noteq> block (h i)"
proof -
  have r: "r \<noteq> Leaf" using m by auto
  have "tdelete addr (key h i) (Node l i r) (\<lambda>j. block (h j))
      = (Node l i (tdelmin r), Some m, (\<lambda>j. block (h j))(i := block (h m)))"
    using l r m by simp
  from remove_bst_refines [OF t sorted_by_distinct [OF srt] this]
  obtain h' where R: "remove_bst h root (key h i) = Some (Some i, Some m, h')"
    and t': "tree_at h' (Some i) (Node l i (tdelmin r))"
    and b: "\<forall>j. block (h' j) = ((\<lambda>j. block (h j))(i := block (h m))) j"
    by auto
  have mr: "m \<in> set_tree r" using m by (rule leftmost_mem)
  then have k: "key h i < key h m" and mi: "m \<noteq> i" using srt by auto
  have ne: "block (h i) \<noteq> block (h j)" if "j \<in> set_tree l \<union> set_tree (tdelmin r) \<union> {m}" for j
  proof -
    have "j \<in> set_tree l \<union> set_tree r" using that set_tdelmin_subset [of r] mr by auto
    then have "key h j \<noteq> key h i" using srt by auto
    then show ?thesis by auto
  qed
  have ii: "i \<notin> set_tree l" "i \<notin> set_tree (tdelmin r)"
    using srt subsetD [OF set_tdelmin_subset, of i r] by auto
  have bs: "set (blocks h' (Node l i (tdelmin r)))
      = (\<lambda>j. block (h j)) ` (set_tree l \<union> set_tree (tdelmin r) \<union> {m})"
    using b ii by (auto simp: set_blocks)
  have "block (h i) \<notin> set (blocks h' (Node l i (tdelmin r)))" unfolding bs using ne by blast
  moreover have "block (h m) \<in> set (blocks h' (Node l i (tdelmin r)))" unfolding bs by blast
  moreover have "block (h' m) = block (h m)" "block (h' m) \<noteq> block (h i)"
    using b mi ne [of m] by auto
  ultimately show ?thesis using R t' by blast
qed


section \<open>Properties\<close>

text \<open>A search tree of three nodes and a fourth node outside it, for the concrete instances.\<close>

definition leaf_node :: "size_t \<Rightarrow> size_t \<Rightarrow> TreeNode" where
  "leaf_node a n = \<lparr>block = \<lparr>addr = a, bsize = n, isMarked = False\<rparr>, left = None, right = None\<rparr>"

definition ex_store :: tstore where
  "ex_store = (\<lambda>_. leaf_node 0 0)
     (0 := (leaf_node 64 16)\<lparr>left := Some 1, right := Some 2\<rparr>,
      1 := leaf_node 16 16, 2 := leaf_node 128 8, 3 := leaf_node 80 48)"

definition ex_tree :: "nat tree" where
  "ex_tree = Node (Node Leaf 1 Leaf) 0 (Node Leaf 2 Leaf)"

lemma ex_store_tree:
  "tree_at ex_store (Some 0) ex_tree" "sorted_by (key ex_store) (inorder ex_tree)"
  "lone ex_store 3" "set_tree ex_tree = {0, 1, 2}"
  by (auto simp: ex_store_def ex_tree_def leaf_node_def lone_def word_less_nat_alt)

text \<open>C22: insert_bst returns on every search tree; the node is added with its block in address
  order, the tree stays a search tree, and search_bst finds the node at its address.\<close>

theorem insert_bst_correct:
  assumes "tree_at h root t" and "sorted_by (key h) (inorder t)" and "lone h n"
    and "key h n \<notin> key h ` set_tree t"
  shows "\<exists>p h' t'. insert_bst h root (Some n) = Some (p, h') \<and> tree_at h' p t'
    \<and> sorted_by (key h') (inorder t') \<and> set_tree t' = insert n (set_tree t)
    \<and> blocks h' t' = insort_key addr (block (h n)) (blocks h t)
    \<and> search_bst h' p (key h n) = Some (Some n)"
proof -
  have n: "n \<notin> set_tree t" using assms(4) by auto
  obtain p h' t' where r: "insert_bst h root (Some n) = Some (p, h')" and t: "tree_at h' p t'"
    and st: "set_tree t' = insert n (set_tree t)" and srt: "sorted_by (key h') (inorder t')"
    and bl: "blocks h' t' = insort_key addr (block (h n)) (blocks h t)" and b: "same_blocks h h'"
    using insert_bst_blocks [OF assms(1) sorted_by_distinct [OF assms(2)] assms(3) n assms(2,4)] by blast
  have "key h' n = key h n" using b by (simp add: same_blocks_def)
  then have "search_bst h' p (key h n) = Some (Some n)"
    using search_bst_refines [OF t] tfind_complete [OF srt, of n] st by simp
  with r t st srt bl show ?thesis by blast
qed

theorem insert_bst_correct_witness:
  "\<exists>p h' t'. insert_bst ex_store (Some 0) (Some 3) = Some (p, h') \<and> tree_at h' p t'
    \<and> sorted_by (key h') (inorder t') \<and> set_tree t' = insert 3 (set_tree ex_tree)
    \<and> blocks h' t' = insort_key addr (block (ex_store 3)) (blocks ex_store ex_tree)
    \<and> search_bst h' p (key ex_store 3) = Some (Some 3)"
  by (rule insert_bst_correct [OF ex_store_tree(1-3)])
    (simp add: ex_store_tree(4) ex_store_def leaf_node_def)

text \<open>\<^verbatim>\<open>search_bst\<close> returns on every search tree, and finds exactly the node whose block starts at
  the address.\<close>

theorem search_bst_correct:
  assumes "tree_at h root t" and "sorted_by (key h) (inorder t)"
  shows "\<exists>p. search_bst h root a = Some p \<and> (\<forall>i. p = Some i \<longleftrightarrow> i \<in> set_tree t \<and> key h i = a)"
  using search_bst_refines [OF assms(1)] tfind_iff [OF assms(2)] by simp

theorem search_bst_correct_witness:
  "\<exists>p. search_bst ex_store (Some 0) 128 = Some p
    \<and> (\<forall>i. p = Some i \<longleftrightarrow> i \<in> set_tree ex_tree \<and> key ex_store i = 128)"
  by (rule search_bst_correct [OF ex_store_tree(1,2)])

text \<open>Remove_bst returns on every search tree; what is left is a search tree with every block
  but the one at the address, and the node handed back is cut off from the tree.\<close>

theorem remove_bst_correct:
  assumes "tree_at h root t" and "sorted_by (key h) (inorder t)"
  shows "\<exists>p x h' t'. remove_bst h root a = Some (p, x, h') \<and> tree_at h' p t'
    \<and> sorted_by (key h') (inorder t')
    \<and> blocks h' t' = filter (\<lambda>b. addr b \<noteq> a) (blocks h t)
    \<and> (case x of
         None \<Rightarrow> a \<notin> key h ` set_tree t
       | Some m \<Rightarrow> a \<in> key h ` set_tree t \<and> lone h' m \<and> m \<notin> set_tree t'
           \<and> set_tree t = insert m (set_tree t'))"
  using remove_bst_blocks [OF assms] by blast

theorem remove_bst_correct_witness:
  "\<exists>p x h' t'. remove_bst ex_store (Some 0) 64 = Some (p, x, h') \<and> tree_at h' p t'
    \<and> sorted_by (key h') (inorder t')
    \<and> blocks h' t' = filter (\<lambda>b. addr b \<noteq> 64) (blocks ex_store ex_tree)
    \<and> (case x of
         None \<Rightarrow> 64 \<notin> key ex_store ` set_tree ex_tree
       | Some m \<Rightarrow> 64 \<in> key ex_store ` set_tree ex_tree \<and> lone h' m \<and> m \<notin> set_tree t'
           \<and> set_tree ex_tree = insert m (set_tree t'))"
  by (rule remove_bst_correct [OF ex_store_tree(1,2)])

text \<open>Where the node to remove has two children, remove_bst hands back the successor's node,
  which carries a block that the tree still holds; the removed block is in neither.\<close>

theorem remove_bst_two_children:
  assumes "tree_at h root (Node l i r)" and "sorted_by (key h) (inorder (Node l i r))"
    and "l \<noteq> Leaf" and "r \<noteq> Leaf"
  shows "\<exists>p m h' t'. remove_bst h root (key h i) = Some (p, Some m, h') \<and> tree_at h' p t'
    \<and> m \<in> set_tree r \<and> block (h' m) = block (h m) \<and> block (h m) \<in> set (blocks h' t')
    \<and> block (h i) \<notin> set (blocks h' t') \<and> block (h' m) \<noteq> block (h i)"
proof -
  obtain m where m: "leftmost r = Some m" using assms(4) by (cases "leftmost r") auto
  then have "m \<in> set_tree r" by (rule leftmost_mem)
  with remove_bst_successor [OF assms(1-3) m] show ?thesis by blast
qed

theorem remove_bst_two_children_witness:
  "\<exists>p m h' t'. remove_bst ex_store (Some 0) 64 = Some (p, Some m, h') \<and> tree_at h' p t'
    \<and> m \<in> {2} \<and> block (h' m) = block (ex_store m) \<and> block (ex_store m) \<in> set (blocks h' t')
    \<and> block (ex_store 0) \<notin> set (blocks h' t') \<and> block (h' m) \<noteq> block (ex_store 0)"
proof -
  have "key ex_store 0 = 64" by (simp add: ex_store_def leaf_node_def)
  then show ?thesis
    using remove_bst_two_children [OF ex_store_tree(1,2) [unfolded ex_tree_def]] by simp
qed

end
