(* ===== verification/Node_Pool.thy ===== *)
theory Node_Pool
  imports Tree_Store
begin

text \<open>
  The globals of \<^verbatim>\<open>allocator/large-allocator.c\<close> and its pool of unused \<^verbatim>\<open>TreeNode\<close>s, a list linked
  through the \<^verbatim>\<open>right\<close> fields. The cells \<^verbatim>\<open>START_BIG_ALLOCATOR_HEAP\<close> and
  \<^verbatim>\<open>END_BIG_ALLOCATOR_HEAP\<close> are heap cells in the code: \<open>None\<close> while the pointer is \<^verbatim>\<open>NULL\<close>.
\<close>

record large_state =
  TREENODES_LIST :: tstore
  TREENODE_LIST_HEAD :: tptr
  free_root :: tptr
  occupied_root :: tptr
  START_BIG_ALLOCATOR_HEAP :: "size_t option"
  END_BIG_ALLOCATOR_HEAP :: "size_t option"

definition get_new_tree_node :: "large_state \<Rightarrow> tptr \<times> large_state" where
  "get_new_tree_node s =
     (case TREENODE_LIST_HEAD s of
        None \<Rightarrow> (None, s)
      | Some n \<Rightarrow>
          (Some n, s\<lparr>TREENODE_LIST_HEAD := right (TREENODES_LIST s n),
                    TREENODES_LIST := unlink n (TREENODES_LIST s)\<rparr>))"

definition free_tree_node :: "tptr \<Rightarrow> large_state \<Rightarrow> large_state" where
  "free_tree_node node s =
     (case node of
        None \<Rightarrow> s
      | Some n \<Rightarrow>
          s\<lparr>TREENODES_LIST := (TREENODES_LIST s)(n :=
              \<lparr>block = \<lparr>addr = 0, bsize = 0, isMarked = False\<rparr>,
               left = None, right = TREENODE_LIST_HEAD s\<rparr>),
            TREENODE_LIST_HEAD := Some n\<rparr>)"

fun pool_at :: "tstore \<Rightarrow> tptr \<Rightarrow> nat list \<Rightarrow> bool" where
  "pool_at h p [] \<longleftrightarrow> p = None"
| "pool_at h p (i # is) \<longleftrightarrow> p = Some i \<and> pool_at h (right (h i)) is"

lemma pool_at_None [simp]: "pool_at h None ns \<longleftrightarrow> ns = []"
  by (cases ns) auto

lemma pool_at_cong:
  "(\<And>i. i \<in> set ns \<Longrightarrow> right (h' i) = right (h i)) \<Longrightarrow> pool_at h' p ns = pool_at h p ns"
  by (induction ns arbitrary: p) auto

lemma pool_at_frame:
  assumes "pool_at h p ns" and "same_outside X h h'" and "X \<inter> set ns = {}"
  shows "pool_at h' p ns"
proof -
  have "right (h' i) = right (h i)" if "i \<in> set ns" for i
    using assms(2,3) that by (auto simp: same_outside_def)
  then have "pool_at h' p ns = pool_at h p ns"
    by (rule pool_at_cong)
  with assms(1) show ?thesis by simp
qed

text \<open>Taking a node: the head of the pool, unlinked, and nothing else written.\<close>

lemma get_new_tree_node_empty:
  "pool_at (TREENODES_LIST s) (TREENODE_LIST_HEAD s) [] \<Longrightarrow> get_new_tree_node s = (None, s)"
  by (simp add: get_new_tree_node_def)

lemma get_new_tree_node_Cons:
  assumes "pool_at (TREENODES_LIST s) (TREENODE_LIST_HEAD s) (n # ns)" and "n \<notin> set ns"
  shows "get_new_tree_node s = (Some n,
      s\<lparr>TREENODE_LIST_HEAD := right (TREENODES_LIST s n),
        TREENODES_LIST := unlink n (TREENODES_LIST s)\<rparr>)"
    and "pool_at (unlink n (TREENODES_LIST s)) (right (TREENODES_LIST s n)) ns"
proof -
  show "get_new_tree_node s = (Some n,
      s\<lparr>TREENODE_LIST_HEAD := right (TREENODES_LIST s n),
        TREENODES_LIST := unlink n (TREENODES_LIST s)\<rparr>)"
    using assms(1) by (simp add: get_new_tree_node_def)
  have "pool_at (TREENODES_LIST s) (right (TREENODES_LIST s n)) ns"
    using assms(1) by simp
  then show "pool_at (unlink n (TREENODES_LIST s)) (right (TREENODES_LIST s n)) ns"
    using assms(2) by (subst pool_at_cong) auto
qed

text \<open>Returning a node: it becomes the head of the pool, cleared.\<close>

lemma free_tree_node_Some:
  assumes "pool_at (TREENODES_LIST s) (TREENODE_LIST_HEAD s) ns" and "n \<notin> set ns"
  shows "pool_at (TREENODES_LIST (free_tree_node (Some n) s))
           (TREENODE_LIST_HEAD (free_tree_node (Some n) s)) (n # ns)"
    and "same_outside {n} (TREENODES_LIST s) (TREENODES_LIST (free_tree_node (Some n) s))"
proof -
  have "pool_at (TREENODES_LIST (free_tree_node (Some n) s)) (TREENODE_LIST_HEAD s) ns"
    using assms by (subst pool_at_cong [of _ _ "TREENODES_LIST s"]) (auto simp: free_tree_node_def)
  then show "pool_at (TREENODES_LIST (free_tree_node (Some n) s))
           (TREENODE_LIST_HEAD (free_tree_node (Some n) s)) (n # ns)"
    by (simp add: free_tree_node_def)
  show "same_outside {n} (TREENODES_LIST s) (TREENODES_LIST (free_tree_node (Some n) s))"
    by (simp add: free_tree_node_def same_outside_def)
qed

text \<open>The globals that only the allocator itself writes: the two roots and the heap limits.\<close>

definition same_globals :: "large_state \<Rightarrow> large_state \<Rightarrow> bool" where
  "same_globals s s' \<longleftrightarrow> free_root s' = free_root s \<and> occupied_root s' = occupied_root s
     \<and> START_BIG_ALLOCATOR_HEAP s' = START_BIG_ALLOCATOR_HEAP s
     \<and> END_BIG_ALLOCATOR_HEAP s' = END_BIG_ALLOCATOR_HEAP s"

lemma same_globals_refl [simp]: "same_globals s s"
  by (simp add: same_globals_def)

lemma same_globals_trans: "same_globals s s' \<Longrightarrow> same_globals s' s'' \<Longrightarrow> same_globals s s''"
  by (simp add: same_globals_def)

lemma same_globals_updates [frame_simps]:
  "same_globals s (free_tree_node p s') = same_globals s s'"
  "same_globals s (s'\<lparr>TREENODES_LIST := h\<rparr>) = same_globals s s'"
  "same_globals s (s'\<lparr>TREENODE_LIST_HEAD := q\<rparr>) = same_globals s s'"
  "same_globals (s\<lparr>TREENODES_LIST := h\<rparr>) s' = same_globals s s'"
  by (simp_all add: same_globals_def free_tree_node_def split: option.split)

section \<open>Properties\<close>

text \<open>A node taken from a pool that is not empty is its head with both child pointers cleared,
  and returning it gives back the same pool.\<close>

theorem pool_roundtrip:
  assumes "pool_at (TREENODES_LIST s) (TREENODE_LIST_HEAD s) (n # ns)" and "n \<notin> set ns"
  shows "\<exists>s'. get_new_tree_node s = (Some n, s') \<and> lone (TREENODES_LIST s') n
    \<and> pool_at (TREENODES_LIST s') (TREENODE_LIST_HEAD s') ns
    \<and> pool_at (TREENODES_LIST (free_tree_node (Some n) s'))
        (TREENODE_LIST_HEAD (free_tree_node (Some n) s')) (n # ns)"
proof -
  note g = get_new_tree_node_Cons [OF assms]
  let ?s = "s\<lparr>TREENODE_LIST_HEAD := right (TREENODES_LIST s n), TREENODES_LIST := unlink n (TREENODES_LIST s)\<rparr>"
  have p: "pool_at (TREENODES_LIST ?s) (TREENODE_LIST_HEAD ?s) ns" using g(2) by simp
  then show ?thesis
    using g(1) free_tree_node_Some(1) [OF p assms(2)] by (simp add: lone_def)
qed

definition ex_pool :: large_state where
  "ex_pool = \<lparr>TREENODES_LIST = (\<lambda>i. \<lparr>block = \<lparr>addr = 0, bsize = 0, isMarked = False\<rparr>, left = Some 7,
       right = (if i = 2 then None else Some (i + 1))\<rparr>),
     TREENODE_LIST_HEAD = Some 0, free_root = None, occupied_root = None,
     START_BIG_ALLOCATOR_HEAP = None, END_BIG_ALLOCATOR_HEAP = None\<rparr>"

theorem pool_roundtrip_witness:
  "\<exists>s'. get_new_tree_node ex_pool = (Some 0, s') \<and> lone (TREENODES_LIST s') 0
    \<and> pool_at (TREENODES_LIST s') (TREENODE_LIST_HEAD s') [1, 2]
    \<and> pool_at (TREENODES_LIST (free_tree_node (Some 0) s'))
        (TREENODE_LIST_HEAD (free_tree_node (Some 0) s')) (0 # [1, 2])"
  by (rule pool_roundtrip) (simp_all add: ex_pool_def)

end
