(* ===== verification/Treap.thy ===== *)
theory Treap
  imports Bst Node_Pool
begin

text \<open>
  \<^verbatim>\<open>allocator/treap.c\<close>: the free store, a tree of free regions sorted by address and heap-ordered
  by size. Splitting, merging, removal and the coalescing insertion are modelled on the node store
  and shown to compute the reference algorithms of \<open>Index_Trees\<close>.
\<close>


section \<open>The operations\<close>

definition first_fit_search :: "tstore \<Rightarrow> tptr \<Rightarrow> size_t \<Rightarrow> tptr" where
  "first_fit_search h root sz =
     (case root of
        None \<Rightarrow> None
      | Some r \<Rightarrow> if prio h r \<ge> sz then root else None)"

text \<open>
  \<^verbatim>\<open>split_treap\<close> writes its two results through \<^verbatim>\<open>l\<close> and \<^verbatim>\<open>r\<close>; here they are returned and the
  caller stores the one it passed the address of a field for. No field is read after the descent,
  and each location is written once, so the order of these writes does not matter.
\<close>

partial_function (option) split_treap ::
  "tstore \<Rightarrow> tptr \<Rightarrow> size_t \<Rightarrow> (tptr \<times> tptr \<times> tstore) option" where
  "split_treap h t a =
     (case t of
        None \<Rightarrow> Some (None, None, h)
      | Some i \<Rightarrow>
          if a < key h i then do {
            (l, r, h) \<leftarrow> split_treap h (left (h i)) a;
            Some (l, t, set_left i r h)
          } else do {
            (l, r, h) \<leftarrow> split_treap h (right (h i)) a;
            Some (t, r, set_right i l h)
          })"

partial_function (option) merge_treap :: "tstore \<Rightarrow> tptr \<Rightarrow> tptr \<Rightarrow> (tptr \<times> tstore) option" where
  "merge_treap h l r =
     (case l of
        None \<Rightarrow> Some (r, h)
      | Some i \<Rightarrow>
          (case r of
             None \<Rightarrow> Some (l, h)
           | Some j \<Rightarrow>
               if prio h i > prio h j then do {
                 (p, h) \<leftarrow> merge_treap h (right (h i)) r;
                 Some (l, set_right i p h)
               } else do {
                 (p, h) \<leftarrow> merge_treap h l (left (h j));
                 Some (r, set_left j p h)
               }))"

partial_function (option) rightmost_loop :: "tstore \<Rightarrow> nat \<Rightarrow> nat option" where
  "rightmost_loop h t =
     (case right (h t) of None \<Rightarrow> Some t | Some r \<Rightarrow> rightmost_loop h r)"

partial_function (option) leftmost_loop :: "tstore \<Rightarrow> nat \<Rightarrow> nat option" where
  "leftmost_loop h t =
     (case left (h t) of None \<Rightarrow> Some t | Some l \<Rightarrow> leftmost_loop h l)"

definition find_rightmost :: "tstore \<Rightarrow> tptr \<Rightarrow> tptr option" where
  "find_rightmost h t =
     (case t of None \<Rightarrow> Some None | Some i \<Rightarrow> map_option Some (rightmost_loop h i))"

definition find_leftmost :: "tstore \<Rightarrow> tptr \<Rightarrow> tptr option" where
  "find_leftmost h t =
     (case t of None \<Rightarrow> Some None | Some i \<Rightarrow> map_option Some (leftmost_loop h i))"

partial_function (option) remove_treap ::
  "tstore \<Rightarrow> tptr \<Rightarrow> size_t \<Rightarrow> (tptr \<times> tptr \<times> tstore) option" where
  "remove_treap h t a =
     (case t of
        None \<Rightarrow> Some (None, None, h)
      | Some i \<Rightarrow>
          if key h i = a then do {
            (tmp, h) \<leftarrow> merge_treap h (left (h i)) (right (h i));
            Some (tmp, t, h)
          } else if a < key h i then do {
            (p, removed, h) \<leftarrow> remove_treap h (left (h i)) a;
            Some (t, removed, set_left i p h)
          } else do {
            (p, removed, h) \<leftarrow> remove_treap h (right (h i)) a;
            Some (t, removed, set_right i p h)
          })"

text \<open>
  The two coalescing steps of \<^verbatim>\<open>insert_treap\<close>: a neighbour that ends where the new region starts,
  or starts where it ends, is absorbed into the new node and its own node goes back to the pool.
\<close>

definition absorb_left :: "large_state \<Rightarrow> tptr \<Rightarrow> nat \<Rightarrow> (tptr \<times> large_state) option" where
  "absorb_left s l n = do {
     left_neighbor \<leftarrow> find_rightmost (TREENODES_LIST s) l;
     (case left_neighbor of
        None \<Rightarrow> Some (l, s)
      | Some m \<Rightarrow>
          (let h = TREENODES_LIST s in
           if key h m + prio h m = key h n then do {
             let h = set_block n ((block (h n))\<lparr>addr := key h m, bsize := prio h n + prio h m\<rparr>) h;
             (l, tmp_removed, h) \<leftarrow> remove_bst h l (key h m);
             Some (l, free_tree_node tmp_removed (s\<lparr>TREENODES_LIST := h\<rparr>))
           } else Some (l, s)))
   }"

definition absorb_right :: "large_state \<Rightarrow> tptr \<Rightarrow> nat \<Rightarrow> (tptr \<times> large_state) option" where
  "absorb_right s r n = do {
     right_neighbor \<leftarrow> find_leftmost (TREENODES_LIST s) r;
     (case right_neighbor of
        None \<Rightarrow> Some (r, s)
      | Some m \<Rightarrow>
          (let h = TREENODES_LIST s in
           if key h n + prio h n = key h m then do {
             let h = set_block n ((block (h n))\<lparr>bsize := prio h n + prio h m\<rparr>) h;
             (r, tmp_removed, h) \<leftarrow> remove_bst h r (key h m);
             Some (r, free_tree_node tmp_removed (s\<lparr>TREENODES_LIST := h\<rparr>))
           } else Some (r, s)))
   }"

definition insert_treap :: "large_state \<Rightarrow> tptr \<Rightarrow> tptr \<Rightarrow> (tptr \<times> large_state) option" where
  "insert_treap s root new_node =
     (case new_node of
        None \<Rightarrow> Some (root, s)
      | Some n \<Rightarrow> do {
          (l, r, h) \<leftarrow> split_treap (TREENODES_LIST s) root (key (TREENODES_LIST s) n);
          (l, s) \<leftarrow> absorb_left (s\<lparr>TREENODES_LIST := h\<rparr>) l n;
          (r, s) \<leftarrow> absorb_right s r n;
          (p, h) \<leftarrow> merge_treap (TREENODES_LIST s) l new_node;
          (p, h) \<leftarrow> merge_treap h p r;
          Some (p, s\<lparr>TREENODES_LIST := h\<rparr>)
        })"


section \<open>Split, merge and the ends of a tree\<close>

lemma split_treap_refines:
  assumes "tree_at h p t" and "distinct (inorder t)" and "tsplit (key h) a t = (x, y)"
  shows "\<exists>h'. split_treap h p a = Some (troot x, troot y, h')
    \<and> tree_at h' (troot x) x \<and> tree_at h' (troot y) y
    \<and> same_outside (set_tree t) h h' \<and> same_blocks h h'"
  using assms
proof (induction t arbitrary: p x y)
  case Leaf
  then show ?case by (subst split_treap.simps) simp
next
  case (Node l i r)
  have p: "p = Some i" and tl: "tree_at h (left (h i)) l" and tr: "tree_at h (right (h i)) r"
    and dl: "distinct (inorder l)" and dr: "distinct (inorder r)"
    and d: "i \<notin> set_tree l" "i \<notin> set_tree r" "set_tree l \<inter> set_tree r = {}"
    using Node.prems by auto
  show ?case
  proof (cases "a < key h i")
    case True
    then obtain y' where e: "tsplit (key h) a l = (x, y')" and y: "y = Node y' i r"
      using Node.prems(3) by (auto split: prod.splits)
    obtain h1 where r1: "split_treap h (left (h i)) a = Some (troot x, troot y', h1)"
      and tx: "tree_at h1 (troot x) x" and ty: "tree_at h1 (troot y') y'"
      and o1: "same_outside (set_tree l) h h1" and b1: "same_blocks h h1"
      using Node.IH(1) [OF tl dl e] by blast
    have hi: "h1 i = h i" using o1 d by (simp add: same_outside_def)
    have tr1: "tree_at h1 (right (h i)) r" using tree_at_frame [OF tr o1] d by blast
    have nx: "i \<notin> set_tree x" "i \<notin> set_tree y'" using tsplit_set [OF e] d by auto
    have "split_treap h p a = Some (troot x, Some i, set_left i (troot y') h1)"
      using True p r1 by (subst split_treap.simps) simp
    moreover have "tree_at (set_left i (troot y') h1) (Some i) y"
      using ty tr1 hi nx d y by simp
    moreover have "tree_at (set_left i (troot y') h1) (troot x) x"
      using tx nx by simp
    moreover have "same_outside (set_tree (Node l i r)) h (set_left i (troot y') h1)"
      using same_outside_mono [OF o1, of "set_tree (Node l i r)"] by auto
    ultimately show ?thesis using b1 y by auto
  next
    case False
    then obtain x' where e: "tsplit (key h) a r = (x', y)" and x: "x = Node l i x'"
      using Node.prems(3) by (auto split: prod.splits)
    obtain h1 where r1: "split_treap h (right (h i)) a = Some (troot x', troot y, h1)"
      and tx: "tree_at h1 (troot x') x'" and ty: "tree_at h1 (troot y) y"
      and o1: "same_outside (set_tree r) h h1" and b1: "same_blocks h h1"
      using Node.IH(2) [OF tr dr e] by blast
    have hi: "h1 i = h i" using o1 d by (simp add: same_outside_def)
    have tl1: "tree_at h1 (left (h i)) l" using tree_at_frame [OF tl o1] d by blast
    have nx: "i \<notin> set_tree x'" "i \<notin> set_tree y" using tsplit_set [OF e] d by auto
    have "split_treap h p a = Some (Some i, troot y, set_right i (troot x') h1)"
      using False p r1 by (subst split_treap.simps) simp
    moreover have "tree_at (set_right i (troot x') h1) (Some i) x"
      using tx tl1 hi nx d x by simp
    moreover have "tree_at (set_right i (troot x') h1) (troot y) y"
      using ty nx by simp
    moreover have "same_outside (set_tree (Node l i r)) h (set_right i (troot x') h1)"
      using same_outside_mono [OF o1, of "set_tree (Node l i r)"] by auto
    ultimately show ?thesis using b1 x by auto
  qed
qed

lemma merge_treap_refines:
  assumes "tree_at h p l" and "tree_at h q r" and "distinct (inorder l @ inorder r)"
  shows "\<exists>h'. merge_treap h p q = Some (troot (tmerge (prio h) l r), h')
    \<and> tree_at h' (troot (tmerge (prio h) l r)) (tmerge (prio h) l r)
    \<and> same_outside (set_tree l \<union> set_tree r) h h' \<and> same_blocks h h'"
  using assms
proof (induction "prio h" l r arbitrary: p q rule: tmerge.induct)
  case (1 t)
  then show ?case
    by (subst merge_treap.simps) (auto dest: tree_at_troot)
next
  case (2 a i b)
  then show ?case
    by (subst merge_treap.simps) (auto dest: tree_at_troot)
next
  case (3 a i b c j d)
  have p: "p = Some i" and ta: "tree_at h (left (h i)) a" and tb: "tree_at h (right (h i)) b"
    and q: "q = Some j" and tc: "tree_at h (left (h j)) c" and td: "tree_at h (right (h j)) d"
    using "3.prems"(1,2) by auto
  have D: "i \<notin> set_tree a" "i \<notin> set_tree b" "i \<noteq> j" "i \<notin> set_tree c" "i \<notin> set_tree d"
    "j \<notin> set_tree a" "j \<notin> set_tree b" "j \<notin> set_tree c" "j \<notin> set_tree d"
    "set_tree a \<inter> (set_tree b \<union> set_tree c \<union> set_tree d) = {}"
    "set_tree d \<inter> (set_tree a \<union> set_tree b \<union> set_tree c) = {}"
    using "3.prems"(3) by auto
  show ?case
  proof (cases "prio h j < prio h i")
    case True
    let ?m = "tmerge (prio h) b (Node c j d)"
    have db: "distinct (inorder b @ inorder (Node c j d))" using "3.prems"(3) by auto
    obtain h1 where r1: "merge_treap h (right (h i)) q = Some (troot ?m, h1)"
      and t1: "tree_at h1 (troot ?m) ?m"
      and o1: "same_outside (set_tree b \<union> set_tree (Node c j d)) h h1" and b1: "same_blocks h h1"
      using "3.hyps"(1) [OF True tb "3.prems"(2) db] by blast
    have hi: "h1 i = h i" using o1 D by (simp add: same_outside_def)
    have ta1: "tree_at h1 (left (h i)) a" using tree_at_frame [OF ta o1] D by auto
    have "merge_treap h p q = Some (Some i, set_right i (troot ?m) h1)"
      using True p q r1 by (subst merge_treap.simps) simp
    moreover have "tree_at (set_right i (troot ?m) h1) (Some i) (Node a i ?m)"
      using t1 ta1 hi D by simp
    moreover have "same_outside (set_tree (Node a i b) \<union> set_tree (Node c j d)) h
        (set_right i (troot ?m) h1)"
      using same_outside_mono [OF o1, of "set_tree (Node a i b) \<union> set_tree (Node c j d)"] by auto
    ultimately show ?thesis using b1 True by auto
  next
    case False
    let ?m = "tmerge (prio h) (Node a i b) c"
    have dc: "distinct (inorder (Node a i b) @ inorder c)" using "3.prems"(3) by auto
    obtain h1 where r1: "merge_treap h p (left (h j)) = Some (troot ?m, h1)"
      and t1: "tree_at h1 (troot ?m) ?m"
      and o1: "same_outside (set_tree (Node a i b) \<union> set_tree c) h h1" and b1: "same_blocks h h1"
      using "3.hyps"(2) [OF False "3.prems"(1) tc dc] by blast
    have hj: "h1 j = h j" using o1 D by (simp add: same_outside_def)
    have td1: "tree_at h1 (right (h j)) d" using tree_at_frame [OF td o1] D by auto
    have "merge_treap h p q = Some (Some j, set_left j (troot ?m) h1)"
      using False p q r1 by (subst merge_treap.simps) simp
    moreover have "tree_at (set_left j (troot ?m) h1) (Some j) (Node ?m j d)"
      using t1 td1 hj D by simp
    moreover have "same_outside (set_tree (Node a i b) \<union> set_tree (Node c j d)) h
        (set_left j (troot ?m) h1)"
      using same_outside_mono [OF o1, of "set_tree (Node a i b) \<union> set_tree (Node c j d)"] by auto
    ultimately show ?thesis using b1 False by auto
  qed
qed

lemma rightmost_loop_refines:
  "tree_at h (Some i) t \<Longrightarrow> rightmost_loop h i = rightmost t"
proof (induction t arbitrary: i)
  case (Node l j r)
  then show ?case
    by (subst rightmost_loop.simps) (cases r, auto)
qed simp

lemma leftmost_loop_refines:
  "tree_at h (Some i) t \<Longrightarrow> leftmost_loop h i = leftmost t"
proof (induction t arbitrary: i)
  case (Node l j r)
  then show ?case
    by (subst leftmost_loop.simps) (cases l, auto)
qed simp

lemma find_rightmost_refines: "tree_at h p t \<Longrightarrow> find_rightmost h p = Some (rightmost t)"
  using rightmost_loop_refines [of h "the p" t] rightmost_None [of t]
  by (cases t; cases "rightmost t") (auto simp: find_rightmost_def simp del: rightmost.simps rightmost_None)

lemma find_leftmost_refines: "tree_at h p t \<Longrightarrow> find_leftmost h p = Some (leftmost t)"
  using leftmost_loop_refines [of h "the p" t] leftmost_None [of t]
  by (cases t; cases "leftmost t") (auto simp: find_leftmost_def simp del: leftmost.simps leftmost_None)


section \<open>Removal\<close>

text \<open>
  The removed node is returned as it was: its child pointers are not cleared, and still point to
  nodes that stay in the tree.
\<close>

lemma remove_treap_refines:
  assumes "tree_at h p t" and "distinct (inorder t)"
    and "tremove (key h) (prio h) a t = (t', x)"
  shows "\<exists>h'. remove_treap h p a = Some (troot t', x, h') \<and> tree_at h' (troot t') t'
    \<and> same_outside (set_tree t) h h' \<and> same_blocks h h'
    \<and> set_tree t' \<subseteq> set_tree t \<and> (\<forall>m. x = Some m \<longrightarrow> m \<in> set_tree t \<and> h' m = h m)"
  using assms
proof (induction t arbitrary: p t' x)
  case Leaf
  then show ?case by (subst remove_treap.simps) simp
next
  case (Node l i r)
  have p: "p = Some i" and tl: "tree_at h (left (h i)) l" and tr: "tree_at h (right (h i)) r"
    and dl: "distinct (inorder l)" and dr: "distinct (inorder r)"
    and d: "i \<notin> set_tree l" "i \<notin> set_tree r" "set_tree l \<inter> set_tree r = {}"
    using Node.prems by auto
  consider (eq) "key h i = a" | (lt) "key h i \<noteq> a" "a < key h i" | (gt) "key h i \<noteq> a" "\<not> a < key h i"
    by blast
  then show ?case
  proof cases
    case eq
    have t': "t' = tmerge (prio h) l r" and x: "x = Some i"
      using Node.prems(3) eq by auto
    have dd: "distinct (inorder l @ inorder r)" using Node.prems(2) by auto
    obtain h1 where r1: "merge_treap h (left (h i)) (right (h i)) = Some (troot t', h1)"
      and t1: "tree_at h1 (troot t') t'"
      and o1: "same_outside (set_tree l \<union> set_tree r) h h1" and b1: "same_blocks h h1"
      using merge_treap_refines [OF tl tr dd] t' by blast
    have "h1 i = h i" using o1 d by (simp add: same_outside_def)
    moreover have "remove_treap h p a = Some (troot t', Some i, h1)"
      using eq p r1 by (subst remove_treap.simps) simp
    moreover have "same_outside (set_tree (Node l i r)) h h1"
      using same_outside_mono [OF o1, of "set_tree (Node l i r)"] by auto
    ultimately show ?thesis using t1 b1 x t' by auto
  next
    case lt
    then obtain l' where e: "tremove (key h) (prio h) a l = (l', x)" and t': "t' = Node l' i r"
      using Node.prems(3) by (auto split: prod.splits)
    obtain h1 where r1: "remove_treap h (left (h i)) a = Some (troot l', x, h1)"
      and t1: "tree_at h1 (troot l') l'" and o1: "same_outside (set_tree l) h h1"
      and b1: "same_blocks h h1" and sl: "set_tree l' \<subseteq> set_tree l"
      and x1: "\<forall>m. x = Some m \<longrightarrow> m \<in> set_tree l \<and> h1 m = h m"
      using Node.IH(1) [OF tl dl e] by blast
    have hi: "h1 i = h i" using o1 d by (simp add: same_outside_def)
    have tr1: "tree_at h1 (right (h i)) r" using tree_at_frame [OF tr o1] d by blast
    have il: "i \<notin> set_tree l'" using sl d by blast
    have "remove_treap h p a = Some (Some i, x, set_left i (troot l') h1)"
      using lt p r1 by (subst remove_treap.simps) simp
    moreover have "tree_at (set_left i (troot l') h1) (Some i) t'"
      using t1 tr1 hi il d t' by simp
    moreover have "same_outside (set_tree (Node l i r)) h (set_left i (troot l') h1)"
      using same_outside_mono [OF o1, of "set_tree (Node l i r)"] by auto
    moreover have "\<forall>m. x = Some m \<longrightarrow> m \<in> set_tree (Node l i r) \<and> set_left i (troot l') h1 m = h m"
      using x1 d by (auto simp: set_left_def)
    ultimately show ?thesis using b1 t' sl by auto
  next
    case gt
    then obtain r' where e: "tremove (key h) (prio h) a r = (r', x)" and t': "t' = Node l i r'"
      using Node.prems(3) by (auto split: prod.splits)
    obtain h1 where r1: "remove_treap h (right (h i)) a = Some (troot r', x, h1)"
      and t1: "tree_at h1 (troot r') r'" and o1: "same_outside (set_tree r) h h1"
      and b1: "same_blocks h h1" and sr: "set_tree r' \<subseteq> set_tree r"
      and x1: "\<forall>m. x = Some m \<longrightarrow> m \<in> set_tree r \<and> h1 m = h m"
      using Node.IH(2) [OF tr dr e] by blast
    have hi: "h1 i = h i" using o1 d by (simp add: same_outside_def)
    have tl1: "tree_at h1 (left (h i)) l" using tree_at_frame [OF tl o1] d by blast
    have ir: "i \<notin> set_tree r'" using sr d by blast
    have "remove_treap h p a = Some (Some i, x, set_right i (troot r') h1)"
      using gt p r1 by (subst remove_treap.simps) simp
    moreover have "tree_at (set_right i (troot r') h1) (Some i) t'"
      using t1 tl1 hi ir d t' by simp
    moreover have "same_outside (set_tree (Node l i r)) h (set_right i (troot r') h1)"
      using same_outside_mono [OF o1, of "set_tree (Node l i r)"] by auto
    moreover have "\<forall>m. x = Some m \<longrightarrow> m \<in> set_tree (Node l i r) \<and> set_right i (troot r') h1 m = h m"
      using x1 d by (auto simp: set_right_def)
    ultimately show ?thesis using b1 t' sr by auto
  qed
qed


section \<open>Absorbing a neighbour\<close>

text \<open>The two steps on lists of regions sorted by address.\<close>

definition join_left :: "Header list \<Rightarrow> Header \<Rightarrow> Header list \<times> Header" where
  "join_left bs b =
     (if bs \<noteq> [] \<and> addr (last bs) + bsize (last bs) = addr b
      then (butlast bs, b\<lparr>addr := addr (last bs), bsize := bsize b + bsize (last bs)\<rparr>)
      else (bs, b))"

definition join_right :: "Header \<Rightarrow> Header list \<Rightarrow> Header \<times> Header list" where
  "join_right b bs =
     (if bs \<noteq> [] \<and> addr b + bsize b = addr (hd bs)
      then (b\<lparr>bsize := bsize b + bsize (hd bs)\<rparr>, tl bs)
      else (b, bs))"

text \<open>
  What a step leaves of a tree \<open>t\<close>, a node \<open>n\<close> outside it and a pool: the tree \<open>t'\<close> at
  \<open>p'\<close>, and the nodes \<open>fr\<close> that went to the pool.
\<close>

definition absorbed ::
  "large_state \<Rightarrow> nat tree \<Rightarrow> nat \<Rightarrow> nat list \<Rightarrow> tptr \<Rightarrow> large_state \<Rightarrow> nat tree \<Rightarrow> nat list \<Rightarrow> bool" where
  "absorbed s t n pool p' s' t' fr \<longleftrightarrow>
     tree_at (TREENODES_LIST s') p' t'
     \<and> pool_at (TREENODES_LIST s') (TREENODE_LIST_HEAD s') (fr @ pool)
     \<and> set_tree t = set_tree t' \<union> set fr \<and> distinct (inorder t' @ fr @ pool)
     \<and> same_outside (insert n (set_tree t)) (TREENODES_LIST s) (TREENODES_LIST s')
     \<and> left (TREENODES_LIST s' n) = left (TREENODES_LIST s n)
     \<and> right (TREENODES_LIST s' n) = right (TREENODES_LIST s n)
     \<and> (\<forall>i \<in> set_tree t'. block (TREENODES_LIST s' i) = block (TREENODES_LIST s i))
     \<and> (\<forall>i \<in> set fr. \<not> isMarked (block (TREENODES_LIST s' i)))
     \<and> same_globals s s'"

lemma absorbed_refl:
  assumes "tree_at (TREENODES_LIST s) p t"
    and "pool_at (TREENODES_LIST s) (TREENODE_LIST_HEAD s) pool" and "distinct (inorder t @ pool)"
  shows "absorbed s t n pool p s t []"
  using assms by (simp add: absorbed_def)

text \<open>
  The common part: the new node's block is rewritten, one node leaves the tree by its own key, and
  is returned to the pool.
\<close>

lemma absorb_step:
  assumes t: "tree_at (TREENODES_LIST s) p t"
    and pl: "pool_at (TREENODES_LIST s) (TREENODE_LIST_HEAD s) pool"
    and d: "distinct (inorder t @ pool)" and n: "n \<notin> set_tree t" "n \<notin> set pool"
    and td: "tdelete addr a t (\<lambda>i. block (TREENODES_LIST s i))
       = (t', Some m, \<lambda>i. block (TREENODES_LIST s i))"
    and m: "m \<in> set_tree t" "m \<notin> set_tree t'" "set_tree t = insert m (set_tree t')"
    and dt': "distinct (inorder t')"
  shows "\<exists>h. remove_bst (set_block n b (TREENODES_LIST s)) p a = Some (troot t', Some m, h)
    \<and> absorbed s t n pool (troot t') (free_tree_node (Some m) (s\<lparr>TREENODES_LIST := h\<rparr>)) t' [m]
    \<and> block (TREENODES_LIST (free_tree_node (Some m) (s\<lparr>TREENODES_LIST := h\<rparr>)) n) = b"
proof -
  let ?h = "TREENODES_LIST s"
  let ?g = "set_block n b ?h"
  have t0: "tree_at ?g p t" using t by simp
  have eqs: "block (?g i) = block (?h i)" if "i \<in> set_tree t" for i
    using n(1) that by auto
  have cong: "tdelete addr a t (\<lambda>i. block (?g i)) = (t', Some m, \<lambda>i. block (?g i))"
    by (rule tdelete_cong [where f = "\<lambda>i. block (?g i)" and g = "\<lambda>i. block (?h i)", OF eqs td])
  obtain h where r: "remove_bst ?g p a = Some (troot t', Some m, h)"
    and t1: "tree_at h (troot t') t'" and o1: "same_outside (set_tree t) ?g h"
    and b1: "\<forall>i. block (h i) = block (?g i)"
    using remove_bst_refines [OF t0 _ cong] d by auto
  let ?s = "free_tree_node (Some m) (s\<lparr>TREENODES_LIST := h\<rparr>)"
  have mp: "m \<notin> set pool" using m(1) d by auto
  have p1: "pool_at h (TREENODE_LIST_HEAD s) pool"
  proof (rule pool_at_cong [THEN iffD2, OF _ pl])
    fix i assume "i \<in> set pool"
    then have "i \<notin> set_tree t" "i \<noteq> n" using d n by auto
    then have "h i = ?g i" using o1 by (simp add: same_outside_def)
    then show "right (h i) = right (?h i)" by simp
  qed
  have p2: "pool_at (TREENODES_LIST ?s) (TREENODE_LIST_HEAD ?s) (m # pool)"
    and o2: "same_outside {m} h (TREENODES_LIST ?s)"
    using free_tree_node_Some [of "s\<lparr>TREENODES_LIST := h\<rparr>" pool m] p1 mp by simp_all
  have t2: "tree_at (TREENODES_LIST ?s) (troot t') t'"
    using tree_at_frame [OF t1 o2] m(2) by simp
  have mn: "m \<noteq> n" using m(1) n(1) by auto
  have hn: "h n = ?g n" using o1 n(1) by (simp add: same_outside_def)
  have sn: "TREENODES_LIST ?s n = ?g n"
    using o2 hn mn by (simp add: same_outside_def)
  have same: "same_outside (insert n (set_tree t)) ?h (TREENODES_LIST ?s)"
    using o1 o2 m(1) by (auto simp: same_outside_def set_block_def)
  have blk: "\<forall>i \<in> set_tree t'. block (TREENODES_LIST ?s i) = block (?h i)"
  proof
    fix i assume i: "i \<in> set_tree t'"
    then have "i \<noteq> m" "i \<noteq> n" using m n(1) by auto
    then have "TREENODES_LIST ?s i = h i" using o2 by (simp add: same_outside_def)
    then show "block (TREENODES_LIST ?s i) = block (?h i)"
      using b1 \<open>i \<noteq> n\<close> by simp
  qed
  have sd: "set_tree t = set_tree t' \<union> set [m]" using m(3) by simp
  have dd: "distinct (inorder t' @ [m] @ pool)"
    using d dt' m by auto
  have "\<not> isMarked (block (TREENODES_LIST ?s m))"
    by (simp add: free_tree_node_def)
  then have "absorbed s t n pool (troot t') ?s t' [m]"
    unfolding absorbed_def using t2 p2 sd dd same blk sn
    by (simp add: frame_simps)
  then show ?thesis using r sn by auto
qed

lemma absorb_left_refines:
  assumes t: "tree_at (TREENODES_LIST s) p t"
    and pl: "pool_at (TREENODES_LIST s) (TREENODE_LIST_HEAD s) pool"
    and d: "distinct (inorder t @ pool)" and n: "n \<notin> set_tree t" "n \<notin> set pool"
    and srt: "sorted_by (key (TREENODES_LIST s)) (inorder t)"
  shows "\<exists>p' s' t' fr. absorb_left s p n = Some (p', s') \<and> absorbed s t n pool p' s' t' fr
    \<and> (t' = t \<or> t' = tdelmax t)
    \<and> (blocks (TREENODES_LIST s') t', block (TREENODES_LIST s' n))
        = join_left (blocks (TREENODES_LIST s) t) (block (TREENODES_LIST s n))"
proof -
  let ?h = "TREENODES_LIST s"
  have fr: "find_rightmost ?h p = Some (rightmost t)"
    using find_rightmost_refines [OF t] .
  show ?thesis
  proof (cases "rightmost t")
    case None
    then have "t = Leaf" by simp
    with fr None absorbed_refl [OF t pl d, of n] show ?thesis
      by (auto simp: absorb_left_def join_left_def)
  next
    case (Some m)
    have ml: "t \<noteq> Leaf" and io: "inorder t = inorder (tdelmax t) @ [m]"
      using Some inorder_rightmost [OF Some] by auto
    have bl: "blocks ?h t = blocks ?h (tdelmax t) @ [block (?h m)]"
      by (simp add: blocks_def io)
    show ?thesis
    proof (cases "key ?h m + prio ?h m = key ?h n")
      case False
      then have "absorb_left s p n = Some (p, s)"
        using fr Some by (simp add: absorb_left_def Let_def)
      moreover have "(blocks ?h t, block (?h n)) = join_left (blocks ?h t) (block (?h n))"
        using False by (simp add: join_left_def bl)
      ultimately show ?thesis
        using absorbed_refl [OF t pl d, of n] by blast
    next
      case True
      define b where "b = (block (?h n))\<lparr>addr := key ?h m, bsize := prio ?h n + prio ?h m\<rparr>"
      have mt: "m \<in> set_tree t" using Some by (rule rightmost_mem)
      have st: "set_tree t = insert m (set_tree (tdelmax t))"
        using Some by (rule set_tree_rightmost)
      have ne: "m \<noteq> n" using mt n(1) by auto
      have dt: "distinct (inorder t)" using d by simp
      have mn: "m \<notin> set_tree (tdelmax t)" using rightmost_notin [OF Some dt] .
      have dt': "distinct (inorder (tdelmax t))" using dt io by simp
      have td: "tdelete addr (key ?h m) t (\<lambda>i. block (?h i)) = (tdelmax t, Some m, \<lambda>i. block (?h i))"
        using tdelete_rightmost [where k = addr and bl = "\<lambda>i. block (?h i)", OF srt Some] .
      obtain h where r: "remove_bst (set_block n b ?h) p (key ?h m) = Some (troot (tdelmax t), Some m, h)"
        and ab: "absorbed s t n pool (troot (tdelmax t))
            (free_tree_node (Some m) (s\<lparr>TREENODES_LIST := h\<rparr>)) (tdelmax t) [m]"
        and bn: "block (TREENODES_LIST (free_tree_node (Some m) (s\<lparr>TREENODES_LIST := h\<rparr>)) n) = b"
        using absorb_step [OF t pl d n td mt mn st dt', of b] by blast
      let ?s = "free_tree_node (Some m) (s\<lparr>TREENODES_LIST := h\<rparr>)"
      have run: "absorb_left s p n = Some (troot (tdelmax t), ?s)"
        using fr Some True r ne by (simp add: absorb_left_def Let_def b_def)
      have "blocks (TREENODES_LIST ?s) (tdelmax t) = blocks ?h (tdelmax t)"
        using ab by (intro blocks_cong) (auto simp: absorbed_def)
      then have "(blocks (TREENODES_LIST ?s) (tdelmax t), block (TREENODES_LIST ?s n))
          = join_left (blocks ?h t) (block (?h n))"
        using True bn by (simp add: join_left_def bl b_def)
      with run ab show ?thesis by blast
    qed
  qed
qed

lemma absorb_right_refines:
  assumes t: "tree_at (TREENODES_LIST s) p t"
    and pl: "pool_at (TREENODES_LIST s) (TREENODE_LIST_HEAD s) pool"
    and d: "distinct (inorder t @ pool)" and n: "n \<notin> set_tree t" "n \<notin> set pool"
    and srt: "sorted_by (key (TREENODES_LIST s)) (inorder t)"
  shows "\<exists>p' s' t' fr. absorb_right s p n = Some (p', s') \<and> absorbed s t n pool p' s' t' fr
    \<and> (t' = t \<or> t' = tdelmin t)
    \<and> (block (TREENODES_LIST s' n), blocks (TREENODES_LIST s') t')
        = join_right (block (TREENODES_LIST s n)) (blocks (TREENODES_LIST s) t)"
proof -
  let ?h = "TREENODES_LIST s"
  have fl: "find_leftmost ?h p = Some (leftmost t)"
    using find_leftmost_refines [OF t] .
  show ?thesis
  proof (cases "leftmost t")
    case None
    then have "t = Leaf" by simp
    with fl None absorbed_refl [OF t pl d, of n] show ?thesis
      by (auto simp: absorb_right_def join_right_def)
  next
    case (Some m)
    have io: "inorder t = m # inorder (tdelmin t)"
      using inorder_leftmost [OF Some] .
    have bl: "blocks ?h t = block (?h m) # blocks ?h (tdelmin t)"
      by (simp add: blocks_def io)
    show ?thesis
    proof (cases "key ?h n + prio ?h n = key ?h m")
      case False
      then have "absorb_right s p n = Some (p, s)"
        using fl Some by (simp add: absorb_right_def Let_def)
      moreover have "(block (?h n), blocks ?h t) = join_right (block (?h n)) (blocks ?h t)"
        using False by (simp add: join_right_def bl)
      ultimately show ?thesis
        using absorbed_refl [OF t pl d, of n] by blast
    next
      case True
      define b where "b = (block (?h n))\<lparr>bsize := prio ?h n + prio ?h m\<rparr>"
      have mt: "m \<in> set_tree t" using Some by (rule leftmost_mem)
      have st: "set_tree t = insert m (set_tree (tdelmin t))"
        using Some by (rule set_tree_leftmost)
      have ne: "m \<noteq> n" using mt n(1) by auto
      have dt: "distinct (inorder t)" using d by simp
      have mn: "m \<notin> set_tree (tdelmin t)" using leftmost_notin [OF Some dt] .
      have dt': "distinct (inorder (tdelmin t))" using dt io by simp
      have td: "tdelete addr (key ?h m) t (\<lambda>i. block (?h i)) = (tdelmin t, Some m, \<lambda>i. block (?h i))"
        using tdelete_leftmost [where k = addr and bl = "\<lambda>i. block (?h i)", OF srt Some] .
      obtain h where r: "remove_bst (set_block n b ?h) p (key ?h m) = Some (troot (tdelmin t), Some m, h)"
        and ab: "absorbed s t n pool (troot (tdelmin t))
            (free_tree_node (Some m) (s\<lparr>TREENODES_LIST := h\<rparr>)) (tdelmin t) [m]"
        and bn: "block (TREENODES_LIST (free_tree_node (Some m) (s\<lparr>TREENODES_LIST := h\<rparr>)) n) = b"
        using absorb_step [OF t pl d n td mt mn st dt', of b] by blast
      let ?s = "free_tree_node (Some m) (s\<lparr>TREENODES_LIST := h\<rparr>)"
      have run: "absorb_right s p n = Some (troot (tdelmin t), ?s)"
        using fl Some True r ne by (simp add: absorb_right_def Let_def b_def)
      have "blocks (TREENODES_LIST ?s) (tdelmin t) = blocks ?h (tdelmin t)"
        using ab by (intro blocks_cong) (auto simp: absorbed_def)
      then have "(block (TREENODES_LIST ?s n), blocks (TREENODES_LIST ?s) (tdelmin t))
          = join_right (block (?h n)) (blocks ?h t)"
        using True bn by (simp add: join_right_def bl b_def)
      with run ab show ?thesis by blast
    qed
  qed
qed


section \<open>Coalescing insertion\<close>

text \<open>The specification: insertion into a list of regions sorted by address.\<close>

definition ins_region :: "Header \<Rightarrow> Header list \<Rightarrow> Header list" where
  "ins_region b bs =
     (let (ls, b1) = join_left (filter (\<lambda>c. addr c \<le> addr b) bs) b;
          (b2, rs) = join_right b1 (filter (\<lambda>c. addr b < addr c) bs)
      in ls @ b2 # rs)"

text \<open>The two merges: the left part, the lone new node, the right part.\<close>

lemma merge_three_refines:
  assumes x: "tree_at h p x" and y: "tree_at h q y" and n: "lone h n"
    and d: "distinct (inorder x @ n # inorder y)"
    and hx: "maxheap (prio h) x" and hy: "maxheap (prio h) y"
  shows "\<exists>p1 h1 p2 h2 t. merge_treap h p (Some n) = Some (p1, h1)
    \<and> merge_treap h1 p1 q = Some (p2, h2) \<and> tree_at h2 p2 t
    \<and> inorder t = inorder x @ n # inorder y \<and> maxheap (prio h2) t
    \<and> same_outside (insert n (set_tree x \<union> set_tree y)) h h2 \<and> same_blocks h h2"
proof -
  let ?n = "Node Leaf n Leaf"
  let ?u = "tmerge (prio h) x ?n"
  have tn: "tree_at h (Some n) ?n" using n by (rule tree_at_lone)
  have d1: "distinct (inorder x @ inorder ?n)" using d by simp
  obtain h1 where m1: "merge_treap h p (Some n) = Some (troot ?u, h1)"
    and t1: "tree_at h1 (troot ?u) ?u" and o1: "same_outside (set_tree x \<union> set_tree ?n) h h1"
    and b1: "same_blocks h h1"
    using merge_treap_refines [OF x tn d1] by blast
  have y1: "tree_at h1 q y" by (rule tree_at_frame [OF y o1]) (use d in auto)
  let ?t = "tmerge (prio h1) ?u y"
  have d2: "distinct (inorder ?u @ inorder y)" using d by auto
  obtain h2 where m2: "merge_treap h1 (troot ?u) q = Some (troot ?t, h2)"
    and t2: "tree_at h2 (troot ?t) ?t" and o2: "same_outside (set_tree ?u \<union> set_tree y) h1 h2"
    and b2: "same_blocks h1 h2"
    using merge_treap_refines [OF t1 y1 d2] by blast
  have b: "same_blocks h h2" using b1 b2 by (rule same_blocks_trans)
  have "maxheap (prio h) ?u" using hx by (simp add: maxheap_tmerge)
  then have "maxheap (prio h2) ?t"
    using hy same_blocks_prio [OF b1] same_blocks_prio [OF b] by (simp add: maxheap_tmerge)
  moreover have "same_outside (insert n (set_tree x \<union> set_tree y)) h h2"
    using o1 o2 by (rule same_outside_trans) auto
  ultimately show ?thesis using m1 m2 t2 b by auto
qed

text \<open>Splitting at the new region's address and absorbing its neighbours.\<close>

lemma split_absorb_refines:
  assumes t: "tree_at (TREENODES_LIST s) root t"
    and pl: "pool_at (TREENODES_LIST s) (TREENODE_LIST_HEAD s) pool"
    and d: "distinct (n # inorder t @ pool)" and nn: "lone (TREENODES_LIST s) n"
    and srt: "sorted_by (key (TREENODES_LIST s)) (inorder t)"
    and hp: "maxheap (prio (TREENODES_LIST s)) t"
  shows "\<exists>l r h p s1 q s2 x y fr.
      split_treap (TREENODES_LIST s) root (key (TREENODES_LIST s) n) = Some (l, r, h)
    \<and> absorb_left (s\<lparr>TREENODES_LIST := h\<rparr>) l n = Some (p, s1)
    \<and> absorb_right s1 r n = Some (q, s2)
    \<and> tree_at (TREENODES_LIST s2) p x \<and> tree_at (TREENODES_LIST s2) q y
    \<and> pool_at (TREENODES_LIST s2) (TREENODE_LIST_HEAD s2) (fr @ pool)
    \<and> lone (TREENODES_LIST s2) n \<and> distinct (n # inorder x @ inorder y @ fr @ pool)
    \<and> set_tree t = set_tree x \<union> set_tree y \<union> set fr
    \<and> maxheap (prio (TREENODES_LIST s2)) x \<and> maxheap (prio (TREENODES_LIST s2)) y
    \<and> (\<forall>i \<in> set fr. \<not> isMarked (block (TREENODES_LIST s2 i)))
    \<and> same_outside (insert n (set_tree t)) (TREENODES_LIST s) (TREENODES_LIST s2)
    \<and> same_globals s s2
    \<and> blocks (TREENODES_LIST s2) x @ block (TREENODES_LIST s2 n) # blocks (TREENODES_LIST s2) y
        = ins_region (block (TREENODES_LIST s n)) (blocks (TREENODES_LIST s) t)"
proof -
  let ?h = "TREENODES_LIST s"
  obtain x0 y0 where sp: "tsplit (key ?h) (key ?h n) t = (x0, y0)"
    by (cases "tsplit (key ?h) (key ?h n) t") auto
  have dt: "distinct (inorder t)" and nt: "n \<notin> set_tree t" and np: "n \<notin> set pool" using d by auto
  obtain h where r1: "split_treap ?h root (key ?h n) = Some (troot x0, troot y0, h)"
    and tx: "tree_at h (troot x0) x0" and ty: "tree_at h (troot y0) y0"
    and o1: "same_outside (set_tree t) ?h h" and b1: "same_blocks ?h h"
    using split_treap_refines [OF t dt sp] by blast
  note fx = tsplit_filter(1) [OF sp srt] and fy = tsplit_filter(2) [OF sp srt]
  have st: "set_tree t = set_tree x0 \<union> set_tree y0" using tsplit_set [OF sp] .
  have dxy: "distinct (inorder x0 @ inorder y0 @ pool)"
    using d by (simp flip: tsplit_inorder [OF sp])
  have kh: "key h = key ?h" and ph: "prio h = prio ?h"
    using same_blocks_key [OF b1] same_blocks_prio [OF b1] by auto
  have hx: "maxheap (prio h) x0" and hy: "maxheap (prio h) y0"
    using maxheap_tsplit [OF sp hp] ph by auto
  have sx: "sorted_by (key h) (inorder x0)" and sy: "sorted_by (key h) (inorder y0)"
    using sorted_by_filter [OF srt] kh fx fy by auto
  have bx: "blocks h x0 = filter (\<lambda>c. addr c \<le> key ?h n) (blocks ?h t)"
    and bY: "blocks h y0 = filter (\<lambda>c. key ?h n < addr c) (blocks ?h t)"
    using b1 fx fy by (simp_all add: blocks_def filter_map comp_def same_blocks_def)
  have hn: "h n = ?h n" using o1 nt by (simp add: same_outside_def)
  let ?s0 = "s\<lparr>TREENODES_LIST := h\<rparr>"
  have pl0: "pool_at (TREENODES_LIST ?s0) (TREENODE_LIST_HEAD ?s0) pool"
    using pool_at_frame [OF pl o1] d by auto
  have tx0: "tree_at (TREENODES_LIST ?s0) (troot x0) x0" using tx by simp
  have dx0: "distinct (inorder x0 @ pool)" and nx0: "n \<notin> set_tree x0"
    using dxy nt st by auto
  have sx0': "sorted_by (key (TREENODES_LIST ?s0)) (inorder x0)" using sx by simp
  have j0: "TREENODES_LIST ?s0 = h" by simp
  obtain p s1 x fr1 where r2: "absorb_left ?s0 (troot x0) n = Some (p, s1)"
    and a1: "absorbed ?s0 x0 n pool p s1 x fr1" and xx: "x = x0 \<or> x = tdelmax x0"
    and j1: "(blocks (TREENODES_LIST s1) x, block (TREENODES_LIST s1 n))
        = join_left (blocks h x0) (block (h n))"
    using absorb_left_refines [of ?s0, OF tx0 pl0 dx0 nx0 np sx0'] j0 by auto
  let ?h1 = "TREENODES_LIST s1"
  have o2: "same_outside (insert n (set_tree x0)) h ?h1"
    using a1 unfolding absorbed_def j0 by blast
  have same1: "?h1 i = h i" if "i \<in> set_tree y0" for i
    using o2 that dxy nt st by (auto simp: same_outside_def)
  have ty1: "tree_at ?h1 (troot y0) y0"
    by (rule tree_at_frame [OF ty o2]) (use dxy nt st in auto)
  have sy1: "sorted_by (key ?h1) (inorder y0)"
    using sy sorted_by_cong [of "inorder y0" "key ?h1" "key h"] same1 by auto
  have by1: "blocks ?h1 y0 = blocks h y0" using same1 by (intro blocks_cong) auto
  have dy1: "distinct (inorder y0 @ fr1 @ pool)" and nf1: "n \<notin> set (fr1 @ pool)"
    and sx0: "set_tree x0 = set_tree x \<union> set fr1" and dx1: "distinct (inorder x @ fr1 @ pool)"
    and tx1: "tree_at ?h1 p x"
    using a1 dxy nt np st by (auto simp: absorbed_def)
  obtain q s2 y fr2 where r3: "absorb_right s1 (troot y0) n = Some (q, s2)"
    and a2: "absorbed s1 y0 n (fr1 @ pool) q s2 y fr2" and yy: "y = y0 \<or> y = tdelmin y0"
    and j2: "(block (TREENODES_LIST s2 n), blocks (TREENODES_LIST s2) y)
        = join_right (block (?h1 n)) (blocks ?h1 y0)"
    using absorb_right_refines [of s1 "troot y0" y0 "fr1 @ pool" n] ty1 a1 dy1 nf1 nt st sy1
    by (auto simp: absorbed_def)
  let ?h2 = "TREENODES_LIST s2"
  have o3: "same_outside (insert n (set_tree y0)) ?h1 ?h2" using a2 unfolding absorbed_def by blast
  have same2: "?h2 i = ?h1 i" if "i \<in> set_tree x" for i
    using o3 that dxy nt st sx0 by (auto simp: same_outside_def)
  have tx2: "tree_at ?h2 p x"
    by (rule tree_at_frame [OF tx1 o3]) (use dxy nt st sx0 in auto)
  have bx2: "blocks ?h2 x = blocks ?h1 x" using same2 by (intro blocks_cong) auto
  have hx2: "maxheap (prio ?h2) x"
  proof -
    have "maxheap (prio h) x" using xx hx maxheap_tdelmax by auto
    moreover have "prio ?h2 i = prio h i" if "i \<in> set_tree x" for i
      using same2 [OF that] a1 that by (auto simp: absorbed_def)
    ultimately show ?thesis using maxheap_cong [of x "prio ?h2" "prio h"] by blast
  qed
  have hy2: "maxheap (prio ?h2) y"
  proof -
    have "maxheap (prio h) y" using yy hy maxheap_tdelmin by auto
    moreover have "prio ?h2 i = prio h i" if "i \<in> set_tree y" for i
      using same1 a2 that by (auto simp: absorbed_def)
    ultimately show ?thesis using maxheap_cong [of y "prio ?h2" "prio h"] by blast
  qed
  have sy0: "set_tree y0 = set_tree y \<union> set fr2" and dd2: "distinct (inorder y @ fr2 @ fr1 @ pool)"
    and ty2: "tree_at ?h2 q y" and pl2: "pool_at ?h2 (TREENODE_LIST_HEAD s2) ((fr2 @ fr1) @ pool)"
    and ln2: "lone ?h2 n"
    using a1 a2 nn hn by (auto simp: absorbed_def lone_def)
  have dist: "distinct (n # inorder x @ inorder y @ (fr2 @ fr1) @ pool)"
    using dd2 dx1 dxy nt np st sx0 sy0 by auto
  have o: "same_outside (insert n (set_tree t)) ?h ?h2"
    using same_outside_trans [OF same_outside_trans [OF o1 o2 subset_refl] o3] st by blast
  have glob: "same_globals s s2"
    using a1 a2 same_globals_trans by (auto simp: absorbed_def frame_simps)
  have um: "\<forall>i \<in> set (fr2 @ fr1). \<not> isMarked (block (?h2 i))"
  proof -
    have "?h2 i = ?h1 i" if "i \<in> set fr1" for i
      using o3 that dy1 nf1 by (auto simp: same_outside_def)
    then show ?thesis using a1 a2 by (auto simp: absorbed_def)
  qed
  have j1': "join_left (filter (\<lambda>c. addr c \<le> addr (block (?h n))) (blocks ?h t)) (block (?h n))
      = (blocks ?h2 x, block (?h1 n))"
    using j1 bx hn bx2 by simp
  have j2': "join_right (block (?h1 n)) (filter (\<lambda>c. addr (block (?h n)) < addr c) (blocks ?h t))
      = (block (?h2 n), blocks ?h2 y)"
    using j2 by1 bY by simp
  have reg: "blocks ?h2 x @ block (?h2 n) # blocks ?h2 y = ins_region (block (?h n)) (blocks ?h t)"
    by (simp add: ins_region_def j1' j2')
  have sets: "set_tree t = set_tree x \<union> set_tree y \<union> set (fr2 @ fr1)"
    using st sx0 sy0 by auto
  show ?thesis
    using r1 r2 r3 tx2 ty2 pl2 ln2 dist sets hx2 hy2 um o glob reg by blast
qed

text \<open>
  \<^const>\<open>insert_treap\<close> always returns, and what it leaves is a tree holding exactly the regions the
  specification gives, heap-ordered by size; the nodes of absorbed neighbours are in the pool.
\<close>

lemma insert_treap_refines:
  assumes t: "tree_at (TREENODES_LIST s) root t"
    and pl: "pool_at (TREENODES_LIST s) (TREENODE_LIST_HEAD s) pool"
    and d: "distinct (n # inorder t @ pool)" and nn: "lone (TREENODES_LIST s) n"
    and srt: "sorted_by (key (TREENODES_LIST s)) (inorder t)"
    and hp: "maxheap (prio (TREENODES_LIST s)) t"
  shows "\<exists>p s' t' fr. insert_treap s root (Some n) = Some (p, s')
    \<and> tree_at (TREENODES_LIST s') p t'
    \<and> pool_at (TREENODES_LIST s') (TREENODE_LIST_HEAD s') (fr @ pool)
    \<and> distinct (inorder t' @ fr @ pool) \<and> insert n (set_tree t) = set_tree t' \<union> set fr
    \<and> n \<in> set_tree t' \<and> maxheap (prio (TREENODES_LIST s')) t'
    \<and> (\<forall>i \<in> set fr. \<not> isMarked (block (TREENODES_LIST s' i)))
    \<and> same_outside (insert n (set_tree t)) (TREENODES_LIST s) (TREENODES_LIST s')
    \<and> same_globals s s'
    \<and> blocks (TREENODES_LIST s') t'
        = ins_region (block (TREENODES_LIST s n)) (blocks (TREENODES_LIST s) t)"
proof -
  let ?h = "TREENODES_LIST s"
  obtain l r h p s1 q s2 x y fr where
      sp: "split_treap ?h root (key ?h n) = Some (l, r, h)"
    and al: "absorb_left (s\<lparr>TREENODES_LIST := h\<rparr>) l n = Some (p, s1)"
    and ar: "absorb_right s1 r n = Some (q, s2)"
    and tx: "tree_at (TREENODES_LIST s2) p x" and ty: "tree_at (TREENODES_LIST s2) q y"
    and pl2: "pool_at (TREENODES_LIST s2) (TREENODE_LIST_HEAD s2) (fr @ pool)"
    and ln: "lone (TREENODES_LIST s2) n" and dd: "distinct (n # inorder x @ inorder y @ fr @ pool)"
    and st: "set_tree t = set_tree x \<union> set_tree y \<union> set fr"
    and hx: "maxheap (prio (TREENODES_LIST s2)) x" and hy: "maxheap (prio (TREENODES_LIST s2)) y"
    and um: "\<forall>i \<in> set fr. \<not> isMarked (block (TREENODES_LIST s2 i))"
    and o1: "same_outside (insert n (set_tree t)) ?h (TREENODES_LIST s2)"
    and gl: "same_globals s s2"
    and rg: "blocks (TREENODES_LIST s2) x @ block (TREENODES_LIST s2 n) # blocks (TREENODES_LIST s2) y
        = ins_region (block (?h n)) (blocks ?h t)"
    using split_absorb_refines [OF assms] by blast
  have dxy: "distinct (inorder x @ n # inorder y)" using dd by auto
  obtain p1 h1 p2 h2 t' where m1: "merge_treap (TREENODES_LIST s2) p (Some n) = Some (p1, h1)"
    and m2: "merge_treap h1 p1 q = Some (p2, h2)" and t2: "tree_at h2 p2 t'"
    and io: "inorder t' = inorder x @ n # inorder y" and h2: "maxheap (prio h2) t'"
    and o2: "same_outside (insert n (set_tree x \<union> set_tree y)) (TREENODES_LIST s2) h2"
    and b2: "same_blocks (TREENODES_LIST s2) h2"
    using merge_three_refines [OF tx ty ln dxy hx hy] by blast
  have set': "set_tree t' = insert n (set_tree x \<union> set_tree y)"
    using arg_cong [OF io, of set] by auto
  have pl3: "pool_at h2 (TREENODE_LIST_HEAD s2) (fr @ pool)"
    by (rule pool_at_frame [OF pl2 o2]) (use dd in auto)
  have run: "insert_treap s root (Some n) = Some (p2, s2\<lparr>TREENODES_LIST := h2\<rparr>)"
    using sp al ar m1 m2 by (simp add: insert_treap_def)
  have "blocks h2 t' = blocks (TREENODES_LIST s2) t'"
    by (rule same_blocks_blocks [OF b2])
  also have "\<dots> = blocks (TREENODES_LIST s2) x
      @ block (TREENODES_LIST s2 n) # blocks (TREENODES_LIST s2) y"
    by (simp add: blocks_def io)
  finally have bl: "blocks h2 t' = ins_region (block (?h n)) (blocks ?h t)"
    using rg by simp
  have oo: "same_outside (insert n (set_tree t)) ?h h2"
    by (rule same_outside_trans [OF o1 o2]) (use st in auto)
  have dd': "distinct (inorder t' @ fr @ pool)" using dd io by auto
  have ss: "insert n (set_tree t) = set_tree t' \<union> set fr" using set' st by auto
  let ?s = "s2\<lparr>TREENODES_LIST := h2\<rparr>"
  have nt: "n \<in> set_tree t'" by (simp add: set')
  have um': "\<forall>i \<in> set fr. \<not> isMarked (block (h2 i))" using um b2 by (simp add: same_blocks_def)
  have gg: "same_globals s ?s" using gl by (simp add: frame_simps)
  have st2: "TREENODES_LIST ?s = h2" "TREENODE_LIST_HEAD ?s = TREENODE_LIST_HEAD s2" by simp_all
  show ?thesis
    by (rule exI [of _ p2], rule exI [of _ ?s], rule exI [of _ t'], rule exI [of _ fr])
      (unfold st2, intro conjI run t2 pl3 dd' ss nt h2 um' oo gg bl)
qed



section \<open>Properties\<close>

lemma ex_store_heap: "maxheap (prio ex_store) ex_tree"
  by (simp add: ex_store_def ex_tree_def leaf_node_def word_le_nat_alt)

lemma ex_tree_distinct: "distinct (inorder ex_tree)"
  by (simp add: ex_tree_def)

text \<open>First_fit_search only looks at the root, and that is enough: in a heap-ordered free tree it
  fails exactly when no free region is large enough.\<close>

theorem first_fit_search_complete:
  assumes "tree_at h root t" and "maxheap (prio h) t"
  shows "first_fit_search h root sz = None \<longleftrightarrow> (\<forall>b \<in> set (blocks h t). bsize b < sz)"
proof (cases t)
  case Leaf
  with assms show ?thesis by (simp add: first_fit_search_def)
next
  case (Node l i r)
  then have "root = Some i" using assms(1) by simp
  moreover have "\<forall>j \<in> set_tree t. prio h j \<le> prio h i" using assms(2) Node by auto
  ultimately show ?thesis
    using Node by (auto simp: first_fit_search_def set_blocks not_le intro: le_less_trans split: if_splits)
qed

theorem first_fit_search_complete_witness:
  "first_fit_search ex_store (Some 0) 24 = None \<longleftrightarrow> (\<forall>b \<in> set (blocks ex_store ex_tree). bsize b < 24)"
  by (rule first_fit_search_complete [OF ex_store_tree(1) ex_store_heap])

text \<open>Split_treap cuts the free tree at an address into the regions that start at or before it
  and the others; both halves are heap-ordered trees, and merge_treap puts them together again into
  a heap-ordered tree of the same nodes in the same order, with their blocks unchanged.\<close>

theorem split_merge_roundtrip:
  assumes t: "tree_at h root t" and srt: "sorted_by (key h) (inorder t)" and hp: "maxheap (prio h) t"
  shows "\<exists>p q h1 x y r h2 u. split_treap h root a = Some (p, q, h1)
    \<and> tree_at h1 p x \<and> tree_at h1 q y \<and> maxheap (prio h1) x \<and> maxheap (prio h1) y
    \<and> inorder x = filter (\<lambda>i. key h i \<le> a) (inorder t)
    \<and> inorder y = filter (\<lambda>i. a < key h i) (inorder t)
    \<and> merge_treap h1 p q = Some (r, h2) \<and> tree_at h2 r u \<and> maxheap (prio h2) u
    \<and> inorder u = inorder t \<and> same_blocks h h2"
proof -
  obtain x y where sp: "tsplit (key h) a t = (x, y)" by (cases "tsplit (key h) a t") auto
  obtain h1 where r1: "split_treap h root a = Some (troot x, troot y, h1)"
    and tx: "tree_at h1 (troot x) x" and ty: "tree_at h1 (troot y) y" and b1: "same_blocks h h1"
    using split_treap_refines [OF t sorted_by_distinct [OF srt] sp] by blast
  have io: "inorder x @ inorder y = inorder t" using tsplit_inorder [OF sp] .
  have d: "distinct (inorder x @ inorder y)" using sorted_by_distinct [OF srt] io by simp
  let ?u = "tmerge (prio h1) x y"
  obtain h2 where r2: "merge_treap h1 (troot x) (troot y) = Some (troot ?u, h2)"
    and tu: "tree_at h2 (troot ?u) ?u" and b2: "same_blocks h1 h2"
    using merge_treap_refines [OF tx ty d] by blast
  have hx: "maxheap (prio h1) x" and hy: "maxheap (prio h1) y"
    using maxheap_tsplit [OF sp hp] same_blocks_prio [OF b1] by simp_all
  have "maxheap (prio h1) ?u" using hx hy by (rule maxheap_tmerge)
  then have hu: "maxheap (prio h2) ?u" using same_blocks_prio [OF b2] by simp
  have "inorder ?u = inorder t" using io by simp
  then show ?thesis
    using r1 tx ty hx hy tsplit_filter [OF sp srt] r2 tu hu same_blocks_trans [OF b1 b2] by blast
qed

theorem split_merge_roundtrip_witness:
  "\<exists>p q h1 x y r h2 u. split_treap ex_store (Some 0) 100 = Some (p, q, h1)
    \<and> tree_at h1 p x \<and> tree_at h1 q y \<and> maxheap (prio h1) x \<and> maxheap (prio h1) y
    \<and> inorder x = filter (\<lambda>i. key ex_store i \<le> 100) (inorder ex_tree)
    \<and> inorder y = filter (\<lambda>i. 100 < key ex_store i) (inorder ex_tree)
    \<and> merge_treap h1 p q = Some (r, h2) \<and> tree_at h2 r u \<and> maxheap (prio h2) u
    \<and> inorder u = inorder ex_tree \<and> same_blocks ex_store h2"
  by (rule split_merge_roundtrip [OF ex_store_tree(1,2) ex_store_heap])

text \<open>Remove_treap returns on every free tree; the region at the address is taken out and the
  others stay, in order and heap-ordered. The node handed back still has the child pointers it had
  in the tree.\<close>

theorem remove_treap_correct:
  assumes t: "tree_at h root t" and srt: "sorted_by (key h) (inorder t)" and hp: "maxheap (prio h) t"
  shows "\<exists>p x h' t'. remove_treap h root a = Some (p, x, h') \<and> tree_at h' p t'
    \<and> sorted_by (key h') (inorder t') \<and> maxheap (prio h') t'
    \<and> inorder t' = filter (\<lambda>i. key h i \<noteq> a) (inorder t) \<and> same_blocks h h'
    \<and> (case x of None \<Rightarrow> a \<notin> key h ` set_tree t
       | Some m \<Rightarrow> m \<in> set_tree t \<and> key h m = a \<and> left (h' m) = left (h m) \<and> right (h' m) = right (h m))"
proof -
  obtain t' x where tr: "tremove (key h) (prio h) a t = (t', x)"
    by (cases "tremove (key h) (prio h) a t") auto
  obtain h' where r: "remove_treap h root a = Some (troot t', x, h')" and t': "tree_at h' (troot t') t'"
    and b: "same_blocks h h'" and x: "\<forall>m. x = Some m \<longrightarrow> m \<in> set_tree t \<and> h' m = h m"
    using remove_treap_refines [OF t sorted_by_distinct [OF srt] tr] by blast
  note S = tremove_spec [OF tr srt]
  have "sorted_by (key h') (inorder t')"
    using S sorted_by_filter [OF srt] same_blocks_key [OF b] by simp
  moreover have "maxheap (prio h') t'"
    using maxheap_tremove [OF tr srt hp] same_blocks_prio [OF b] by simp
  moreover have "case x of None \<Rightarrow> a \<notin> key h ` set_tree t
      | Some m \<Rightarrow> m \<in> set_tree t \<and> key h m = a \<and> left (h' m) = left (h m) \<and> right (h' m) = right (h m)"
    using S x by (auto split: option.splits)
  ultimately show ?thesis using r t' b S by blast
qed

theorem remove_treap_correct_witness:
  "\<exists>p x h' t'. remove_treap ex_store (Some 0) 64 = Some (p, x, h') \<and> tree_at h' p t'
    \<and> sorted_by (key h') (inorder t') \<and> maxheap (prio h') t'
    \<and> inorder t' = filter (\<lambda>i. key ex_store i \<noteq> 64) (inorder ex_tree) \<and> same_blocks ex_store h'
    \<and> (case x of None \<Rightarrow> 64 \<notin> key ex_store ` set_tree ex_tree
       | Some m \<Rightarrow> m \<in> set_tree ex_tree \<and> key ex_store m = 64
           \<and> left (h' m) = left (ex_store m) \<and> right (h' m) = right (ex_store m))"
  by (rule remove_treap_correct [OF ex_store_tree(1,2) ex_store_heap])

end
