(* ===== verification/Large_Allocator.thy ===== *)
theory Large_Allocator
  imports Treap Log
begin

text \<open>
  \<^verbatim>\<open>allocator/large-allocator.c\<close>: the initialisation of the node pool and of the free tree, and
  the allocation of objects above \<^const>\<open>MAX_OBJECT_SIZE\<close>. The mutex is taken and released in every
  branch and does not appear here. The invariant \<open>large_inv\<close> says that the free tree, the occupied
  tree and the pool share no node, and that their regions tile the heap.
\<close>


section \<open>The operations\<close>

definition TREENODE_COUNT :: "size_t \<Rightarrow> size_t" where
  "TREENODE_COUNT HEAP_SIZE = HEAP_SIZE div GET_SIZE_WITH_ALIGNMENT (MAX_OBJECT_SIZE + 1)"

text \<open>The loop that links the array of nodes into the pool; \<^verbatim>\<open>left\<close> keeps what \<^verbatim>\<open>malloc\<close> left there.\<close>

definition link_nodes :: "nat \<Rightarrow> tstore \<Rightarrow> tstore" where
  "link_nodes n h = fold (\<lambda>i h. h(i := (h i)\<lparr>block := \<lparr>addr = 0, bsize = 0, isMarked = False\<rparr>,
       right := (if i \<noteq> n - 1 then Some (i + 1) else None)\<rparr>)) [0..<n] h"

text \<open>
  The results of the three \<^verbatim>\<open>malloc\<close> calls and of \<^verbatim>\<open>mmap\<close> are arguments: the memory of the node
  array, whether the two cells were obtained, and the address of the mapping, all ones for
  \<^verbatim>\<open>MAP_FAILED\<close>. \<open>None\<close> stands for the dereference of a \<^verbatim>\<open>NULL\<close> node.
\<close>

definition init_large_allocator ::
  "size_t \<Rightarrow> tstore option \<Rightarrow> bool \<Rightarrow> bool \<Rightarrow> size_t \<Rightarrow> large_state \<times> log_state
     \<Rightarrow> (large_state \<times> log_state) option" where
  "init_large_allocator HEAP_SIZE nodes start_cell end_cell mapping = (\<lambda>(s, g).
     case nodes of
       None \<Rightarrow> Some (s, log INIT_ALLOCATOR B_ERROR g)
     | Some h \<Rightarrow>
         (let s = s\<lparr>TREENODES_LIST := h\<rparr> in
          if \<not> start_cell then Some (s, log INIT_ALLOCATOR B_ERROR g)
          else if \<not> end_cell then Some (s, log INIT_ALLOCATOR B_ERROR g)
          else
            (let s = s\<lparr>START_BIG_ALLOCATOR_HEAP := Some mapping\<rparr> in
             if mapping = -1 then Some (s, log INIT_ALLOCATOR B_ERROR g)
             else
               (let s = s\<lparr>TREENODES_LIST := link_nodes (unat (TREENODE_COUNT HEAP_SIZE)) (TREENODES_LIST s),
                          TREENODE_LIST_HEAD := Some 0,
                          END_BIG_ALLOCATOR_HEAP := Some (mapping + HEAP_SIZE)\<rparr>;
                    (p, s) = get_new_tree_node s
                in case p of
                     None \<Rightarrow> None
                   | Some f \<Rightarrow>
                       Some (s\<lparr>free_root := p,
                               TREENODES_LIST := set_block f \<lparr>addr = mapping, bsize = HEAP_SIZE, isMarked = False\<rparr>
                                 (unlink f (TREENODES_LIST s))\<rparr>, g)))))"

definition allocate_large_object ::
  "size_t \<Rightarrow> large_state \<times> log_state \<Rightarrow> (size_t \<times> large_state \<times> log_state) option" where
  "allocate_large_object object_size = (\<lambda>(s, g).
     let object_size = GET_SIZE_WITH_ALIGNMENT object_size;
         (cts_result, g) = check_the_space object_size g
     in case first_fit_search (TREENODES_LIST s) (free_root s) object_size of
          None \<Rightarrow> Some (0, s, g)
        | Some first_fit_node \<Rightarrow> do {
            let res = key (TREENODES_LIST s) first_fit_node;
            (p, removed, h) \<leftarrow> remove_treap (TREENODES_LIST s) (free_root s) res;
            first_fit_node \<leftarrow> removed;
            let s = s\<lparr>free_root := p, TREENODES_LIST := h\<rparr>;
            if prio h first_fit_node = object_size then do {
              (q, h) \<leftarrow> insert_bst h (occupied_root s) (Some first_fit_node);
              Some (res, s\<lparr>occupied_root := q, TREENODES_LIST := h\<rparr>, log ALLOCATE_NEW_OBJECT OK g)
            } else
              (case get_new_tree_node s of
                 (None, s) \<Rightarrow> do {
                   (p, s) \<leftarrow> insert_treap s (free_root s) (Some first_fit_node);
                   Some (0, s\<lparr>free_root := p\<rparr>, log OTHER O_HEADER g)
                 }
               | (Some new_node, s) \<Rightarrow> do {
                   let h = TREENODES_LIST s;
                   let h = set_block new_node ((block (h new_node))\<lparr>
                       addr := key h first_fit_node + object_size,
                       bsize := prio h first_fit_node - object_size\<rparr>) h;
                   let h = set_block first_fit_node ((block (h first_fit_node))\<lparr>bsize := object_size\<rparr>) h;
                   (q, h) \<leftarrow> insert_bst h (occupied_root s) (Some first_fit_node);
                   (p, s) \<leftarrow> insert_treap (s\<lparr>occupied_root := q, TREENODES_LIST := h\<rparr>) (free_root s) (Some new_node);
                   Some (res, s\<lparr>free_root := p\<rparr>, log ALLOCATE_NEW_OBJECT OK g)
                 })
          })"


section \<open>The invariant\<close>

text \<open>
  The regions of both trees, put in one order, tile the heap; addresses and sizes are multiples
  of 8.
\<close>

definition heap_tiled :: "large_state \<Rightarrow> Header list \<Rightarrow> bool" where
  "heap_tiled s bs \<longleftrightarrow>
     (\<exists>a e ts. START_BIG_ALLOCATOR_HEAP s = Some a \<and> END_BIG_ALLOCATOR_HEAP s = Some e
        \<and> tiles (unat a) (unat e) ts \<and> mset ts = mset bs)
     \<and> (\<forall>b \<in> set bs. 8 dvd unat (addr b) \<and> 8 dvd unat (bsize b))"

definition large_inv :: "large_state \<Rightarrow> nat tree \<Rightarrow> nat tree \<Rightarrow> nat list \<Rightarrow> bool" where
  "large_inv s ft ot pool \<longleftrightarrow>
     tree_at (TREENODES_LIST s) (free_root s) ft
     \<and> tree_at (TREENODES_LIST s) (occupied_root s) ot
     \<and> pool_at (TREENODES_LIST s) (TREENODE_LIST_HEAD s) pool
     \<and> distinct (inorder ft @ inorder ot @ pool)
     \<and> sorted_by (key (TREENODES_LIST s)) (inorder ft)
     \<and> sorted_by (key (TREENODES_LIST s)) (inorder ot)
     \<and> maxheap (prio (TREENODES_LIST s)) ft
     \<and> (\<forall>i \<in> set_tree ft \<union> set pool. \<not> isMarked (block (TREENODES_LIST s i)))
     \<and> heap_tiled s (blocks (TREENODES_LIST s) ft @ blocks (TREENODES_LIST s) ot)"

lemma heap_tiled_perm: "mset bs = mset cs \<Longrightarrow> heap_tiled s bs = heap_tiled s cs"
  using mset_eq_setD [of bs cs] by (simp add: heap_tiled_def)

definition same_limits :: "large_state \<Rightarrow> large_state \<Rightarrow> bool" where
  "same_limits s s' \<longleftrightarrow> START_BIG_ALLOCATOR_HEAP s' = START_BIG_ALLOCATOR_HEAP s
     \<and> END_BIG_ALLOCATOR_HEAP s' = END_BIG_ALLOCATOR_HEAP s"

lemma heap_tiled_cong:
  "START_BIG_ALLOCATOR_HEAP s' = START_BIG_ALLOCATOR_HEAP s \<Longrightarrow>
   END_BIG_ALLOCATOR_HEAP s' = END_BIG_ALLOCATOR_HEAP s \<Longrightarrow> heap_tiled s' bs = heap_tiled s bs"
  by (simp add: heap_tiled_def)

lemma heap_tiled_cut:
  assumes "heap_tiled s (b # bs)" and "reg_lo c = reg_lo b" and "reg_hi c = reg_lo d"
    and "reg_hi d = reg_hi b" and "0 < unat (bsize c)" and "0 < unat (bsize d)"
    and "8 dvd unat (bsize c)"
  shows "heap_tiled s (c # d # bs)"
proof -
  obtain a e ts where se: "START_BIG_ALLOCATOR_HEAP s = Some a" "END_BIG_ALLOCATOR_HEAP s = Some e"
    and t: "tiles (unat a) (unat e) ts" and m: "mset ts = mset (b # bs)"
    using assms(1) by (auto simp: heap_tiled_def)
  have "b \<in> set ts" using mset_eq_setD [OF m] by auto
  then obtain xs ys where ts: "ts = xs @ b # ys" using split_list by metis
  have "tiles (unat a) (unat e) (xs @ c # d # ys)"
    using tiles_cut [OF _ assms(2-6)] t ts by simp
  moreover have "mset (xs @ c # d # ys) = mset (c # d # bs)" using m ts by simp
  moreover have "8 dvd reg_lo b" "8 dvd unat (bsize b)" "\<forall>x \<in> set bs. 8 dvd reg_lo x \<and> 8 dvd unat (bsize x)"
    using assms(1) by (simp_all add: heap_tiled_def)
  moreover have "reg_lo d = reg_lo b + unat (bsize c)" "unat (bsize b) = unat (bsize c) + unat (bsize d)"
    using assms(2-4) by (simp_all add: reg_hi_def)
  ultimately show ?thesis
    using se assms(2,7) unfolding heap_tiled_def by (metis dvd_add dvd_add_right_iff set_ConsD)
qed

lemma heap_tiled_join:
  assumes "heap_tiled s (c # d # bs)" and "reg_hi c = reg_lo d"
    and "reg_lo b = reg_lo c" and "reg_hi b = reg_hi d"
  shows "heap_tiled s (b # bs)"
proof -
  obtain a e ts where se: "START_BIG_ALLOCATOR_HEAP s = Some a" "END_BIG_ALLOCATOR_HEAP s = Some e"
    and t: "tiles (unat a) (unat e) ts" and m: "mset ts = mset (c # d # bs)"
    using assms(1) by (auto simp: heap_tiled_def)
  have "c \<in> set ts" "d \<in> set ts" using mset_eq_setD [OF m] by auto
  then obtain xs ys where ts: "ts = xs @ c # d # ys"
    using tiles_adjacent [OF t _ _ assms(2)] by blast
  have "tiles (unat a) (unat e) (xs @ b # ys)"
    using tiles_join [OF _ assms(3,4)] t ts by simp
  moreover have "mset (xs @ b # ys) = mset (b # bs)" using m ts by simp
  moreover have "8 dvd reg_lo c" "8 dvd unat (bsize c)" "8 dvd unat (bsize d)"
      "\<forall>x \<in> set bs. 8 dvd reg_lo x \<and> 8 dvd unat (bsize x)"
    using assms(1) by (simp_all add: heap_tiled_def)
  moreover have "unat (bsize b) = unat (bsize c) + unat (bsize d)"
    using assms(2-4) by (simp add: reg_hi_def)
  ultimately show ?thesis
    using se assms(3) unfolding heap_tiled_def by (metis dvd_add set_ConsD)
qed

text \<open>Regions of a tiled heap are distinct, disjoint, inside the heap and have their own keys.\<close>

lemma heap_tiled_regions:
  assumes "heap_tiled s bs"
  shows "\<exists>a e. START_BIG_ALLOCATOR_HEAP s = Some a \<and> END_BIG_ALLOCATOR_HEAP s = Some e
    \<and> (\<forall>b \<in> set bs. unat a \<le> reg_lo b \<and> reg_lo b < reg_hi b \<and> reg_hi b \<le> unat e)"
    and "distinct bs" and "inj_on addr (set bs)"
    and "\<forall>b \<in> set bs. \<forall>c \<in> set bs. b \<noteq> c \<longrightarrow> reg_hi b \<le> reg_lo c \<or> reg_hi c \<le> reg_lo b"
proof -
  obtain a e ts where se: "START_BIG_ALLOCATOR_HEAP s = Some a" "END_BIG_ALLOCATOR_HEAP s = Some e"
    and t: "tiles (unat a) (unat e) ts" and m: "mset ts = mset bs"
    using assms by (auto simp: heap_tiled_def)
  have st: "set ts = set bs" using m by (rule mset_eq_setD)
  show "\<exists>a e. START_BIG_ALLOCATOR_HEAP s = Some a \<and> END_BIG_ALLOCATOR_HEAP s = Some e
    \<and> (\<forall>b \<in> set bs. unat a \<le> reg_lo b \<and> reg_lo b < reg_hi b \<and> reg_hi b \<le> unat e)"
    using se tiles_bounds [OF t] st by blast
  show "distinct bs" using tiles_distinct [OF t] m by (metis mset_eq_imp_distinct_iff)
  show "inj_on addr (set bs)"
    using sorted_by_distinct_keys [OF tiles_sorted [OF t]] st by (simp add: distinct_map)
  show "\<forall>b \<in> set bs. \<forall>c \<in> set bs. b \<noteq> c \<longrightarrow> reg_hi b \<le> reg_lo c \<or> reg_hi c \<le> reg_lo b"
    using tiles_disjoint [OF t] st by blast
qed

lemma heap_tiled_bounds:
  assumes "heap_tiled s bs" and "START_BIG_ALLOCATOR_HEAP s = Some a" and "END_BIG_ALLOCATOR_HEAP s = Some e"
    and "b \<in> set bs"
  shows "unat a \<le> reg_lo b" and "reg_lo b < reg_hi b" and "reg_hi b \<le> unat e"
  using heap_tiled_regions(1) [OF assms(1)] assms(2-4) by auto

text \<open>Every region ends below \<open>2 ^ 64\<close>, so the word test of the search is the interval test.\<close>

lemma heap_tiled_no_wrap:
  assumes "heap_tiled s bs" and "b \<in> set bs"
  shows "reg_hi b < 2 ^ 64"
proof -
  obtain e :: size_t where "reg_hi b \<le> unat e" using heap_tiled_regions(1) [OF assms(1)] assms(2) by blast
  then show ?thesis using unat_size_t [of e] by simp
qed

lemma heap_tiled_holds:
  assumes "heap_tiled s bs" and "b \<in> set bs" and "c \<in> set bs"
    and "holds_addr a b" and "holds_addr a c"
  shows "b = c"
proof -
  have "reg_lo b \<le> unat a \<and> unat a < reg_hi b" "reg_lo c \<le> unat a \<and> unat a < reg_hi c"
    using assms(4,5) heap_tiled_no_wrap [OF assms(1)] assms(2,3) by (simp_all add: holds_addr_iff)
  then show ?thesis using heap_tiled_regions(4) [OF assms(1)] assms(2,3) by fastforce
qed


section \<open>Initialisation\<close>

lemma fold_store:
  "fold (\<lambda>i h. h(i := f i (h i))) [0..<m] h i = (if i < m then f i (h i) else h i)"
  by (induction m) auto

lemma link_nodes_nth:
  "link_nodes n h i = (if i < n
     then (h i)\<lparr>block := \<lparr>addr = 0, bsize = 0, isMarked = False\<rparr>,
                right := (if i \<noteq> n - 1 then Some (i + 1) else None)\<rparr>
     else h i)"
  unfolding link_nodes_def by (rule fold_store)

lemma link_nodes_pool:
  "0 < n \<Longrightarrow> j < n \<Longrightarrow> pool_at (link_nodes n h) (Some j) [j..<n]"
proof (induction "n - j" arbitrary: j)
  case (Suc k)
  have u: "[j..<n] = j # [Suc j..<n]" using Suc.prems by (simp add: upt_conv_Cons)
  show ?case
  proof (cases "Suc j < n")
    case True
    have "pool_at (link_nodes n h) (Some (Suc j)) [Suc j..<n]"
      using Suc.hyps(1) [of "Suc j"] Suc.hyps(2) Suc.prems True by simp
    with True Suc.prems show ?thesis unfolding u by (auto simp: link_nodes_nth)
  next
    case False
    then have "Suc j = n" using Suc.prems by simp
    then show ?thesis unfolding u by (auto simp: link_nodes_nth)
  qed
qed simp

text \<open>
  After initialisation the whole mapping is one free region, nothing is occupied, and all nodes but
  one are in the pool.
\<close>

lemma init_large_allocator_inv:
  assumes occ: "occupied_root s = None" and n: "0 < unat (TREENODE_COUNT H)"
    and m: "m \<noteq> -1" and H: "0 < H" "8 dvd unat m" "8 dvd unat H" and w: "unat m + unat H < 2 ^ 64"
  shows "\<exists>s'. init_large_allocator H (Some h) True True m (s, g) = Some (s', g)
    \<and> large_inv s' (Node Leaf 0 Leaf) Leaf [1..<unat (TREENODE_COUNT H)]
    \<and> block (TREENODES_LIST s' 0) = \<lparr>addr = m, bsize = H, isMarked = False\<rparr>
    \<and> START_BIG_ALLOCATOR_HEAP s' = Some m \<and> END_BIG_ALLOCATOR_HEAP s' = Some (m + H)"
proof -
  let ?n = "unat (TREENODE_COUNT H)"
  let ?b = "\<lparr>addr = m, bsize = H, isMarked = False\<rparr>"
  let ?h = "set_block 0 ?b (unlink 0 (unlink 0 (link_nodes ?n h)))"
  let ?p = "right (link_nodes ?n h 0)"
  have u: "[0..<?n] = 0 # [1..<?n]" using n by (simp add: upt_conv_Cons)
  have "pool_at (link_nodes ?n h) (Some 0) (0 # [1..<?n])"
    using link_nodes_pool [OF n n, of h] unfolding u .
  then have "pool_at (link_nodes ?n h) ?p [1..<?n]" by simp
  then have pl: "pool_at ?h ?p [1..<?n]" by (subst pool_at_cong) auto
  have hi: "unat (m + H) = unat m + unat H" using w by (simp add: unat_add_no_wrap)
  let ?s = "s\<lparr>TREENODES_LIST := ?h, TREENODE_LIST_HEAD := ?p, free_root := Some 0,
    START_BIG_ALLOCATOR_HEAP := Some m, END_BIG_ALLOCATOR_HEAP := Some (m + H)\<rparr>"
  have run: "init_large_allocator H (Some h) True True m (s, g) = Some (?s, g)"
    using m by (simp add: init_large_allocator_def get_new_tree_node_def Let_def)
  have "0 < unat H" using H(1) by (simp add: word_greater_zero_iff unat_gt_0)
  then have "tiles (unat m) (unat (m + H)) [?b]" by (simp add: reg_hi_def hi)
  then have "heap_tiled ?s [?b]" using H unfolding heap_tiled_def by fastforce
  then have "large_inv ?s (Node Leaf 0 Leaf) Leaf [1..<?n]"
    using pl occ by (auto simp: large_inv_def link_nodes_nth)
  with run show ?thesis by auto
qed


section \<open>Allocation from an unfragmented heap\<close>

lemma insert_treap_empty: "insert_treap s None (Some n) = Some (Some n, s)"
  by (simp add: insert_treap_def absorb_left_def absorb_right_def find_rightmost_def
      find_leftmost_def split_treap.simps [of _ None] merge_treap.simps [of _ None]
      merge_treap.simps [of _ "Some n" None])

lemma remove_treap_root:
  "remove_treap h (Some f) (key h f) =
     map_option (\<lambda>(p, h'). (p, Some f, h')) (merge_treap h (left (h f)) (right (h f)))"
  by (subst remove_treap.simps) (auto simp: map_option_case split: option.splits)

lemma remove_treap_lone:
  "lone h f \<Longrightarrow> remove_treap h (Some f) (key h f) = Some (None, Some f, h)"
  by (simp add: remove_treap_root lone_def merge_treap.simps)

text \<open>No fit: \<^verbatim>\<open>NULL\<close>, and only the announced size changes.\<close>

lemma allocate_large_object_no_fit:
  assumes "first_fit_search (TREENODES_LIST s) (free_root s) (GET_SIZE_WITH_ALIGNMENT sz) = None"
  shows "allocate_large_object sz (s, g)
    = Some (0, s, snd (check_the_space (GET_SIZE_WITH_ALIGNMENT sz) g))"
  using assms by (simp add: allocate_large_object_def split_beta Let_def)


text \<open>The occupied tree has no left children, and its regions lie below the free one.\<close>

definition spine_below :: "large_state \<Rightarrow> nat \<Rightarrow> nat tree \<Rightarrow> bool" where
  "spine_below s f ot \<longleftrightarrow> right_spine ot
     \<and> (\<forall>b \<in> set (blocks (TREENODES_LIST s) ot). addr b < key (TREENODES_LIST s) f)"

text \<open>What the invariant gives for a free tree of one node.\<close>

lemma large_inv_single:
  assumes "large_inv s (Node Leaf f Leaf) ot pool"
  shows "free_root s = Some f" and "lone (TREENODES_LIST s) f" and "f \<notin> set_tree ot" and "f \<notin> set pool"
    and "key (TREENODES_LIST s) f \<notin> key (TREENODES_LIST s) ` set_tree ot"
    and "heap_tiled s (block (TREENODES_LIST s f) # blocks (TREENODES_LIST s) ot)"
proof -
  let ?h = "TREENODES_LIST s"
  show "free_root s = Some f" "lone ?h f" "f \<notin> set_tree ot" "f \<notin> set pool"
    using assms by (auto simp: large_inv_def lone_def)
  show ht: "heap_tiled s (block (?h f) # blocks ?h ot)"
    using assms by (simp add: large_inv_def)
  have "block (?h f) \<notin> set (blocks ?h ot)" and inj: "inj_on addr (set (block (?h f) # blocks ?h ot))"
    using heap_tiled_regions(2,3) [OF ht] by auto
  then show "key ?h f \<notin> key ?h ` set_tree ot"
    by (auto simp: set_blocks)
qed

lemma allocate_large_object_fits:
  assumes "free_root s = Some f" and "lone (TREENODES_LIST s) f"
    and "GET_SIZE_WITH_ALIGNMENT sz \<le> prio (TREENODES_LIST s) f"
  shows "first_fit_search (TREENODES_LIST s) (free_root s) (GET_SIZE_WITH_ALIGNMENT sz) = Some f"
    and "remove_treap (TREENODES_LIST s) (free_root s) (key (TREENODES_LIST s) f)
      = Some (None, Some f, TREENODES_LIST s)"
  using assms remove_treap_lone [OF assms(2)] by (simp_all add: first_fit_search_def)

text \<open>
  An exact fit moves the free node to the occupied tree; nothing is free afterwards.
\<close>

lemma allocate_large_object_exact:
  assumes inv: "large_inv s (Node Leaf f Leaf) ot pool"
    and n: "n = GET_SIZE_WITH_ALIGNMENT sz" "prio (TREENODES_LIST s) f = n"
  shows "\<exists>s' ot'. allocate_large_object sz (s, g)
      = Some (key (TREENODES_LIST s) f, s', log ALLOCATE_NEW_OBJECT OK (snd (check_the_space n g)))
    \<and> large_inv s' Leaf ot' pool \<and> set_tree ot' = insert f (set_tree ot)
    \<and> blocks (TREENODES_LIST s') ot'
        = insort_key addr (block (TREENODES_LIST s f)) (blocks (TREENODES_LIST s) ot)
    \<and> (spine_below s f ot \<longrightarrow> right_spine ot') \<and> same_limits s s'"
proof -
  let ?h = "TREENODES_LIST s"
  note sg = large_inv_single [OF inv]
  have I: "tree_at ?h (occupied_root s) ot" "pool_at ?h (TREENODE_LIST_HEAD s) pool"
    "distinct (inorder ot)" "distinct (inorder ot @ pool)" "sorted_by (key ?h) (inorder ot)"
    "\<forall>i \<in> set pool. \<not> isMarked (block (?h i))"
    using inv by (auto simp: large_inv_def)
  obtain q h' t' where r: "insert_bst ?h (occupied_root s) (Some f) = Some (q, h')"
    and t: "tree_at h' q t'" and st: "set_tree t' = insert f (set_tree ot)"
    and d: "distinct (inorder t')" and srt: "sorted_by (key h') (inorder t')"
    and bl: "blocks h' t' = insort_key addr (block (?h f)) (blocks ?h ot)"
    and sp: "right_spine ot \<and> (\<forall>b \<in> set (blocks ?h ot). addr b < key ?h f) \<longrightarrow> right_spine t'"
    and o: "same_outside (set_tree ot) ?h h'" and b: "same_blocks ?h h'"
    using insert_bst_blocks [OF I(1,3) sg(2,3) I(5) sg(5)] by blast
  let ?s = "s\<lparr>free_root := None, TREENODES_LIST := h', occupied_root := q\<rparr>"
  have run: "allocate_large_object sz (s, g)
      = Some (key ?h f, ?s, log ALLOCATE_NEW_OBJECT OK (snd (check_the_space n g)))"
    using allocate_large_object_fits [OF sg(1,2), of sz] n r
    by (simp add: allocate_large_object_def split_beta Let_def)
  have pl: "pool_at h' (TREENODE_LIST_HEAD s) pool"
    by (rule pool_at_frame [OF I(2) o]) (use I in auto)
  have "heap_tiled s (blocks h' t')"
    using sg(6) heap_tiled_perm [of "blocks h' t'" "block (?h f) # blocks ?h ot" s]
    by (simp add: bl)
  then have "heap_tiled ?s (blocks h' t')"
    using heap_tiled_cong [of ?s s] by simp
  moreover have "\<forall>i \<in> set pool. \<not> isMarked (block (h' i))" using I(6) b by (simp add: same_blocks_def)
  moreover have "distinct (inorder t' @ pool)" using d I st sg by auto
  ultimately have "large_inv ?s Leaf t' pool"
    using t pl srt by (simp add: large_inv_def)
  moreover have "same_limits s ?s" by (simp add: same_limits_def)
  moreover have "spine_below s f ot \<longrightarrow> right_spine t'" using sp by (simp add: spine_below_def)
  ultimately show ?thesis using run st bl by fastforce
qed


text \<open>
  A larger region is cut: its front becomes the object, a node from the pool takes the rest.
\<close>

lemma cut_tiled:
  assumes ht: "heap_tiled s (b # bs)" and n: "0 < unat n" "n < bsize b" "8 dvd unat n"
  shows "heap_tiled s (\<lparr>addr = addr b + n, bsize = bsize b - n, isMarked = x\<rparr>
    # b\<lparr>bsize := n\<rparr> # bs)"
proof -
  let ?d = "\<lparr>addr = addr b + n, bsize = bsize b - n, isMarked = x\<rparr>"
  have le: "unat n < unat (bsize b)" using n(2) by (simp add: word_less_nat_alt)
  have hi: "reg_hi b < 2 ^ 64" using heap_tiled_no_wrap [OF ht] by simp
  then have a: "unat (addr b + n) = reg_lo b + unat n"
    using le by (simp add: unat_add_no_wrap reg_hi_def)
  have z: "unat (bsize b - n) = unat (bsize b) - unat n"
    using n(2) by (simp add: unat_sub_no_wrap)
  have "heap_tiled s (b\<lparr>bsize := n\<rparr> # ?d # bs)"
    by (rule heap_tiled_cut [OF ht]) (use n le in \<open>simp_all add: reg_hi_def a z\<close>)
  then show ?thesis by (rule heap_tiled_perm [THEN iffD1, rotated]) simp
qed

lemma allocate_large_object_cut:
  assumes inv: "large_inv s (Node Leaf f Leaf) ot (m # pool)"
    and n: "n = GET_SIZE_WITH_ALIGNMENT sz" "n < prio (TREENODES_LIST s) f" "0 < unat n" "8 dvd unat n"
  shows "\<exists>s' ot'. allocate_large_object sz (s, g)
      = Some (key (TREENODES_LIST s) f, s', log ALLOCATE_NEW_OBJECT OK (snd (check_the_space n g)))
    \<and> large_inv s' (Node Leaf m Leaf) ot' pool \<and> set_tree ot' = insert f (set_tree ot)
    \<and> blocks (TREENODES_LIST s') ot'
        = insort_key addr ((block (TREENODES_LIST s f))\<lparr>bsize := n\<rparr>) (blocks (TREENODES_LIST s) ot)
    \<and> block (TREENODES_LIST s' m) = \<lparr>addr = key (TREENODES_LIST s) f + n,
          bsize = prio (TREENODES_LIST s) f - n, isMarked = False\<rparr>
    \<and> (spine_below s f ot \<longrightarrow> right_spine ot') \<and> same_limits s s'"
proof -
  let ?h = "TREENODES_LIST s"
  let ?B = "\<lparr>addr = key ?h f + n, bsize = prio ?h f - n, isMarked = False\<rparr>"
  let ?F = "(block (?h f))\<lparr>bsize := n\<rparr>"
  let ?h3 = "set_block f ?F (set_block m ?B (unlink m ?h))"
  note sg = large_inv_single [OF inv]
  have I: "tree_at ?h (occupied_root s) ot" "pool_at ?h (TREENODE_LIST_HEAD s) (m # pool)"
    "distinct (inorder ot @ pool)" "sorted_by (key ?h) (inorder ot)"
    "m \<notin> set_tree ot" "m \<notin> set pool" "m \<noteq> f" "\<not> isMarked (block (?h m))"
    "\<forall>i \<in> set pool. \<not> isMarked (block (?h i))"
    using inv by (auto simp: large_inv_def)
  have same: "block (?h3 i) = block (?h i)" if "i \<in> set_tree ot \<union> set pool" for i
    using that I sg by auto
  have t3: "tree_at ?h3 (occupied_root s) ot" using I by simp
  have l3: "lone ?h3 f" using sg(2) I by (simp add: lone_def)
  have s3: "sorted_by (key ?h3) (inorder ot)"
    using I(4) sorted_by_cong [of "inorder ot" "key ?h3" "key ?h"] same by simp
  have k3: "key ?h3 f \<notin> key ?h3 ` set_tree ot"
    using sg(5) same by (auto simp: image_iff)
  have d3: "distinct (inorder ot)" using I(3) by simp
  obtain q h' t' where r: "insert_bst ?h3 (occupied_root s) (Some f) = Some (q, h')"
    and t: "tree_at h' q t'" and st: "set_tree t' = insert f (set_tree ot)"
    and d: "distinct (inorder t')" and srt: "sorted_by (key h') (inorder t')"
    and bl: "blocks h' t' = insort_key addr (block (?h3 f)) (blocks ?h3 ot)"
    and sp: "right_spine ot \<and> (\<forall>b \<in> set (blocks ?h3 ot). addr b < key ?h3 f) \<longrightarrow> right_spine t'"
    and o: "same_outside (set_tree ot) ?h3 h'" and b: "same_blocks ?h3 h'"
    using insert_bst_blocks [OF t3 d3 l3 sg(3) s3 k3] by blast
  let ?s = "s\<lparr>free_root := Some m, TREENODES_LIST := h', occupied_root := q,
    TREENODE_LIST_HEAD := right (?h m)\<rparr>"
  have hm: "h' m = ?h3 m" using o I by (simp add: same_outside_def)
  have bot: "blocks ?h3 ot = blocks ?h ot" using same by (intro blocks_cong) simp
  have bl': "blocks h' t' = insort_key addr ?F (blocks ?h ot)" using bl bot by simp
  have gn: "get_new_tree_node (s\<lparr>free_root := None, TREENODES_LIST := ?h\<rparr>)
      = (Some m, s\<lparr>free_root := None, TREENODES_LIST := unlink m ?h, TREENODE_LIST_HEAD := right (?h m)\<rparr>)"
    using I(2) by (simp add: get_new_tree_node_def)
  have le: "n \<le> prio ?h f" "prio ?h f \<noteq> n" using n(2) by auto
  have mB: "(block (?h m))\<lparr>addr := key ?h f + n, bsize := prio ?h f - n\<rparr> = ?B"
    using I(8) by simp
  have run: "allocate_large_object sz (s, g)
      = Some (key ?h f, ?s, log ALLOCATE_NEW_OBJECT OK (snd (check_the_space n g)))"
    using allocate_large_object_fits [OF sg(1,2), of sz] n(1) le r gn I(7) mB
    by (simp add: allocate_large_object_def split_beta Let_def insert_treap_empty)
  have pl: "pool_at h' (right (?h m)) pool"
  proof (rule pool_at_frame [OF _ o])
    show "pool_at ?h3 (right (?h m)) pool"
      using I(2,6) by (subst pool_at_cong [of _ _ ?h]) auto
  qed (use I in auto)
  have "heap_tiled s (?B # ?F # blocks ?h ot)"
    by (rule cut_tiled [OF sg(6)]) (use n in auto)
  then have "heap_tiled ?s (?B # blocks h' t')"
    using heap_tiled_perm [of "?B # blocks h' t'" "?B # ?F # blocks ?h ot" s] heap_tiled_cong [of ?s s]
    by (simp add: bl')
  moreover have "block (h' m) = ?B" using hm I(7) by simp
  moreover have "\<forall>i \<in> set pool. \<not> isMarked (block (h' i))"
    using I(9) b same by (simp add: same_blocks_def)
  moreover have "distinct (inorder t' @ pool)" "m \<notin> set_tree t'" using d I st sg by auto
  ultimately have "large_inv ?s (Node Leaf m Leaf) t' pool"
    using t pl srt hm I by (simp add: large_inv_def)
  moreover have "same_limits s ?s" by (simp add: same_limits_def)
  moreover have "spine_below s f ot \<longrightarrow> right_spine t'" using sp bot by (simp add: spine_below_def)
  ultimately show ?thesis using run st bl' \<open>block (h' m) = ?B\<close> by fastforce
qed


text \<open>
  When the pool is empty a larger region cannot be cut: the code gives up with \<^verbatim>\<open>NULL\<close> and puts the
  region back, which leaves the allocator as it was.
\<close>

lemma allocate_large_object_no_node:
  assumes inv: "large_inv s (Node Leaf f Leaf) ot []"
    and n: "n = GET_SIZE_WITH_ALIGNMENT sz" "n < prio (TREENODES_LIST s) f"
  shows "allocate_large_object sz (s, g) = Some (0, s, snd (check_the_space n g))"
proof -
  let ?h = "TREENODES_LIST s"
  note sg = large_inv_single [OF inv]
  have le: "n \<le> prio ?h f" "prio ?h f \<noteq> n" using n(2) by auto
  have "get_new_tree_node (s\<lparr>free_root := None, TREENODES_LIST := ?h\<rparr>)
      = (None, s\<lparr>free_root := None, TREENODES_LIST := ?h\<rparr>)"
    using inv by (simp add: get_new_tree_node_def large_inv_def)
  then show ?thesis
    using allocate_large_object_fits [OF sg(1,2), of sz] n(1) le sg(1)
    by (simp add: allocate_large_object_def split_beta Let_def insert_treap_empty)
qed

text \<open>
  With \<^const>\<open>TREENODE_COUNT\<close> nodes this only happens when what would be left of the region is too
  small for another large object: every occupied region has at least 2016 bytes.
\<close>

lemma sum_list_ge: "(\<forall>x \<in> set xs. (c :: nat) \<le> f x) \<Longrightarrow> c * length xs \<le> sum_list (map f xs)"
  by (induction xs) auto

lemma pool_suffices:
  assumes inv: "large_inv s (Node Leaf f Leaf) ot pool"
    and cnt: "1 + size ot + length pool = unat (TREENODE_COUNT H)"
    and big: "\<forall>b \<in> set (blocks (TREENODES_LIST s) ot). 2016 \<le> unat (bsize b)"
    and lim: "START_BIG_ALLOCATOR_HEAP s = Some a" "END_BIG_ALLOCATOR_HEAP s = Some e"
      "unat e = unat a + unat H"
    and n: "2016 \<le> n" "n + 2016 \<le> unat (prio (TREENODES_LIST s) f)"
  shows "pool \<noteq> []"
proof -
  let ?h = "TREENODES_LIST s"
  obtain ts where t: "tiles (unat a) (unat e) ts" and m: "mset ts = mset (block (?h f) # blocks ?h ot)"
    using large_inv_single(6) [OF inv] lim(1,2) by (auto simp: heap_tiled_def)
  have "mset (map (\<lambda>b. unat (bsize b)) ts)
      = mset (map (\<lambda>b. unat (bsize b)) (block (?h f) # blocks ?h ot))"
    unfolding mset_map m ..
  from arg_cong [OF this, of sum_mset]
  have "sum_list (map (\<lambda>b. unat (bsize b)) ts)
      = sum_list (map (\<lambda>b. unat (bsize b)) (block (?h f) # blocks ?h ot))"
    unfolding sum_mset_sum_list .
  then have "unat H = unat (prio ?h f) + sum_list (map (\<lambda>b. unat (bsize b)) (blocks ?h ot))"
    using tiles_sum [OF t] lim(3) by simp
  moreover have "2016 * size ot \<le> sum_list (map (\<lambda>b. unat (bsize b)) (blocks ?h ot))"
    using sum_list_ge [of "blocks ?h ot" 2016] big by (simp add: length_blocks)
  ultimately have "2016 * (size ot + 2) \<le> unat H" using n by (simp only: add_mult_distrib2)
  moreover have "unat (TREENODE_COUNT H) = unat H div 2016"
    by (simp add: TREENODE_COUNT_def GET_SIZE_WITH_ALIGNMENT_def MAX_OBJECT_SIZE_def unat_div)
  ultimately have "size ot + 2 \<le> unat (TREENODE_COUNT H)"
    by (simp add: less_eq_div_iff_mult_less_eq mult.commute)
  then show ?thesis using cnt by (cases pool) auto
qed


section \<open>Allocation from a fragmented heap\<close>

text \<open>
  \<^const>\<open>remove_treap\<close> does not clear the child pointers of the node it takes out, and the node goes
  into the occupied tree with them: when the root of the free tree has a child, that child, still
  free or in the pool, becomes part of the occupied tree. A path from a pointer to a node shows it.
\<close>

fun path :: "tstore \<Rightarrow> tptr \<Rightarrow> nat list \<Rightarrow> nat \<Rightarrow> bool" where
  "path h p [] n \<longleftrightarrow> p = Some n"
| "path h p (i # is) n \<longleftrightarrow> p = Some i \<and> (path h (left (h i)) is n \<or> path h (right (h i)) is n)"

lemma path_mem: "path h p is n \<Longrightarrow> tree_at h p t \<Longrightarrow> n \<in> set_tree t"
proof (induction "is" arbitrary: p t)
  case Nil
  then show ?case by (cases t) auto
next
  case (Cons i "is")
  then show ?case by (cases t) auto
qed

lemma path_frame:
  "path h p is n \<Longrightarrow> (\<And>i. i \<in> set is \<Longrightarrow> left (h' i) = left (h i) \<and> right (h' i) = right (h i))
     \<Longrightarrow> path h' p is n"
  by (induction "is" arbitrary: p) auto

lemma tree_at_child:
  "tree_at h p t \<Longrightarrow> i \<in> set_tree t \<Longrightarrow> left (h i) = Some j \<or> right (h i) = Some j \<Longrightarrow> j \<in> set_tree t"
proof (induction t arbitrary: p)
  case (Node l k r)
  show ?case
  proof (cases "i = k")
    case True
    with Node.prems have "tree_at h (Some j) l \<or> tree_at h (Some j) r" by auto
    then show ?thesis using path_mem [of h "Some j" "[]" j] by auto
  next
    case False
    with Node show ?thesis by auto
  qed
qed simp

lemma path_child:
  "path h p is n \<Longrightarrow> left (h n) = Some j \<or> right (h n) = Some j \<Longrightarrow> path h p (is @ [n]) j"
  by (induction "is" arbitrary: p) auto

lemma mem_path: "tree_at h p t \<Longrightarrow> n \<in> set_tree t \<Longrightarrow> \<exists>is. path h p is n"
proof (induction t arbitrary: p)
  case (Node l i r)
  then have p: "p = Some i" and t: "tree_at h (left (h i)) l" "tree_at h (right (h i)) r" by simp_all
  consider "n = i" | "n \<in> set_tree l" | "n \<in> set_tree r" using Node.prems(2) by auto
  then show ?case
  proof cases
    case 1
    then show ?thesis using p by (intro exI [of _ "[]"]) simp
  next
    case 2
    then obtain js where "path h (left (h i)) js n" using Node.IH(1) [OF t(1)] by blast
    then show ?thesis using p by (intro exI [of _ "i # js"]) simp
  next
    case 3
    then obtain js where "path h (right (h i)) js n" using Node.IH(2) [OF t(2)] by blast
    then show ?thesis using p by (intro exI [of _ "i # js"]) simp
  qed
qed simp

text \<open>\<^const>\<open>insert_bst\<close> links the node in whatever its child pointers are.\<close>

lemma insert_bst_path:
  assumes "tree_at h p t" and "distinct (inorder t)" and "n \<notin> set_tree t"
  shows "\<exists>q h' is. insert_bst h p (Some n) = Some (q, h') \<and> path h' q is n \<and> set is \<subseteq> set_tree t
    \<and> same_outside (set_tree t) h h' \<and> same_blocks h h'"
  using assms
proof (induction t arbitrary: p)
  case Leaf
  then have "insert_bst h p (Some n) = Some (Some n, h)" by (subst insert_bst.simps) simp
  moreover have "path h (Some n) [] n" by simp
  ultimately show ?case by (metis empty_subsetI list.set(1) same_blocks_refl same_outside_refl)
next
  case (Node l i r)
  have p: "p = Some i" and tl: "tree_at h (left (h i)) l" and tr: "tree_at h (right (h i)) r"
    and dl: "distinct (inorder l)" "distinct (inorder r)" and il: "i \<notin> set_tree l" "i \<notin> set_tree r"
    and n: "n \<notin> set_tree l" "n \<notin> set_tree r"
    using Node.prems by auto
  show ?case
  proof (cases "key h n < key h i")
    case True
    obtain q h1 js where e: "insert_bst h (left (h i)) (Some n) = Some (q, h1)" and j: "path h1 q js n"
      and s: "set js \<subseteq> set_tree l" and o: "same_outside (set_tree l) h h1" and b: "same_blocks h h1"
      using Node.IH(1) [OF tl dl(1) n(1)] by blast
    let ?h = "set_left i q h1"
    have r: "insert_bst h p (Some n) = Some (Some i, ?h)" using True p e by (subst insert_bst.simps) simp
    have "path ?h q js n" by (rule path_frame [OF j]) (use s il in auto)
    then have "path ?h (Some i) (i # js) n" by simp
    moreover have "set (i # js) \<subseteq> set_tree (Node l i r)" using s by auto
    moreover have "same_outside (set_tree (Node l i r)) h ?h"
      using same_outside_mono [OF o, of "set_tree (Node l i r)"] by auto
    moreover have "same_blocks h ?h" using b by simp
    ultimately show ?thesis using r by blast
  next
    case False
    obtain q h1 js where e: "insert_bst h (right (h i)) (Some n) = Some (q, h1)" and j: "path h1 q js n"
      and s: "set js \<subseteq> set_tree r" and o: "same_outside (set_tree r) h h1" and b: "same_blocks h h1"
      using Node.IH(2) [OF tr dl(2) n(2)] by blast
    let ?h = "set_right i q h1"
    have r: "insert_bst h p (Some n) = Some (Some i, ?h)" using False p e by (subst insert_bst.simps) simp
    have "path ?h q js n" by (rule path_frame [OF j]) (use s il in auto)
    then have "path ?h (Some i) (i # js) n" by simp
    moreover have "set (i # js) \<subseteq> set_tree (Node l i r)" using s by auto
    moreover have "same_outside (set_tree (Node l i r)) h ?h"
      using same_outside_mono [OF o, of "set_tree (Node l i r)"] by auto
    moreover have "same_blocks h ?h" using b by simp
    ultimately show ?thesis using r by blast
  qed
qed

lemma pool_at_unique: "pool_at h p xs \<Longrightarrow> pool_at h p ys \<Longrightarrow> xs = ys"
proof (induction xs arbitrary: p ys)
  case (Cons x xs)
  then show ?case by (cases ys) auto
qed simp

text \<open>A node of the free tree or the pool that is reached from the occupied root breaks the invariant.\<close>

lemma large_inv_not_shared:
  assumes "path (TREENODES_LIST s) (occupied_root s) is f"
    and "left (TREENODES_LIST s f) = Some j \<or> right (TREENODES_LIST s f) = Some j"
    and "tree_at (TREENODES_LIST s) (free_root s) ft"
    and "pool_at (TREENODES_LIST s) (TREENODE_LIST_HEAD s) pool"
    and "j \<in> set_tree ft \<union> set pool"
  shows "\<not> large_inv s ft' ot' pool'"
proof
  assume L: "large_inv s ft' ot' pool'"
  then have "ft' = ft" "pool' = pool"
    using tree_at_unique assms(3) pool_at_unique assms(4) by (auto simp: large_inv_def)
  moreover have ot: "tree_at (TREENODES_LIST s) (occupied_root s) ot'" using L by (simp add: large_inv_def)
  have "j \<in> set_tree ot'"
    using tree_at_child [OF ot path_mem [OF assms(1) ot]] assms(2) by blast
  ultimately show False using L assms(5) by (auto simp: large_inv_def)
qed

lemma allocate_large_object_exact_broken:
  assumes inv: "large_inv s (Node l f r) ot pool" and c: "l \<noteq> Leaf \<or> r \<noteq> Leaf"
    and n: "prio (TREENODES_LIST s) f = GET_SIZE_WITH_ALIGNMENT sz"
  shows "\<exists>s' g' j is js. allocate_large_object sz (s, g) = Some (key (TREENODES_LIST s) f, s', g')
    \<and> j \<in> set_tree l \<union> set_tree r \<and> path (TREENODES_LIST s') (occupied_root s') is j
    \<and> path (TREENODES_LIST s') (free_root s') js j
    \<and> (\<forall>ft' ot' pool'. \<not> large_inv s' ft' ot' pool')"
proof -
  let ?h = "TREENODES_LIST s"
  have p: "free_root s = Some f" and tl: "tree_at ?h (left (?h f)) l" and tr: "tree_at ?h (right (?h f)) r"
    and ot: "tree_at ?h (occupied_root s) ot" and dot: "distinct (inorder ot)"
    and pl: "pool_at ?h (TREENODE_LIST_HEAD s) pool"
    and f: "f \<notin> set_tree l" "f \<notin> set_tree r" "f \<notin> set_tree ot"
    and dd: "distinct (inorder l @ inorder r)"
    and sep: "set_tree ot \<inter> (set_tree l \<union> set_tree r \<union> set pool) = {}"
      "set pool \<inter> (set_tree l \<union> set_tree r \<union> set_tree ot) = {}"
    using inv by (auto simp: large_inv_def)
  let ?t = "tmerge (prio ?h) l r"
  obtain h1 where m: "merge_treap ?h (left (?h f)) (right (?h f)) = Some (troot ?t, h1)"
    and t1: "tree_at h1 (troot ?t) ?t" and o1: "same_outside (set_tree l \<union> set_tree r) ?h h1"
    and b1: "same_blocks ?h h1"
    using merge_treap_refines [OF tl tr dd] by blast
  have ot1: "tree_at h1 (occupied_root s) ot" by (rule tree_at_frame [OF ot o1]) (use sep in auto)
  obtain q h2 js where ins: "insert_bst h1 (occupied_root s) (Some f) = Some (q, h2)"
    and pt: "path h2 q js f" and o2: "same_outside (set_tree ot) h1 h2"
    using insert_bst_path [OF ot1 dot f(3)] by blast
  let ?s = "s\<lparr>free_root := troot ?t, TREENODES_LIST := h2, occupied_root := q\<rparr>"
  have pf: "prio h1 f = GET_SIZE_WITH_ALIGNMENT sz" using n b1 by (simp add: same_blocks_def)
  have run: "allocate_large_object sz (s, g) = Some (key ?h f, ?s,
      log ALLOCATE_NEW_OBJECT OK (snd (check_the_space (GET_SIZE_WITH_ALIGNMENT sz) g)))"
    using p n m pf ins
    by (simp add: allocate_large_object_def split_beta Let_def first_fit_search_def remove_treap_root)
  have hf: "h2 f = ?h f" using o1 o2 f by (simp add: same_outside_def)
  obtain j where j: "left (?h f) = Some j \<or> right (?h f) = Some j" "j \<in> set_tree l \<union> set_tree r"
    using c tree_at_troot [OF tl] tree_at_troot [OF tr] by (cases l; cases r) auto
  have t2: "tree_at h2 (troot ?t) ?t" by (rule tree_at_frame [OF t1 o2]) (use sep in auto)
  have p1: "pool_at h1 (TREENODE_LIST_HEAD s) pool" by (rule pool_at_frame [OF pl o1]) (use sep in auto)
  have p2: "pool_at h2 (TREENODE_LIST_HEAD s) pool" by (rule pool_at_frame [OF p1 o2]) (use sep in auto)
  have jt: "j \<in> set_tree ?t" using j(2) by simp
  have "\<not> large_inv ?s ft' ot' pool'" for ft' ot' pool'
    by (rule large_inv_not_shared [of ?s js f j ?t pool]) (use pt hf j t2 p2 in auto)
  moreover have "path (TREENODES_LIST ?s) (occupied_root ?s) (js @ [f]) j"
    using path_child [OF pt, of j] hf j(1) by simp
  moreover obtain ks where "path (TREENODES_LIST ?s) (free_root ?s) ks j" using mem_path [OF t2 jt] by auto
  ultimately show ?thesis using run j(2) by blast
qed

section \<open>Runs of allocations\<close>

text \<open>
  The states the allocator reaches from its initialisation by requests for large objects, until the
  first collection.
\<close>

inductive large_run :: "size_t \<Rightarrow> size_t \<Rightarrow> large_state \<times> log_state \<Rightarrow> bool" for H m where
  start: "occupied_root s = None \<Longrightarrow>
     init_large_allocator H (Some h) True True m (s, g) = Some (s', g') \<Longrightarrow> large_run H m (s', g')"
| request: "large_run H m (s, g) \<Longrightarrow> MAX_OBJECT_SIZE < sz \<Longrightarrow> sz \<le> H \<Longrightarrow>
     allocate_large_object sz (s, g) = Some (a, s', g') \<Longrightarrow> large_run H m (s', g')"

text \<open>What a compile-time heap size and a mapping satisfy.\<close>

definition heap_ok :: "size_t \<Rightarrow> size_t \<Rightarrow> bool" where
  "heap_ok H m \<longleftrightarrow> 2016 \<le> unat H \<and> 8 dvd unat H \<and> 8 dvd unat m \<and> m \<noteq> -1 \<and> unat m + unat H < 2 ^ 64"

definition run_inv :: "size_t \<Rightarrow> size_t \<Rightarrow> large_state \<Rightarrow> nat tree \<Rightarrow> nat tree \<Rightarrow> nat list \<Rightarrow> bool" where
  "run_inv H m s ft ot pool \<longleftrightarrow> large_inv s ft ot pool
     \<and> (ft = Leaf \<and> right_spine ot \<or> (\<exists>f. ft = Node Leaf f Leaf \<and> spine_below s f ot))
     \<and> START_BIG_ALLOCATOR_HEAP s = Some m \<and> END_BIG_ALLOCATOR_HEAP s = Some (m + H)
     \<and> size ft + size ot + length pool = unat (TREENODE_COUNT H)
     \<and> (\<forall>b \<in> set (blocks (TREENODES_LIST s) ot). 2016 \<le> unat (bsize b))"

text \<open>The aligned size of a large request.\<close>

lemma large_request:
  assumes "heap_ok H m" and "MAX_OBJECT_SIZE < sz" and "sz \<le> H"
  shows "2016 \<le> unat (GET_SIZE_WITH_ALIGNMENT sz)" and "8 dvd unat (GET_SIZE_WITH_ALIGNMENT sz)"
    and "unat sz \<le> unat (GET_SIZE_WITH_ALIGNMENT sz)" and "unat (GET_SIZE_WITH_ALIGNMENT sz) \<le> unat H"
proof -
  have lo: "2009 \<le> unat sz" using assms(2) by (simp add: MAX_OBJECT_SIZE_def word_less_nat_alt)
  have hi: "unat sz \<le> unat H" using assms(3) by (simp add: word_le_nat_alt)
  obtain k where k: "unat H = 8 * k" using assms(1) by (auto simp: heap_ok_def)
  have H: "unat H < 2 ^ 64" by (rule unat_size_t)
  then have "unat H \<le> 2 ^ 64 - 8" using k by simp
  then have al: "unat (GET_SIZE_WITH_ALIGNMENT sz) = (unat sz + 7) div 8 * 8"
    using hi by (intro unat_align) simp
  show "8 dvd unat (GET_SIZE_WITH_ALIGNMENT sz)" by (simp add: al)
  have "252 \<le> (unat sz + 7) div 8" using lo by (simp add: less_eq_div_iff_mult_less_eq)
  then show "2016 \<le> unat (GET_SIZE_WITH_ALIGNMENT sz)" unfolding al by simp
  have "(unat sz + 7) div 8 < k + 1" using hi k by (simp add: div_less_iff_less_mult)
  then show "unat (GET_SIZE_WITH_ALIGNMENT sz) \<le> unat H" unfolding al k by simp
  have "(unat sz + 7) div 8 * 8 + (unat sz + 7) mod 8 = unat sz + 7" by (rule div_mult_mod_eq)
  moreover have "(unat sz + 7) mod 8 < 8" by simp
  ultimately show "unat sz \<le> unat (GET_SIZE_WITH_ALIGNMENT sz)" unfolding al by linarith
qed


text \<open>
  One request: it always returns. Either it is refused and the allocator is unchanged, or the
  object is a new occupied region of the aligned size.
\<close>

definition new_object :: "size_t \<Rightarrow> size_t \<Rightarrow> Header" where
  "new_object a n = \<lparr>addr = a, bsize = n, isMarked = False\<rparr>"

lemma new_object_simps [simp]:
  "addr (new_object a n) = a" "bsize (new_object a n) = n" "\<not> isMarked (new_object a n)"
  "reg_hi (new_object a n) = unat a + unat n"
  by (simp_all add: new_object_def reg_hi_def)

lemma run_step_inv:
  assumes "run_inv H m s ft ot pool" and "large_inv s' ft' ot' pool'"
    and "ft' = Leaf \<and> right_spine ot' \<or> (\<exists>f. ft' = Node Leaf f Leaf \<and> spine_below s' f ot')" and "same_limits s s'"
    and "blocks (TREENODES_LIST s') ot' = insort_key addr b (blocks (TREENODES_LIST s) ot)"
    and "2016 \<le> unat (bsize b)"
    and "size ft' + length pool' + 1 = size ft + length pool"
  shows "run_inv H m s' ft' ot' pool'"
proof -
  have "size ot' = size ot + 1"
    using arg_cong [OF assms(5), of length] by (simp add: length_blocks)
  then show ?thesis
    using assms by (auto simp: run_inv_def same_limits_def set_insort_key)
qed

lemma run_step:
  assumes inv: "run_inv H m s ft ot pool" and ok: "heap_ok H m"
    and sz: "MAX_OBJECT_SIZE < sz" "sz \<le> H"
  shows "\<exists>a s' g' ft' ot' pool'. allocate_large_object sz (s, g) = Some (a, s', g')
    \<and> run_inv H m s' ft' ot' pool'
    \<and> (s' = s \<and> ot' = ot \<and> a = 0
       \<or> blocks (TREENODES_LIST s') ot' = insort_key addr (new_object a (GET_SIZE_WITH_ALIGNMENT sz))
           (blocks (TREENODES_LIST s) ot))"
proof -
  let ?n = "GET_SIZE_WITH_ALIGNMENT sz" and ?h = "TREENODES_LIST s"
  note n = large_request [OF ok sz]
  have li: "large_inv s ft ot pool" using inv by (simp add: run_inv_def)
  consider (none) "first_fit_search ?h (free_root s) ?n = None"
    | (fit) f where "ft = Node Leaf f Leaf" "?n \<le> prio ?h f" "spine_below s f ot"
    using inv by (cases "first_fit_search ?h (free_root s) ?n")
      (auto simp: run_inv_def large_inv_def first_fit_search_def split: if_splits)
  then show ?thesis
  proof cases
    case none
    then show ?thesis using allocate_large_object_no_fit inv by blast
  next
    case fit
    note l = li [unfolded fit(1)]
    have unmarked: "\<not> isMarked (block (?h f))" using l by (simp add: large_inv_def)
    show ?thesis
    proof (cases "prio ?h f = ?n")
      case True
      then have b: "block (?h f) = new_object (key ?h f) ?n" using unmarked by (simp add: new_object_def)
      obtain s' ot' where "allocate_large_object sz (s, g) = Some (key ?h f, s',
            log ALLOCATE_NEW_OBJECT OK (snd (check_the_space ?n g)))"
        and "large_inv s' Leaf ot' pool" "same_limits s s'" "right_spine ot'"
        and "blocks (TREENODES_LIST s') ot' = insort_key addr (new_object (key ?h f) ?n) (blocks ?h ot)"
        using allocate_large_object_exact [OF l refl True, of g] b fit(3) by auto
      moreover from this have "run_inv H m s' Leaf ot' pool"
        by (intro run_step_inv [OF inv]) (use fit n in \<open>auto simp: new_object_def\<close>)
      ultimately show ?thesis by blast
    next
      case False
      then have lt: "?n < prio ?h f" using fit(2) by simp
      show ?thesis
      proof (cases pool)
        case Nil
        then have "allocate_large_object sz (s, g) = Some (0, s, snd (check_the_space ?n g))"
          using allocate_large_object_no_node [OF l [unfolded Nil] refl lt] by simp
        with inv show ?thesis by blast
      next
        case (Cons k pool')
        have b: "(block (?h f))\<lparr>bsize := ?n\<rparr> = new_object (key ?h f) ?n"
          using unmarked by (simp add: new_object_def)
        obtain s' ot' where "allocate_large_object sz (s, g) = Some (key ?h f, s',
              log ALLOCATE_NEW_OBJECT OK (snd (check_the_space ?n g)))"
          and "large_inv s' (Node Leaf k Leaf) ot' pool'" "same_limits s s'" "right_spine ot'"
          and bo: "blocks (TREENODES_LIST s') ot' = insort_key addr (new_object (key ?h f) ?n) (blocks ?h ot)"
          and bk: "block (TREENODES_LIST s' k) = \<lparr>addr = key ?h f + ?n, bsize = prio ?h f - ?n, isMarked = False\<rparr>"
          using allocate_large_object_cut [OF l [unfolded Cons] refl lt _ n(2), of g] n(1) b fit(3) by auto
        moreover have "spine_below s' k ot'"
        proof -
          have "reg_hi (block (?h f)) < 2 ^ 64"
            using heap_tiled_no_wrap [OF large_inv_single(6) [OF l]] by simp
          then have "unat (key ?h f + ?n) = unat (key ?h f) + unat ?n"
            using lt by (simp add: reg_hi_def unat_add_no_wrap word_less_nat_alt)
          then have up: "key ?h f < key ?h f + ?n" using n(1) by (simp add: word_less_nat_alt)
          moreover from this have "addr c < key ?h f + ?n" if "c \<in> set (blocks ?h ot)" for c
            using fit(3) that by (auto simp: spine_below_def dest: less_trans)
          ultimately show ?thesis
            using \<open>right_spine ot'\<close> by (auto simp: spine_below_def bo bk set_insort_key new_object_def)
        qed
        moreover from calculation have "run_inv H m s' (Node Leaf k Leaf) ot' pool'"
          by (intro run_step_inv [OF inv]) (use fit n Cons in \<open>auto simp: new_object_def\<close>)
        ultimately show ?thesis by blast
      qed
    qed
  qed
qed

lemma large_run_inv:
  assumes "large_run H m sg" and "heap_ok H m"
  shows "\<exists>ft ot pool. run_inv H m (fst sg) ft ot pool"
  using assms
proof (induction rule: large_run.induct)
  case (start s h g s' g')
  have H: "0 < unat (TREENODE_COUNT H)" "0 < H"
    using start.prems by (simp_all add: heap_ok_def TREENODE_COUNT_def GET_SIZE_WITH_ALIGNMENT_def
        MAX_OBJECT_SIZE_def unat_div div_greater_zero_iff word_greater_zero_iff unat_gt_0 [symmetric])
  have "run_inv H m s' (Node Leaf 0 Leaf) Leaf [1..<unat (TREENODE_COUNT H)]"
    using init_large_allocator_inv [OF start.hyps(1) H(1) _ H(2), of m h g] start H(1)
    by (auto simp: run_inv_def heap_ok_def spine_below_def)
  then show ?case by auto
next
  case (request s g sz a s' g')
  then obtain ft ot pool where "run_inv H m s ft ot pool" by auto
  from run_step [OF this request.prems request.hyps(2,3), of g] request.hyps(4)
  show ?case by auto
qed



section \<open>Properties\<close>

text \<open>After a successful initialisation the whole mapping is one free region, nothing is occupied,
  and the other nodes are in the pool in index order; the allocator invariant holds.\<close>

theorem init_large_allocator_correct:
  assumes "occupied_root s = None" and "heap_ok H m"
  shows "\<exists>s'. init_large_allocator H (Some h) True True m (s, g) = Some (s', g)
    \<and> large_inv s' (Node Leaf 0 Leaf) Leaf [1..<unat (TREENODE_COUNT H)]
    \<and> block (TREENODES_LIST s' 0) = \<lparr>addr = m, bsize = H, isMarked = False\<rparr>
    \<and> START_BIG_ALLOCATOR_HEAP s' = Some m \<and> END_BIG_ALLOCATOR_HEAP s' = Some (m + H)"
proof -
  have "0 < unat (TREENODE_COUNT H)" "0 < H"
    using assms(2) by (simp_all add: heap_ok_def TREENODE_COUNT_def GET_SIZE_WITH_ALIGNMENT_def
        MAX_OBJECT_SIZE_def unat_div div_greater_zero_iff word_greater_zero_iff unat_gt_0 [symmetric])
  with init_large_allocator_inv [OF assms(1) _ _ _, of H m h g] assms(2) show ?thesis
    by (simp add: heap_ok_def)
qed

definition ex_blank :: large_state where
  "ex_blank = \<lparr>TREENODES_LIST = (\<lambda>_. leaf_node 0 0), TREENODE_LIST_HEAD = None, free_root = None,
     occupied_root = None, START_BIG_ALLOCATOR_HEAP = None, END_BIG_ALLOCATOR_HEAP = None\<rparr>"

definition ex_log :: log_state where
  "ex_log = \<lparr>last_object_size = 0, memory_limit = 8064, memory_used = 0, object_count = 0, m_size = 0\<rparr>"

lemma ex_heap_ok: "heap_ok 8064 4096"
  by (simp add: heap_ok_def)

theorem init_large_allocator_correct_witness:
  "\<exists>s'. init_large_allocator 8064 (Some (\<lambda>_. leaf_node 0 0)) True True 4096 (ex_blank, ex_log) = Some (s', ex_log)
    \<and> large_inv s' (Node Leaf 0 Leaf) Leaf [1..<unat (TREENODE_COUNT 8064)]
    \<and> block (TREENODES_LIST s' 0) = \<lparr>addr = 4096, bsize = 8064, isMarked = False\<rparr>
    \<and> START_BIG_ALLOCATOR_HEAP s' = Some 4096 \<and> END_BIG_ALLOCATOR_HEAP s' = Some (4096 + 8064)"
  by (rule init_large_allocator_correct [OF _ ex_heap_ok]) (simp add: ex_blank_def)

lemma ex_run: "\<exists>s. large_run 8064 4096 (s, ex_log)"
proof -
  have "occupied_root ex_blank = None" by (simp add: ex_blank_def)
  moreover have "0 < unat (TREENODE_COUNT 8064)"
    by (simp add: TREENODE_COUNT_def MAX_OBJECT_SIZE_def GET_SIZE_WITH_ALIGNMENT_def unat_div)
  ultimately obtain s where
    "init_large_allocator 8064 (Some (\<lambda>_. leaf_node 0 0)) True True 4096 (ex_blank, ex_log) = Some (s, ex_log)"
    using init_large_allocator_inv [of ex_blank 8064 4096 "\<lambda>_. leaf_node 0 0" ex_log] by auto
  then have "large_run 8064 4096 (s, ex_log)"
    by (rule large_run.start [rotated]) (simp add: ex_blank_def)
  then show ?thesis by blast
qed

text \<open>C10: in every state that requests for large objects reach from the initialisation, with no sweep in
  between, a further request for a large object returns. Either it is refused and the allocator is
  unchanged, or the object is a new occupied region at an address that is a multiple of 8, inside
  the heap, large enough, and disjoint from every object handed out before, and these are all kept.\<close>

theorem large_request_safe:
  assumes "large_run H m (s, g)" and "heap_ok H m" and "MAX_OBJECT_SIZE < sz" and "sz \<le> H"
  shows "\<exists>a s' g' ot ot'. allocate_large_object sz (s, g) = Some (a, s', g')
    \<and> tree_at (TREENODES_LIST s) (occupied_root s) ot
    \<and> tree_at (TREENODES_LIST s') (occupied_root s') ot'
    \<and> (a = 0 \<and> s' = s
       \<or> (let n = unat (GET_SIZE_WITH_ALIGNMENT sz); old = set (blocks (TREENODES_LIST s) ot)
          in set (blocks (TREENODES_LIST s') ot') = insert (new_object a (GET_SIZE_WITH_ALIGNMENT sz)) old
           \<and> unat sz \<le> n \<and> 8 dvd unat a \<and> unat m \<le> unat a \<and> unat a + n \<le> unat m + unat H
           \<and> (\<forall>b \<in> old. reg_hi b \<le> unat a \<or> unat a + n \<le> reg_lo b)))"
proof -
  let ?n = "GET_SIZE_WITH_ALIGNMENT sz"
  obtain ft ot pool where inv: "run_inv H m s ft ot pool"
    using large_run_inv [OF assms(1,2)] by auto
  obtain a s' g' ft' ot' pool' where r: "allocate_large_object sz (s, g) = Some (a, s', g')"
    and inv': "run_inv H m s' ft' ot' pool'"
    and c: "s' = s \<and> ot' = ot \<and> a = 0 \<or> blocks (TREENODES_LIST s') ot'
      = insort_key addr (new_object a ?n) (blocks (TREENODES_LIST s) ot)"
    using run_step [OF inv assms(2-4), of g] by blast
  have T: "tree_at (TREENODES_LIST s) (occupied_root s) ot" "tree_at (TREENODES_LIST s') (occupied_root s') ot'"
    using inv inv' by (simp_all add: run_inv_def large_inv_def)
  show ?thesis
  proof (cases "s' = s \<and> ot' = ot \<and> a = 0")
    case True
    with r T show ?thesis by blast
  next
    case False
    let ?old = "blocks (TREENODES_LIST s) ot" and ?new = "blocks (TREENODES_LIST s') ot'"
    have nw: "?new = insort_key addr (new_object a ?n) ?old" using c False by blast
    have ht: "heap_tiled s' (blocks (TREENODES_LIST s') ft' @ ?new)"
      and lim: "START_BIG_ALLOCATOR_HEAP s' = Some m" "END_BIG_ALLOCATOR_HEAP s' = Some (m + H)"
      using inv' by (simp_all add: run_inv_def large_inv_def)
    have e: "unat (m + H) = unat m + unat H"
      using assms(2) by (simp add: heap_ok_def unat_add_no_wrap)
    have st: "set ?new = insert (new_object a ?n) (set ?old)" by (simp add: nw set_insort_key)
    have in': "new_object a ?n \<in> set (blocks (TREENODES_LIST s') ft' @ ?new)" using st by simp
    have bd: "unat m \<le> unat a" "unat a + unat ?n \<le> unat m + unat H"
      using heap_tiled_bounds [OF ht lim in'] e by simp_all
    have "8 dvd reg_lo (new_object a ?n)" using ht in' unfolding heap_tiled_def by blast
    then have al: "8 dvd unat a" by simp
    have "distinct ?new" using heap_tiled_regions(2) [OF ht] by simp
    then have ni: "new_object a ?n \<notin> set ?old" by (simp add: nw distinct_insort)
    have "\<forall>b \<in> set ?old. reg_hi b \<le> unat a \<or> unat a + unat ?n \<le> reg_lo b"
    proof
      fix b assume b: "b \<in> set ?old"
      then have "b \<noteq> new_object a ?n" "b \<in> set (blocks (TREENODES_LIST s') ft' @ ?new)"
        using ni st by auto
      from heap_tiled_regions(4) [OF ht, rule_format, OF this(2) in' this(1)]
      show "reg_hi b \<le> unat a \<or> unat a + unat ?n \<le> reg_lo b" by simp
    qed
    with r T st bd al large_request(3) [OF assms(2-4)] show ?thesis by (auto simp: Let_def)
  qed
qed


theorem large_request_safe_witness:
  "\<exists>s. large_run 8064 4096 (s, ex_log) \<and> (\<exists>a s' g' ot ot'.
      allocate_large_object 3000 (s, ex_log) = Some (a, s', g')
    \<and> tree_at (TREENODES_LIST s) (occupied_root s) ot
    \<and> tree_at (TREENODES_LIST s') (occupied_root s') ot'
    \<and> (a = 0 \<and> s' = s
       \<or> (let n = unat (GET_SIZE_WITH_ALIGNMENT 3000); old = set (blocks (TREENODES_LIST s) ot)
          in set (blocks (TREENODES_LIST s') ot') = insert (new_object a (GET_SIZE_WITH_ALIGNMENT 3000)) old
           \<and> unat (3000 :: size_t) \<le> n \<and> 8 dvd unat a
           \<and> unat (4096 :: size_t) \<le> unat a \<and> unat a + n \<le> unat (4096 :: size_t) + unat (8064 :: size_t)
           \<and> (\<forall>b \<in> old. reg_hi b \<le> unat a \<or> unat a + n \<le> reg_lo b))))"
proof -
  obtain s where s: "large_run 8064 4096 (s, ex_log)" using ex_run by blast
  have sz: "MAX_OBJECT_SIZE < 3000" "(3000 :: size_t) \<le> 8064"
    by (simp_all add: MAX_OBJECT_SIZE_def)
  from s large_request_safe [OF s ex_heap_ok sz] show ?thesis by blast
qed

text \<open>C19: in a state that requests for large objects reach from the initialisation, with no sweep in between, a
  request is granted at the start of the free region whenever that region has the object's aligned
  size and 2016 bytes more, or exactly that size: until the first sweep the pool of TREENODE_COUNT
  nodes suffices.\<close>

theorem large_request_granted:
  assumes "large_run H m (s, g)" and "heap_ok H m" and "MAX_OBJECT_SIZE < sz" and "sz \<le> H"
    and f: "free_root s = Some f"
    and fit: "unat (GET_SIZE_WITH_ALIGNMENT sz) + 2016 \<le> unat (prio (TREENODES_LIST s) f)
      \<or> GET_SIZE_WITH_ALIGNMENT sz = prio (TREENODES_LIST s) f"
  shows "\<exists>s' g'. allocate_large_object sz (s, g) = Some (key (TREENODES_LIST s) f, s', g')
    \<and> memory_used g' = memory_used g + GET_SIZE_WITH_ALIGNMENT sz \<and> object_count g' = object_count g + 1"
proof -
  let ?n = "GET_SIZE_WITH_ALIGNMENT sz"
  obtain ft ot pool where inv: "run_inv H m s ft ot pool"
    using large_run_inv [OF assms(1,2)] by auto
  then have "ft = Node Leaf f Leaf" using f by (auto simp: run_inv_def large_inv_def)
  with inv have l: "large_inv s (Node Leaf f Leaf) ot pool"
    and cnt: "1 + size ot + length pool = unat (TREENODE_COUNT H)"
    and big: "\<forall>b \<in> set (blocks (TREENODES_LIST s) ot). 2016 \<le> unat (bsize b)"
    and lim: "START_BIG_ALLOCATOR_HEAP s = Some m" "END_BIG_ALLOCATOR_HEAP s = Some (m + H)"
    by (simp_all add: run_inv_def)
  note n = large_request [OF assms(2-4)]
  obtain r g1 where g1: "check_the_space ?n g = (r, g1)" by (cases "check_the_space ?n g")
  note acc = account_object(1,2) [OF g1]
  show ?thesis
  proof (cases "prio (TREENODES_LIST s) f = ?n")
    case True
    from allocate_large_object_exact [OF l refl True, of g] acc g1 show ?thesis by auto
  next
    case False
    then have fit': "unat ?n + 2016 \<le> unat (prio (TREENODES_LIST s) f)" using fit by auto
    have e: "unat (m + H) = unat m + unat H" using assms(2) by (simp add: heap_ok_def unat_add_no_wrap)
    have "pool \<noteq> []" by (rule pool_suffices [OF l cnt big lim e n(1) fit'])
    then obtain k pool' where pool: "pool = k # pool'" by (cases pool) auto
    have lt: "?n < prio (TREENODES_LIST s) f" using fit' by (simp add: word_less_nat_alt)
    have "0 < unat ?n" using n(1) by simp
    from allocate_large_object_cut [OF l [unfolded pool] refl lt this n(2), of g] acc g1
    show ?thesis by auto
  qed
qed

theorem large_request_granted_witness:
  "\<exists>s. large_run 8064 4096 (s, ex_log) \<and> (\<exists>s' g'.
      allocate_large_object 3000 (s, ex_log) = Some (key (TREENODES_LIST s) 0, s', g')
    \<and> memory_used g' = memory_used ex_log + GET_SIZE_WITH_ALIGNMENT 3000
    \<and> object_count g' = object_count ex_log + 1)"
proof -
  have occ: "occupied_root ex_blank = None" by (simp add: ex_blank_def)
  have "0 < unat (TREENODE_COUNT 8064)"
    by (simp add: TREENODE_COUNT_def MAX_OBJECT_SIZE_def GET_SIZE_WITH_ALIGNMENT_def unat_div)
  then obtain s where i: "init_large_allocator 8064 (Some (\<lambda>_. leaf_node 0 0)) True True 4096 (ex_blank, ex_log) = Some (s, ex_log)"
    and l: "large_inv s (Node Leaf 0 Leaf) Leaf [1..<unat (TREENODE_COUNT 8064)]"
    and b: "block (TREENODES_LIST s 0) = \<lparr>addr = 4096, bsize = 8064, isMarked = False\<rparr>"
    using init_large_allocator_inv [of ex_blank 8064 4096 "\<lambda>_. leaf_node 0 0" ex_log] occ by auto
  have s: "large_run 8064 4096 (s, ex_log)" using occ i by (rule large_run.start)
  have f: "free_root s = Some 0" using l by (simp add: large_inv_def)
  have "unat (GET_SIZE_WITH_ALIGNMENT 3000) + 2016 \<le> unat (prio (TREENODES_LIST s) 0)
      \<or> GET_SIZE_WITH_ALIGNMENT 3000 = prio (TREENODES_LIST s) 0"
    by (simp add: b GET_SIZE_WITH_ALIGNMENT_def)
  with large_request_granted [OF s ex_heap_ok _ _ f, of 3000] s show ?thesis
    by (auto simp: MAX_OBJECT_SIZE_def)
qed

text \<open>A request that no free region fits, or that would have to cut a region when the pool of nodes
  is empty, returns NULL and leaves the allocator as it was.\<close>

theorem large_request_refused:
  assumes "large_inv s ft ot pool" and "ft = Leaf \<or> ft = Node Leaf f Leaf"
    and "(\<forall>b \<in> set (blocks (TREENODES_LIST s) ft). bsize b < GET_SIZE_WITH_ALIGNMENT sz)
      \<or> pool = [] \<and> (\<forall>b \<in> set (blocks (TREENODES_LIST s) ft). bsize b \<noteq> GET_SIZE_WITH_ALIGNMENT sz)"
  shows "\<exists>g'. allocate_large_object sz (s, g) = Some (0, s, g')
    \<and> memory_used g' = memory_used g \<and> object_count g' = object_count g"
proof -
  let ?n = "GET_SIZE_WITH_ALIGNMENT sz"
  have g: "memory_used (snd (check_the_space ?n g)) = memory_used g
      \<and> object_count (snd (check_the_space ?n g)) = object_count g"
    by (simp add: check_the_space_def Let_def)
  have "allocate_large_object sz (s, g) = Some (0, s, snd (check_the_space ?n g))"
  proof (cases "\<forall>b \<in> set (blocks (TREENODES_LIST s) ft). bsize b < ?n")
    case True
    have "tree_at (TREENODES_LIST s) (free_root s) ft" "maxheap (prio (TREENODES_LIST s)) ft"
      using assms(1) by (simp_all add: large_inv_def)
    then have "first_fit_search (TREENODES_LIST s) (free_root s) ?n = None"
      using True assms(2) by (auto simp: first_fit_search_def)
    then show ?thesis by (rule allocate_large_object_no_fit)
  next
    case False
    then have ft: "ft = Node Leaf f Leaf" using assms(2) by auto
    have p: "pool = []" "?n < prio (TREENODES_LIST s) f"
      using False assms(3) by (auto simp: ft)
    show ?thesis
      using allocate_large_object_no_node [OF assms(1) [unfolded ft p(1)] refl p(2)] .
  qed
  with g show ?thesis by blast
qed

theorem large_request_refused_witness:
  "\<exists>s. large_inv s (Node Leaf 0 Leaf) Leaf [1..<unat (TREENODE_COUNT 8064)]
    \<and> (\<exists>g'. allocate_large_object 9000 (s, ex_log) = Some (0, s, g')
      \<and> memory_used g' = memory_used ex_log \<and> object_count g' = object_count ex_log)"
proof -
  have "occupied_root ex_blank = None" by (simp add: ex_blank_def)
  then obtain s where l: "large_inv s (Node Leaf 0 Leaf) Leaf [1..<unat (TREENODE_COUNT 8064)]"
    and b: "block (TREENODES_LIST s 0) = \<lparr>addr = 4096, bsize = 8064, isMarked = False\<rparr>"
    using init_large_allocator_inv [of ex_blank 8064 4096 "\<lambda>_. leaf_node 0 0" ex_log]
    by (auto simp: TREENODE_COUNT_def MAX_OBJECT_SIZE_def GET_SIZE_WITH_ALIGNMENT_def unat_div)
  have "(\<forall>c \<in> set (blocks (TREENODES_LIST s) (Node Leaf 0 Leaf)). bsize c < GET_SIZE_WITH_ALIGNMENT 9000)
      \<or> [1..<unat (TREENODE_COUNT 8064)] = []
        \<and> (\<forall>c \<in> set (blocks (TREENODES_LIST s) (Node Leaf 0 Leaf)). bsize c \<noteq> GET_SIZE_WITH_ALIGNMENT 9000)"
    by (simp add: b GET_SIZE_WITH_ALIGNMENT_def)
  from large_request_refused [OF l _ this, of 0 ex_log] l show ?thesis by blast
qed

text \<open>C20: when the root of the free tree has a child and its region has exactly the aligned size of the request,
  allocating it returns its address but breaks the allocator: some node that is still free can be
  reached both from the free root and from the occupied root, since the child pointers of the removed
  node are not cleared, and no separation of free and occupied nodes, as the invariant asks for it, is
  left.\<close>

theorem allocate_large_object_fragmented:
  assumes "large_inv s (Node l f r) ot pool" and "l \<noteq> Leaf \<or> r \<noteq> Leaf"
    and "prio (TREENODES_LIST s) f = GET_SIZE_WITH_ALIGNMENT sz"
  shows "\<exists>s' g' j is js. allocate_large_object sz (s, g) = Some (key (TREENODES_LIST s) f, s', g')
    \<and> j \<in> set_tree l \<union> set_tree r \<and> path (TREENODES_LIST s') (occupied_root s') is j
    \<and> path (TREENODES_LIST s') (free_root s') js j
    \<and> (\<forall>ft' ot' pool'. \<not> large_inv s' ft' ot' pool')"
  by (rule allocate_large_object_exact_broken [OF assms])

definition ex_frag :: large_state where
  "ex_frag = \<lparr>TREENODES_LIST = (\<lambda>_. leaf_node 0 0)
       (0 := (leaf_node 8128 4032)\<lparr>left := Some 1\<rparr>, 1 := leaf_node 4096 2016, 2 := leaf_node 6112 2016),
     TREENODE_LIST_HEAD = None, free_root = Some 0, occupied_root = Some 2,
     START_BIG_ALLOCATOR_HEAP = Some 4096, END_BIG_ALLOCATOR_HEAP = Some 12160\<rparr>"

lemma ex_frag_inv: "large_inv ex_frag (Node (Node Leaf 1 Leaf) 0 Leaf) (Node Leaf 2 Leaf) []"
proof -
  let ?ts = "[new_object 4096 2016, new_object 6112 2016, new_object 8128 4032]"
  have "tiles 4096 12160 ?ts" by (simp add: new_object_def reg_hi_def)
  moreover have "\<forall>b \<in> set ?ts. 8 dvd unat (addr b) \<and> 8 dvd unat (bsize b)" by simp
  ultimately have "heap_tiled ex_frag ?ts"
    unfolding heap_tiled_def
    by (intro conjI exI [of _ 4096] exI [of _ 12160] exI [of _ ?ts]) (simp_all add: ex_frag_def)
  then have "heap_tiled ex_frag [new_object 4096 2016, new_object 8128 4032, new_object 6112 2016]"
    by (rule heap_tiled_perm [THEN iffD1, rotated]) simp
  then show ?thesis
    by (simp add: large_inv_def ex_frag_def leaf_node_def new_object_def word_less_nat_alt word_le_nat_alt)
qed

theorem allocate_large_object_fragmented_witness:
  "\<exists>s' g' is js. allocate_large_object 4032 (ex_frag, ex_log) = Some (8128, s', g')
    \<and> path (TREENODES_LIST s') (occupied_root s') is 1 \<and> path (TREENODES_LIST s') (free_root s') js 1
    \<and> (\<forall>ft' ot' pool'. \<not> large_inv s' ft' ot' pool')"
proof -
  have "prio (TREENODES_LIST ex_frag) 0 = GET_SIZE_WITH_ALIGNMENT 4032"
    "key (TREENODES_LIST ex_frag) 0 = 8128"
    by (simp_all add: ex_frag_def leaf_node_def GET_SIZE_WITH_ALIGNMENT_def)
  with allocate_large_object_fragmented [OF ex_frag_inv, of 4032 ex_log] show ?thesis by auto
qed

end
