(* ===== verification/Object.thy ===== *)
theory Object
  imports Small_Heap Large_Allocator
begin

text \<open>
  \<^verbatim>\<open>allocator/object.c\<close>: from an address to the object that holds it, its size and its mark, in either
  heap. \<open>None\<close> is a failed assertion or the dereference of a cell that is not there; the answer
  \<^verbatim>\<open>INVALID_ADDRESS\<close> of \<^verbatim>\<open>get_object\<close> is \<open>Some None\<close>.
\<close>

record gc_heap =
  small :: small_state
  large :: large_state
  bytes :: mem
  logs :: log_state

text \<open>\<^verbatim>\<open>a >= get_large_heap_start() && a < get_large_heap_end()\<close>, and the same for the small heap.\<close>

definition in_large_heap :: "gc_heap \<Rightarrow> size_t \<Rightarrow> bool option" where
  "in_large_heap hp a = do {
     s \<leftarrow> START_BIG_ALLOCATOR_HEAP (large hp);
     if s \<le> a then do { e \<leftarrow> END_BIG_ALLOCATOR_HEAP (large hp); Some (a < e) } else Some False
   }"

definition in_small_heap :: "gc_heap \<Rightarrow> size_t \<Rightarrow> bool" where
  "in_small_heap hp a \<longleftrightarrow> START_ALLOCATOR_HEAP (small hp) \<le> a \<and> a < END_ALLOCATOR_HEAP (small hp)"

definition search_occupied :: "gc_heap \<Rightarrow> size_t \<Rightarrow> tptr option" where
  "search_occupied hp a = search_bst (TREENODES_LIST (large hp)) (occupied_root (large hp)) a"

definition get_object_size :: "gc_heap \<Rightarrow> size_t \<Rightarrow> size_t option" where
  "get_object_size hp object_addr =
     (if in_small_heap hp object_addr then
        (let object_relative_addr = object_addr - START_ALLOCATOR_HEAP (small hp);
             b = object_addr - object_relative_addr mod BLOCK_SIZE;
             object_size = load64 (bytes hp) (GET_OBJECT_SIZE_ADDR b)
         in Some (GET_SIZE_WITH_ALIGNMENT object_size))
      else do {
        l \<leftarrow> in_large_heap hp object_addr;
        if l then do {
          node \<leftarrow> search_occupied hp object_addr;
          n \<leftarrow> node;
          Some (prio (TREENODES_LIST (large hp)) n)
        } else None
      })"

definition get_object :: "gc_heap \<Rightarrow> size_t \<Rightarrow> size_t option option" where
  "get_object hp object_addr = do {
     l \<leftarrow> in_large_heap hp object_addr;
     if l then do {
       node \<leftarrow> ext_search_bst (TREENODES_LIST (large hp)) (occupied_root (large hp)) object_addr;
       Some (case node of None \<Rightarrow> None | Some n \<Rightarrow> Some (key (TREENODES_LIST (large hp)) n))
     } else if in_small_heap hp object_addr then do {
       let b = get_block_addr (small hp) object_addr;
       let object_addr_in_block = object_addr - b;
       if object_addr_in_block \<ge> 0 \<and> object_addr_in_block < BLOCK_HEADER_SIZE then Some None
       else do {
         object_size \<leftarrow> get_object_size hp object_addr;
         if object_size \<le> 0 \<or> object_size > MAX_OBJECT_SIZE then Some None
         else do {
           let object_size = GET_SIZE_WITH_ALIGNMENT object_size;
           Some (Some (object_addr - (object_addr_in_block - BLOCK_HEADER_SIZE) mod object_size))
         }
       }
     } else Some None
   }"

definition mark_object :: "size_t \<Rightarrow> gc_heap \<Rightarrow> gc_heap option" where
  "mark_object object_addr hp = do {
     l \<leftarrow> in_large_heap hp object_addr;
     if l then do {
       node \<leftarrow> search_occupied hp object_addr;
       case node of
         None \<Rightarrow> Some hp
       | Some n \<Rightarrow> do {
           let h = TREENODES_LIST (large hp);
           let h = set_block n ((block (h n))\<lparr>isMarked := True\<rparr>) h;
           Some (hp\<lparr>large := (large hp)\<lparr>TREENODES_LIST := h\<rparr>, logs := log_mark_alive (prio h n) (logs hp)\<rparr>)
         }
     } else if in_small_heap hp object_addr then do {
       m \<leftarrow> set_bit_by_address (START_ALLOCATOR_HEAP (small hp)) object_addr 1 (bytes hp);
       let hp = hp\<lparr>bytes := m\<rparr>;
       sz \<leftarrow> get_object_size hp object_addr;
       Some (hp\<lparr>logs := log_mark_alive sz (logs hp)\<rparr>)
     } else None
   }"

definition is_marked :: "gc_heap \<Rightarrow> size_t \<Rightarrow> bool option" where
  "is_marked hp object_addr = do {
     l \<leftarrow> in_large_heap hp object_addr;
     if l then do {
       node \<leftarrow> search_occupied hp object_addr;
       n \<leftarrow> node;
       Some (isMarked (block (TREENODES_LIST (large hp) n)))
     } else if in_small_heap hp object_addr then do {
       v \<leftarrow> get_bit_by_address (START_ALLOCATOR_HEAP (small hp)) (bytes hp) object_addr;
       Some (if v \<noteq> 0 then True else False)
     } else None
   }"


section \<open>Well-formed heaps and their objects\<close>

text \<open>
  Both allocators satisfy their invariants as far as the marker needs them: blocks of the small heap
  are sized or unused, the occupied regions are a search tree in a tiled heap, and the two mappings do
  not overlap and do not reach the last page of the address space.
\<close>

definition block_ok :: "mem \<Rightarrow> size_t \<Rightarrow> bool" where
  "block_ok m b \<longleftrightarrow> load64 m (b + 8) = 0 \<or> (\<exists>k. sized m b k)"

definition gc_heap_ok :: "size_t \<Rightarrow> gc_heap \<Rightarrow> nat tree \<Rightarrow> bool" where
  "gc_heap_ok H hp ot \<longleftrightarrow>
     (let B = START_ALLOCATOR_HEAP (small hp); h = TREENODES_LIST (large hp) in
      4096 dvd unat H \<and> small_room H B \<and> END_ALLOCATOR_HEAP (small hp) = B + H
      \<and> (\<forall>i < BLOCKS_COUNT H. block_ok (bytes hp) (blk B i))
      \<and> (\<exists>ft pool. large_inv (large hp) ft ot pool)
      \<and> (\<forall>s e. START_BIG_ALLOCATOR_HEAP (large hp) = Some s \<and> END_BIG_ALLOCATOR_HEAP (large hp) = Some e
           \<longrightarrow> unat e + 4096 < 2 ^ 64 \<and> (unat e \<le> unat B \<or> unat B + unat H \<le> unat s)))"

text \<open>The objects: slots of sized blocks, and occupied regions.\<close>

definition small_object :: "size_t \<Rightarrow> gc_heap \<Rightarrow> size_t \<Rightarrow> bool" where
  "small_object H hp x \<longleftrightarrow> (\<exists>i < BLOCKS_COUNT H. \<exists>k j.
     sized (bytes hp) (blk (START_ALLOCATOR_HEAP (small hp)) i) k \<and> j < slots (al k)
     \<and> x = slot (blk (START_ALLOCATOR_HEAP (small hp)) i) (al k) j)"

definition large_object :: "gc_heap \<Rightarrow> nat tree \<Rightarrow> size_t \<Rightarrow> bool" where
  "large_object hp ot x \<longleftrightarrow> (\<exists>n \<in> set_tree ot. x = key (TREENODES_LIST (large hp)) n)"

definition heap_object :: "size_t \<Rightarrow> gc_heap \<Rightarrow> nat tree \<Rightarrow> size_t \<Rightarrow> bool" where
  "heap_object H hp ot x \<longleftrightarrow> small_object H hp x \<or> large_object hp ot x"



section \<open>Locating an address\<close>

lemma gc_heap_parts:
  assumes "gc_heap_ok H hp ot"
  shows "4096 dvd unat H" and "small_room H (START_ALLOCATOR_HEAP (small hp))"
    and "END_ALLOCATOR_HEAP (small hp) = START_ALLOCATOR_HEAP (small hp) + H"
    and "i < BLOCKS_COUNT H \<Longrightarrow> block_ok (bytes hp) (blk (START_ALLOCATOR_HEAP (small hp)) i)"
    and "\<exists>ft pool. large_inv (large hp) ft ot pool"
  using assms by (simp_all add: gc_heap_ok_def Let_def)

lemma gc_large_parts:
  assumes "gc_heap_ok H hp ot"
  defines "h \<equiv> TREENODES_LIST (large hp)"
  shows "tree_at h (occupied_root (large hp)) ot" and "sorted_by (key h) (inorder ot)" and "distinct (inorder ot)"
    and "\<exists>fs. heap_tiled (large hp) (fs @ blocks h ot)"
  using gc_heap_parts(5) [OF assms(1)] sorted_by_distinct unfolding h_def large_inv_def by blast+

lemma in_large_heap_total:
  assumes "gc_heap_ok H hp ot"
  shows "\<exists>s e. START_BIG_ALLOCATOR_HEAP (large hp) = Some s \<and> END_BIG_ALLOCATOR_HEAP (large hp) = Some e
    \<and> (\<forall>a. in_large_heap hp a = Some (s \<le> a \<and> a < e)) \<and> unat e + 4096 < 2 ^ 64
    \<and> (unat e \<le> unat (START_ALLOCATOR_HEAP (small hp))
        \<or> unat (START_ALLOCATOR_HEAP (small hp)) + unat H \<le> unat s)"
proof -
  obtain fs where "heap_tiled (large hp) (fs @ blocks (TREENODES_LIST (large hp)) ot)"
    using gc_large_parts(4) [OF assms] by blast
  then obtain s e where se: "START_BIG_ALLOCATOR_HEAP (large hp) = Some s" "END_BIG_ALLOCATOR_HEAP (large hp) = Some e"
    using heap_tiled_regions(1) by blast
  moreover have "in_large_heap hp a = Some (s \<le> a \<and> a < e)" for a by (simp add: in_large_heap_def se)
  ultimately show ?thesis using assms by (auto simp: gc_heap_ok_def Let_def)
qed

text \<open>An address in the small heap is an offset in one of its blocks.\<close>

lemma small_heap_address:
  assumes ok: "gc_heap_ok H hp ot" and i: "i < BLOCKS_COUNT H" and off: "off < 4096"
    and a: "a = blk (START_ALLOCATOR_HEAP (small hp)) i + of_nat off"
  shows "in_small_heap hp a" and "in_large_heap hp a = Some False"
    and "get_block_addr (small hp) a = blk (START_ALLOCATOR_HEAP (small hp)) i"
proof -
  let ?B = "START_ALLOCATOR_HEAP (small hp)"
  note p = gc_heap_parts [OF ok]
  have ua: "unat a = unat ?B + 4096 * i + off"
    unfolding a using offset_add [OF blk_end [OF p(2) i], of off] off unat_blk [OF p(2) i] by simp
  have iH: "4096 * i + 4096 \<le> unat H" by (rule block_in_heap [OF i])
  have e: "unat (?B + H) = unat ?B + unat H" using p(2) by (intro unat_add_no_wrap) (simp add: small_room_def)
  show "in_small_heap hp a"
    using ua iH off by (simp add: in_small_heap_def p(3) word_le_nat_alt word_less_nat_alt e)
  show "in_large_heap hp a = Some False"
    using in_large_heap_total [OF ok] ua iH off by (auto simp: word_le_nat_alt word_less_nat_alt)
  show "get_block_addr (small hp) a = blk ?B i"
    using block_offset [OF blk_block [OF p(2) i] off] by (simp add: get_block_addr_def a)
qed

lemma in_small_heap_offset:
  assumes ok: "gc_heap_ok H hp ot" and a: "in_small_heap hp a"
  obtains i off where "i < BLOCKS_COUNT H" "off < 4096" "a = blk (START_ALLOCATOR_HEAP (small hp)) i + of_nat off"
proof -
  let ?B = "START_ALLOCATOR_HEAP (small hp)"
  note p = gc_heap_parts [OF ok]
  have e: "unat (?B + H) = unat ?B + unat H" using p(2) by (intro unat_add_no_wrap) (simp add: small_room_def)
  have r: "unat ?B \<le> unat a" "unat a < unat ?B + unat H"
    using a by (simp_all add: in_small_heap_def p(3) word_le_nat_alt word_less_nat_alt e)
  let ?d = "unat a - unat ?B"
  have i: "?d div 4096 < BLOCKS_COUNT H"
  proof -
    obtain q where q: "unat H = 4096 * q" using p(1) by (auto elim: dvdE)
    then have "?d < 4096 * q" using r by simp
    then show ?thesis unfolding BLOCKS_COUNT_nat q by (simp add: div_less_iff_less_mult mult.commute)
  qed
  have off: "?d mod 4096 < 4096" by simp
  have "unat (blk ?B (?d div 4096) + of_nat (?d mod 4096)) = unat ?B + 4096 * (?d div 4096) + ?d mod 4096"
    using offset_add [OF blk_end [OF p(2) i], of "?d mod 4096"] off unat_blk [OF p(2) i] by simp
  also have "\<dots> = unat ?B + (4096 * (?d div 4096) + ?d mod 4096)" by (rule add.assoc)
  also have "\<dots> = unat a" using r by simp
  finally have "a = blk ?B (?d div 4096) + of_nat (?d mod 4096)" by (simp add: word_unat_eq_iff)
  then show ?thesis using that i off by blast
qed


section \<open>Getting the object of an address\<close>

text \<open>In a sized block an address behind the header belongs to the slot that holds it.\<close>

lemma get_object_size_small:
  assumes ok: "gc_heap_ok H hp ot" and i: "i < BLOCKS_COUNT H" and off: "off < 4096"
    and a: "a = blk (START_ALLOCATOR_HEAP (small hp)) i + of_nat off"
  shows "get_object_size hp a
    = Some (GET_SIZE_WITH_ALIGNMENT (load64 (bytes hp) (blk (START_ALLOCATOR_HEAP (small hp)) i + 8)))"
  using small_heap_address [OF assms]
  by (simp add: get_object_size_def Let_def get_block_addr_def [symmetric] GET_OBJECT_SIZE_ADDR_def)
    (simp add: get_block_addr_def)

lemma get_object_small:
  assumes ok: "gc_heap_ok H hp ot" and i: "i < BLOCKS_COUNT H" and off: "off < 4096"
    and a: "a = blk (START_ALLOCATOR_HEAP (small hp)) i + of_nat off"
  shows "get_object hp a =
    (if off < 80 \<or> load64 (bytes hp) (blk (START_ALLOCATOR_HEAP (small hp)) i + 8) = 0 then Some None
     else (let n = al (unat (load64 (bytes hp) (blk (START_ALLOCATOR_HEAP (small hp)) i + 8)))
           in Some (Some (slot (blk (START_ALLOCATOR_HEAP (small hp)) i) n ((off - 80) div n)))))"
proof -
  let ?b = "blk (START_ALLOCATOR_HEAP (small hp)) i"
  let ?sz = "load64 (bytes hp) (?b + 8)"
  note ad = small_heap_address [OF assms]
  have uo: "unat (of_nat off :: size_t) = off" using off by (intro unat_of_nat_small) simp
  have d: "a - ?b = of_nat off" by (simp add: a)
  have lt: "(of_nat off :: size_t) < BLOCK_HEADER_SIZE \<longleftrightarrow> off < 80"
    by (simp add: word_less_nat_alt uo BLOCK_HEADER_SIZE_def)
  note gs = get_object_size_small [OF assms]
  show ?thesis
  proof (cases "off < 80")
    case True
    then show ?thesis by (simp add: get_object_def ad d lt)
  next
    case False
    have "block_ok (bytes hp) ?b" by (rule gc_heap_parts(4) [OF ok i])
    then consider (unused) "?sz = 0" | (sized) k where "sized (bytes hp) ?b k" by (auto simp: block_ok_def)
    then show ?thesis
    proof cases
      case unused
      then show ?thesis
        by (simp add: get_object_def ad d lt False gs GET_SIZE_WITH_ALIGNMENT_def)
    next
      case (sized k)
      then have k: "size_ok k" and sz: "?sz = of_nat k" by (simp_all add: sized_def)
      have n8: "8 \<le> al k" "al k \<le> 2008" "8 dvd al k" using al_bounds [OF k] by simp_all
      have un: "unat (of_nat (al k) :: size_t) = al k" using n8(2) by (intro unat_of_nat_small) simp
      have al2: "GET_SIZE_WITH_ALIGNMENT (of_nat (al k)) = of_nat (al k)"
      proof -
        have "unat ((of_nat (al k) :: size_t) mod 8) = 0" using n8(3) un by (simp add: unat_word_mod)
        then show ?thesis by (simp add: GET_SIZE_WITH_ALIGNMENT_def unat_eq_zero)
      qed
      have ok1: "\<not> (of_nat (al k) \<le> (0 :: size_t) \<or> of_nat (al k) > MAX_OBJECT_SIZE)"
        using un n8 by (simp add: word_le_nat_alt word_less_nat_alt MAX_OBJECT_SIZE_def)
      have "unat (of_nat off - (BLOCK_HEADER_SIZE :: size_t)) = off - 80"
        using False uo by (subst unat_sub_no_wrap) (simp_all add: BLOCK_HEADER_SIZE_def word_le_nat_alt)
      then have md: "unat ((of_nat off - BLOCK_HEADER_SIZE) mod of_nat (al k)) = (off - 80) mod al k"
        by (simp add: unat_word_mod un)
      have "a - (of_nat off - BLOCK_HEADER_SIZE) mod of_nat (al k) = slot ?b (al k) ((off - 80) div al k)"
      proof -
        have "(of_nat off - BLOCK_HEADER_SIZE) mod of_nat (al k) = (of_nat ((off - 80) mod al k) :: size_t)"
          using md by (metis of_nat_unat_word)
        moreover have "off = 80 + al k * ((off - 80) div al k) + (off - 80) mod al k" using False by simp
        then have "(of_nat off :: size_t) = of_nat (80 + al k * ((off - 80) div al k)) + of_nat ((off - 80) mod al k)"
          by (metis of_nat_add)
        ultimately show ?thesis by (simp add: a slot_def)
      qed
      moreover have "?sz \<noteq> 0" using sz unat_size_ok [OF k] k by (auto simp: size_ok_iff)
      ultimately show ?thesis
        using ok1 by (simp add: get_object_def ad d lt False gs sz align_word [OF k] al2 unat_size_ok [OF k] Let_def)
    qed
  qed
qed

end
