(* ===== verification/Free_List.thy ===== *)
theory Free_List
  imports Large_Allocator
begin

text \<open>
  What the coalescing insertion of \<^verbatim>\<open>insert_treap\<close> does to the regions of the heap: it keeps them
  tiling the heap, keeps the free list sorted by address, and keeps it coalesced, with no two free
  regions that touch.
\<close>

section \<open>Regions through a coalescing insertion\<close>

lemma heap_tiled_remark:
  assumes "heap_tiled s (b # bs)"
  shows "heap_tiled s (b\<lparr>isMarked := x\<rparr> # bs)"
proof -
  obtain a e ts where se: "START_BIG_ALLOCATOR_HEAP s = Some a" "END_BIG_ALLOCATOR_HEAP s = Some e"
    and t: "tiles (unat a) (unat e) ts" and m: "mset ts = mset (b # bs)"
    using assms(1) by (auto simp: heap_tiled_def)
  have "b \<in> set ts" using mset_eq_setD [OF m] by auto
  then obtain xs ys where ts: "ts = xs @ b # ys" using split_list by metis
  have "tiles (unat a) (unat e) (xs @ b\<lparr>isMarked := x\<rparr> # ys)"
    using t ts by (simp add: tiles_append reg_hi_def)
  moreover have "mset (xs @ b\<lparr>isMarked := x\<rparr> # ys) = mset (b\<lparr>isMarked := x\<rparr> # bs)"
    using m ts by simp
  ultimately show ?thesis using se assms unfolding heap_tiled_def by fastforce
qed

text \<open>On regions that do not wrap, the word test for touching is the test on numbers.\<close>

lemma touch_iff:
  assumes "heap_tiled s bs" and "b \<in> set bs"
  shows "addr b + bsize b = addr c \<longleftrightarrow> reg_hi b = reg_lo c"
  using unat_reg_hi [OF heap_tiled_no_wrap [OF assms]] by (metis word_unat_eq_iff)

lemma join_left_tiled:
  assumes "heap_tiled s (ls @ b # rest)" and "join_left ls b = (ls', b')"
  shows "heap_tiled s (ls' @ b' # rest)"
proof (cases "ls \<noteq> [] \<and> addr (last ls) + bsize (last ls) = addr b")
  case True
  let ?c = "last ls"
  have ls: "ls = butlast ls @ [?c]" using True by simp
  have h: "heap_tiled s (?c # b # butlast ls @ rest)"
    using assms(1) by (subst heap_tiled_perm [of _ "ls @ b # rest"]) (subst (3) ls, simp_all)
  have t: "reg_hi ?c = reg_lo b" using touch_iff [OF h, of ?c b] True by simp
  have r: "ls' = butlast ls" "b' = b\<lparr>addr := addr ?c, bsize := bsize b + bsize ?c\<rparr>"
    using assms(2) True by (auto simp: join_left_def)
  have "reg_hi b < 2 ^ 64" by (rule heap_tiled_no_wrap [OF h]) simp
  then have "unat (bsize b + bsize ?c) = unat (bsize b) + unat (bsize ?c)"
    using t by (simp add: reg_hi_def unat_add_no_wrap)
  then have "heap_tiled s (b' # butlast ls @ rest)"
    using heap_tiled_join [OF h t, of b'] t by (simp add: r reg_hi_def)
  then show ?thesis by (rule heap_tiled_perm [THEN iffD1, rotated]) (simp add: r)
next
  case False
  then show ?thesis using assms by (auto simp: join_left_def split: if_splits)
qed

lemma join_right_tiled:
  assumes "heap_tiled s (b # rs @ rest)" and "join_right b rs = (b', rs')"
  shows "heap_tiled s (b' # rs' @ rest)"
proof (cases "rs \<noteq> [] \<and> addr b + bsize b = addr (hd rs)")
  case True
  then obtain c cs where rs: "rs = c # cs" by (cases rs) auto
  have h: "heap_tiled s (b # c # cs @ rest)" using assms(1) rs by simp
  have t: "reg_hi b = reg_lo c" using touch_iff [OF h, of b c] True rs by simp
  have r: "rs' = cs" "b' = b\<lparr>bsize := bsize b + bsize c\<rparr>"
    using assms(2) True rs by (auto simp: join_right_def)
  have "reg_hi c < 2 ^ 64" by (rule heap_tiled_no_wrap [OF h]) simp
  then have "unat (bsize b + bsize c) = unat (bsize b) + unat (bsize c)"
    using t by (simp add: reg_hi_def unat_add_no_wrap)
  then show ?thesis
    using heap_tiled_join [OF h t, of b'] t by (simp add: r reg_hi_def)
next
  case False
  then show ?thesis using assms by (auto simp: join_right_def split: if_splits)
qed

lemma filter_split_mset: "mset (filter P xs @ filter (\<lambda>x. \<not> P x) xs) = mset xs"
  by (simp add: multiset_partition [symmetric])

lemma ins_region_tiled:
  assumes "heap_tiled s (b # bs @ rest)"
  shows "heap_tiled s (ins_region b bs @ rest)"
proof -
  let ?L = "filter (\<lambda>c. addr c \<le> addr b) bs" and ?R = "filter (\<lambda>c. addr b < addr c) bs"
  obtain ls b1 where jl: "join_left ?L b = (ls, b1)" by (cases "join_left ?L b") auto
  obtain b2 rs where jr: "join_right b1 ?R = (b2, rs)" by (cases "join_right b1 ?R") auto
  have "mset (?L @ ?R) = mset bs"
    using filter_split_mset [of "\<lambda>c. addr c \<le> addr b" bs] by (simp add: not_le)
  then have "heap_tiled s (?L @ b # ?R @ rest)"
    using assms by (subst heap_tiled_perm [of _ "b # bs @ rest"]) simp_all
  from join_left_tiled [OF this jl] have "heap_tiled s (b1 # ?R @ ls @ rest)"
    by (rule heap_tiled_perm [THEN iffD1, rotated]) simp
  from join_right_tiled [OF this jr] have "heap_tiled s (b2 # rs @ ls @ rest)" .
  then have "heap_tiled s ((ls @ b2 # rs) @ rest)"
    by (rule heap_tiled_perm [THEN iffD1, rotated]) simp
  then show ?thesis by (simp add: ins_region_def jl jr)
qed

text \<open>A coalescing insertion keeps the free list sorted.\<close>

lemma join_right_sorted:
  "join_right b xs = (c, ys) \<Longrightarrow> sorted_by addr xs \<Longrightarrow>
     set ys \<subseteq> set xs \<and> sorted_by addr ys \<and> addr c = addr b"
  by (cases xs) (auto simp: join_right_def split: if_splits)

lemma ins_region_sorted:
  assumes "sorted_by addr bs" and "addr b \<notin> addr ` set bs"
  shows "sorted_by addr (ins_region b bs)"
proof -
  let ?L = "filter (\<lambda>c. addr c \<le> addr b) bs" and ?R = "filter (\<lambda>c. addr b < addr c) bs"
  have sl: "sorted_by addr ?L" and sr: "sorted_by addr ?R" using assms(1) by (simp_all add: sorted_by_filter)
  have lt: "\<forall>c \<in> set ?L. addr c < addr b" using assms(2) by (auto simp: less_le image_iff)
  obtain ls b1 where jl: "join_left ?L b = (ls, b1)" by (cases "join_left ?L b") auto
  obtain b2 rs where jr: "join_right b1 ?R = (b2, rs)" by (cases "join_right b1 ?R") auto
  have 1: "sorted_by addr (ls @ [b1]) \<and> addr b1 \<le> addr b"
  proof (cases "?L \<noteq> [] \<and> addr (last ?L) + bsize (last ?L) = addr b")
    case True
    then have "sorted_by addr (butlast ?L)" "\<forall>x \<in> set (butlast ?L). addr x < addr (last ?L)"
      using sorted_by_butlast [OF sl] by auto
    moreover have "addr (last ?L) \<le> addr b"
      using lt last_in_set True by (meson less_imp_le)
    ultimately show ?thesis using True jl by (auto simp: join_left_def)
  next
    case False
    then show ?thesis using jl sl lt by (auto simp: join_left_def split: if_splits)
  qed
  have 2: "set rs \<subseteq> set ?R \<and> sorted_by addr rs \<and> addr b2 = addr b1"
    using join_right_sorted [OF jr sr] .
  have "addr c < addr d" if "c \<in> set ls \<union> {b1}" "d \<in> set ?R" for c d
    using 1 that by (auto dest: le_less_trans less_trans)
  then have "sorted_by addr (ls @ b2 # rs)" using 1 2 by auto
  then show ?thesis by (simp add: ins_region_def jl jr)
qed


text \<open>Marks: the joined region keeps the mark of the new one.\<close>

lemma ins_region_unmarked:
  assumes "\<not> isMarked b" and "\<forall>c \<in> set bs. \<not> isMarked c"
  shows "\<forall>c \<in> set (ins_region b bs). \<not> isMarked c"
  using assms
  by (auto simp: ins_region_def join_left_def join_right_def Let_def split: if_splits prod.splits
      dest!: in_set_butlastD list.set_sel(2) [rotated])


text \<open>
  No two regions of the free list touch: a coalescing insertion keeps it so.
\<close>

definition coalesced :: "Header list \<Rightarrow> bool" where
  "coalesced bs \<longleftrightarrow> (\<forall>b \<in> set bs. \<forall>c \<in> set bs. reg_hi b \<noteq> reg_lo c)"

lemma heap_tiled_below:
  assumes "heap_tiled s bs" and "b \<in> set bs" and "c \<in> set bs" and "addr c < addr b"
  shows "reg_hi c \<le> reg_lo b"
proof -
  have "b \<noteq> c" using assms(4) by auto
  then have "reg_hi b \<le> reg_lo c \<or> reg_hi c \<le> reg_lo b"
    using heap_tiled_regions(4) [OF assms(1)] assms(2,3) by blast
  moreover have "reg_lo b < reg_hi b"
    using heap_tiled_regions(1) [OF assms(1)] assms(2) by blast
  ultimately show ?thesis using assms(4) by (auto simp: word_less_nat_alt)
qed

lemma join_left_apart:
  assumes ht: "heap_tiled s (b # xs @ rest)" and srt: "sorted_by addr xs" and co: "coalesced xs"
    and below: "\<forall>c \<in> set xs. addr c < addr b" and j: "join_left xs b = (ls, b1)"
  shows "set ls \<subseteq> set xs \<and> (\<forall>c \<in> set ls. reg_hi c < reg_lo b1)"
proof (cases "xs = []")
  case False
  let ?z = "last xs"
  have z: "?z \<in> set xs" using False by simp
  have bl: "\<forall>c \<in> set (butlast xs). addr c < addr ?z" using sorted_by_butlast [OF srt False] by blast
  have hz: "reg_hi c < reg_lo ?z" if "c \<in> set (butlast xs)" for c
  proof -
    have c: "c \<in> set xs" using that by (rule in_set_butlastD)
    have "reg_hi c \<le> reg_lo ?z" by (rule heap_tiled_below [OF ht]) (use z c bl that in auto)
    then show ?thesis using co c z by (auto simp: coalesced_def order.strict_iff_order)
  qed
  have zb: "reg_lo ?z < reg_hi ?z" "reg_hi ?z \<le> reg_lo b"
    using heap_tiled_regions(1) [OF ht] heap_tiled_below [OF ht, of b ?z] z below by auto
  show ?thesis
  proof (cases "addr ?z + bsize ?z = addr b")
    case True
    then show ?thesis using j False hz by (auto simp: join_left_def dest: in_set_butlastD)
  next
    case no: False
    then have "reg_hi ?z < reg_lo b" using touch_iff [OF ht, of ?z b] z zb by auto
    moreover have "c = ?z \<or> c \<in> set (butlast xs)" if "c \<in> set xs" for c
      using that False by (metis append_butlast_last_id in_set_conv_decomp set_append Un_iff set_ConsD empty_iff list.set(1))
    ultimately show ?thesis using j no hz zb by (fastforce simp: join_left_def)
  qed
qed (use j in \<open>auto simp: join_left_def\<close>)

lemma join_right_apart:
  assumes ht: "heap_tiled s (b # xs @ rest)" and srt: "sorted_by addr xs" and co: "coalesced xs"
    and above: "\<forall>c \<in> set xs. addr b < addr c" and j: "join_right b xs = (b2, rs)"
  shows "set rs \<subseteq> set xs \<and> (\<forall>c \<in> set rs. reg_hi b2 < reg_lo c) \<and> reg_lo b2 = reg_lo b"
proof (cases xs)
  case (Cons z zs)
  have zz: "\<forall>c \<in> set zs. addr z < addr c" using srt Cons by simp
  have hz: "reg_hi z < reg_lo c" if "c \<in> set zs" for c
  proof -
    have "reg_hi z \<le> reg_lo c" by (rule heap_tiled_below [OF ht]) (use Cons zz that in auto)
    then show ?thesis using co Cons that by (auto simp: coalesced_def order.strict_iff_order)
  qed
  have zb: "reg_lo z < reg_hi z" "reg_hi b \<le> reg_lo z"
    using heap_tiled_regions(1) [OF ht] heap_tiled_below [OF ht, of z b] Cons above by auto
  show ?thesis
  proof (cases "addr b + bsize b = addr z")
    case True
    then have r: "rs = zs" "b2 = b\<lparr>bsize := bsize b + bsize z\<rparr>" using j Cons by (auto simp: join_right_def)
    have t: "reg_hi b = reg_lo z" using touch_iff [OF ht, of b z] True by simp
    have "reg_hi z < 2 ^ 64" by (rule heap_tiled_no_wrap [OF ht]) (simp add: Cons)
    then have "reg_hi b2 = reg_hi z" using t by (simp add: r reg_hi_def unat_add_no_wrap)
    then show ?thesis using r hz Cons by auto
  next
    case no: False
    then have "reg_hi b < reg_lo z" using touch_iff [OF ht, of b z] zb by auto
    then show ?thesis using j no Cons hz zb by (fastforce simp: join_right_def)
  qed
qed (use j in \<open>auto simp: join_right_def\<close>)

lemma ins_region_coalesced:
  assumes ht: "heap_tiled s (b # bs @ rest)" and srt: "sorted_by addr bs" and co: "coalesced bs"
  shows "coalesced (ins_region b bs)"
proof -
  let ?L = "filter (\<lambda>c. addr c \<le> addr b) bs" and ?R = "filter (\<lambda>c. addr b < addr c) bs"
  obtain ls b1 where jl: "join_left ?L b = (ls, b1)" by (cases "join_left ?L b") auto
  obtain b2 rs where jr: "join_right b1 ?R = (b2, rs)" by (cases "join_right b1 ?R") auto
  have bs: "mset (?L @ ?R) = mset bs"
    using filter_split_mset [of "\<lambda>c. addr c \<le> addr b" bs] by (simp add: not_le)
  have ne: "addr c \<noteq> addr b" if "c \<in> set bs" for c
    using inj_onD [OF heap_tiled_regions(3) [OF ht], of c b] heap_tiled_regions(2) [OF ht] that by auto
  have hL: "heap_tiled s (b # ?L @ ?R @ rest)"
    using ht bs by (subst heap_tiled_perm [of _ "b # bs @ rest"]) simp_all
  have cL: "coalesced ?L" and cR: "coalesced ?R" using co by (auto simp: coalesced_def)
  have A: "set ls \<subseteq> set ?L \<and> (\<forall>c \<in> set ls. reg_hi c < reg_lo b1)"
    by (rule join_left_apart [OF hL _ cL _ jl]) (use srt ne in \<open>auto simp: sorted_by_filter less_le\<close>)
  have "heap_tiled s (?L @ b # ?R @ rest)"
    using hL by (rule heap_tiled_perm [THEN iffD1, rotated]) simp
  from join_left_tiled [OF this jl] have hR: "heap_tiled s (b1 # ?R @ ls @ rest)"
    by (rule heap_tiled_perm [THEN iffD1, rotated]) simp
  have "addr b1 \<le> addr b"
    using jl last_in_set [of ?L] by (auto simp: join_left_def split: if_splits simp del: last_in_set)
  then have B: "set rs \<subseteq> set ?R \<and> (\<forall>c \<in> set rs. reg_hi b2 < reg_lo c) \<and> reg_lo b2 = reg_lo b1"
    by (intro join_right_apart [OF hR _ cR _ jr]) (use srt in \<open>auto simp: sorted_by_filter\<close>)
  have io: "ins_region b bs = ls @ b2 # rs" by (simp add: ins_region_def jl jr)
  have "heap_tiled s ((ls @ b2 # rs) @ rest)" using ins_region_tiled [OF ht] io by simp
  then have ne: "reg_lo c < reg_hi c" if "c \<in> set (ls @ b2 # rs)" for c
    using heap_tiled_regions(1) that by (metis Un_iff set_append)
  have sub: "set ls \<union> set rs \<subseteq> set bs" using A B by auto
  have hb: "reg_lo b2 < reg_hi b2" using ne by simp
  have l: "reg_hi c < reg_lo b2" "reg_lo c < reg_hi b2" if "c \<in> set ls" for c
    using A B ne [of c] hb that by auto
  have r: "reg_hi b2 < reg_lo c" "reg_lo b2 < reg_hi c" if "c \<in> set rs" for c
    using B ne [of c] hb that by auto
  show ?thesis
    unfolding io coalesced_def
  proof (intro ballI)
    fix x y assume x: "x \<in> set (ls @ b2 # rs)" and y: "y \<in> set (ls @ b2 # rs)"
    consider "x = b2" "y = b2" | "x = b2" "y \<in> set ls \<union> set rs" | "x \<in> set ls \<union> set rs" "y = b2"
      | "x \<in> set ls \<union> set rs" "y \<in> set ls \<union> set rs"
      using x y by auto
    then show "reg_hi x \<noteq> reg_lo y"
    proof cases
      case 1
      then show ?thesis using hb by simp
    next
      case 2
      then show ?thesis using l(2) [of y] r(1) [of y] by fastforce
    next
      case 3
      then show ?thesis using l(1) [of x] r(2) [of x] by fastforce
    next
      case 4
      then show ?thesis using sub co unfolding coalesced_def by blast
    qed
  qed
qed


section \<open>Properties\<close>

text \<open>C18: insert_treap returns on every proper free tree. The result is a heap-ordered tree sorted by
  address whose regions are the old ones with the new one inserted and joined with the neighbours
  it touches; the heap stays tiled, and if no two free regions touched before, none do afterwards.
  The nodes of the neighbours joined are in the pool.\<close>

theorem insert_treap_correct:
  assumes t: "tree_at (TREENODES_LIST s) root t"
    and pl: "pool_at (TREENODES_LIST s) (TREENODE_LIST_HEAD s) pool"
    and d: "distinct (n # inorder t @ pool)" and nn: "lone (TREENODES_LIST s) n"
    and srt: "sorted_by (key (TREENODES_LIST s)) (inorder t)"
    and hp: "maxheap (prio (TREENODES_LIST s)) t"
    and ht: "heap_tiled s (block (TREENODES_LIST s n) # blocks (TREENODES_LIST s) t @ rest)"
  shows "\<exists>p s' t' fr. insert_treap s root (Some n) = Some (p, s')
    \<and> tree_at (TREENODES_LIST s') p t'
    \<and> sorted_by (key (TREENODES_LIST s')) (inorder t') \<and> maxheap (prio (TREENODES_LIST s')) t'
    \<and> blocks (TREENODES_LIST s') t'
        = ins_region (block (TREENODES_LIST s n)) (blocks (TREENODES_LIST s) t)
    \<and> pool_at (TREENODES_LIST s') (TREENODE_LIST_HEAD s') (fr @ pool)
    \<and> insert n (set_tree t) = set_tree t' \<union> set fr \<and> n \<in> set_tree t'
    \<and> heap_tiled s' (blocks (TREENODES_LIST s') t' @ rest)
    \<and> (coalesced (blocks (TREENODES_LIST s) t) \<longrightarrow> coalesced (blocks (TREENODES_LIST s') t'))"
proof -
  let ?h = "TREENODES_LIST s"
  obtain p s' t' fr where r: "insert_treap s root (Some n) = Some (p, s')"
    and t': "tree_at (TREENODES_LIST s') p t'"
    and p': "pool_at (TREENODES_LIST s') (TREENODE_LIST_HEAD s') (fr @ pool)"
    and "distinct (inorder t' @ fr @ pool)" and st: "insert n (set_tree t) = set_tree t' \<union> set fr"
    and n: "n \<in> set_tree t'" and h': "maxheap (prio (TREENODES_LIST s')) t'"
    and "\<forall>i \<in> set fr. \<not> isMarked (block (TREENODES_LIST s' i))"
    and "same_outside (insert n (set_tree t)) ?h (TREENODES_LIST s')"
    and g: "same_globals s s'"
    and bl: "blocks (TREENODES_LIST s') t' = ins_region (block (?h n)) (blocks ?h t)"
    using insert_treap_refines [OF t pl d nn srt hp] by (elim exE conjE) (rule that)
  have bs: "sorted_by addr (blocks ?h t)" using srt by (simp add: sorted_by_def blocks_def comp_def)
  have "addr (block (?h n)) \<notin> addr ` set (blocks ?h t)"
    using heap_tiled_regions(2,3) [OF ht] by auto
  then have "sorted_by addr (blocks (TREENODES_LIST s') t')"
    using ins_region_sorted [OF bs] bl by simp
  then have srt': "sorted_by (key (TREENODES_LIST s')) (inorder t')"
    by (simp add: sorted_by_def blocks_def comp_def)
  have "heap_tiled s' (blocks (TREENODES_LIST s') t' @ rest)"
    using ins_region_tiled [OF ht] heap_tiled_cong [of s' s] g by (simp add: bl same_globals_def)
  moreover have "coalesced (blocks ?h t) \<longrightarrow> coalesced (blocks (TREENODES_LIST s') t')"
    using ins_region_coalesced [OF ht bs] bl by simp
  ultimately show ?thesis using r t' srt' h' bl p' st n by blast
qed

definition ex_free :: large_state where
  "ex_free = \<lparr>TREENODES_LIST = ex_store, TREENODE_LIST_HEAD = None, free_root = Some 0,
     occupied_root = None, START_BIG_ALLOCATOR_HEAP = Some 16, END_BIG_ALLOCATOR_HEAP = Some 136\<rparr>"

lemma ex_free_tiled:
  "heap_tiled ex_free (block (ex_store 3) # blocks ex_store ex_tree @ [new_object 32 32])"
proof -
  let ?ts = "[block (ex_store 1), new_object 32 32, block (ex_store 0), block (ex_store 3), block (ex_store 2)]"
  have "tiles 16 136 ?ts"
    by (simp add: reg_hi_def ex_store_def leaf_node_def new_object_def)
  moreover have "\<forall>b \<in> set ?ts. 8 dvd unat (addr b) \<and> 8 dvd unat (bsize b)"
    by (simp add: ex_store_def leaf_node_def new_object_def)
  ultimately have "heap_tiled ex_free ?ts"
    unfolding heap_tiled_def by (intro conjI exI [of _ 16] exI [of _ 136] exI [of _ ?ts]) (simp_all add: ex_free_def)
  then show ?thesis
    by (rule heap_tiled_perm [THEN iffD1, rotated]) (simp add: ex_tree_def)
qed

theorem insert_treap_correct_witness:
  "\<exists>p s' t' fr. insert_treap ex_free (Some 0) (Some 3) = Some (p, s')
    \<and> tree_at (TREENODES_LIST s') p t'
    \<and> sorted_by (key (TREENODES_LIST s')) (inorder t') \<and> maxheap (prio (TREENODES_LIST s')) t'
    \<and> blocks (TREENODES_LIST s') t'
        = ins_region (block (TREENODES_LIST ex_free 3)) (blocks (TREENODES_LIST ex_free) ex_tree)
    \<and> pool_at (TREENODES_LIST s') (TREENODE_LIST_HEAD s') (fr @ [])
    \<and> insert 3 (set_tree ex_tree) = set_tree t' \<union> set fr \<and> 3 \<in> set_tree t'
    \<and> heap_tiled s' (blocks (TREENODES_LIST s') t' @ [new_object 32 32])
    \<and> (coalesced (blocks (TREENODES_LIST ex_free) ex_tree) \<longrightarrow> coalesced (blocks (TREENODES_LIST s') t'))"
proof (rule insert_treap_correct)
  show "distinct (3 # inorder ex_tree @ [])" by (simp add: ex_tree_def)
  show "heap_tiled ex_free (block (TREENODES_LIST ex_free 3) # blocks (TREENODES_LIST ex_free) ex_tree
      @ [new_object 32 32])"
    using ex_free_tiled by (simp add: ex_free_def)
qed (use ex_store_tree ex_store_heap in \<open>simp_all add: ex_free_def\<close>)

end
