(* ===== verification/Sweep_Large.thy ===== *)
theory Sweep_Large
  imports Free_List
begin

text \<open>
  The sweep of the large heap: \<^verbatim>\<open>cleanup_bst\<close> of \<^verbatim>\<open>allocator/binary-search-tree.c\<close> and
  \<^verbatim>\<open>sweep_large_heap\<close> of \<^verbatim>\<open>sweeper/sweep.c\<close>. \<^verbatim>\<open>cleanup_bst\<close> works on the address of a pointer: the
  occupied root or a child field of a node, here a location \<open>tloc\<close>.
\<close>


section \<open>The operations\<close>

datatype tloc = OccupiedRoot | LeftOf nat | RightOf nat

fun read_loc :: "tloc \<Rightarrow> large_state \<Rightarrow> tptr" where
  "read_loc OccupiedRoot s = occupied_root s"
| "read_loc (LeftOf i) s = left (TREENODES_LIST s i)"
| "read_loc (RightOf i) s = right (TREENODES_LIST s i)"

fun write_loc :: "tloc \<Rightarrow> tptr \<Rightarrow> large_state \<Rightarrow> large_state" where
  "write_loc OccupiedRoot p s = s\<lparr>occupied_root := p\<rparr>"
| "write_loc (LeftOf i) p s = s\<lparr>TREENODES_LIST := set_left i p (TREENODES_LIST s)\<rparr>"
| "write_loc (RightOf i) p s = s\<lparr>TREENODES_LIST := set_right i p (TREENODES_LIST s)\<rparr>"

partial_function (option) cleanup_bst :: "tloc \<Rightarrow> large_state \<Rightarrow> large_state option" where
  "cleanup_bst root s =
     (case read_loc root s of
        None \<Rightarrow> Some s
      | Some r \<Rightarrow> do {
          s \<leftarrow> cleanup_bst (LeftOf r) s;
          r \<leftarrow> read_loc root s;
          s \<leftarrow> cleanup_bst (RightOf r) s;
          r \<leftarrow> read_loc root s;
          let h = TREENODES_LIST s;
          if isMarked (block (h r))
          then Some (s\<lparr>TREENODES_LIST := set_block r ((block (h r))\<lparr>isMarked := False\<rparr>) h\<rparr>)
          else do {
            (p, removed, h) \<leftarrow> remove_bst h (Some r) (key h r);
            let s = write_loc root p (s\<lparr>TREENODES_LIST := h\<rparr>);
            (q, s) \<leftarrow> insert_treap s (free_root s) removed;
            Some (s\<lparr>free_root := q\<rparr>)
          }
        })"

definition sweep_large_heap :: "large_state \<Rightarrow> large_state option" where
  "sweep_large_heap s =
     (if occupied_root s = None then Some s else cleanup_bst OccupiedRoot s)"


section \<open>Freeing one node\<close>

text \<open>
  What the sweep of a subtree starts from and ends with: the subtree at a pointer, the free tree,
  the pool, and the regions \<open>rest\<close> of the part of the occupied tree that is not looked at.
\<close>

definition swept ::
  "large_state \<Rightarrow> tptr \<Rightarrow> nat tree \<Rightarrow> nat tree \<Rightarrow> nat list \<Rightarrow> Header list \<Rightarrow> bool" where
  "swept s p t ft pool rest \<longleftrightarrow>
     tree_at (TREENODES_LIST s) p t \<and> tree_at (TREENODES_LIST s) (free_root s) ft
     \<and> pool_at (TREENODES_LIST s) (TREENODE_LIST_HEAD s) pool
     \<and> distinct (inorder t @ inorder ft @ pool)
     \<and> sorted_by (key (TREENODES_LIST s)) (inorder t)
     \<and> sorted_by (key (TREENODES_LIST s)) (inorder ft)
     \<and> maxheap (prio (TREENODES_LIST s)) ft
     \<and> (\<forall>i \<in> set_tree ft \<union> set pool. \<not> isMarked (block (TREENODES_LIST s i)))
     \<and> heap_tiled s (blocks (TREENODES_LIST s) ft @ blocks (TREENODES_LIST s) t @ rest)"

fun loc_nodes :: "tloc \<Rightarrow> nat set" where
  "loc_nodes OccupiedRoot = {}"
| "loc_nodes (LeftOf i) = {i}"
| "loc_nodes (RightOf i) = {i}"

text \<open>Outside \<open>X\<close>, only the pointer at the location is written.\<close>

definition only_loc :: "tloc \<Rightarrow> nat set \<Rightarrow> large_state \<Rightarrow> large_state \<Rightarrow> bool" where
  "only_loc loc X s s' \<longleftrightarrow>
     (\<forall>i. i \<notin> X \<longrightarrow> block (TREENODES_LIST s' i) = block (TREENODES_LIST s i)
        \<and> (loc \<noteq> LeftOf i \<longrightarrow> left (TREENODES_LIST s' i) = left (TREENODES_LIST s i))
        \<and> (loc \<noteq> RightOf i \<longrightarrow> right (TREENODES_LIST s' i) = right (TREENODES_LIST s i)))
     \<and> (loc \<noteq> OccupiedRoot \<longrightarrow> occupied_root s' = occupied_root s) \<and> same_limits s s'"

lemma write_loc_facts:
  "read_loc loc (write_loc loc p s) = p"
  "block (TREENODES_LIST (write_loc loc p s) i) = block (TREENODES_LIST s i)"
  "i \<notin> loc_nodes loc \<Longrightarrow> TREENODES_LIST (write_loc loc p s) i = TREENODES_LIST s i"
  "loc \<noteq> LeftOf i \<Longrightarrow> left (TREENODES_LIST (write_loc loc p s) i) = left (TREENODES_LIST s i)"
  "loc \<noteq> RightOf i \<Longrightarrow> right (TREENODES_LIST (write_loc loc p s) i) = right (TREENODES_LIST s i)"
  "free_root (write_loc loc p s) = free_root s"
  "TREENODE_LIST_HEAD (write_loc loc p s) = TREENODE_LIST_HEAD s"
  "START_BIG_ALLOCATOR_HEAP (write_loc loc p s) = START_BIG_ALLOCATOR_HEAP s"
  "END_BIG_ALLOCATOR_HEAP (write_loc loc p s) = END_BIG_ALLOCATOR_HEAP s"
  "loc \<noteq> OccupiedRoot \<Longrightarrow> occupied_root (write_loc loc p s) = occupied_root s"
  by (cases loc; auto simp: set_left_def set_right_def)+

lemma read_loc_frame:
  "occupied_root s' = occupied_root s \<Longrightarrow> \<forall>i \<in> loc_nodes loc. TREENODES_LIST s' i = TREENODES_LIST s i
     \<Longrightarrow> read_loc loc s' = read_loc loc s"
  by (cases loc) auto

lemma tdelete_root:
  "l = Leaf \<or> r = Leaf \<Longrightarrow>
     tdelete k (k (bl i)) (Node l i r) bl = (if l = Leaf then r else l, Some i, bl)"
  by auto

lemma free_node:
  assumes sw: "swept s (Some i) (Node l i r) ft pool rest"
    and lr: "l = Leaf \<or> r = Leaf" and un: "\<not> isMarked (block (TREENODES_LIST s i))"
    and loc: "loc_nodes loc \<inter> (set_tree (Node l i r) \<union> set_tree ft \<union> set pool) = {}"
    and t': "t' = (if l = Leaf then r else l)"
  shows "\<exists>p h q s' ft' pool'.
      remove_bst (TREENODES_LIST s) (Some i) (key (TREENODES_LIST s) i) = Some (p, Some i, h)
    \<and> insert_treap (write_loc loc p (s\<lparr>TREENODES_LIST := h\<rparr>)) (free_root s) (Some i) = Some (q, s')
    \<and> swept (s'\<lparr>free_root := q\<rparr>) (read_loc loc (s'\<lparr>free_root := q\<rparr>)) t' ft' pool' rest
    \<and> blocks (TREENODES_LIST s') t' = blocks (TREENODES_LIST s) t'
    \<and> blocks (TREENODES_LIST s') ft'
        = ins_region (block (TREENODES_LIST s i)) (blocks (TREENODES_LIST s) ft)
    \<and> (coalesced (blocks (TREENODES_LIST s) ft) \<longrightarrow> coalesced (blocks (TREENODES_LIST s') ft'))
    \<and> set_tree t' \<union> set_tree ft' \<union> set pool'
        = set_tree (Node l i r) \<union> set_tree ft \<union> set pool
    \<and> only_loc loc (set_tree (Node l i r) \<union> set_tree ft \<union> set pool) s (s'\<lparr>free_root := q\<rparr>)"
proof -
  let ?g = "TREENODES_LIST s"
  have S: "tree_at ?g (Some i) (Node l i r)" "tree_at ?g (free_root s) ft"
    "pool_at ?g (TREENODE_LIST_HEAD s) pool" "distinct (inorder (Node l i r) @ inorder ft @ pool)"
    "sorted_by (key ?g) (inorder (Node l i r))" "sorted_by (key ?g) (inorder ft)"
    "maxheap (prio ?g) ft" "\<forall>j \<in> set_tree ft \<union> set pool. \<not> isMarked (block (?g j))"
    "heap_tiled s (blocks ?g ft @ blocks ?g (Node l i r) @ rest)"
    using sw unfolding swept_def by blast+
  have d: "distinct (inorder (Node l i r))" using S(4) unfolding distinct_append by blast
  obtain h where rm: "remove_bst ?g (Some i) (key ?g i) = Some (troot t', Some i, h)"
    and th: "tree_at h (troot t') t'" and oh: "same_outside (set_tree (Node l i r)) ?g h"
    and bh: "\<forall>j. block (h j) = block (?g j)" and lh: "lone h i"
    using remove_bst_refines [OF S(1) d tdelete_root [where k = addr and bl = "\<lambda>j. block (?g j)", OF lr]]
    unfolding t' by auto
  have st: "set_tree (Node l i r) = insert i (set_tree t')" and it: "i \<notin> set_tree t'"
    using lr d by (auto simp: t')
  have t'd: "distinct (inorder t')" and t's: "sorted_by (key ?g) (inorder t')"
    and dj: "set_tree t' \<inter> (set_tree ft \<union> set pool) = {}" "i \<notin> set_tree ft" "i \<notin> set pool"
    using S(4,5) by (auto simp: t')
  let ?s1 = "write_loc loc (troot t') (s\<lparr>TREENODES_LIST := h\<rparr>)"
  let ?h1 = "TREENODES_LIST ?s1"
  have b1: "block (?h1 j) = block (?g j)" for j using bh by (simp add: write_loc_facts)
  have k1: "key ?h1 = key ?g" "prio ?h1 = prio ?g" using b1 by auto
  have loc': "loc_nodes loc \<inter> (insert i (set_tree t') \<union> set_tree ft \<union> set pool) = {}"
    using loc unfolding st .
  have oh': "same_outside (insert i (set_tree t')) ?g h" using oh unfolding st .
  have o1: "?h1 j = h j" if "j \<in> insert i (set_tree t') \<union> set_tree ft \<union> set pool" for j
    using loc' that by (subst write_loc_facts(3)) auto
  have og: "h j = ?g j" if "j \<in> set_tree ft \<union> set pool" for j
    using oh' that dj by (auto simp: same_outside_def)
  have T: "tree_at ?h1 (troot t') t'"
    using th o1 by (subst tree_at_cong [of _ _ h]) auto
  have F: "tree_at ?h1 (free_root s) ft"
    using S(2) o1 og by (subst tree_at_cong [of _ _ ?g]) auto
  have P: "pool_at ?h1 (TREENODE_LIST_HEAD ?s1) pool"
    using S(3) o1 og by (subst pool_at_cong [of _ _ ?g]) (auto simp: write_loc_facts)
  have L: "lone ?h1 i" using lh o1 by (simp add: lone_def)
  have D: "distinct (i # inorder ft @ pool)" using S(4) dj by auto
  have K: "sorted_by (key ?h1) (inorder ft)" "maxheap (prio ?h1) ft" using S(6,7) k1 by simp_all
  have bb: "blocks ?h1 u = blocks ?g u" for u using b1 by (intro blocks_cong) simp
  obtain q s2 ft' fr where ins: "insert_treap ?s1 (free_root s) (Some i) = Some (q, s2)"
    and tf: "tree_at (TREENODES_LIST s2) q ft'"
    and tp: "pool_at (TREENODES_LIST s2) (TREENODE_LIST_HEAD s2) (fr @ pool)"
    and dd: "distinct (inorder ft' @ fr @ pool)" and si: "insert i (set_tree ft) = set_tree ft' \<union> set fr"
    and mh: "maxheap (prio (TREENODES_LIST s2)) ft'"
    and uf: "\<forall>j \<in> set fr. \<not> isMarked (block (TREENODES_LIST s2 j))"
    and o2: "same_outside (insert i (set_tree ft)) ?h1 (TREENODES_LIST s2)"
    and gl: "same_globals ?s1 s2"
    and bf: "blocks (TREENODES_LIST s2) ft' = ins_region (block (?h1 i)) (blocks ?h1 ft)"
    using insert_treap_refines [OF F P D L K] by blast
  let ?s3 = "s2\<lparr>free_root := q\<rparr>"
  let ?h2 = "TREENODES_LIST s2"
  have same2: "?h2 j = ?h1 j" if "j \<notin> insert i (set_tree ft)" for j
    using o2 that by (simp add: same_outside_def)
  have bf': "blocks ?h2 ft' = ins_region (block (?g i)) (blocks ?g ft)"
    using bf by (simp add: bb b1)
  have bt: "blocks ?h2 t' = blocks ?g t'"
    using same2 b1 dj it by (intro blocks_cong) (metis (no_types) disjoint_iff insertE UnI1)
  have rd: "read_loc loc ?s3 = troot t'"
  proof -
    have "read_loc loc ?s3 = read_loc loc ?s1"
    proof (rule read_loc_frame)
      show "occupied_root ?s3 = occupied_root ?s1" using gl by (simp add: same_globals_def)
      have "j \<notin> insert i (set_tree ft)" if "j \<in> loc_nodes loc" for j using that loc' by blast
      then show "\<forall>j \<in> loc_nodes loc. TREENODES_LIST ?s3 j = ?h1 j" using same2 by simp
    qed
    then show ?thesis by (simp add: write_loc_facts)
  qed
  have t2: "tree_at ?h2 (troot t') t'"
    by (rule tree_at_frame [OF T o2]) (use dj it in auto)
  have lim: "same_limits s ?s3"
    using gl by (auto simp: same_globals_def same_limits_def write_loc_facts)
  have srt: "sorted_by (key ?h2) (inorder t')"
  proof -
    have "key ?h2 j = key ?g j" if "j \<in> set_tree t'" for j
    proof -
      have "j \<notin> insert i (set_tree ft)" using that dj it by auto
      then show ?thesis using same2 b1 by simp
    qed
    then show ?thesis using t's sorted_by_cong [of "inorder t'" "key ?h2" "key ?g"] by simp
  qed
  have perm: "mset (blocks ?g ft @ blocks ?g (Node l i r) @ rest)
      = mset (block (?g i) # blocks ?g ft @ blocks ?g t' @ rest)"
    using lr by (auto simp: t')
  have ht: "heap_tiled s (block (?g i) # blocks ?g ft @ blocks ?g t' @ rest)"
    using S(9) heap_tiled_perm [OF perm] by blast
  then have ht2: "heap_tiled ?s3 (blocks ?h2 ft' @ blocks ?h2 t' @ rest)"
    using ins_region_tiled [OF ht] heap_tiled_cong [of ?s3 s] lim by (simp add: bf' bt same_limits_def)
  have nk: "addr (block (?g i)) \<notin> addr ` set (blocks ?g ft)"
    using heap_tiled_regions(2,3) [OF ht] by auto
  have bs: "sorted_by addr (blocks ?g ft)" using S(6) by (simp add: sorted_by_def blocks_def comp_def)
  have "sorted_by addr (blocks ?h2 ft')" using ins_region_sorted [OF bs nk] bf' by simp
  then have srf: "sorted_by (key ?h2) (inorder ft')" by (simp add: sorted_by_def blocks_def comp_def)
  have "\<forall>c \<in> set (blocks ?h2 ft'). \<not> isMarked c"
    using ins_region_unmarked [of "block (?g i)" "blocks ?g ft"] un S(8) by (simp add: bf' set_blocks)
  moreover have "\<forall>j \<in> set pool. \<not> isMarked (block (?h2 j))"
  proof
    fix j assume j: "j \<in> set pool"
    then have "j \<notin> insert i (set_tree ft)" using D by auto
    then show "\<not> isMarked (block (?h2 j))" using same2 b1 S(8) j by simp
  qed
  ultimately have mk: "\<forall>j \<in> set_tree ft' \<union> set (fr @ pool). \<not> isMarked (block (?h2 j))"
    using uf by (auto simp: set_blocks)
  have d2: "distinct (inorder t' @ inorder ft' @ fr @ pool)"
    using t'd dd dj si it by auto
  have "swept ?s3 (read_loc loc ?s3) t' ft' (fr @ pool) rest"
    using t2 tf tp d2 srt srf mh mk ht2 by (simp add: swept_def rd)
  moreover have "only_loc loc (set_tree (Node l i r) \<union> set_tree ft \<union> set pool) s ?s3"
    unfolding st using lim same2 b1 oh' gl
    by (auto simp: only_loc_def same_outside_def write_loc_facts same_globals_def)
  moreover have "set_tree t' \<union> set_tree ft' \<union> set (fr @ pool) = set_tree (Node l i r) \<union> set_tree ft \<union> set pool"
    unfolding st using si by auto
  moreover have "coalesced (blocks ?g ft) \<longrightarrow> coalesced (blocks ?h2 ft')"
    using ins_region_coalesced [OF ht bs] bf' by simp
  ultimately show ?thesis using rm ins bt bf' by blast
qed


section \<open>Sweeping a subtree\<close>

lemma only_loc_block: "only_loc loc X s s' \<Longrightarrow> i \<notin> X \<Longrightarrow>
    block (TREENODES_LIST s' i) = block (TREENODES_LIST s i)"
  by (simp add: only_loc_def)

lemma only_loc_tree:
  assumes "only_loc loc X s s'" and "set_tree u \<inter> (X \<union> loc_nodes loc) = {}"
  shows "tree_at (TREENODES_LIST s') p u = tree_at (TREENODES_LIST s) p u"
    and "blocks (TREENODES_LIST s') u = blocks (TREENODES_LIST s) u"
proof -
  have "j \<notin> X \<and> loc \<noteq> LeftOf j \<and> loc \<noteq> RightOf j" if "j \<in> set_tree u" for j
    using assms(2) that by auto
  then show "tree_at (TREENODES_LIST s') p u = tree_at (TREENODES_LIST s) p u"
    "blocks (TREENODES_LIST s') u = blocks (TREENODES_LIST s) u"
    using assms(1) by (auto simp: only_loc_def intro!: tree_at_cong blocks_cong)
qed

lemma only_loc_read:
  "only_loc loc X s s' \<Longrightarrow> loc' \<noteq> loc \<Longrightarrow> loc_nodes loc' \<inter> X = {} \<Longrightarrow> read_loc loc' s' = read_loc loc' s"
  by (cases loc') (auto simp: only_loc_def)

lemma only_loc_widen:
  "only_loc loc' X s s' \<Longrightarrow> loc' \<noteq> OccupiedRoot \<Longrightarrow> loc_nodes loc' \<union> X \<subseteq> Z \<Longrightarrow> only_loc loc Z s s'"
  by (cases loc') (auto simp: only_loc_def subset_iff)

lemma only_loc_trans: "only_loc loc Z s s' \<Longrightarrow> only_loc loc Z s' s'' \<Longrightarrow> only_loc loc Z s s''"
  unfolding only_loc_def same_limits_def by metis

text \<open>Which regions of a subtree are live, and the dead ones in the order they are freed.\<close>

definition remark :: "Header \<Rightarrow> Header" where
  "remark b = b\<lparr>isMarked := False\<rparr>"

fun dead_post :: "tstore \<Rightarrow> nat tree \<Rightarrow> Header list" where
  "dead_post h Leaf = []"
| "dead_post h (Node l i r) =
     dead_post h l @ dead_post h r @ (if isMarked (block (h i)) then [] else [block (h i)])"

text \<open>No dead node has live nodes on both sides.\<close>

fun sweep_safe :: "tstore \<Rightarrow> nat tree \<Rightarrow> bool" where
  "sweep_safe h Leaf \<longleftrightarrow> True"
| "sweep_safe h (Node l i r) \<longleftrightarrow>
     (isMarked (block (h i)) \<or> filter isMarked (blocks h l) = [] \<or> filter isMarked (blocks h r) = [])
     \<and> sweep_safe h l \<and> sweep_safe h r"

lemma dead_post_cong:
  "(\<And>j. j \<in> set_tree t \<Longrightarrow> block (h' j) = block (h j)) \<Longrightarrow> dead_post h' t = dead_post h t"
  by (induction t) auto

lemma sweep_safe_cong:
  "(\<And>j. j \<in> set_tree t \<Longrightarrow> block (h' j) = block (h j)) \<Longrightarrow> sweep_safe h' t = sweep_safe h t"
proof (induction t)
  case (Node l i r)
  have "blocks h' l = blocks h l" "blocks h' r = blocks h r"
    using Node.prems by (auto intro!: blocks_cong)
  with Node show ?case by simp
qed simp

definition cleaned ::
  "tloc \<Rightarrow> large_state \<Rightarrow> nat tree \<Rightarrow> nat tree \<Rightarrow> nat list \<Rightarrow> Header list
     \<Rightarrow> large_state \<Rightarrow> nat tree \<Rightarrow> nat tree \<Rightarrow> nat list \<Rightarrow> bool" where
  "cleaned loc s t ft pool rest s' t' ft' pool' \<longleftrightarrow>
     swept s' (read_loc loc s') t' ft' pool' rest
     \<and> blocks (TREENODES_LIST s') t' = map remark (filter isMarked (blocks (TREENODES_LIST s) t))
     \<and> blocks (TREENODES_LIST s') ft'
         = fold ins_region (dead_post (TREENODES_LIST s) t) (blocks (TREENODES_LIST s) ft)
     \<and> (coalesced (blocks (TREENODES_LIST s) ft) \<longrightarrow> coalesced (blocks (TREENODES_LIST s') ft'))
     \<and> set_tree t' \<subseteq> set_tree t
     \<and> set_tree t' \<union> set_tree ft' \<union> set pool' = set_tree t \<union> set_tree ft \<union> set pool
     \<and> only_loc loc (set_tree t \<union> set_tree ft \<union> set pool) s s'
     \<and> (right_spine t \<longrightarrow> right_spine t')"

text \<open>The subtree to the left, then the subtree to the right, seen from the parent.\<close>

lemma swept_left:
  assumes "swept s (Some i) (Node l i r) ft pool rest"
  shows "swept s (read_loc (LeftOf i) s) l ft pool (block (TREENODES_LIST s i) # blocks (TREENODES_LIST s) r @ rest)"
proof -
  let ?h = "TREENODES_LIST s"
  have "mset (blocks ?h ft @ blocks ?h l @ block (?h i) # blocks ?h r @ rest)
      = mset (blocks ?h ft @ blocks ?h (Node l i r) @ rest)"
    by simp
  from heap_tiled_perm [OF this, of s] show ?thesis
    using assms unfolding swept_def by auto
qed

lemma swept_right:
  assumes sw: "swept s (Some i) (Node l i r) ft pool rest"
    and cl: "cleaned (LeftOf i) s l ft pool (block (TREENODES_LIST s i) # blocks (TREENODES_LIST s) r @ rest) s1 l' ft1 pool1"
  shows "swept s1 (read_loc (RightOf i) s1) r ft1 pool1
      (block (TREENODES_LIST s i) # blocks (TREENODES_LIST s1) l' @ rest)"
    and "blocks (TREENODES_LIST s1) r = blocks (TREENODES_LIST s) r"
    and "block (TREENODES_LIST s1 i) = block (TREENODES_LIST s i)"
    and "i \<notin> set_tree r \<union> set_tree ft1 \<union> set pool1 \<union> set_tree l'"
    and "set_tree l' \<inter> (set_tree r \<union> set_tree ft1 \<union> set pool1) = {}"
proof -
  let ?h = "TREENODES_LIST s" and ?h1 = "TREENODES_LIST s1"
  let ?X = "set_tree l \<union> set_tree ft \<union> set pool"
  have ol: "only_loc (LeftOf i) ?X s s1" and un: "set_tree l' \<union> set_tree ft1 \<union> set pool1 = ?X"
    and sw1: "swept s1 (read_loc (LeftOf i) s1) l' ft1 pool1 (block (?h i) # blocks ?h r @ rest)"
    using cl by (simp_all add: cleaned_def)
  have S: "tree_at ?h (right (?h i)) r" "distinct (inorder (Node l i r) @ inorder ft @ pool)"
    "sorted_by (key ?h) (inorder r)"
    using sw by (simp_all add: swept_def)
  have dr: "set_tree r \<inter> (?X \<union> loc_nodes (LeftOf i)) = {}" and ix: "i \<notin> ?X" "i \<notin> set_tree r"
    and drr: "distinct (inorder r)"
    using S(2) by auto
  have fp: "distinct (inorder l' @ inorder ft1 @ pool1)"
    and F: "tree_at ?h1 (free_root s1) ft1" "pool_at ?h1 (TREENODE_LIST_HEAD s1) pool1"
      "sorted_by (key ?h1) (inorder ft1)" "maxheap (prio ?h1) ft1"
      "\<forall>j \<in> set_tree ft1 \<union> set pool1. \<not> isMarked (block (?h1 j))"
      "heap_tiled s1 (blocks ?h1 ft1 @ blocks ?h1 l' @ block (?h i) # blocks ?h r @ rest)"
    using sw1 unfolding swept_def by blast+
  show br: "blocks ?h1 r = blocks ?h r" using only_loc_tree(2) [OF ol dr] .
  show "block (?h1 i) = block (?h i)" using only_loc_block [OF ol ix(1)] .
  show "i \<notin> set_tree r \<union> set_tree ft1 \<union> set pool1 \<union> set_tree l'" using un ix by blast
  have "set_tree r \<inter> ?X = {}" using dr by blast
  then have rx: "set_tree r \<inter> (set_tree l' \<union> set_tree ft1 \<union> set pool1) = {}" unfolding un .
  then show "set_tree l' \<inter> (set_tree r \<union> set_tree ft1 \<union> set pool1) = {}" using fp by auto
  have rd: "read_loc (RightOf i) s1 = right (?h i)"
    using only_loc_read [OF ol, of "RightOf i"] ix by auto
  have t1: "tree_at ?h1 (right (?h i)) r" using only_loc_tree(1) [OF ol dr] S(1) by simp
  have "key ?h1 j = key ?h j" if "j \<in> set_tree r" for j
  proof -
    have "j \<notin> ?X" using dr that by blast
    then show ?thesis using only_loc_block [OF ol] by simp
  qed
  then have s1: "sorted_by (key ?h1) (inorder r)"
    using S(3) sorted_by_cong [of "inorder r" "key ?h1" "key ?h"] by simp
  have d1: "distinct (inorder r @ inorder ft1 @ pool1)" using fp rx drr by auto
  have "mset (blocks ?h1 ft1 @ blocks ?h1 r @ block (?h i) # blocks ?h1 l' @ rest)
      = mset (blocks ?h1 ft1 @ blocks ?h1 l' @ block (?h i) # blocks ?h r @ rest)"
    by (simp add: br)
  from heap_tiled_perm [OF this, of s1] F(6)
  have "heap_tiled s1 (blocks ?h1 ft1 @ blocks ?h1 r @ block (?h i) # blocks ?h1 l' @ rest)" by simp
  then show "swept s1 (read_loc (RightOf i) s1) r ft1 pool1
      (block (?h i) # blocks ?h1 l' @ rest)"
    unfolding swept_def rd using t1 s1 d1 F(1-5) by blast
qed


text \<open>Both children swept: the node and its two new subtrees, with only their own dead freed.\<close>

lemma swept_node:
  assumes sw: "swept s (Some i) (Node l i r) ft pool rest"
    and c1: "cleaned (LeftOf i) s l ft pool (block (TREENODES_LIST s i) # blocks (TREENODES_LIST s) r @ rest) s1 l' ft1 pool1"
    and c2: "cleaned (RightOf i) s1 r ft1 pool1 (block (TREENODES_LIST s i) # blocks (TREENODES_LIST s1) l' @ rest) s2 r' ft2 pool2"
  shows "swept s2 (Some i) (Node l' i r') ft2 pool2 rest"
    and "blocks (TREENODES_LIST s2) l' = map remark (filter isMarked (blocks (TREENODES_LIST s) l))"
    and "blocks (TREENODES_LIST s2) r' = map remark (filter isMarked (blocks (TREENODES_LIST s) r))"
    and "block (TREENODES_LIST s2 i) = block (TREENODES_LIST s i)"
    and "blocks (TREENODES_LIST s2) ft2 = fold ins_region
        (dead_post (TREENODES_LIST s) l @ dead_post (TREENODES_LIST s) r) (blocks (TREENODES_LIST s) ft)"
    and "set_tree (Node l' i r') \<union> set_tree ft2 \<union> set pool2 = set_tree (Node l i r) \<union> set_tree ft \<union> set pool"
    and "only_loc loc (set_tree (Node l i r) \<union> set_tree ft \<union> set pool) s s2"
    and "coalesced (blocks (TREENODES_LIST s) ft) \<Longrightarrow> coalesced (blocks (TREENODES_LIST s2) ft2)"
proof -
  let ?h = "TREENODES_LIST s" and ?h1 = "TREENODES_LIST s1" and ?h2 = "TREENODES_LIST s2"
  let ?Y = "set_tree r \<union> set_tree ft1 \<union> set pool1"
  note R = swept_right [OF sw c1]
  have o1: "only_loc (LeftOf i) (set_tree l \<union> set_tree ft \<union> set pool) s s1"
    and u1: "set_tree l' \<union> set_tree ft1 \<union> set pool1 = set_tree l \<union> set_tree ft \<union> set pool"
    and sw1: "swept s1 (read_loc (LeftOf i) s1) l' ft1 pool1 (block (?h i) # blocks ?h r @ rest)"
    and b1: "blocks ?h1 l' = map remark (filter isMarked (blocks ?h l))"
    and f1: "blocks ?h1 ft1 = fold ins_region (dead_post ?h l) (blocks ?h ft)"
    using c1 by (simp_all add: cleaned_def)
  have o2: "only_loc (RightOf i) ?Y s1 s2" and u2: "set_tree r' \<union> set_tree ft2 \<union> set pool2 = ?Y"
    and sw2: "swept s2 (read_loc (RightOf i) s2) r' ft2 pool2 (block (?h i) # blocks ?h1 l' @ rest)"
    and b2: "blocks ?h2 r' = map remark (filter isMarked (blocks ?h1 r))"
    and f2: "blocks ?h2 ft2 = fold ins_region (dead_post ?h1 r) (blocks ?h1 ft1)"
    and rr: "set_tree r' \<subseteq> set_tree r"
    using c2 by (simp_all add: cleaned_def)
  have l'Y: "set_tree l' \<inter> (?Y \<union> loc_nodes (RightOf i)) = {}" using R(4,5) by auto
  have iY: "i \<notin> ?Y" using R(4) by blast
  show "coalesced (blocks ?h ft) \<Longrightarrow> coalesced (blocks ?h2 ft2)"
    using c1 c2 unfolding cleaned_def by blast
  note T = only_loc_tree [OF o2 l'Y]
  show bl: "blocks ?h2 l' = map remark (filter isMarked (blocks ?h l))" using T(2) b1 by simp
  show br: "blocks ?h2 r' = map remark (filter isMarked (blocks ?h r))" using b2 R(2) by simp
  show bi: "block (?h2 i) = block (?h i)" using only_loc_block [OF o2 iY] R(3) by simp
  have "block (?h1 j) = block (?h j)" if "j \<in> set_tree r" for j
  proof -
    have "j \<notin> set_tree l \<union> set_tree ft \<union> set pool" using sw that by (auto simp: swept_def)
    then show ?thesis using only_loc_block [OF o1] by simp
  qed
  then have "dead_post ?h1 r = dead_post ?h r" by (rule dead_post_cong)
  then show "blocks ?h2 ft2 = fold ins_region (dead_post ?h l @ dead_post ?h r) (blocks ?h ft)"
    using f1 f2 by simp
  show "set_tree (Node l' i r') \<union> set_tree ft2 \<union> set pool2 = set_tree (Node l i r) \<union> set_tree ft \<union> set pool"
    using u1 u2 by auto
  have "only_loc loc (set_tree (Node l i r) \<union> set_tree ft \<union> set pool) s s1"
    by (rule only_loc_widen [OF o1]) auto
  moreover have "only_loc loc (set_tree (Node l i r) \<union> set_tree ft \<union> set pool) s1 s2"
    by (rule only_loc_widen [OF o2]) (use u1 in auto)
  ultimately show "only_loc loc (set_tree (Node l i r) \<union> set_tree ft \<union> set pool) s s2"
    by (rule only_loc_trans)
  have rd: "read_loc (LeftOf i) s2 = read_loc (LeftOf i) s1"
    using only_loc_read [OF o2, of "LeftOf i"] iY by simp
  have tl: "tree_at ?h2 (left (?h2 i)) l'" using sw1 T(1) rd by (simp add: swept_def)
  have tr: "tree_at ?h2 (right (?h2 i)) r'" using sw2 by (simp add: swept_def)
  have S2: "distinct (inorder r' @ inorder ft2 @ pool2)" "tree_at ?h2 (free_root s2) ft2"
    "pool_at ?h2 (TREENODE_LIST_HEAD s2) pool2" "sorted_by (key ?h2) (inorder ft2)"
    "maxheap (prio ?h2) ft2" "\<forall>j \<in> set_tree ft2 \<union> set pool2. \<not> isMarked (block (?h2 j))"
    "heap_tiled s2 (blocks ?h2 ft2 @ blocks ?h2 r' @ block (?h i) # blocks ?h1 l' @ rest)"
    using sw2 unfolding swept_def by blast+
  have dl: "distinct (inorder l')" using sw1 by (simp add: swept_def)
  have dY: "set_tree l' \<inter> (set_tree r' \<union> set_tree ft2 \<union> set pool2) = {}"
      "i \<notin> set_tree r' \<union> set_tree ft2 \<union> set pool2 \<union> set_tree l'"
    unfolding u2 using R(4,5) by auto
  have D: "distinct (inorder (Node l' i r') @ inorder ft2 @ pool2)"
    using dl S2(1) dY by auto
  have "sorted_by addr (blocks ?h (Node l i r))"
    using sw by (simp add: swept_def sorted_by_def blocks_def comp_def)
  then have "sorted_by addr (map remark (filter isMarked (blocks ?h l)) @ block (?h i)
      # map remark (filter isMarked (blocks ?h r)))"
    by (auto simp: sorted_by_def comp_def remark_def sorted_wrt_append sorted_wrt_map sorted_wrt_filter)
  then have "sorted_by addr (blocks ?h2 (Node l' i r'))" using bl br bi by simp
  then have K: "sorted_by (key ?h2) (inorder (Node l' i r'))"
    unfolding sorted_by_def blocks_def by (simp add: comp_def)
  have "mset (blocks ?h2 ft2 @ blocks ?h2 (Node l' i r') @ rest)
      = mset (blocks ?h2 ft2 @ blocks ?h2 r' @ block (?h i) # blocks ?h1 l' @ rest)"
    using T(2) bi by simp
  from heap_tiled_perm [OF this, of s2] S2(7)
  have "heap_tiled s2 (blocks ?h2 ft2 @ blocks ?h2 (Node l' i r') @ rest)" by simp
  moreover have "tree_at ?h2 (Some i) (Node l' i r')" using tl tr by simp
  ultimately show "swept s2 (Some i) (Node l' i r') ft2 pool2 rest"
    unfolding swept_def using D K S2(2-6) by blast
qed


lemma keep_node:
  assumes sw: "swept s (Some i) (Node l i r) ft pool rest"
    and rd: "read_loc loc s = Some i"
    and loc: "loc_nodes loc \<inter> (set_tree (Node l i r) \<union> set_tree ft \<union> set pool) = {}"
    and s': "s' = s\<lparr>TREENODES_LIST := set_block i (remark (block (TREENODES_LIST s i))) (TREENODES_LIST s)\<rparr>"
  shows "swept s' (read_loc loc s') (Node l i r) ft pool rest"
    and "blocks (TREENODES_LIST s') (Node l i r) = blocks (TREENODES_LIST s) l
        @ remark (block (TREENODES_LIST s i)) # blocks (TREENODES_LIST s) r"
    and "blocks (TREENODES_LIST s') ft = blocks (TREENODES_LIST s) ft"
    and "only_loc loc (set_tree (Node l i r) \<union> set_tree ft \<union> set pool) s s'"
proof -
  let ?h = "TREENODES_LIST s" and ?b = "remark (block (TREENODES_LIST s i))"
  have S: "tree_at ?h (Some i) (Node l i r)" "tree_at ?h (free_root s) ft"
    "pool_at ?h (TREENODE_LIST_HEAD s) pool" "distinct (inorder (Node l i r) @ inorder ft @ pool)"
    "sorted_by (key ?h) (inorder (Node l i r))" "sorted_by (key ?h) (inorder ft)"
    "maxheap (prio ?h) ft" "\<forall>j \<in> set_tree ft \<union> set pool. \<not> isMarked (block (?h j))"
    "heap_tiled s (blocks ?h ft @ blocks ?h (Node l i r) @ rest)"
    using sw unfolding swept_def by blast+
  have i: "i \<notin> set_tree l" "i \<notin> set_tree r" "i \<notin> set_tree ft" "i \<notin> set pool"
    using S(4) by auto
  have h': "TREENODES_LIST s' = set_block i ?b ?h" "TREENODE_LIST_HEAD s' = TREENODE_LIST_HEAD s"
    "free_root s' = free_root s" "same_limits s s'"
    by (simp_all add: s' same_limits_def)
  have k: "key (set_block i ?b ?h) j = key ?h j" "prio (set_block i ?b ?h) j = prio ?h j" for j
    by (simp_all add: remark_def)
  have bl: "blocks (set_block i ?b ?h) l = blocks ?h l" "blocks (set_block i ?b ?h) r = blocks ?h r"
    "blocks (set_block i ?b ?h) ft = blocks ?h ft"
    using i by (auto intro!: blocks_cong)
  show "blocks (TREENODES_LIST s') (Node l i r) = blocks ?h l @ ?b # blocks ?h r"
    "blocks (TREENODES_LIST s') ft = blocks ?h ft"
    by (simp_all add: h' bl)
  show "only_loc loc (set_tree (Node l i r) \<union> set_tree ft \<union> set pool) s s'"
    by (auto simp: only_loc_def same_limits_def s' set_block_def)
  have rd': "read_loc loc s' = Some i" using rd by (cases loc) (simp_all add: s')
  have "pool_at (set_block i ?b ?h) (TREENODE_LIST_HEAD s) pool"
    using S(3) by (subst pool_at_cong [of _ _ ?h]) simp_all
  moreover have "heap_tiled s (block (?h i) # blocks ?h ft @ blocks ?h l @ blocks ?h r @ rest)"
    using S(9) by (rule heap_tiled_perm [THEN iffD1, rotated]) simp
  then have "heap_tiled s (?b # blocks ?h ft @ blocks ?h l @ blocks ?h r @ rest)"
    unfolding remark_def by (rule heap_tiled_remark)
  then have "heap_tiled s (blocks ?h ft @ (blocks ?h l @ ?b # blocks ?h r) @ rest)"
    by (rule heap_tiled_perm [THEN iffD1, rotated]) simp
  then have "heap_tiled s' (blocks ?h ft @ (blocks ?h l @ ?b # blocks ?h r) @ rest)"
    using heap_tiled_cong [of s' s] h'(4) by (simp add: same_limits_def)
  moreover have "\<forall>j \<in> set_tree ft \<union> set pool. \<not> isMarked (block (set_block i ?b ?h j))"
    using S(8) i by auto
  moreover have "tree_at (set_block i ?b ?h) (Some i) (Node l i r)"
      "tree_at (set_block i ?b ?h) (free_root s) ft"
    using S(1,2) by (simp_all only: tree_at_set_block)
  moreover have "key (set_block i ?b ?h) = key ?h" "prio (set_block i ?b ?h) = prio ?h"
    using k by auto
  ultimately show "swept s' (read_loc loc s') (Node l i r) ft pool rest"
    unfolding swept_def rd' h'(1-3) using S(4-7) by (simp only: bl blocks_simps) (simp add: bl)
qed

text \<open>
  The sweep of a subtree returns. The live nodes stay, unmarked, in order; the dead regions are
  inserted one after the other into the free tree.
\<close>

lemma cleanup_bst_refines:
  "swept s (read_loc loc s) t ft pool rest \<Longrightarrow> sweep_safe (TREENODES_LIST s) t \<Longrightarrow>
   loc_nodes loc \<inter> (set_tree t \<union> set_tree ft \<union> set pool) = {} \<Longrightarrow>
   \<exists>s' t' ft' pool'. cleanup_bst loc s = Some s' \<and> cleaned loc s t ft pool rest s' t' ft' pool'"
proof (induction t arbitrary: loc s ft pool rest)
  case Leaf
  then have "cleanup_bst loc s = Some s"
    by (subst cleanup_bst.simps) (simp add: swept_def)
  with Leaf show ?case
    by (fastforce simp: cleaned_def only_loc_def same_limits_def)
next
  case (Node l i r)
  let ?h = "TREENODES_LIST s" and ?Z = "set_tree (Node l i r) \<union> set_tree ft \<union> set pool"
  have rd: "read_loc loc s = Some i" using Node.prems(1) by (simp add: swept_def)
  note sw = Node.prems(1) [unfolded rd]
  have fresh: "i \<notin> set_tree l" "i \<notin> set_tree ft" "i \<notin> set pool" using sw by (auto simp: swept_def)
  obtain s1 l' ft1 pool1 where r1: "cleanup_bst (LeftOf i) s = Some s1"
    and c1: "cleaned (LeftOf i) s l ft pool (block (?h i) # blocks ?h r @ rest) s1 l' ft1 pool1"
    using Node.IH(1) [OF swept_left [OF sw]] Node.prems(2) fresh by auto
  note R = swept_right [OF sw c1]
  have u1: "set_tree l' \<union> set_tree ft1 \<union> set pool1 = set_tree l \<union> set_tree ft \<union> set pool"
    and o1: "only_loc (LeftOf i) (set_tree l \<union> set_tree ft \<union> set pool) s s1"
    using c1 by (simp_all add: cleaned_def)
  have "block (TREENODES_LIST s1 j) = block (?h j)" if "j \<in> set_tree r" for j
  proof -
    have "j \<notin> set_tree l \<union> set_tree ft \<union> set pool" using sw that by (auto simp: swept_def)
    then show ?thesis using only_loc_block [OF o1] by simp
  qed
  then have "sweep_safe (TREENODES_LIST s1) r"
    using sweep_safe_cong [of r "TREENODES_LIST s1" ?h] Node.prems(2) by simp
  then obtain s2 r' ft2 pool2 where r2: "cleanup_bst (RightOf i) s1 = Some s2"
    and c2: "cleaned (RightOf i) s1 r ft1 pool1 (block (?h i) # blocks (TREENODES_LIST s1) l' @ rest) s2 r' ft2 pool2"
    using Node.IH(2) [OF R(1)] R(4) by auto
  note M = swept_node [OF sw c1 c2]
  have u2: "set_tree r' \<union> set_tree ft2 \<union> set pool2 = set_tree r \<union> set_tree ft1 \<union> set pool1"
    and o2: "only_loc (RightOf i) (set_tree r \<union> set_tree ft1 \<union> set pool1) s1 s2"
    and sub: "set_tree l' \<subseteq> set_tree l" "set_tree r' \<subseteq> set_tree r"
    and rs: "right_spine r \<longrightarrow> right_spine r'"
    using c1 c2 by (simp_all add: cleaned_def)
  have ll: "l = Leaf \<longrightarrow> l' = Leaf" using sub(1) by auto
  have ln: "loc \<noteq> LeftOf i" "loc \<noteq> RightOf i" using Node.prems(3) by auto
  have rd1: "read_loc loc s1 = Some i"
    using only_loc_read [OF o1 ln(1)] Node.prems(3) rd by auto
  have "loc_nodes loc \<inter> (set_tree r \<union> set_tree ft1 \<union> set pool1) = {}"
    using Node.prems(3) u1 by auto
  then have rd2: "read_loc loc s2 = Some i" using only_loc_read [OF o2 ln(2)] rd1 by simp
  have loc2: "loc_nodes loc \<inter> (set_tree (Node l' i r') \<union> set_tree ft2 \<union> set pool2) = {}"
    unfolding M(6) by (rule Node.prems(3))
  have up: "cleanup_bst loc s = (if isMarked (block (TREENODES_LIST s2 i))
      then Some (s2\<lparr>TREENODES_LIST := set_block i (remark (block (TREENODES_LIST s2 i))) (TREENODES_LIST s2)\<rparr>)
      else do {
        (p, removed, h) \<leftarrow> remove_bst (TREENODES_LIST s2) (Some i) (key (TREENODES_LIST s2) i);
        let s = write_loc loc p (s2\<lparr>TREENODES_LIST := h\<rparr>);
        (q, s) \<leftarrow> insert_treap s (free_root s) removed;
        Some (s\<lparr>free_root := q\<rparr>)
      })"
    using rd r1 rd1 r2 rd2 by (subst cleanup_bst.simps) (simp add: Let_def remark_def)
  show ?case
  proof (cases "isMarked (block (?h i))")
    case True
    define s3 where "s3 = s2\<lparr>TREENODES_LIST := set_block i (remark (block (TREENODES_LIST s2 i))) (TREENODES_LIST s2)\<rparr>"
    note K = keep_node [OF M(1) rd2 loc2 s3_def]
    have "cleanup_bst loc s = Some s3" using up True M(4) by (simp add: s3_def)
    moreover have "only_loc loc ?Z s s3"
      using only_loc_trans [OF M(7) [of loc] K(4) [unfolded M(6)]] .
    then have "cleaned loc s (Node l i r) ft pool rest s3 (Node l' i r') ft2 pool2"
      unfolding cleaned_def M(6) using K(1-3) M(2-5,8) True sub rs ll by auto
    ultimately show ?thesis by blast
  next
    case False
    have "filter isMarked (blocks ?h l) = [] \<or> filter isMarked (blocks ?h r) = []"
      using Node.prems(2) False by simp
    then have lr: "l' = Leaf \<or> r' = Leaf"
      using M(2,3) by auto
    let ?t = "if l' = Leaf then r' else l'"
    have un: "\<not> isMarked (block (TREENODES_LIST s2 i))" using False M(4) by simp
    obtain p h q s3 ft3 pool3 where
        rm: "remove_bst (TREENODES_LIST s2) (Some i) (key (TREENODES_LIST s2) i) = Some (p, Some i, h)"
      and ins: "insert_treap (write_loc loc p (s2\<lparr>TREENODES_LIST := h\<rparr>)) (free_root s2) (Some i) = Some (q, s3)"
      and sw3: "swept (s3\<lparr>free_root := q\<rparr>) (read_loc loc (s3\<lparr>free_root := q\<rparr>)) ?t ft3 pool3 rest"
      and b3: "blocks (TREENODES_LIST s3) ?t = blocks (TREENODES_LIST s2) ?t"
      and f3: "blocks (TREENODES_LIST s3) ft3
          = ins_region (block (TREENODES_LIST s2 i)) (blocks (TREENODES_LIST s2) ft2)"
      and co3: "coalesced (blocks (TREENODES_LIST s2) ft2) \<longrightarrow> coalesced (blocks (TREENODES_LIST s3) ft3)"
      and u3: "set_tree ?t \<union> set_tree ft3 \<union> set pool3 = set_tree (Node l' i r') \<union> set_tree ft2 \<union> set pool2"
      and o3: "only_loc loc (set_tree (Node l' i r') \<union> set_tree ft2 \<union> set pool2) s2 (s3\<lparr>free_root := q\<rparr>)"
      using free_node [OF M(1) lr un loc2 refl] by blast
    let ?s = "s3\<lparr>free_root := q\<rparr>"
    have run: "cleanup_bst loc s = Some ?s"
      using up un rm ins by (simp add: Let_def write_loc_facts)
    have bl: "blocks (TREENODES_LIST ?s) ?t = map remark (filter isMarked (blocks ?h (Node l i r)))"
      using b3 M(2,3) lr False by (auto split: if_splits)
    have fr: "blocks (TREENODES_LIST ?s) ft3 = fold ins_region (dead_post ?h (Node l i r)) (blocks ?h ft)"
      using f3 M(4,5) False by simp
    have o: "only_loc loc ?Z s ?s" using only_loc_trans [OF M(7) [of loc] o3 [unfolded M(6)]] .
    have co: "coalesced (blocks ?h ft) \<longrightarrow> coalesced (blocks (TREENODES_LIST ?s) ft3)"
      using M(8) co3 by simp
    have st: "set_tree ?t \<subseteq> set_tree (Node l i r)" using sub by auto
    have "right_spine (Node l i r) \<longrightarrow> right_spine ?t" using rs ll by simp
    then show ?thesis
      unfolding cleaned_def using run sw3 bl fr co st u3 [unfolded M(6)] o by blast
  qed
qed


section \<open>Sweeping the large heap\<close>

lemma large_inv_swept:
  "large_inv s ft ot pool \<longleftrightarrow> swept s (occupied_root s) ot ft pool []"
  by (auto simp: large_inv_def swept_def)

lemma right_spine_safe: "right_spine t \<Longrightarrow> sweep_safe h t"
  by (induction t) auto

lemma sweep_large_heap_refines:
  assumes "large_inv s ft ot pool" and "sweep_safe (TREENODES_LIST s) ot"
  shows "\<exists>s' ft' ot' pool'. sweep_large_heap s = Some s' \<and> large_inv s' ft' ot' pool'
    \<and> blocks (TREENODES_LIST s') ot' = map remark (filter isMarked (blocks (TREENODES_LIST s) ot))
    \<and> blocks (TREENODES_LIST s') ft'
        = fold ins_region (dead_post (TREENODES_LIST s) ot) (blocks (TREENODES_LIST s) ft)
    \<and> (coalesced (blocks (TREENODES_LIST s) ft) \<longrightarrow> coalesced (blocks (TREENODES_LIST s') ft'))
    \<and> same_limits s s' \<and> (right_spine ot \<longrightarrow> right_spine ot')"
proof -
  have sw: "swept s (read_loc OccupiedRoot s) ot ft pool []"
    using assms(1) by (simp add: large_inv_swept)
  obtain s' ot' ft' pool' where r: "cleanup_bst OccupiedRoot s = Some s'"
    and c: "cleaned OccupiedRoot s ot ft pool [] s' ot' ft' pool'"
    using cleanup_bst_refines [OF sw assms(2)] by auto
  have run: "sweep_large_heap s = Some s'"
  proof (cases "occupied_root s")
    case None
    then have "cleanup_bst OccupiedRoot s = Some s" by (subst cleanup_bst.simps) simp
    with None r show ?thesis by (simp add: sweep_large_heap_def)
  qed (use r in \<open>simp add: sweep_large_heap_def\<close>)
  have "large_inv s' ft' ot' pool'"
    using c by (simp add: cleaned_def large_inv_swept)
  with run c show ?thesis by (auto simp: cleaned_def only_loc_def)
qed

text \<open>
  A dead node between two live ones: \<^const>\<open>remove_bst\<close> hands back the node of the live successor,
  with the successor's block, and it is that block that goes into the free tree; the dead block is
  in neither tree afterwards.
\<close>

lemma sweep_large_heap_two_children:
  assumes t: "tree_at (TREENODES_LIST s) (occupied_root s) (Node (Node Leaf j Leaf) i (Node Leaf k Leaf))"
    and d: "distinct [j, i, k]" and fr: "free_root s = None"
    and m: "isMarked (block (TREENODES_LIST s j))" "\<not> isMarked (block (TREENODES_LIST s i))"
      "isMarked (block (TREENODES_LIST s k))"
  shows "\<exists>s'. sweep_large_heap s = Some s'
    \<and> tree_at (TREENODES_LIST s') (free_root s') (Node Leaf k Leaf)
    \<and> tree_at (TREENODES_LIST s') (occupied_root s') (Node (Node Leaf j Leaf) i Leaf)
    \<and> block (TREENODES_LIST s' k) = remark (block (TREENODES_LIST s k))
    \<and> block (TREENODES_LIST s' i) = remark (block (TREENODES_LIST s k))
    \<and> block (TREENODES_LIST s' j) = remark (block (TREENODES_LIST s j))"
proof -
  let ?h = "TREENODES_LIST s"
  have P: "occupied_root s = Some i" "left (?h i) = Some j" "right (?h i) = Some k"
    "left (?h j) = None" "right (?h j) = None" "left (?h k) = None" "right (?h k) = None"
    using t by auto
  have D: "j \<noteq> i" "i \<noteq> k" "j \<noteq> k" using d by auto
  let ?s1 = "s\<lparr>TREENODES_LIST := set_block j (remark (block (?h j))) ?h\<rparr>"
  let ?s2 = "s\<lparr>TREENODES_LIST := set_block k (remark (block (?h k))) (TREENODES_LIST ?s1)\<rparr>"
  have leaf: "cleanup_bst loc u = Some u" if "read_loc loc u = None" for loc u
    using that by (subst cleanup_bst.simps) simp
  have r1: "cleanup_bst (LeftOf i) s = Some ?s1"
    using P m by (subst cleanup_bst.simps) (simp add: leaf Let_def remark_def)
  have r2: "cleanup_bst (RightOf i) ?s1 = Some ?s2"
    using P D m by (subst cleanup_bst.simps) (simp add: leaf Let_def remark_def)
  let ?h2 = "TREENODES_LIST ?s2"
  let ?h3 = "set_block i (remark (block (?h k))) ?h2"
  have ml: "min_node_loop ?h2 i k = Some (i, k)"
    using P by (subst min_node_loop.simps) simp
  have rk: "remove_bst ?h3 (Some k) (key ?h3 k) = Some (None, Some k, unlink k ?h3)"
    using P by (subst remove_bst.simps) simp
  have rm: "remove_bst ?h2 (Some i) (key ?h2 i) = Some (Some i, Some k, set_right i None (unlink k ?h3))"
    using P D ml rk by (subst remove_bst.simps) (simp add: Let_def)
  let ?s' = "s\<lparr>TREENODES_LIST := set_right i None (unlink k ?h3), free_root := Some k, occupied_root := Some i\<rparr>"
  have "cleanup_bst OccupiedRoot s = Some ?s'"
    using P D m r1 r2 rm fr
    by (subst cleanup_bst.simps) (simp add: Let_def insert_treap_empty)
  then have "sweep_large_heap s = Some ?s'" using P by (simp add: sweep_large_heap_def)
  with P D show ?thesis by simp
qed



section \<open>Properties\<close>

text \<open>C8: when no unmarked node of the occupied tree has marked nodes in both its subtrees, the sweep returns and
  the allocator invariant holds again: exactly the marked objects are still occupied, with their
  marks cleared, the free tree has every other region inserted and coalesced, and the free list
  stays coalesced. An occupied tree without left children, as requests build it, keeps that shape, so
  that the next sweep is safe again. The condition is the one whose failure makes the sweep free a live object.\<close>

theorem sweep_large_heap_correct:
  assumes "large_inv s ft ot pool" and "sweep_safe (TREENODES_LIST s) ot"
  shows "\<exists>s' ft' ot' pool'. sweep_large_heap s = Some s' \<and> large_inv s' ft' ot' pool'
    \<and> blocks (TREENODES_LIST s') ot' = map remark (filter isMarked (blocks (TREENODES_LIST s) ot))
    \<and> blocks (TREENODES_LIST s') ft'
        = fold ins_region (dead_post (TREENODES_LIST s) ot) (blocks (TREENODES_LIST s) ft)
    \<and> (coalesced (blocks (TREENODES_LIST s) ft) \<longrightarrow> coalesced (blocks (TREENODES_LIST s') ft'))
    \<and> (right_spine ot \<longrightarrow> right_spine ot')"
  using sweep_large_heap_refines [OF assms] by blast

theorem sweep_large_heap_correct_witness:
  "\<exists>s' ft' ot' pool'. sweep_large_heap ex_frag = Some s' \<and> large_inv s' ft' ot' pool'
    \<and> blocks (TREENODES_LIST s') ot'
        = map remark (filter isMarked (blocks (TREENODES_LIST ex_frag) (Node Leaf 2 Leaf)))
    \<and> blocks (TREENODES_LIST s') ft'
        = fold ins_region (dead_post (TREENODES_LIST ex_frag) (Node Leaf 2 Leaf))
            (blocks (TREENODES_LIST ex_frag) (Node (Node Leaf 1 Leaf) 0 Leaf))
    \<and> (coalesced (blocks (TREENODES_LIST ex_frag) (Node (Node Leaf 1 Leaf) 0 Leaf))
        \<longrightarrow> coalesced (blocks (TREENODES_LIST s') ft'))
    \<and> (right_spine (Node Leaf (2 :: nat) Leaf) \<longrightarrow> right_spine ot')"
  by (rule sweep_large_heap_correct [OF ex_frag_inv]) simp

text \<open>Marking some occupied nodes, as the marker does, keeps the invariant.\<close>

definition mark_nodes :: "nat set \<Rightarrow> large_state \<Rightarrow> large_state" where
  "mark_nodes M s = s\<lparr>TREENODES_LIST := (\<lambda>i. if i \<in> M
     then (TREENODES_LIST s i)\<lparr>block := (block (TREENODES_LIST s i))\<lparr>isMarked := True\<rparr>\<rparr>
     else TREENODES_LIST s i)\<rparr>"

lemma heap_tiled_remarks:
  "heap_tiled s (bs @ rest) \<Longrightarrow> list_all2 (\<lambda>b c. \<exists>x. c = b\<lparr>isMarked := x\<rparr>) bs cs \<Longrightarrow> heap_tiled s (cs @ rest)"
proof (induction bs arbitrary: cs rest)
  case (Cons b bs)
  then obtain x cs' where cs: "cs = b\<lparr>isMarked := x\<rparr> # cs'"
    and l: "list_all2 (\<lambda>b c. \<exists>x. c = b\<lparr>isMarked := x\<rparr>) bs cs'"
    by (auto simp: list_all2_Cons1)
  have "heap_tiled s (b\<lparr>isMarked := x\<rparr> # bs @ rest)" using Cons.prems(1) heap_tiled_remark by simp
  then have "heap_tiled s (bs @ b\<lparr>isMarked := x\<rparr> # rest)"
    by (rule heap_tiled_perm [THEN iffD1, rotated]) simp
  from Cons.IH [OF this l] show ?case
    unfolding cs by (rule heap_tiled_perm [THEN iffD1, rotated]) simp
qed simp

lemma mark_nodes_inv:
  assumes inv: "large_inv s ft ot pool" and M: "M \<subseteq> set_tree ot"
  shows "large_inv (mark_nodes M s) ft ot pool"
    and "blocks (TREENODES_LIST (mark_nodes M s)) ft = blocks (TREENODES_LIST s) ft"
proof -
  let ?h = "TREENODES_LIST s" and ?h' = "TREENODES_LIST (mark_nodes M s)"
  have ptr: "left (?h' i) = left (?h i)" "right (?h' i) = right (?h i)"
    "key ?h' i = key ?h i" "prio ?h' i = prio ?h i" for i
    by (simp_all add: mark_nodes_def)
  have k: "key ?h' = key ?h" "prio ?h' = prio ?h" using ptr by auto
  have I: "tree_at ?h (free_root s) ft" "tree_at ?h (occupied_root s) ot"
    "pool_at ?h (TREENODE_LIST_HEAD s) pool" "distinct (inorder ft @ inorder ot @ pool)"
    "sorted_by (key ?h) (inorder ft)" "sorted_by (key ?h) (inorder ot)" "maxheap (prio ?h) ft"
    "\<forall>i \<in> set_tree ft \<union> set pool. \<not> isMarked (block (?h i))"
    "heap_tiled s (blocks ?h ft @ blocks ?h ot)"
    using inv unfolding large_inv_def by blast+
  have out: "?h' i = ?h i" if "i \<in> set_tree ft \<union> set pool" for i
    using that M I(4) by (auto simp: mark_nodes_def)
  show bf: "blocks ?h' ft = blocks ?h ft" using out by (intro blocks_cong) simp
  have "list_all2 (\<lambda>b c. \<exists>x. c = b\<lparr>isMarked := x\<rparr>) (blocks ?h ot) (blocks ?h' ot)"
    unfolding blocks_def list_all2_map1 list_all2_map2
  proof (rule list_all2_same [THEN iffD2], rule ballI)
    fix i
    have "block (?h' i) = (block (?h i))\<lparr>isMarked := i \<in> M \<or> isMarked (block (?h i))\<rparr>"
      by (simp add: mark_nodes_def)
    then show "\<exists>x. block (?h' i) = (block (?h i))\<lparr>isMarked := x\<rparr>" by blast
  qed
  moreover have "heap_tiled s (blocks ?h ot @ blocks ?h ft)"
    using I(9) by (rule heap_tiled_perm [THEN iffD1, rotated]) simp
  ultimately have "heap_tiled s (blocks ?h' ot @ blocks ?h ft)" by (rule heap_tiled_remarks [rotated])
  then have "heap_tiled s (blocks ?h' ft @ blocks ?h' ot)"
    unfolding bf by (rule heap_tiled_perm [THEN iffD1, rotated]) simp
  then have ht: "heap_tiled (mark_nodes M s) (blocks ?h' ft @ blocks ?h' ot)"
    by (simp add: heap_tiled_def mark_nodes_def)
  have r: "free_root (mark_nodes M s) = free_root s" "occupied_root (mark_nodes M s) = occupied_root s"
    "TREENODE_LIST_HEAD (mark_nodes M s) = TREENODE_LIST_HEAD s"
    by (simp_all add: mark_nodes_def)
  have "tree_at ?h' (free_root s) ft" "tree_at ?h' (occupied_root s) ot"
    using I(1,2) tree_at_cong [of _ ?h' ?h] ptr by simp_all
  moreover have "pool_at ?h' (TREENODE_LIST_HEAD s) pool"
    using I(3) pool_at_cong [of pool ?h' ?h] ptr by simp
  moreover have "\<forall>i \<in> set_tree ft \<union> set pool. \<not> isMarked (block (?h' i))"
    using I(8) out by simp
  ultimately show "large_inv (mark_nodes M s) ft ot pool"
    unfolding large_inv_def r k using I(4-7) ht by blast
qed

lemma tiled_coalesced_single:
  assumes "heap_tiled s bs" and "coalesced bs"
  shows "length bs \<le> 1"
proof (rule ccontr)
  obtain a e :: size_t and ts where t: "tiles (unat a) (unat e) ts" and m: "mset ts = mset bs"
    using assms(1) by (auto simp: heap_tiled_def)
  assume "\<not> length bs \<le> 1"
  then have "2 \<le> length ts" using mset_eq_length [OF m] by simp
  then obtain b c us where ts: "ts = b # c # us" by (cases ts rule: remdups_adj.cases) auto
  have "b \<in> set bs" "c \<in> set bs" "reg_hi b = reg_lo c"
    using mset_eq_setD [OF m] t by (auto simp: ts)
  with assms(2) show False by (auto simp: coalesced_def)
qed

text \<open>C9: the first collection of the large heap. In every state that requests reach from the
  initialisation, whichever objects the marker then marks, the sweep returns, the allocator
  invariant holds, exactly the marked objects are still occupied, and when none is marked the heap
  is one free region again.\<close>

theorem first_collection_correct:
  assumes "large_run H m (s, g)" and "heap_ok H m"
    and "tree_at (TREENODES_LIST s) (occupied_root s) ot" and "M \<subseteq> set_tree ot"
  shows "\<exists>s' ft' ot' pool'. sweep_large_heap (mark_nodes M s) = Some s' \<and> large_inv s' ft' ot' pool'
    \<and> blocks (TREENODES_LIST s') ot'
        = map remark (filter isMarked (blocks (TREENODES_LIST (mark_nodes M s)) ot))
    \<and> coalesced (blocks (TREENODES_LIST s') ft')
    \<and> (ot' = Leaf \<longrightarrow> length (blocks (TREENODES_LIST s') ft') \<le> 1)"
proof -
  obtain ft ot0 pool where R: "run_inv H m s ft ot0 pool" using large_run_inv [OF assms(1,2)] by auto
  then have inv: "large_inv s ft ot0 pool" by (simp add: run_inv_def)
  then have ot0: "ot0 = ot" using tree_at_unique [OF _ assms(3)] by (simp add: large_inv_def)
  have sp: "right_spine ot" using R by (auto simp: run_inv_def spine_below_def ot0)
  note K = mark_nodes_inv [OF inv [unfolded ot0] assms(4)]
  obtain s' ft' ot' pool' where r: "sweep_large_heap (mark_nodes M s) = Some s'"
    and inv': "large_inv s' ft' ot' pool'"
    and bo: "blocks (TREENODES_LIST s') ot'
        = map remark (filter isMarked (blocks (TREENODES_LIST (mark_nodes M s)) ot))"
    and co: "coalesced (blocks (TREENODES_LIST (mark_nodes M s)) ft) \<longrightarrow> coalesced (blocks (TREENODES_LIST s') ft')"
    using sweep_large_heap_refines [OF K(1) right_spine_safe [OF sp]] by blast
  have "coalesced (blocks (TREENODES_LIST s) ft)"
  proof (cases ft)
    case (Node l f r)
    then have f: "ft = Node Leaf f Leaf" using R by (auto simp: run_inv_def)
    have "reg_lo (block (TREENODES_LIST s f)) < reg_hi (block (TREENODES_LIST s f))"
      using heap_tiled_regions(1) [OF large_inv_single(6) [OF inv [unfolded f]]] by auto
    then show ?thesis by (simp add: f coalesced_def)
  qed (simp add: coalesced_def)
  then have co': "coalesced (blocks (TREENODES_LIST s') ft')" using co K(2) by simp
  have "length (blocks (TREENODES_LIST s') ft') \<le> 1" if "ot' = Leaf"
    using inv' co' that tiled_coalesced_single [of s' "blocks (TREENODES_LIST s') ft'"]
    by (simp add: large_inv_def)
  with r inv' bo co' show ?thesis by blast
qed

theorem first_collection_correct_witness:
  "\<exists>s ot. large_run 8064 4096 (s, ex_log) \<and> (\<exists>s' ft' ot' pool'.
      sweep_large_heap (mark_nodes {} s) = Some s' \<and> large_inv s' ft' ot' pool'
    \<and> blocks (TREENODES_LIST s') ot'
        = map remark (filter isMarked (blocks (TREENODES_LIST (mark_nodes {} s)) ot))
    \<and> coalesced (blocks (TREENODES_LIST s') ft')
    \<and> (ot' = Leaf \<longrightarrow> length (blocks (TREENODES_LIST s') ft') \<le> 1))"
proof -
  obtain s where s: "large_run 8064 4096 (s, ex_log)" using ex_run by blast
  obtain ft ot pool where "run_inv 8064 4096 s ft ot pool"
    using large_run_inv [OF s ex_heap_ok] by auto
  then have t: "tree_at (TREENODES_LIST s) (occupied_root s) ot" by (simp add: run_inv_def large_inv_def)
  from first_collection_correct [OF s ex_heap_ok t, of "{}"] s show ?thesis by blast
qed

text \<open>C21: a dead object whose node has two live children and no other nodes around it, in a full heap, is not freed. Its live
  successor's region is put in the free tree instead, though the object stays occupied, and the dead
  region is in neither tree afterwards.\<close>

theorem sweep_frees_live_object:
  assumes "large_inv s Leaf (Node (Node Leaf j Leaf) i (Node Leaf k Leaf)) pool"
    and "isMarked (block (TREENODES_LIST s j))" and "\<not> isMarked (block (TREENODES_LIST s i))"
    and "isMarked (block (TREENODES_LIST s k))"
  shows "\<exists>s'. sweep_large_heap s = Some s'
    \<and> tree_at (TREENODES_LIST s') (free_root s') (Node Leaf k Leaf)
    \<and> tree_at (TREENODES_LIST s') (occupied_root s') (Node (Node Leaf j Leaf) i Leaf)
    \<and> block (TREENODES_LIST s' k) = remark (block (TREENODES_LIST s k))
    \<and> block (TREENODES_LIST s' i) = remark (block (TREENODES_LIST s k))
    \<and> block (TREENODES_LIST s' j) = remark (block (TREENODES_LIST s j))"
  by (rule sweep_large_heap_two_children [OF _ _ _ assms(2-4)])
    (use assms(1) in \<open>auto simp: large_inv_def\<close>)

definition ex_live :: large_state where
  "ex_live = \<lparr>TREENODES_LIST = (\<lambda>_. leaf_node 0 0)
       (0 := (leaf_node 6112 2016)\<lparr>left := Some 1, right := Some 2\<rparr>,
        1 := (leaf_node 4096 2016)\<lparr>block := \<lparr>addr = 4096, bsize = 2016, isMarked = True\<rparr>\<rparr>,
        2 := (leaf_node 8128 4032)\<lparr>block := \<lparr>addr = 8128, bsize = 4032, isMarked = True\<rparr>\<rparr>),
     TREENODE_LIST_HEAD = None, free_root = None, occupied_root = Some 0,
     START_BIG_ALLOCATOR_HEAP = Some 4096, END_BIG_ALLOCATOR_HEAP = Some 12160\<rparr>"

lemma ex_live_inv: "large_inv ex_live Leaf (Node (Node Leaf 1 Leaf) 0 (Node Leaf 2 Leaf)) []"
proof -
  let ?ts = "[\<lparr>addr = 4096, bsize = 2016, isMarked = True\<rparr>, new_object 6112 2016,
    \<lparr>addr = 8128, bsize = 4032, isMarked = True\<rparr>]"
  have "tiles 4096 12160 ?ts" by (simp add: new_object_def reg_hi_def)
  moreover have "\<forall>b \<in> set ?ts. 8 dvd unat (addr b) \<and> 8 dvd unat (bsize b)" by simp
  ultimately have "heap_tiled ex_live ?ts"
    unfolding heap_tiled_def
    by (intro conjI exI [of _ 4096] exI [of _ 12160] exI [of _ ?ts]) (simp_all add: ex_live_def)
  then show ?thesis
    by (simp add: large_inv_def ex_live_def leaf_node_def new_object_def word_less_nat_alt)
qed

theorem sweep_frees_live_object_witness:
  "\<exists>s'. sweep_large_heap ex_live = Some s'
    \<and> tree_at (TREENODES_LIST s') (free_root s') (Node Leaf 2 Leaf)
    \<and> tree_at (TREENODES_LIST s') (occupied_root s') (Node (Node Leaf 1 Leaf) 0 Leaf)
    \<and> block (TREENODES_LIST s' 2) = remark (block (TREENODES_LIST ex_live 2))
    \<and> block (TREENODES_LIST s' 0) = remark (block (TREENODES_LIST ex_live 2))
    \<and> block (TREENODES_LIST s' 1) = remark (block (TREENODES_LIST ex_live 1))"
  by (rule sweep_frees_live_object [OF ex_live_inv]) (simp_all add: ex_live_def leaf_node_def)

end
