(* ===== verification/Object_Marks.thy ===== *)
theory Object_Marks
  imports Object Sweep_Large
begin

text \<open>
  Marks as the marker sees them: marking an object sets its mark and no other, and changes nothing
  that \<^verbatim>\<open>get_object\<close> and \<^verbatim>\<open>get_object_size\<close> read. The laws are the locale \<open>mark_store\<close>.
\<close>

section \<open>Large objects\<close>

lemma large_object_found:
  assumes ok: "gc_heap_ok H hp ot" and n: "n \<in> set_tree ot"
  defines "h \<equiv> TREENODES_LIST (large hp)"
  shows "search_occupied hp (key h n) = Some (Some n)" and "in_large_heap hp (key h n) = Some True"
    and "\<not> in_small_heap hp (key h n)" and "holds_addr a (block (h n)) \<Longrightarrow> in_large_heap hp a = Some True"
    and "holds_addr (key h n) (block (h n))" and "reg_hi (block (h n)) < 2 ^ 64"
proof -
  note g = gc_large_parts [OF ok, folded h_def]
  show "search_occupied hp (key h n) = Some (Some n)"
    using search_bst_refines [OF g(1), of "key h n"] tfind_complete [OF g(2) n]
    by (simp add: search_occupied_def h_def)
  obtain fs where ht: "heap_tiled (large hp) (fs @ blocks h ot)" using g(4) by blast
  have b: "block (h n) \<in> set (fs @ blocks h ot)" using n by (simp add: set_blocks)
  obtain s e where se: "START_BIG_ALLOCATOR_HEAP (large hp) = Some s" "END_BIG_ALLOCATOR_HEAP (large hp) = Some e"
    and il: "\<And>a. in_large_heap hp a = Some (s \<le> a \<and> a < e)"
    and apart: "unat e \<le> unat (START_ALLOCATOR_HEAP (small hp)) \<or> unat (START_ALLOCATOR_HEAP (small hp)) + unat H \<le> unat s"
    using in_large_heap_total [OF ok] by blast
  note r = heap_tiled_bounds [OF ht se b]
  show nw: "reg_hi (block (h n)) < 2 ^ 64" by (rule heap_tiled_no_wrap [OF ht b])
  show hold: "in_large_heap hp a = Some True" if "holds_addr a (block (h n))" for a
    using that r il nw by (auto simp: holds_addr_iff word_le_nat_alt word_less_nat_alt)
  show ha: "holds_addr (key h n) (block (h n))" using r(2) nw by (simp add: holds_addr_iff)
  show "in_large_heap hp (key h n) = Some True" by (rule hold [OF ha])
  note p = gc_heap_parts [OF ok]
  have "unat (START_ALLOCATOR_HEAP (small hp) + H) = unat (START_ALLOCATOR_HEAP (small hp)) + unat H"
    using p(2) by (intro unat_add_no_wrap) (simp add: small_room_def)
  then show "\<not> in_small_heap hp (key h n)"
    using r apart by (auto simp: in_small_heap_def p(3) word_le_nat_alt word_less_nat_alt)
qed

text \<open>The object of an address in the large heap is the occupied region that holds it.\<close>

lemma get_object_large:
  assumes ok: "gc_heap_ok H hp ot" and a: "in_large_heap hp a = Some True"
  defines "h \<equiv> TREENODES_LIST (large hp)"
  shows "get_object hp a = Some (case tfind_region (key h) (\<lambda>i. holds_addr a (block (h i))) a ot of
    None \<Rightarrow> None | Some n \<Rightarrow> Some (key h n))"
  using ext_search_bst_refines [OF gc_large_parts(1) [OF ok], of a] a unfolding h_def by (simp add: get_object_def)

lemma get_object_large_inside:
  assumes ok: "gc_heap_ok H hp ot" and n: "n \<in> set_tree ot"
    and hold: "holds_addr a (block (TREENODES_LIST (large hp) n))"
  shows "get_object hp a = Some (Some (key (TREENODES_LIST (large hp)) n))"
proof -
  let ?h = "TREENODES_LIST (large hp)"
  note g = gc_large_parts [OF ok]
  obtain fs where ht: "heap_tiled (large hp) (fs @ blocks ?h ot)" using g(4) by blast
  have uniq: "m = n" if "m \<in> set_tree ot" "holds_addr a (block (?h m))" for m
  proof -
    have "block (?h m) = block (?h n)"
      using heap_tiled_holds [OF ht _ _ that(2) hold] that(1) n by (simp add: set_blocks)
    then show ?thesis using sorted_by_inj [OF g(2)] that(1) n by simp
  qed
  have an: "reg_lo (block (?h n)) \<le> unat a" "unat a < reg_hi (block (?h n))"
    using hold large_object_found(6) [OF ok n] by (simp_all add: holds_addr_iff)
  have "a < key ?h j" if j: "j \<in> set_tree ot" "key ?h n < key ?h j" for j
  proof -
    have "block (?h n) \<in> set (fs @ blocks ?h ot)" "block (?h j) \<in> set (fs @ blocks ?h ot)"
      "block (?h n) \<noteq> block (?h j)" using n j by (auto simp: set_blocks)
    then have "reg_hi (block (?h n)) \<le> reg_lo (block (?h j)) \<or> reg_hi (block (?h j)) \<le> reg_lo (block (?h n))"
      using heap_tiled_regions(4) [OF ht] by blast
    then show ?thesis using an j(2) by (auto simp: word_less_nat_alt reg_hi_def)
  qed
  moreover have "\<not> a < key ?h j" if "key ?h j < key ?h n" for j
    using that an by (auto simp: word_less_nat_alt)
  ultimately have "tfind_region (key ?h) (\<lambda>i. holds_addr a (block (?h i))) a ot = Some n"
    using uniq hold
    by (intro tfind_region_complete [where c = "\<lambda>i. holds_addr a (block (?h i))", OF g(2) n]) auto
  then show ?thesis using get_object_large [OF ok large_object_found(4) [OF ok n hold]] by simp
qed


section \<open>Heaps that differ in marks only\<close>

definition gc_same :: "size_t \<Rightarrow> gc_heap \<Rightarrow> nat tree \<Rightarrow> gc_heap \<Rightarrow> bool" where
  "gc_same H hp0 ot hp \<longleftrightarrow> small hp = small hp0
     \<and> (\<exists>M. M \<subseteq> set_tree ot \<and> large hp = mark_nodes M (large hp0))
     \<and> (\<forall>a. (\<forall>i < BLOCKS_COUNT H. \<not> a - (blk (START_ALLOCATOR_HEAP (small hp0)) i + 16) < 64) \<longrightarrow> bytes hp a = bytes hp0 a)
     \<and> (\<forall>i < BLOCKS_COUNT H. \<forall>n < 512. slot_marked (bytes hp) (blk (START_ALLOCATOR_HEAP (small hp0)) i) n \<longrightarrow>
          slot_marked (bytes hp0) (blk (START_ALLOCATOR_HEAP (small hp0)) i) n
          \<or> (\<exists>k. sized (bytes hp0) (blk (START_ALLOCATOR_HEAP (small hp0)) i) k \<and> n < slots (al k)))"

lemma mark_nodes_empty [simp]: "mark_nodes {} s = s"
  by (simp add: mark_nodes_def)

lemma mark_nodes_node [simp]:
  "TREENODES_LIST (mark_nodes M s) n = (if n \<in> M
     then (TREENODES_LIST s n)\<lparr>block := (block (TREENODES_LIST s n))\<lparr>isMarked := True\<rparr>\<rparr> else TREENODES_LIST s n)"
  "occupied_root (mark_nodes M s) = occupied_root s"
  "START_BIG_ALLOCATOR_HEAP (mark_nodes M s) = START_BIG_ALLOCATOR_HEAP s"
  "END_BIG_ALLOCATOR_HEAP (mark_nodes M s) = END_BIG_ALLOCATOR_HEAP s"
  by (simp_all add: mark_nodes_def)

lemma mark_nodes_insert:
  "(mark_nodes M s)\<lparr>TREENODES_LIST := set_block n ((block (TREENODES_LIST (mark_nodes M s) n))\<lparr>isMarked := True\<rparr>)
     (TREENODES_LIST (mark_nodes M s))\<rparr> = mark_nodes (insert n M) s"
  by (auto simp: mark_nodes_def set_block_def fun_eq_iff)

lemma gc_same_refl [simp]: "gc_same H hp ot hp"
  unfolding gc_same_def by (auto intro!: exI [of _ "{}"])

lemma not_in_bitmap:
  assumes room: "small_room H B" and i: "i < BLOCKS_COUNT H" and j: "j < 16 \<or> 80 \<le> j \<and> j < 4096" and c: "c < BLOCKS_COUNT H"
  shows "\<not> blk B i + of_nat j - (blk B c + 16) < 64"
proof (cases "c = i")
  case True
  then show ?thesis using offset_small [of 16 j "blk B i"] j by (auto simp: word_less_nat_alt split: if_splits)
next
  case False
  have jb: "j < 4096" using j by auto
  have "\<not> blk B i + of_nat j - blk B c < 80" by (rule blk_apart [OF room c i False jb])
  then have "unat (blk B i + of_nat j - (blk B c + 16)) = unat (blk B i + of_nat j - blk B c) - 16"
    "80 \<le> unat (blk B i + of_nat j - blk B c)"
    using past_header [of "blk B i + of_nat j" "blk B c" 16] by (simp_all add: word_less_nat_alt)
  then have "\<not> unat (blk B i + of_nat j - (blk B c + 16)) < 64" by linarith
  then show ?thesis by (simp add: word_less_nat_alt)
qed

lemma gc_same_header:
  assumes "gc_heap_ok H hp0 ot" and "gc_same H hp0 ot hp" and "i < BLOCKS_COUNT H" and "j < 16 \<or> 80 \<le> j \<and> j < 4096"
  shows "bytes hp (blk (START_ALLOCATOR_HEAP (small hp0)) i + of_nat j)
    = bytes hp0 (blk (START_ALLOCATOR_HEAP (small hp0)) i + of_nat j)"
  using not_in_bitmap [OF gc_heap_parts(2) [OF assms(1)] assms(3,4)] assms(2) by (simp add: gc_same_def)

lemma gc_same_size:
  assumes ok: "gc_heap_ok H hp0 ot" and same: "gc_same H hp0 ot hp" and i: "i < BLOCKS_COUNT H"
  shows "load64 (bytes hp) (blk (START_ALLOCATOR_HEAP (small hp0)) i + 8)
    = load64 (bytes hp0) (blk (START_ALLOCATOR_HEAP (small hp0)) i + 8)"
proof (rule load64_cong)
  let ?b = "blk (START_ALLOCATOR_HEAP (small hp0)) i"
  fix n :: nat assume "n < 8"
  then show "bytes hp (?b + 8 + of_nat n) = bytes hp0 (?b + 8 + of_nat n)"
    using gc_same_header [OF ok same i, of "8 + n"] by (simp add: add.assoc)
qed

lemma gc_same_ok:
  assumes ok: "gc_heap_ok H hp0 ot" and same: "gc_same H hp0 ot hp"
  shows "gc_heap_ok H hp ot"
proof -
  obtain M where M: "M \<subseteq> set_tree ot" "large hp = mark_nodes M (large hp0)" and sm: "small hp = small hp0"
    using same by (auto simp: gc_same_def)
  obtain ft pool where "large_inv (large hp0) ft ot pool" using gc_heap_parts(5) [OF ok] by blast
  then have "large_inv (large hp) ft ot pool" using mark_nodes_inv(1) M by simp
  moreover have "block_ok (bytes hp) (blk (START_ALLOCATOR_HEAP (small hp0)) i)" if "i < BLOCKS_COUNT H" for i
    using gc_heap_parts(4) [OF ok that] gc_same_size [OF ok same that] by (simp add: block_ok_def sized_def)
  ultimately show ?thesis using ok M(2) unfolding gc_heap_ok_def Let_def sm by auto
qed

lemma gc_same_get:
  assumes ok: "gc_heap_ok H hp0 ot" and same: "gc_same H hp0 ot hp"
  shows "get_object hp a = get_object hp0 a" and "in_large_heap hp a = in_large_heap hp0 a"
    and "in_small_heap hp a = in_small_heap hp0 a"
proof -
  obtain M where M: "M \<subseteq> set_tree ot" "large hp = mark_nodes M (large hp0)" and sm: "small hp = small hp0"
    using same by (auto simp: gc_same_def)
  note ok' = gc_same_ok [OF assms]
  show il: "in_large_heap hp a = in_large_heap hp0 a" for a by (simp only: in_large_heap_def M(2) mark_nodes_node)
  show ism: "in_small_heap hp a = in_small_heap hp0 a" for a by (simp add: in_small_heap_def sm)
  consider (l) "in_large_heap hp0 a = Some True" | (s) "in_small_heap hp0 a" "in_large_heap hp0 a = Some False"
    | (n) "\<not> in_small_heap hp0 a" "in_large_heap hp0 a = Some False"
    using in_large_heap_total [OF ok] by (metis (full_types))
  then show "get_object hp a = get_object hp0 a"
  proof cases
    case l
    have k: "key (TREENODES_LIST (large hp)) = key (TREENODES_LIST (large hp0))"
      "(\<lambda>i. holds_addr a (block (TREENODES_LIST (large hp) i))) = (\<lambda>i. holds_addr a (block (TREENODES_LIST (large hp0) i)))"
      by (auto simp: M(2) holds_addr_def fun_eq_iff)
    have l': "in_large_heap hp a = Some True" using l il by simp
    show ?thesis unfolding get_object_large [OF ok l] get_object_large [OF ok' l'] k(2)
      using fun_cong [OF k(1)] k(1) by (simp split: option.split)
  next
    case s
    then obtain i off where io: "i < BLOCKS_COUNT H" "off < 4096" "a = blk (START_ALLOCATOR_HEAP (small hp0)) i + of_nat off"
      using in_small_heap_offset [OF ok] by blast
    have a': "a = blk (START_ALLOCATOR_HEAP (small hp)) i + of_nat off" using io(3) sm by simp
    show ?thesis
      unfolding get_object_small [OF ok io] get_object_small [OF ok' io(1,2) a'] unfolding sm gc_same_size [OF assms io(1)] ..
  next
    case n
    then show ?thesis by (simp add: get_object_def il ism)
  qed
qed



section \<open>Marks\<close>

definition marked :: "gc_heap \<Rightarrow> size_t \<Rightarrow> bool" where
  "marked hp x \<longleftrightarrow> is_marked hp x = Some True"

text \<open>The mark of a slot and of a region.\<close>

lemma slot_address:
  assumes ok: "gc_heap_ok H hp ot" and i: "i < BLOCKS_COUNT H"
    and sz: "sized (bytes hp) (blk (START_ALLOCATOR_HEAP (small hp)) i) k" and j: "j < slots (al k)"
  shows "80 + al k * j < 4096"
    and "slot (blk (START_ALLOCATOR_HEAP (small hp)) i) (al k) j = blk (START_ALLOCATOR_HEAP (small hp)) i + of_nat (80 + al k * j)"
    and "unat (GET_SIZE_WITH_ALIGNMENT (load64 (bytes hp) (blk (START_ALLOCATOR_HEAP (small hp)) i + 8))) = al k"
    and "8 \<le> al k" and "j < 512"
proof -
  have k: "size_ok k" using sz by (simp add: sized_def)
  show n8: "8 \<le> al k" by (rule al_bounds(1) [OF k])
  show "80 + al k * j < 4096" using slot_fits [of "al k" j] n8 j by linarith
  show "j < 512" using j slots_ok(2) [OF k] by simp
qed (use sz in \<open>simp_all add: slot_def sized_def align_size_ok\<close>)

lemma is_marked_small:
  assumes ok: "gc_heap_ok H hp ot" and i: "i < BLOCKS_COUNT H"
    and sz: "sized (bytes hp) (blk (START_ALLOCATOR_HEAP (small hp)) i) k" and j: "j < slots (al k)"
  shows "is_marked hp (slot (blk (START_ALLOCATOR_HEAP (small hp)) i) (al k) j)
    = Some (slot_marked (bytes hp) (blk (START_ALLOCATOR_HEAP (small hp)) i) j)"
proof -
  note sa = slot_address [OF assms] and room = gc_heap_parts(2) [OF ok]
  show ?thesis
    using small_heap_address [OF ok i sa(1,2)] get_bit_slot [OF blk_block [OF room i] sa(3,4) j]
    by (simp add: is_marked_def)
qed

lemma is_marked_large:
  assumes ok: "gc_heap_ok H hp ot" and n: "n \<in> set_tree ot"
  shows "is_marked hp (key (TREENODES_LIST (large hp)) n) = Some (isMarked (block (TREENODES_LIST (large hp) n)))"
  using large_object_found(1,2) [OF ok n] by (simp add: is_marked_def)

lemma sized_unique: "sized m b k \<Longrightarrow> sized m b k' \<Longrightarrow> k = k'"
  by (metis sized_def unat_size_ok)

lemma slot_unique:
  assumes room: "small_room H B" and i: "i < BLOCKS_COUNT H" "i' < BLOCKS_COUNT H"
    and sz: "sized m (blk B i) k" "sized m (blk B i') k'" and j: "j < slots (al k)" "j' < slots (al k')"
    and eq: "slot (blk B i) (al k) j = slot (blk B i') (al k') j'"
  shows "i = i' \<and> j = j'"
proof -
  have k: "size_ok k" "size_ok k'" using sz by (simp_all add: sized_def)
  have u: "unat (slot (blk B i) (al k) j) = unat B + 4096 * i + 80 + al k * j"
    "unat (slot (blk B i') (al k') j') = unat B + 4096 * i' + 80 + al k' * j'"
    using unat_slot [OF blk_end [OF room i(1)] k(1)] unat_slot [OF blk_end [OF room i(2)] k(2)] j
    by (simp_all add: unat_blk [OF room i(1)] unat_blk [OF room i(2)])
  have o: "80 + al k * j < 4096" "80 + al k' * j' < 4096"
    using slot_fits [of "al k" j] slot_fits [of "al k'" j'] al_bounds(1) k j by fastforce+
  have e: "4096 * i + (80 + al k * j) = 4096 * i' + (80 + al k' * j')" using u eq by simp
  then have "(4096 * i + (80 + al k * j)) div 4096 = (4096 * i' + (80 + al k' * j')) div 4096" by simp
  then have ii: "i = i'" using o by simp
  then have "al k = al k'" using sized_unique sz by blast
  then show ?thesis using e ii al_bounds(1) [OF k(1)] by simp
qed

lemma mark_small:
  assumes ok: "gc_heap_ok H hp ot" and i: "i < BLOCKS_COUNT H"
    and sz: "sized (bytes hp) (blk (START_ALLOCATOR_HEAP (small hp)) i) k" and j: "j < slots (al k)"
  shows "\<exists>g'. mark_object (slot (blk (START_ALLOCATOR_HEAP (small hp)) i) (al k) j) hp
    = Some (hp\<lparr>bytes := put_mark (blk (START_ALLOCATOR_HEAP (small hp)) i) j True (bytes hp), logs := g'\<rparr>)"
proof -
  let ?B = "START_ALLOCATOR_HEAP (small hp)"
  let ?hp = "hp\<lparr>bytes := put_mark (blk ?B i) j True (bytes hp)\<rparr>"
  note sa = slot_address [OF assms] and room = gc_heap_parts(2) [OF ok]
  note ad = small_heap_address [OF ok i sa(1,2)]
  have set: "set_bit_by_address ?B (slot (blk ?B i) (al k) j) 1 (bytes hp)
      = Some (put_mark (blk ?B i) j True (bytes hp))"
    using set_bit_slot [OF blk_block [OF room i] sa(3,4) j, of True] by simp
  have "in_small_heap ?hp (slot (blk ?B i) (al k) j)" using ad(1) by (simp add: in_small_heap_def)
  then obtain z where "get_object_size ?hp (slot (blk ?B i) (al k) j) = Some z"
    by (simp add: get_object_size_def Let_def)
  then show ?thesis using ad(1,2) set
    by (intro exI [of _ "log_mark_alive z (logs hp)"]) (simp add: mark_object_def)
qed

lemma mark_large:
  assumes ok: "gc_heap_ok H hp ot" and n: "n \<in> set_tree ot"
  shows "\<exists>g'. mark_object (key (TREENODES_LIST (large hp)) n) hp
    = Some (hp\<lparr>large := mark_nodes {n} (large hp), logs := g'\<rparr>)"
proof -
  have "(large hp)\<lparr>TREENODES_LIST := set_block n ((block (TREENODES_LIST (large hp) n))\<lparr>isMarked := True\<rparr>)
      (TREENODES_LIST (large hp))\<rparr> = mark_nodes {n} (large hp)"
    using mark_nodes_insert [where M = "{}" and s = "large hp" and n = n] by simp
  then show ?thesis using large_object_found(1,2) [OF ok n]
    by (intro exI [of _ "log_mark_alive (prio (TREENODES_LIST (large hp)) n) (logs hp)"]) (simp add: mark_object_def)
qed



section \<open>The laws of marking\<close>

locale mark_store =
  fixes inv :: "'s \<Rightarrow> bool" and obj :: "'o \<Rightarrow> bool"
    and is_mk :: "'s \<Rightarrow> 'o \<Rightarrow> bool option" and set_mk :: "'o \<Rightarrow> 's \<Rightarrow> 's option"
  assumes total: "inv s \<Longrightarrow> obj x \<Longrightarrow> \<exists>b. is_mk s x = Some b"
    and sets: "inv s \<Longrightarrow> obj x \<Longrightarrow> \<exists>s'. set_mk x s = Some s' \<and> inv s'
      \<and> (\<forall>y. obj y \<longrightarrow> is_mk s' y = Some (y = x \<or> is_mk s y = Some True))"
begin

lemma sets_set:
  assumes "inv s" and "obj x"
  shows "\<exists>s'. set_mk x s = Some s' \<and> inv s'
    \<and> {y. obj y \<and> is_mk s' y = Some True} = insert x {y. obj y \<and> is_mk s y = Some True}"
  using sets [OF assms] assms(2) by fastforce

text \<open>Test, then mark: what the marker does with an object it meets.\<close>

lemma test_and_set:
  assumes "inv s" and "obj x"
  shows "is_mk s x = Some True
    \<or> is_mk s x = Some False \<and> (\<exists>s'. set_mk x s = Some s' \<and> inv s'
        \<and> {y. obj y \<and> is_mk s' y = Some True} = insert x {y. obj y \<and> is_mk s y = Some True})"
  using total [OF assms] sets_set [OF assms] by (cases "is_mk s x = Some True") auto

lemma set_all:
  "inv s \<Longrightarrow> \<forall>x \<in> set xs. obj x \<Longrightarrow> \<exists>s'. foldl (\<lambda>so x. Option.bind so (set_mk x)) (Some s) xs = Some s' \<and> inv s'
    \<and> {y. obj y \<and> is_mk s' y = Some True} = set xs \<union> {y. obj y \<and> is_mk s y = Some True}"
proof (induction xs arbitrary: s)
  case (Cons x xs)
  obtain s1 where s1: "set_mk x s = Some s1" "inv s1"
    "{y. obj y \<and> is_mk s1 y = Some True} = insert x {y. obj y \<and> is_mk s y = Some True}"
    using sets_set [of s x] Cons.prems by auto
  then obtain s' where "foldl (\<lambda>so x. Option.bind so (set_mk x)) (Some s1) xs = Some s'" "inv s'"
    "{y. obj y \<and> is_mk s' y = Some True} = set xs \<union> {y. obj y \<and> is_mk s1 y = Some True}"
    using Cons.IH [of s1] Cons.prems(2) by auto
  then show ?case using s1 by auto
qed simp

end

text \<open>The heap has these laws, from any well-formed state \<open>hp0\<close> on.\<close>

lemma gc_same_sized:
  assumes "gc_heap_ok H hp0 ot" and "gc_same H hp0 ot hp" and "i < BLOCKS_COUNT H"
  shows "sized (bytes hp) (blk (START_ALLOCATOR_HEAP (small hp)) i) = sized (bytes hp0) (blk (START_ALLOCATOR_HEAP (small hp0)) i)"
  using gc_same_size [OF assms] assms(2) by (simp add: fun_eq_iff sized_def gc_same_def)

lemma gc_same_large_step:
  assumes "gc_same H hp0 ot hp" and "n \<in> set_tree ot"
  shows "gc_same H hp0 ot (hp\<lparr>large := mark_nodes {n} (large hp), logs := g\<rparr>)"
proof -
  obtain M where M: "M \<subseteq> set_tree ot" "large hp = mark_nodes M (large hp0)" using assms(1) by (auto simp: gc_same_def)
  have e: "mark_nodes {n} (mark_nodes M (large hp0)) = mark_nodes (insert n M) (large hp0)"
    by (auto simp: mark_nodes_def fun_eq_iff)
  have "\<exists>M. M \<subseteq> set_tree ot \<and> mark_nodes {n} (large hp) = mark_nodes M (large hp0)"
    by (rule exI [of _ "insert n M"]) (use M e assms(2) in simp)
  then show ?thesis using assms(1) unfolding gc_same_def by simp
qed

lemma put_mark_other_block:
  assumes room: "small_room H B" and i: "i < BLOCKS_COUNT H" "c < BLOCKS_COUNT H" "c \<noteq> i" and j: "j < 512" "n < 512"
  shows "slot_marked (put_mark (blk B i) j v m) (blk B c) n = slot_marked m (blk B c) n"
proof -
  have "put_mark (blk B i) j v m (blk B c + of_nat a) = m (blk B c + of_nat a)" if "a < 80" for a
    using put_mark_off [OF j(1), of "blk B i" m v] blk_apart [OF room i(1,2) i(3) [symmetric], of a] that
    by (simp add: agree_off_def)
  then show ?thesis using same_block(3) [OF _ j(2)] by blast
qed

lemma gc_same_small_step:
  assumes ok: "gc_heap_ok H hp0 ot" and same: "gc_same H hp0 ot hp" and i: "i < BLOCKS_COUNT H"
    and sz: "sized (bytes hp0) (blk (START_ALLOCATOR_HEAP (small hp0)) i) k" and j: "j < slots (al k)"
  shows "gc_same H hp0 ot (hp\<lparr>bytes := put_mark (blk (START_ALLOCATOR_HEAP (small hp)) i) j True (bytes hp), logs := g\<rparr>)"
proof -
  let ?B = "START_ALLOCATOR_HEAP (small hp0)" and ?m = "put_mark (blk (START_ALLOCATOR_HEAP (small hp0)) i) j True (bytes hp)"
  have j512: "j < 512" using j slots_ok(2) sz by (auto simp: sized_def intro: less_trans)
  have "slot_marked (bytes hp0) (blk ?B c) n \<or> (\<exists>k. sized (bytes hp0) (blk ?B c) k \<and> n < slots (al k))"
    if c: "c < BLOCKS_COUNT H" "n < 512" "slot_marked ?m (blk ?B c) n" for c n
  proof (cases "c = i \<and> n = j")
    case True
    then show ?thesis using sz j by blast
  next
    case False
    have "slot_marked (bytes hp) (blk ?B c) n"
      using False c(3) put_mark_other_block [OF gc_heap_parts(2) [OF ok] i c(1) _ j512 c(2), of True "bytes hp"]
        slot_marked_put [OF j512 c(2), of "blk ?B i" True "bytes hp"] by (cases "c = i") auto
    then show ?thesis using same c(1,2) unfolding gc_same_def by blast
  qed
  then show ?thesis using same i put_mark_other [OF j512] unfolding gc_same_def by (intro conjI; auto)
qed

lemma marks_after_small:
  assumes ok: "gc_heap_ok H hp0 ot" and same: "gc_same H hp0 ot hp" and i: "i < BLOCKS_COUNT H"
    and sz: "sized (bytes hp0) (blk (START_ALLOCATOR_HEAP (small hp0)) i) k" and j: "j < slots (al k)"
    and y: "heap_object H hp0 ot y"
  defines "x \<equiv> slot (blk (START_ALLOCATOR_HEAP (small hp0)) i) (al k) j"
  shows "is_marked (hp\<lparr>bytes := put_mark (blk (START_ALLOCATOR_HEAP (small hp)) i) j True (bytes hp), logs := g\<rparr>) y
    = Some (y = x \<or> is_marked hp y = Some True)"
proof -
  let ?B = "START_ALLOCATOR_HEAP (small hp0)"
  let ?hp = "hp\<lparr>bytes := put_mark (blk ?B i) j True (bytes hp), logs := g\<rparr>"
  have sm: "small hp = small hp0" using same by (simp add: gc_same_def)
  have room: "small_room H ?B" by (rule gc_heap_parts(2) [OF ok])
  have j512: "j < 512" using j slots_ok(2) sz by (auto simp: sized_def intro: less_trans)
  have same': "gc_same H hp0 ot ?hp" using gc_same_small_step [OF ok same i sz j] sm by simp
  note ok1 = gc_same_ok [OF ok same] and ok2 = gc_same_ok [OF ok same']
  have "is_marked ?hp y = Some (y = x \<or> is_marked hp y = Some True)"
    using y unfolding heap_object_def
  proof
    assume "small_object H hp0 y"
    then obtain i' k' j' where o: "i' < BLOCKS_COUNT H" "sized (bytes hp0) (blk ?B i') k'" "j' < slots (al k')"
      "y = slot (blk ?B i') (al k') j'" by (auto simp: small_object_def)
    have m1: "is_marked hp y = Some (slot_marked (bytes hp) (blk ?B i') j')"
      using is_marked_small [OF ok1 o(1)] o gc_same_sized [OF ok same o(1)] sm by simp
    have m2: "is_marked ?hp y = Some (slot_marked (put_mark (blk ?B i) j True (bytes hp)) (blk ?B i') j')"
      using is_marked_small [OF ok2 o(1)] o gc_same_sized [OF ok same' o(1)] sm by simp
    have j': "j' < 512" using o(2,3) slots_ok(2) by (auto simp: sized_def intro: less_trans)
    show ?thesis
    proof (cases "i' = i")
      case True
      then have "y = x \<longleftrightarrow> j' = j" using slot_unique [OF room o(1) i o(2) sz o(3) j] o(4) sized_unique [OF o(2)] sz
        by (auto simp: x_def)
      then show ?thesis using m1 m2 slot_marked_put [OF j512 j', of "blk ?B i" True "bytes hp"] True by auto
    next
      case False
      then have "y \<noteq> x" using slot_unique [OF room o(1) i o(2) sz o(3) j] o(4) by (auto simp: x_def)
      moreover have "slot_marked (put_mark (blk ?B i) j True (bytes hp)) (blk ?B i') j' = slot_marked (bytes hp) (blk ?B i') j'"
        by (rule put_mark_other_block [OF room i o(1) False j512 j'])
      ultimately show ?thesis using m1 m2 by simp
    qed
  next
    assume "large_object hp0 ot y"
    then obtain n where n: "n \<in> set_tree ot" "y = key (TREENODES_LIST (large hp0)) n" by (auto simp: large_object_def)
    have k: "key (TREENODES_LIST (large hp)) n = key (TREENODES_LIST (large hp0)) n"
      using same by (auto simp: gc_same_def)
    have "is_marked ?hp y = is_marked hp y"
      using is_marked_large [OF ok1 n(1)] is_marked_large [OF ok2 n(1)] k n(2) by simp
    moreover have "y \<noteq> x"
    proof
      assume "y = x"
      then have "in_small_heap hp0 (key (TREENODES_LIST (large hp0)) n)"
        using small_heap_address(1) [OF ok i slot_address(1,2) [OF ok i sz j]] n(2) by (simp add: x_def)
      then show False using large_object_found(3) [OF ok n(1)] by simp
    qed
    moreover have "\<exists>b. is_marked hp y = Some b" using is_marked_large [OF ok1 n(1)] k n(2) by simp
    ultimately show ?thesis by auto
  qed
  then show ?thesis using sm by simp
qed


lemma marks_after_large:
  assumes ok: "gc_heap_ok H hp0 ot" and same: "gc_same H hp0 ot hp" and n: "n \<in> set_tree ot"
    and y: "heap_object H hp0 ot y"
  defines "x \<equiv> key (TREENODES_LIST (large hp0)) n"
  shows "is_marked (hp\<lparr>large := mark_nodes {n} (large hp), logs := g\<rparr>) y = Some (y = x \<or> is_marked hp y = Some True)"
proof -
  let ?B = "START_ALLOCATOR_HEAP (small hp0)"
  let ?hp = "hp\<lparr>large := mark_nodes {n} (large hp), logs := g\<rparr>"
  have sm: "small hp = small hp0" using same by (simp add: gc_same_def)
  have same': "gc_same H hp0 ot ?hp" by (rule gc_same_large_step [OF same n])
  note ok1 = gc_same_ok [OF ok same] and ok2 = gc_same_ok [OF ok same']
  have k: "key (TREENODES_LIST (large hp)) m = key (TREENODES_LIST (large hp0)) m" for m
    using same by (auto simp: gc_same_def)
  show ?thesis
    using y unfolding heap_object_def
  proof
    assume "small_object H hp0 y"
    then obtain i k' j where o: "i < BLOCKS_COUNT H" "sized (bytes hp0) (blk ?B i) k'" "j < slots (al k')"
      "y = slot (blk ?B i) (al k') j" by (auto simp: small_object_def)
    have m1: "is_marked hp y = Some (slot_marked (bytes hp) (blk ?B i) j)"
      using is_marked_small [OF ok1 o(1)] o gc_same_sized [OF ok same o(1)] sm by simp
    have m2: "is_marked ?hp y = Some (slot_marked (bytes hp) (blk ?B i) j)"
      using is_marked_small [OF ok2 o(1)] o gc_same_sized [OF ok same' o(1)] sm by simp
    have "y \<noteq> x"
    proof
      assume "y = x"
      then have "in_small_heap hp0 x"
        using small_heap_address(1) [OF ok o(1) slot_address(1,2) [OF ok o(1-3)]] o(4) by simp
      then show False using large_object_found(3) [OF ok n] by (simp add: x_def)
    qed
    then show ?thesis using m1 m2 by simp
  next
    assume "large_object hp0 ot y"
    then obtain m where m: "m \<in> set_tree ot" "y = key (TREENODES_LIST (large hp0)) m" by (auto simp: large_object_def)
    have "y = x \<longleftrightarrow> m = n" using sorted_by_inj [OF gc_large_parts(2) [OF ok]] m n by (auto simp: x_def)
    then show ?thesis
      using is_marked_large [OF ok1 m(1)] is_marked_large [OF ok2 m(1)] k m(2) by auto
  qed
qed

lemma gc_mark_laws:
  assumes ok: "gc_heap_ok H hp0 ot" and same: "gc_same H hp0 ot hp" and x: "heap_object H hp0 ot x"
  shows "\<exists>b. is_marked hp x = Some b"
    and "\<exists>hp'. mark_object x hp = Some hp' \<and> gc_same H hp0 ot hp'
      \<and> (\<forall>y. heap_object H hp0 ot y \<longrightarrow> is_marked hp' y = Some (y = x \<or> is_marked hp y = Some True))"
proof -
  let ?B = "START_ALLOCATOR_HEAP (small hp0)"
  have sm: "small hp = small hp0" using same by (simp add: gc_same_def)
  have k: "key (TREENODES_LIST (large hp)) m = key (TREENODES_LIST (large hp0)) m" for m
    using same by (auto simp: gc_same_def)
  note ok1 = gc_same_ok [OF ok same]
  consider (small) i k' j where "i < BLOCKS_COUNT H" "sized (bytes hp0) (blk ?B i) k'" "j < slots (al k')"
      "x = slot (blk ?B i) (al k') j"
    | (large) n where "n \<in> set_tree ot" "x = key (TREENODES_LIST (large hp0)) n"
    using x by (auto simp: heap_object_def small_object_def large_object_def)
  then have "(\<exists>b. is_marked hp x = Some b) \<and> (\<exists>hp'. mark_object x hp = Some hp' \<and> gc_same H hp0 ot hp'
      \<and> (\<forall>y. heap_object H hp0 ot y \<longrightarrow> is_marked hp' y = Some (y = x \<or> is_marked hp y = Some True)))"
  proof cases
    case small
    have sz: "sized (bytes hp) (blk (START_ALLOCATOR_HEAP (small hp)) i) k'"
      using small(2) gc_same_sized [OF ok same small(1)] by simp
    have j512: "j < 512" using small(2,3) slots_ok(2) by (auto simp: sized_def intro: less_trans)
    obtain g where m: "mark_object x hp = Some (hp\<lparr>bytes := put_mark (blk (START_ALLOCATOR_HEAP (small hp)) i) j True (bytes hp), logs := g\<rparr>)"
      using mark_small [OF ok1 small(1) sz small(3)] small(4) sm by auto
    show ?thesis
      using is_marked_small [OF ok1 small(1) sz small(3)] small(4) sm m
        gc_same_small_step [OF ok same small(1-3), of g] marks_after_small [OF ok same small(1-3)]
      by (intro conjI exI [of _ "hp\<lparr>bytes := put_mark (blk (START_ALLOCATOR_HEAP (small hp)) i) j True (bytes hp), logs := g\<rparr>"]) simp_all
  next
    case large
    obtain g where m: "mark_object x hp = Some (hp\<lparr>large := mark_nodes {n} (large hp), logs := g\<rparr>)"
      using mark_large [OF ok1 large(1)] large(2) k by auto
    show ?thesis
      using is_marked_large [OF ok1 large(1)] large(2) k m
        gc_same_large_step [OF same large(1), of g] marks_after_large [OF ok same large(1)]
      by (intro conjI exI [of _ "hp\<lparr>large := mark_nodes {n} (large hp), logs := g\<rparr>"]) simp_all
  qed
  then show "\<exists>b. is_marked hp x = Some b"
    "\<exists>hp'. mark_object x hp = Some hp' \<and> gc_same H hp0 ot hp'
      \<and> (\<forall>y. heap_object H hp0 ot y \<longrightarrow> is_marked hp' y = Some (y = x \<or> is_marked hp y = Some True))" by blast+
qed

interpretation gm: mark_store "\<lambda>hp. gc_heap_ok H hp0 ot \<and> gc_same H hp0 ot hp" "heap_object H hp0 ot" is_marked mark_object
  for H hp0 ot
  by unfold_locales (use gc_mark_laws in blast)+

end
