(* ===== verification/Object_Graph.thy ===== *)
theory Object_Graph
  imports Prelude
begin

text \<open>
  What tracing computes, on an abstract graph: from marks \<open>M0\<close> that are there at the start and roots
  \<open>R\<close>, the objects reached by paths that avoid \<open>M0\<close>. \<open>visit\<close> is the effect of meeting a list of
  objects on the marks and the stack; \<open>grey\<close> is the invariant of the marker: every object it has
  marked is reached, and those not on the stack have all their children marked.
\<close>

fun visit :: "'o list \<Rightarrow> 'o set \<times> 'o list \<Rightarrow> 'o set \<times> 'o list" where
  "visit [] (M, W) = (M, W)"
| "visit (x # xs) (M, W) = (if x \<in> M then visit xs (M, W) else visit xs (insert x M, x # W))"

inductive reach :: "('o \<Rightarrow> 'o list) \<Rightarrow> 'o set \<Rightarrow> 'o set \<Rightarrow> 'o \<Rightarrow> bool" for kids M0 R where
  root: "x \<in> R \<Longrightarrow> x \<notin> M0 \<Longrightarrow> reach kids M0 R x"
| step: "reach kids M0 R x \<Longrightarrow> y \<in> set (kids x) \<Longrightarrow> y \<notin> M0 \<Longrightarrow> reach kids M0 R y"

inductive_cases reach_cases: "reach kids M0 R x"

definition grey :: "('o \<Rightarrow> 'o list) \<Rightarrow> 'o set \<Rightarrow> 'o set \<Rightarrow> 'o set \<Rightarrow> 'o list \<Rightarrow> bool" where
  "grey kids M0 R M W \<longleftrightarrow> set W \<subseteq> M \<and> M0 \<subseteq> M \<and> set W \<inter> M0 = {}
     \<and> (\<forall>x \<in> M - M0. reach kids M0 R x) \<and> (\<forall>x \<in> M - M0. x \<notin> set W \<longrightarrow> set (kids x) \<subseteq> M)"

lemma visit_result:
  assumes "visit xs (M, W) = (M', W')"
  shows "M' = M \<union> set xs" and "set W' = set W \<union> (set xs - M)" and "length W' = length W + card (M' - M)"
proof -
  have "M' = M \<union> set xs \<and> set W' = set W \<union> (set xs - M) \<and> length W' = length W + card (M' - M)"
    using assms
  proof (induction xs arbitrary: M W)
    case (Cons x xs)
    show ?case
    proof (cases "x \<in> M")
      case True
      then show ?thesis using Cons.IH [of M W] Cons.prems by auto
    next
      case False
      then have ih: "M' = insert x M \<union> set xs" "set W' = insert x (set W) \<union> (set xs - insert x M)"
        "length W' = Suc (length W) + card (M' - insert x M)" using Cons.IH [of "insert x M" "x # W"] Cons.prems by simp_all
      have e: "M' - M = insert x (M' - insert x M)" unfolding ih(1) using False by blast
      have f: "finite (M' - insert x M)" unfolding ih(1) by (rule finite_subset [of _ "set xs"]) auto
      have "card (insert x (M' - insert x M)) = Suc (card (M' - insert x M))"
        by (rule card_insert_disjoint [OF f]) blast
      then have "length W' = length W + card (M' - M)" unfolding e ih(3) by (simp only:)
      moreover have "M' = M \<union> set (x # xs)" unfolding ih(1) by simp
      moreover have "set W' = set W \<union> (set (x # xs) - M)" unfolding ih(2) using False by auto
      ultimately show ?thesis by blast
    qed
  qed simp
  then show "M' = M \<union> set xs" "set W' = set W \<union> (set xs - M)" "length W' = length W + card (M' - M)" by blast+
qed

lemma reach_not_M0: "reach kids M0 R x \<Longrightarrow> x \<notin> M0"
  by (induction rule: reach.induct) auto

lemma reach_covered: "reach kids M0 R x \<Longrightarrow> \<not> R \<subseteq> M0"
  by (induction rule: reach.induct) auto

lemma reach_mono: "reach kids M0 R x \<Longrightarrow> R \<subseteq> R' \<Longrightarrow> reach kids M0 R' x"
  by (induction rule: reach.induct) (auto intro: reach.intros)

lemma grey_start: "grey kids M0 {} M0 []"
  by (simp add: grey_def)

lemma grey_mono: "grey kids M0 R M W \<Longrightarrow> R \<subseteq> R' \<Longrightarrow> grey kids M0 R' M W"
  by (auto simp: grey_def intro: reach_mono)

lemma grey_roots:
  assumes g: "grey kids M0 R M W" and v: "visit xs (M, W) = (M', W')" and sub: "set xs \<subseteq> R"
  shows "grey kids M0 R M' W'"
proof -
  note r = visit_result [OF v]
  have "reach kids M0 R x" if "x \<in> M' - M0" for x
    using g that sub r(1) by (cases "x \<in> M") (auto simp: grey_def intro: reach.root)
  then show ?thesis using g r(1,2) unfolding grey_def by blast
qed

lemma grey_pop:
  assumes g: "grey kids M0 R M (x # W)" and v: "visit (kids x) (M, W) = (M', W')"
  shows "grey kids M0 R M' W'"
proof -
  note r = visit_result [OF v]
  have x: "x \<in> M - M0" using g by (auto simp: grey_def)
  then have rx: "reach kids M0 R x" using g by (simp add: grey_def)
  have "reach kids M0 R y" if "y \<in> M' - M0" for y
    using g that r(1) reach.step [OF rx] by (cases "y \<in> M") (auto simp: grey_def)
  moreover have "set (kids y) \<subseteq> M'" if "y \<in> M' - M0" "y \<notin> set W'" for y
  proof (cases "y = x")
    case True
    then show ?thesis using r(1) by simp
  next
    case False
    then have "y \<in> M" "y \<notin> set (x # W)" using that r by auto
    then show ?thesis using g that(1) r(1) by (auto simp: grey_def)
  qed
  ultimately show ?thesis using g r(1,2) unfolding grey_def by auto
qed

text \<open>When the stack is empty and the roots are marked, the marks are exactly what is reached.\<close>

lemma grey_done:
  assumes "grey kids M0 R M []" and "R \<subseteq> M"
  shows "M = M0 \<union> {x. reach kids M0 R x}"
proof -
  have "x \<in> M" if "reach kids M0 R x" for x
    using that
  proof (induction rule: reach.induct)
    case (root x)
    then show ?case using assms(2) by auto
  next
    case (step x y)
    then show ?case using assms(1) reach_not_M0 [OF step(1)] by (auto simp: grey_def)
  qed
  then show ?thesis using assms(1) by (auto simp: grey_def)
qed

text \<open>One turn of the marker makes progress.\<close>

definition work :: "'o set \<Rightarrow> 'o list \<Rightarrow> nat" where
  "work M W = 2 * card (UNIV - M) + length W"

lemma work_pop:
  fixes M :: "'o::finite set"
  assumes "visit xs (M, W) = (M', W')"
  shows "work M' W' < work M (x # W)"
proof -
  note r = visit_result [OF assms]
  have "UNIV - M = (UNIV - M') \<union> (M' - M)" "(UNIV - M') \<inter> (M' - M) = {}" using r(1) by auto
  then have "card (UNIV - M) = card (UNIV - M') + card (M' - M)"
    by (metis card_Un_disjoint finite)
  then show ?thesis using r(3) by (simp add: work_def)
qed

lemma visit_append: "visit (xs @ ys) p = visit ys (visit xs p)"
  by (induction xs p rule: visit.induct) auto

end
