(* ===== verification/Mark_Stack.thy ===== *)
theory Mark_Stack
  imports Prelude
begin

text \<open>
  \<^verbatim>\<open>marker/stack.c\<close>: the growing stack of addresses. The array is a map from indices; the cells that
  \<^verbatim>\<open>malloc\<close> and \<^verbatim>\<open>realloc\<close> leave uninitialised hold whatever the map has. \<open>R n\<close> says whether
  \<^verbatim>\<open>realloc\<close> to \<open>n\<close> bytes succeeds; \<open>None\<close> is \<^verbatim>\<open>exit\<close>. \<^verbatim>\<open>top\<close> and \<^verbatim>\<open>capacity\<close> are \<^verbatim>\<open>int\<close>s that would
  overflow beyond \<open>2 ^ 30\<close> entries, 8 GiB of stack; they are integers here.
\<close>

record mark_stack =
  data :: "int \<Rightarrow> size_t"
  top :: int
  capacity :: int

definition STACK_INIT_CAPACITY :: int where
  "STACK_INIT_CAPACITY = 16"

definition create_stack :: "(int \<Rightarrow> size_t) \<Rightarrow> mark_stack" where
  "create_stack fresh = \<lparr>data = fresh, top = -1, capacity = STACK_INIT_CAPACITY\<rparr>"

definition is_empty :: "mark_stack \<Rightarrow> bool" where
  "is_empty st \<longleftrightarrow> top st = -1"

definition resize :: "(int \<Rightarrow> bool) \<Rightarrow> mark_stack \<Rightarrow> mark_stack option" where
  "resize R st =
     (let st = st\<lparr>capacity := capacity st * 2\<rparr> in
      if R (capacity st * 8) then Some st else None)"

definition push :: "(int \<Rightarrow> bool) \<Rightarrow> size_t \<Rightarrow> mark_stack \<Rightarrow> mark_stack option" where
  "push R v st = do {
     st \<leftarrow> (if top st = capacity st - 1 then resize R st else Some st);
     let st = st\<lparr>top := top st + 1\<rparr>;
     Some (st\<lparr>data := (data st)(top st := v)\<rparr>)
   }"

definition pop :: "mark_stack \<Rightarrow> (size_t \<times> mark_stack) option" where
  "pop st = (if is_empty st then None else Some (data st (top st), st\<lparr>top := top st - 1\<rparr>))"


section \<open>Last in, first out\<close>

text \<open>
  What the marker relies on: the stack holds a list, \<open>push\<close> puts an element in front and \<open>pop\<close> takes
  it from there.
\<close>

locale lifo =
  fixes holds :: "'s \<Rightarrow> 'a list \<Rightarrow> bool" and ins :: "'a \<Rightarrow> 's \<Rightarrow> 's option"
    and del :: "'s \<Rightarrow> ('a \<times> 's) option" and empty :: "'s \<Rightarrow> bool"
  assumes ins_law: "holds s xs \<Longrightarrow> \<exists>s'. ins x s = Some s' \<and> holds s' (x # xs)"
    and del_law: "holds s (x # xs) \<Longrightarrow> \<exists>s'. del s = Some (x, s') \<and> holds s' xs"
    and empty_law: "holds s xs \<Longrightarrow> empty s \<longleftrightarrow> xs = []"
begin

text \<open>A sequence of insertions comes back in reverse order.\<close>

lemma ins_all:
  "holds s xs \<Longrightarrow> \<exists>s'. foldl (\<lambda>so x. Option.bind so (ins x)) (Some s) vs = Some s' \<and> holds s' (rev vs @ xs)"
proof (induction vs arbitrary: s xs)
  case (Cons v vs)
  obtain s1 where "ins v s = Some s1" "holds s1 (v # xs)" using ins_law [OF Cons.prems] by blast
  then show ?case using Cons.IH [of s1 "v # xs"] by simp
qed simp

lemma ins_del:
  assumes "holds s xs"
  shows "\<exists>s' s''. ins x s = Some s' \<and> \<not> empty s' \<and> del s' = Some (x, s'') \<and> holds s'' xs"
  using ins_law [OF assms, of x] del_law empty_law by (metis list.distinct(1))

end

definition stack_at :: "mark_stack \<Rightarrow> size_t list \<Rightarrow> bool" where
  "stack_at st xs \<longleftrightarrow> top st = int (length xs) - 1 \<and> int (length xs) \<le> capacity st \<and> 0 < capacity st
     \<and> (\<forall>i < length xs. data st (int i) = rev xs ! i)"

lemma stack_at_push:
  assumes "stack_at st xs" and R: "\<And>n. R n"
  shows "\<exists>st'. push R v st = Some st' \<and> stack_at st' (v # xs)"
proof -
  let ?c = "if top st = capacity st - 1 then capacity st * 2 else capacity st"
  let ?st = "st\<lparr>capacity := ?c, top := top st + 1, data := (data st)(top st + 1 := v)\<rparr>"
  have "push R v st = Some ?st" using R by (simp add: push_def resize_def Let_def)
  moreover have "stack_at ?st (v # xs)" using assms(1) by (auto simp: stack_at_def nth_append less_Suc_eq)
  ultimately show ?thesis by blast
qed

lemma stack_at_pop:
  assumes "stack_at st (x # xs)"
  shows "\<exists>st'. pop st = Some (x, st') \<and> stack_at st' xs"
proof -
  have "data st (int (length xs)) = x" using assms by (simp add: stack_at_def nth_append)
  then have "pop st = Some (x, st\<lparr>top := top st - 1\<rparr>)" using assms by (simp add: pop_def is_empty_def stack_at_def)
  moreover have "stack_at (st\<lparr>top := top st - 1\<rparr>) xs"
    using assms unfolding stack_at_def by (auto simp: nth_append)
  ultimately show ?thesis by blast
qed

lemma stack_at_empty: "stack_at st xs \<Longrightarrow> is_empty st \<longleftrightarrow> xs = []"
  by (auto simp: stack_at_def is_empty_def)

interpretation ms: lifo stack_at "push (\<lambda>_. True)" pop is_empty
  by unfold_locales (simp_all add: stack_at_push stack_at_pop stack_at_empty)

text \<open>Whatever is pushed, in any number and through any number of resizes, is popped in reverse
  order; and the stack is empty exactly when everything is popped.\<close>

theorem stack_lifo:
  assumes "stack_at st xs"
  shows "\<exists>st'. foldl (\<lambda>so x. Option.bind so (push (\<lambda>_. True) x)) (Some st) vs = Some st'
    \<and> stack_at st' (rev vs @ xs) \<and> (is_empty st' \<longleftrightarrow> vs = [] \<and> xs = [])
    \<and> (\<forall>v ws. rev vs @ xs = v # ws \<longrightarrow> (\<exists>st''. pop st' = Some (v, st'') \<and> stack_at st'' ws))"
proof -
  obtain st' where "foldl (\<lambda>so x. Option.bind so (push (\<lambda>_. True) x)) (Some st) vs = Some st'"
    and h: "stack_at st' (rev vs @ xs)" using ms.ins_all [OF assms, of vs] by blast
  moreover have "is_empty st' \<longleftrightarrow> vs = [] \<and> xs = []" using ms.empty_law [OF h] by auto
  moreover have "\<exists>st''. pop st' = Some (v, st'') \<and> stack_at st'' ws" if "rev vs @ xs = v # ws" for v ws
    using ms.del_law [of st' v ws] h that by simp
  ultimately show ?thesis by blast
qed

lemma create_stack_empty: "stack_at (create_stack fresh) []"
  by (simp add: stack_at_def create_stack_def STACK_INIT_CAPACITY_def)

theorem stack_lifo_witness:
  "\<exists>st' st''. foldl (\<lambda>so x. Option.bind so (push (\<lambda>_. True) x)) (Some (create_stack (\<lambda>_. 0))) [1, 2, 3] = Some st'
    \<and> pop st' = Some (3, st'') \<and> stack_at st'' [2, 1]"
  using stack_lifo [OF create_stack_empty, of "\<lambda>_. 0" "[1, 2, 3]"] by auto

text \<open>Popping an empty stack ends the process, and so does a push for which the memory cannot grow.\<close>

lemma stack_exits:
  "stack_at st [] \<Longrightarrow> pop st = None"
  "top st = capacity st - 1 \<Longrightarrow> \<not> R (capacity st * 2 * 8) \<Longrightarrow> push R v st = None"
  by (simp_all add: pop_def is_empty_def stack_at_def push_def resize_def Let_def)

end
