(* ===== verification/Threads_Storage.thy ===== *)
theory Threads_Storage
  imports Chains
begin

text \<open>
  \<^verbatim>\<open>mt-safety/threads-storage.c\<close>: the doubly linked list of the registered threads. A cell is a number
  in a store; \<open>fresh\<close> is the answer of \<^verbatim>\<open>calloc\<close>, \<open>None\<close> where it fails (the code then exits). The
  mutex is taken and released inside each operation.
\<close>

record StorageCell =
  thread :: size_t
  next_cell :: "nat option"
  prev_cell :: "nat option"

record storage =
  cells :: "nat \<Rightarrow> StorageCell"
  created_threads_list :: "nat option"
  thread_count :: "32 word"
  current_node_of_traversing :: "nat option"

definition set_thread :: "nat \<Rightarrow> size_t \<Rightarrow> storage \<Rightarrow> storage" where
  "set_thread c x s = s\<lparr>cells := (cells s)(c := (cells s c)\<lparr>thread := x\<rparr>)\<rparr>"

definition set_next_cell :: "nat \<Rightarrow> nat option \<Rightarrow> storage \<Rightarrow> storage" where
  "set_next_cell c x s = s\<lparr>cells := (cells s)(c := (cells s c)\<lparr>next_cell := x\<rparr>)\<rparr>"

definition set_prev_cell :: "nat \<Rightarrow> nat option \<Rightarrow> storage \<Rightarrow> storage" where
  "set_prev_cell c x s = s\<lparr>cells := (cells s)(c := (cells s c)\<lparr>prev_cell := x\<rparr>)\<rparr>"

definition create_cell_for_thread :: "nat option \<Rightarrow> storage \<Rightarrow> (nat \<times> storage) option" where
  "create_cell_for_thread fresh s =
     (case fresh of
        None \<Rightarrow> None
      | Some new_node \<Rightarrow>
          (let s = s\<lparr>cells := (cells s)(new_node := \<lparr>thread = 0, next_cell = None, prev_cell = None\<rparr>),
                     thread_count := thread_count s + 1\<rparr>;
               s = (case created_threads_list s of
                      None \<Rightarrow> s
                    | Some l \<Rightarrow> set_prev_cell l (Some new_node) s);
               s = set_next_cell new_node (created_threads_list s) s
           in Some (new_node, s\<lparr>created_threads_list := Some new_node\<rparr>)))"

definition destroy_cell :: "nat \<Rightarrow> storage \<Rightarrow> storage" where
  "destroy_cell c s =
     (let s = s\<lparr>thread_count := thread_count s - 1\<rparr>;
          s = (case prev_cell (cells s c) of
                 None \<Rightarrow> s
               | Some p \<Rightarrow> set_next_cell p (next_cell (cells s c)) s);
          s = (case next_cell (cells s c) of
                 None \<Rightarrow> s
               | Some n \<Rightarrow> set_prev_cell n (prev_cell (cells s c)) s)
      in if created_threads_list s = Some c then s\<lparr>created_threads_list := next_cell (cells s c)\<rparr> else s)"

definition get_threads_storage_size :: "storage \<Rightarrow> 32 word" where
  "get_threads_storage_size s = thread_count s"

definition start_threads_storage_traverse :: "storage \<Rightarrow> storage" where
  "start_threads_storage_traverse s = s\<lparr>current_node_of_traversing := created_threads_list s\<rparr>"

definition get_next_thread :: "storage \<Rightarrow> size_t \<times> storage" where
  "get_next_thread s =
     (case current_node_of_traversing s of
        None \<Rightarrow> (0, s)
      | Some c \<Rightarrow> (thread (cells s c), s\<lparr>current_node_of_traversing := next_cell (cells s c)\<rparr>))"

definition is_storage_empty :: "storage \<Rightarrow> bool" where
  "is_storage_empty s \<longleftrightarrow> current_node_of_traversing s = None"

text \<open>\<^verbatim>\<open>__destroy_storage\<close>: the cells freed, in order, each one step behind the cursor.\<close>

partial_function (option) destroy_loop :: "storage \<Rightarrow> nat option \<Rightarrow> nat option \<Rightarrow> nat list \<Rightarrow> nat list option" where
  "destroy_loop s node prv freed =
     (case node of
        None \<Rightarrow> Some (case prv of None \<Rightarrow> freed | Some p \<Rightarrow> freed @ [p])
      | Some n \<Rightarrow> destroy_loop s (next_cell (cells s n)) (Some n) (case prv of None \<Rightarrow> freed | Some p \<Rightarrow> freed @ [p]))"

definition destroy_storage :: "storage \<Rightarrow> (nat list \<times> storage) option" where
  "destroy_storage s = do {
     freed \<leftarrow> destroy_loop s (created_threads_list s) None [];
     Some (freed, s\<lparr>created_threads_list := None\<rparr>)
   }"


section \<open>The list\<close>

definition nxt :: "storage \<Rightarrow> nat \<Rightarrow> nat option" where
  "nxt s c = next_cell (cells s c)"

text \<open>The back links of a list whose head has the predecessor \<open>p\<close>.\<close>

fun backs :: "storage \<Rightarrow> nat option \<Rightarrow> nat list \<Rightarrow> bool" where
  "backs s p [] \<longleftrightarrow> True"
| "backs s p (c # cs) \<longleftrightarrow> prev_cell (cells s c) = p \<and> backs s (Some c) cs"

definition storage_at :: "storage \<Rightarrow> nat list \<Rightarrow> bool" where
  "storage_at s cs \<longleftrightarrow> chain (nxt s) (created_threads_list s) cs \<and> backs s None cs
     \<and> thread_count s = of_nat (length cs)"

lemma backs_cong: "(\<And>c. c \<in> set cs \<Longrightarrow> prev_cell (cells s' c) = prev_cell (cells s c)) \<Longrightarrow> backs s' p cs = backs s p cs"
  by (induction cs arbitrary: p) auto

lemma backs_append:
  "backs s p (xs @ c # ys) \<longleftrightarrow> backs s p xs \<and> prev_cell (cells s c) = (if xs = [] then p else Some (last xs))
     \<and> backs s (Some c) ys"
  by (induction xs arbitrary: p) auto

lemma storage_simps [simp]:
  "nxt (set_prev_cell c x s) = nxt s" "nxt (set_next_cell c x s) = (nxt s)(c := x)"
  "prev_cell (cells (set_prev_cell c x s) d) = (if d = c then x else prev_cell (cells s d))"
  "prev_cell (cells (set_next_cell c x s) d) = prev_cell (cells s d)"
  "next_cell (cells (set_prev_cell c x s) d) = next_cell (cells s d)"
  "next_cell (cells (set_next_cell c x s) d) = (if d = c then x else next_cell (cells s d))"
  "thread (cells (set_prev_cell c x s) d) = thread (cells s d)" "thread (cells (set_next_cell c x s) d) = thread (cells s d)"
  "created_threads_list (set_prev_cell c x s) = created_threads_list s" "created_threads_list (set_next_cell c x s) = created_threads_list s"
  "thread_count (set_prev_cell c x s) = thread_count s" "thread_count (set_next_cell c x s) = thread_count s"
  by (auto simp: set_prev_cell_def set_next_cell_def nxt_def fun_eq_iff)

lemma create_cell_at:
  assumes "storage_at s cs" and "n \<notin> set cs"
  shows "\<exists>s'. create_cell_for_thread (Some n) s = Some (n, s') \<and> storage_at s' (n # cs)
    \<and> (\<forall>c \<in> set cs. thread (cells s' c) = thread (cells s c))"
proof -
  let ?s0 = "s\<lparr>cells := (cells s)(n := \<lparr>thread = 0, next_cell = None, prev_cell = None\<rparr>), thread_count := thread_count s + 1\<rparr>"
  let ?s1 = "case created_threads_list s of None \<Rightarrow> ?s0 | Some l \<Rightarrow> set_prev_cell l (Some n) ?s0"
  let ?s2 = "set_next_cell n (created_threads_list s) ?s1\<lparr>created_threads_list := Some n\<rparr>"
  have run: "create_cell_for_thread (Some n) s = Some (n, ?s2)"
    by (simp add: create_cell_for_thread_def Let_def split: option.split)
  have nx: "nxt ?s2 c = (if c = n then created_threads_list s else nxt s c)" for c
    by (cases "created_threads_list s") (simp_all add: nxt_def set_prev_cell_def set_next_cell_def)
  have pv: "prev_cell (cells ?s2 c) = (if Some c = created_threads_list s then Some n else if c = n then None else prev_cell (cells s c))" for c
    by (cases "created_threads_list s") (auto simp: set_prev_cell_def set_next_cell_def)
  have th: "thread (cells ?s2 c) = thread (cells s c)" if "c \<in> set cs" for c
    using that assms(2) by (cases "created_threads_list s") (auto simp: set_prev_cell_def set_next_cell_def)
  have ch: "chain (nxt s) (created_threads_list s) cs" and bk: "backs s None cs"
    and ct: "thread_count s = of_nat (length cs)" using assms(1) by (simp_all add: storage_at_def)
  have "chain (nxt ?s2) (created_threads_list s) cs"
    using ch assms(2) by (subst chain_cong [of cs _ "nxt s"]) (auto simp: nx)
  moreover have "backs ?s2 (Some n) cs"
  proof (cases cs)
    case (Cons d ds)
    have "d \<notin> set ds" using chain_distinct [OF ch] Cons by simp
    then have "backs ?s2 (Some d) ds = backs s (Some d) ds"
      using Cons ch assms(2) by (intro backs_cong) (auto simp: pv)
    then show ?thesis using Cons bk ch by (simp add: pv)
  qed simp
  moreover have "prev_cell (cells ?s2 n) = None" using ch assms(2) by (cases cs) (auto simp: pv)
  moreover have "thread_count ?s2 = of_nat (length (n # cs))"
    using ct by (cases "created_threads_list s") (simp_all add: set_prev_cell_def set_next_cell_def)
  ultimately have "storage_at ?s2 (n # cs)" by (simp add: storage_at_def nx)
  then show ?thesis using run th by blast
qed

text \<open>Destroying a cell takes exactly this cell out of the list, wherever it stands.\<close>

lemma destroy_cell_result:
  assumes "prev_cell (cells s c) \<noteq> Some c" and "next_cell (cells s c) \<noteq> Some c"
  shows "nxt (destroy_cell c s) d = (if prev_cell (cells s c) = Some d then nxt s c else nxt s d)"
    and "prev_cell (cells (destroy_cell c s) d) = (if nxt s c = Some d then prev_cell (cells s c) else prev_cell (cells s d))"
    and "created_threads_list (destroy_cell c s) = (if created_threads_list s = Some c then nxt s c else created_threads_list s)"
    and "thread_count (destroy_cell c s) = thread_count s - 1"
    and "thread (cells (destroy_cell c s) d) = thread (cells s d)"
  using assms by (cases "prev_cell (cells s c)"; cases "next_cell (cells s c)"; simp add: destroy_cell_def Let_def nxt_def; fail)+

lemma destroy_cell_at:
  assumes "storage_at s (xs @ c # ys)"
  shows "storage_at (destroy_cell c s) (xs @ ys)
    \<and> (\<forall>d. thread (cells (destroy_cell c s) d) = thread (cells s d))"
proof -
  have ch: "chain (nxt s) (created_threads_list s) (xs @ c # ys)" and bk: "backs s None (xs @ c # ys)"
    and ct: "thread_count s = of_nat (length (xs @ c # ys))" using assms by (simp_all add: storage_at_def)
  have di: "distinct (xs @ c # ys)" by (rule chain_distinct [OF ch])
  have ls: "lseg (nxt s) (created_threads_list s) xs (Some c)" "chain (nxt s) (nxt s c) ys"
    using ch by (simp_all add: chain_append_iff)
  have pc: "prev_cell (cells s c) = (if xs = [] then None else Some (last xs))" "backs s None xs" "backs s (Some c) ys"
    using bk by (simp_all add: backs_append)
  have nc: "nxt s c = (case ys of [] \<Rightarrow> None | y # _ \<Rightarrow> Some y)" using ls(2) by (cases ys) simp_all
  have n1: "prev_cell (cells s c) \<noteq> Some c" using pc(1) di by (auto split: if_splits)
  have n2: "next_cell (cells s c) \<noteq> Some c" using nc di by (auto simp: nxt_def split: list.splits)
  note r = destroy_cell_result [OF n1 n2, unfolded pc(1)]
  let ?s = "destroy_cell c s"
  have hd: "created_threads_list s = Some c \<longleftrightarrow> xs = []" using ls(1) di by (cases xs) auto
  have keep: "nxt ?s d = nxt s d" if "d \<noteq> last xs \<or> xs = []" for d using that r(1) by auto
  have out: "last xs \<notin> set ys" if "xs \<noteq> []" using that di last_in_set by fastforce
  have ys': "chain (nxt ?s) (nxt s c) ys"
    using ls(2) out by (subst chain_cong [of ys _ "nxt s"]) (metis keep)+
  have "chain (nxt ?s) (created_threads_list ?s) (xs @ ys)"
  proof (cases xs rule: rev_cases)
    case Nil
    then show ?thesis using ys' r(3) hd by simp
  next
    case (snoc zs q)
    then have l: "lseg (nxt s) (created_threads_list s) zs (Some q)" using ch by (simp add: chain_append_iff)
    have "lseg (nxt ?s) (created_threads_list s) zs (Some q)"
      using l di snoc by (subst lseg_cong [of zs _ "nxt s"]) (auto intro!: keep)
    moreover have "nxt ?s q = nxt s c" using r(1) [of q] snoc by simp
    ultimately show ?thesis using ys' r(3) hd snoc by (simp add: chain_append_iff)
  qed
  moreover have "backs ?s None (xs @ ys)"
  proof -
    have b1: "backs ?s None xs"
      using pc(2) di by (subst backs_cong [of xs _ s]) (auto simp: r(2) nc split: list.splits)
    show ?thesis
    proof (cases ys)
      case Nil
      then show ?thesis using b1 by simp
    next
      case (Cons y zs)
      have "backs ?s (Some y) zs"
        using pc(3) Cons di by (subst backs_cong [of zs _ s]) (auto simp: r(2) nc)
      then show ?thesis using b1 Cons by (simp add: backs_append r(2) nc)
    qed
  qed
  moreover have "thread_count ?s = of_nat (length (xs @ ys))" using ct r(4) by simp
  ultimately show ?thesis using r(5) by (simp add: storage_at_def)
qed


section \<open>Traversing\<close>

text \<open>The traversal as the collector does it: start, then \<open>get_next_thread\<close> until the cursor is at the end.\<close>

partial_function (option) traverse :: "storage \<Rightarrow> (size_t list \<times> storage) option" where
  "traverse s = (if is_storage_empty s then Some ([], s)
     else do {
       let (t, s) = get_next_thread s;
       (ts, s) \<leftarrow> traverse s;
       Some (t # ts, s)
     })"

lemma traverse_runs:
  "chain (nxt s) (current_node_of_traversing s) cs \<Longrightarrow>
     traverse s = Some (map (\<lambda>c. thread (cells s c)) cs, s\<lparr>current_node_of_traversing := None\<rparr>)"
proof (induction cs arbitrary: s)
  case Nil
  then show ?case by (subst traverse.simps) (simp add: is_storage_empty_def)
next
  case (Cons c cs)
  let ?s = "s\<lparr>current_node_of_traversing := nxt s c\<rparr>"
  have "nxt ?s = nxt s" by (simp add: nxt_def fun_eq_iff)
  then have "traverse ?s = Some (map (\<lambda>c. thread (cells s c)) cs, s\<lparr>current_node_of_traversing := None\<rparr>)"
    using Cons.IH [of ?s] Cons.prems by simp
  then show ?case using Cons.prems
    by (subst traverse.simps) (simp add: is_storage_empty_def get_next_thread_def nxt_def)
qed

lemma destroy_loop_runs:
  "chain (nxt s) node cs \<Longrightarrow>
     destroy_loop s node prv freed = Some (freed @ (case prv of None \<Rightarrow> [] | Some p \<Rightarrow> [p]) @ cs)"
proof (induction cs arbitrary: node prv freed)
  case Nil
  then show ?case by (subst destroy_loop.simps) (simp split: option.split)
next
  case (Cons c cs)
  then show ?case by (subst destroy_loop.simps) (auto simp: nxt_def split: option.split)
qed


section \<open>Properties\<close>

definition ex_storage :: storage where
  "ex_storage = \<lparr>cells = (\<lambda>_. \<lparr>thread = 0, next_cell = None, prev_cell = None\<rparr>)
       (5 := \<lparr>thread = 50, next_cell = Some 3, prev_cell = None\<rparr>,
        3 := \<lparr>thread = 30, next_cell = Some 8, prev_cell = Some 5\<rparr>,
        8 := \<lparr>thread = 80, next_cell = None, prev_cell = Some 3\<rparr>),
     created_threads_list = Some 5, thread_count = 3, current_node_of_traversing = None\<rparr>"

lemma ex_storage_at: "storage_at ex_storage [5, 3, 8]"
  by (simp add: storage_at_def ex_storage_def nxt_def)

text \<open>C39: a cell registered and destroyed again leaves the list of threads as it was, whatever other
  cell is destroyed in between; each destroyed cell leaves the list wherever it stands in it, the
  others keep their order and their threads, and the counter is always the length.\<close>

theorem storage_roundtrip:
  assumes "storage_at s (xs @ c # ys)" and "n \<notin> set (xs @ c # ys)"
  shows "\<exists>s1. create_cell_for_thread (Some n) s = Some (n, s1) \<and> storage_at s1 (n # xs @ c # ys)
    \<and> storage_at (destroy_cell n s1) (xs @ c # ys)
    \<and> storage_at (destroy_cell c s1) (n # xs @ ys)
    \<and> storage_at (destroy_cell n (destroy_cell c s1)) (xs @ ys)
    \<and> (\<forall>d \<in> set (xs @ ys). thread (cells (destroy_cell n (destroy_cell c s1)) d) = thread (cells s d))
    \<and> get_threads_storage_size (destroy_cell c s1) = of_nat (length (n # xs @ ys))"
proof -
  obtain s1 where r: "create_cell_for_thread (Some n) s = Some (n, s1)" "storage_at s1 (n # xs @ c # ys)"
    "\<forall>d \<in> set (xs @ c # ys). thread (cells s1 d) = thread (cells s d)"
    using create_cell_at [OF assms] by blast
  have a: "storage_at (destroy_cell n s1) (xs @ c # ys)" using destroy_cell_at [of s1 "[]"] r(2) by simp
  have b: "storage_at (destroy_cell c s1) (n # xs @ ys)" "\<forall>d. thread (cells (destroy_cell c s1) d) = thread (cells s1 d)"
    using destroy_cell_at [of s1 "n # xs"] r(2) by simp_all
  have d: "storage_at (destroy_cell n (destroy_cell c s1)) (xs @ ys)"
    "\<forall>d. thread (cells (destroy_cell n (destroy_cell c s1)) d) = thread (cells (destroy_cell c s1) d)"
    using destroy_cell_at [of "destroy_cell c s1" "[]"] b(1) by simp_all
  show ?thesis using r a b d by (auto simp: get_threads_storage_size_def storage_at_def)
qed

theorem storage_roundtrip_witness:
  "\<exists>s1. create_cell_for_thread (Some 1) ex_storage = Some (1, s1) \<and> storage_at (destroy_cell 3 s1) [1, 5, 8]
    \<and> get_threads_storage_size (destroy_cell 3 s1) = 3"
  using storage_roundtrip [of ex_storage "[5]" 3 "[8]" 1] ex_storage_at by auto

text \<open>C40: a traversal returns and yields every registered thread exactly once, in list order; destroying
  the storage frees every cell exactly once.\<close>

theorem storage_traversal:
  assumes "storage_at s cs"
  shows "\<exists>s'. traverse (start_threads_storage_traverse s) = Some (map (\<lambda>c. thread (cells s c)) cs, s')
    \<and> storage_at s' cs \<and> is_storage_empty s'
    \<and> (\<exists>s''. destroy_storage s' = Some (cs, s'') \<and> storage_at (s''\<lparr>thread_count := 0\<rparr>) []) \<and> distinct cs"
proof -
  let ?s = "start_threads_storage_traverse s"
  have ch: "chain (nxt s) (created_threads_list s) cs" using assms by (simp add: storage_at_def)
  have nx: "nxt ?s = nxt s" by (simp add: nxt_def start_threads_storage_traverse_def fun_eq_iff)
  have t: "traverse ?s = Some (map (\<lambda>c. thread (cells ?s c)) cs, ?s\<lparr>current_node_of_traversing := None\<rparr>)"
    using traverse_runs [of ?s cs] ch nx by (simp add: start_threads_storage_traverse_def)
  let ?e = "?s\<lparr>current_node_of_traversing := None\<rparr>"
  have nx': "nxt ?e = nxt s" and cl: "created_threads_list ?e = created_threads_list s"
    by (simp_all add: nxt_def start_threads_storage_traverse_def fun_eq_iff)
  have "backs ?e None cs = backs s None cs" by (rule backs_cong) (simp add: start_threads_storage_traverse_def)
  then have "storage_at ?e cs"
    using assms nx' cl by (simp add: storage_at_def start_threads_storage_traverse_def)
  moreover have "destroy_storage ?e = Some (cs, ?e\<lparr>created_threads_list := None\<rparr>)"
    using destroy_loop_runs [of ?e "created_threads_list s" cs None "[]"] ch nx' cl by (simp add: destroy_storage_def)
  moreover have "storage_at (?e\<lparr>created_threads_list := None\<rparr>\<lparr>thread_count := 0\<rparr>) []" by (simp add: storage_at_def)
  ultimately show ?thesis
    using t chain_distinct [OF ch] by (auto simp: start_threads_storage_traverse_def is_storage_empty_def)
qed

theorem storage_traversal_witness:
  "\<exists>s'. traverse (start_threads_storage_traverse ex_storage) = Some ([50, 30, 80], s') \<and> storage_at s' [5, 3, 8]"
  using storage_traversal [OF ex_storage_at] by (auto simp: ex_storage_def)

end
