(* ===== verification/Marking.thy ===== *)
theory Marking
  imports Object_Marks Object_Graph Mark_Stack Threads_Storage
begin

text \<open>
  \<^verbatim>\<open>marker/marking.c\<close>: conservative tracing from the threads' stacks and the data segments. The bounds
  of a thread's stack, which the code gets from the thread library, are the argument \<open>stack_of\<close>; the
  bounds of the data segments are linker symbols and arguments too; \<open>R\<close> says when \<^verbatim>\<open>realloc\<close> succeeds.
  \<open>None\<close> is a failed assertion, an exit, or a loop that does not end.
\<close>

definition mark_and_push :: "(int \<Rightarrow> bool) \<Rightarrow> size_t \<Rightarrow> gc_heap \<Rightarrow> mark_stack \<Rightarrow> (gc_heap \<times> mark_stack) option" where
  "mark_and_push R object hp st = do {
     b \<leftarrow> is_marked hp object;
     if \<not> b then do {
       hp \<leftarrow> mark_object object hp;
       st \<leftarrow> push R object st;
       Some (hp, st)
     } else Some (hp, st)
   }"

text \<open>The loop over the words from \<open>cur\<close> up to \<open>e\<close>, which \<^verbatim>\<open>scan\<close> and \<^verbatim>\<open>segment_traverse\<close> share.\<close>

partial_function (option) mark_words ::
  "(int \<Rightarrow> bool) \<Rightarrow> size_t \<Rightarrow> size_t \<Rightarrow> gc_heap \<Rightarrow> mark_stack \<Rightarrow> (gc_heap \<times> mark_stack) option" where
  "mark_words R cur e hp st =
     (if cur < e then do {
        obj \<leftarrow> get_object hp (load64 (bytes hp) cur);
        (hp, st) \<leftarrow> (case obj of None \<Rightarrow> Some (hp, st) | Some x \<Rightarrow> mark_and_push R x hp st);
        mark_words R (cur + 8) e hp st
      } else Some (hp, st))"

definition scan :: "(int \<Rightarrow> bool) \<Rightarrow> size_t \<Rightarrow> gc_heap \<Rightarrow> mark_stack \<Rightarrow> (gc_heap \<times> mark_stack) option" where
  "scan R object_addr hp st = do {
     obj \<leftarrow> get_object hp object_addr;
     case obj of
       None \<Rightarrow> Some (hp, st)
     | Some x \<Rightarrow> do {
         sz \<leftarrow> get_object_size hp x;
         mark_words R x (x + sz) hp st
       }
   }"

partial_function (option) closure ::
  "(int \<Rightarrow> bool) \<Rightarrow> gc_heap \<Rightarrow> mark_stack \<Rightarrow> (gc_heap \<times> mark_stack) option" where
  "closure R hp st =
     (if is_empty st then Some (hp, st)
      else do {
        (cur_elem, st) \<leftarrow> pop st;
        (hp, st) \<leftarrow> scan R cur_elem hp st;
        closure R hp st
      })"

definition segment_traverse ::
  "(int \<Rightarrow> bool) \<Rightarrow> size_t \<Rightarrow> size_t \<Rightarrow> gc_heap \<Rightarrow> mark_stack \<Rightarrow> (gc_heap \<times> mark_stack) option" where
  "segment_traverse R segment_start segment_end hp st =
     (if segment_start \<noteq> 0 \<and> segment_end \<noteq> 0 \<and> segment_start < segment_end then do {
        (hp, st) \<leftarrow> mark_words R segment_start segment_end hp st;
        closure R hp st
      } else None)"

partial_function (option) stacks_loop ::
  "(int \<Rightarrow> bool) \<Rightarrow> (size_t \<Rightarrow> size_t \<times> size_t) \<Rightarrow> storage \<Rightarrow> gc_heap \<Rightarrow> mark_stack
    \<Rightarrow> (storage \<times> gc_heap \<times> mark_stack) option" where
  "stacks_loop R stack_of sto hp st =
     (if is_storage_empty sto then Some (sto, hp, st)
      else do {
        let (now_thread, sto) = get_next_thread sto;
        let (a, n) = stack_of now_thread;
        (hp, st) \<leftarrow> segment_traverse R a (a + n) hp st;
        stacks_loop R stack_of sto hp st
      })"

definition threads_stacks_marking ::
  "(int \<Rightarrow> bool) \<Rightarrow> (size_t \<Rightarrow> size_t \<times> size_t) \<Rightarrow> storage \<Rightarrow> gc_heap \<Rightarrow> mark_stack
    \<Rightarrow> (storage \<times> gc_heap \<times> mark_stack) option" where
  "threads_stacks_marking R stack_of sto hp st =
     stacks_loop R stack_of (start_threads_storage_traverse sto) hp st"

text \<open>\<^verbatim>\<open>segs\<close> are the bounds of the data and the bss segment.\<close>

definition mark :: "(int \<Rightarrow> bool) \<Rightarrow> (size_t \<Rightarrow> size_t \<times> size_t) \<Rightarrow> (size_t \<times> size_t) \<times> (size_t \<times> size_t)
    \<Rightarrow> storage \<Rightarrow> gc_heap \<Rightarrow> mark_stack \<Rightarrow> (storage \<times> gc_heap \<times> mark_stack) option" where
  "mark R stack_of segs sto hp st = do {
     let ((data_start, edata), (bss_start, bss_end)) = segs;
     let hp = hp\<lparr>logs := log MARK START (logs hp)\<rparr>;
     (sto, hp, st) \<leftarrow> threads_stacks_marking R stack_of sto hp st;
     (hp, st) \<leftarrow> segment_traverse R data_start edata hp st;
     (hp, st) \<leftarrow> segment_traverse R bss_start bss_end hp st;
     Some (sto, hp\<lparr>logs := log MARK OK (logs hp)\<rparr>, st)
   }"

end
