(* ===== verification/Mark_Correct.thy ===== *)
theory Mark_Correct
  imports Marking
begin

text \<open>
  The marker marks exactly what is reachable. \<open>marker_at\<close> relates the heap and the stack of the code to
  the marks and the stack of \<^theory_text>\<open>Object_Graph\<close>; each function of the marker is one step there.
\<close>

section \<open>The words of a range, and what they refer to\<close>

definition word_count :: "size_t \<Rightarrow> size_t \<Rightarrow> nat" where
  "word_count s e = (unat e - unat s + 7) div 8"

definition word_object :: "gc_heap \<Rightarrow> size_t \<Rightarrow> size_t list" where
  "word_object hp a = (case get_object hp (load64 (bytes hp) a) of Some (Some x) \<Rightarrow> [x] | _ \<Rightarrow> [])"

definition range_objects :: "gc_heap \<Rightarrow> size_t \<Rightarrow> size_t \<Rightarrow> size_t list" where
  "range_objects hp s e = concat (map (\<lambda>i. word_object hp (s + of_nat (8 * i))) [0..<word_count s e])"

text \<open>The children of an object: what the words of its range refer to.\<close>

definition kids :: "gc_heap \<Rightarrow> size_t \<Rightarrow> size_t list" where
  "kids hp x = (case get_object_size hp x of None \<Rightarrow> [] | Some n \<Rightarrow> range_objects hp x (x + n))"

text \<open>A range the marker can scan: it does not reach the end of the address space, and no bitmap lies
  in it (the marks set meanwhile do not change it).\<close>

definition scannable :: "size_t \<Rightarrow> gc_heap \<Rightarrow> size_t \<Rightarrow> size_t \<Rightarrow> bool" where
  "scannable H hp s e \<longleftrightarrow> unat e + 8 < 2 ^ 64 \<and>
     (\<forall>i < word_count s e. \<forall>j < 8. \<forall>c < BLOCKS_COUNT H.
        \<not> s + of_nat (8 * i) + of_nat j - (blk (START_ALLOCATOR_HEAP (small hp)) c + 16) < 64)"

lemma word_count_bounds:
  "i < word_count s e \<longleftrightarrow> unat s + 8 * i < unat e"
  "unat s \<le> unat e \<Longrightarrow> unat e \<le> unat s + 8 * word_count s e \<and> unat s + 8 * word_count s e < unat e + 8"
proof -
  have "i < (unat e - unat s + 7) div 8 \<longleftrightarrow> 8 * Suc i \<le> unat e - unat s + 7"
    using less_eq_div_iff_mult_less_eq [of 8 "Suc i" "unat e - unat s + 7"] by (simp add: Suc_le_eq mult.commute)
  then show "i < word_count s e \<longleftrightarrow> unat s + 8 * i < unat e" unfolding word_count_def by auto
  assume "unat s \<le> unat e"
  moreover have "(unat e - unat s + 7) div 8 * 8 + (unat e - unat s + 7) mod 8 = unat e - unat s + 7" by (rule div_mult_mod_eq)
  moreover have "(unat e - unat s + 7) mod 8 < 8" by simp
  ultimately show "unat e \<le> unat s + 8 * word_count s e \<and> unat s + 8 * word_count s e < unat e + 8"
    unfolding word_count_def by linarith
qed

lemma scannable_word:
  assumes "scannable H hp0 s e" and "gc_same H hp0 ot hp" and "i < word_count s e"
  shows "load64 (bytes hp) (s + of_nat (8 * i)) = load64 (bytes hp0) (s + of_nat (8 * i))"
  using assms by (intro load64_cong) (simp add: scannable_def gc_same_def)

lemma word_object_same:
  assumes "gc_heap_ok H hp0 ot" and "gc_same H hp0 ot hp" and "scannable H hp0 s e" and "i < word_count s e"
  shows "word_object hp (s + of_nat (8 * i)) = word_object hp0 (s + of_nat (8 * i))"
  using scannable_word [OF assms(3,2,4)] gc_same_get(1) [OF assms(1,2)] by (simp add: word_object_def)

lemma loop_address:
  assumes "unat e + 8 < 2 ^ 64" and "unat s \<le> unat e" and "i \<le> word_count s e"
  shows "unat (s + of_nat (8 * i)) = unat s + 8 * i" and "s + of_nat (8 * i) < e \<longleftrightarrow> i < word_count s e"
proof -
  have "8 * i \<le> 8 * word_count s e" using assms(3) by simp
  then have lt: "unat s + 8 * i < 2 ^ 64" using word_count_bounds(2) [OF assms(2)] assms(1) by linarith
  then have "unat (of_nat (8 * i) :: size_t) = 8 * i" by (intro unat_of_nat_small) simp
  then show u: "unat (s + of_nat (8 * i)) = unat s + 8 * i" using lt by (subst unat_add_no_wrap) simp_all
  show "s + of_nat (8 * i) < e \<longleftrightarrow> i < word_count s e" using u word_count_bounds(1) [of i s e] by (simp add: word_less_nat_alt)
qed


section \<open>One object, one range\<close>

definition marks :: "size_t \<Rightarrow> gc_heap \<Rightarrow> nat tree \<Rightarrow> gc_heap \<Rightarrow> size_t set" where
  "marks H hp0 ot hp = {y. heap_object H hp0 ot y \<and> is_marked hp y = Some True}"

definition marker_at ::
  "size_t \<Rightarrow> gc_heap \<Rightarrow> nat tree \<Rightarrow> gc_heap \<Rightarrow> mark_stack \<Rightarrow> size_t set \<Rightarrow> size_t list \<Rightarrow> bool" where
  "marker_at H hp0 ot hp st M W \<longleftrightarrow> gc_same H hp0 ot hp \<and> stack_at st W \<and> M = marks H hp0 ot hp"

lemma get_object_total: assumes "gc_heap_ok H hp ot" shows "\<exists>r. get_object hp a = Some r"
proof -
  consider (l) "in_large_heap hp a = Some True" | (s) "in_small_heap hp a" | (n) "\<not> in_small_heap hp a" "in_large_heap hp a = Some False"
    using in_large_heap_total [OF assms] by (metis (full_types))
  then show ?thesis
  proof cases
    case l
    then show ?thesis using get_object_large [OF assms] by blast
  next
    case s
    then obtain i off where "i < BLOCKS_COUNT H" "off < 4096" "a = blk (START_ALLOCATOR_HEAP (small hp)) i + of_nat off"
      using in_small_heap_offset [OF assms] by blast
    then show ?thesis using get_object_small [OF assms] by (simp add: Let_def)
  qed (simp add: get_object_def)
qed

lemma mark_and_push_visits:
  assumes ok: "gc_heap_ok H hp0 ot" and at: "marker_at H hp0 ot hp st M W" and x: "heap_object H hp0 ot x"
  shows "\<exists>hp' st'. mark_and_push (\<lambda>_. True) x hp st = Some (hp', st')
    \<and> marker_at H hp0 ot hp' st' (fst (visit [x] (M, W))) (snd (visit [x] (M, W)))"
proof -
  have inv: "gc_heap_ok H hp0 ot \<and> gc_same H hp0 ot hp" and st: "stack_at st W" and M: "M = marks H hp0 ot hp"
    using ok at by (simp_all add: marker_at_def)
  consider (old) "is_marked hp x = Some True"
    | (new) hp' where "is_marked hp x = Some False" "mark_object x hp = Some hp'" "gc_same H hp0 ot hp'"
        "marks H hp0 ot hp' = insert x (marks H hp0 ot hp)"
    using gm.test_and_set [OF inv x] unfolding marks_def by blast
  then show ?thesis
  proof cases
    case old
    then have "x \<in> M" using x M by (simp add: marks_def)
    then show ?thesis using old at by (simp add: mark_and_push_def)
  next
    case new
    obtain st' where "push (\<lambda>_. True) x st = Some st'" "stack_at st' (x # W)" using ms.ins_law [OF st] by blast
    moreover have "x \<notin> M" using new(1) M by (simp add: marks_def)
    ultimately show ?thesis using new M by (simp add: mark_and_push_def marker_at_def)
  qed
qed

text \<open>The loop over a range from its word \<open>i\<close> on.\<close>

lemma mark_words_step:
  assumes "a < e" and "get_object hp (load64 (bytes hp) a) = Some r"
    and "(case r of None \<Rightarrow> Some (hp, st) | Some x \<Rightarrow> mark_and_push R x hp st) = Some (hp1, st1)"
  shows "mark_words R a e hp st = mark_words R (a + 8) e hp1 st1"
  using assms by (subst mark_words.simps) simp

lemma mark_words_visits:
  assumes ok: "gc_heap_ok H hp0 ot" and sc: "scannable H hp0 s e" and se: "unat s \<le> unat e"
    and obj: "\<forall>x \<in> set (range_objects hp0 s e). heap_object H hp0 ot x"
    and i: "i \<le> word_count s e" and at: "marker_at H hp0 ot hp st M W"
  shows "\<exists>hp' st' M' W'. mark_words (\<lambda>_. True) (s + of_nat (8 * i)) e hp st = Some (hp', st')
    \<and> visit (concat (map (\<lambda>i. word_object hp0 (s + of_nat (8 * i))) [i..<word_count s e])) (M, W) = (M', W')
    \<and> marker_at H hp0 ot hp' st' M' W'"
  using i at
proof (induction "word_count s e - i" arbitrary: i hp st M W)
  case 0
  have "\<not> s + of_nat (8 * i) < e" using loop_address(2) [of e s i] sc se 0(1,2) by (simp add: scannable_def)
  then have "mark_words (\<lambda>_. True) (s + of_nat (8 * i)) e hp st = Some (hp, st)" by (subst mark_words.simps) simp
  then show ?case using 0 by simp
next
  case (Suc k)
  have lt: "i < word_count s e" using Suc.hyps(2) by simp
  have go: "s + of_nat (8 * i) < e" using loop_address(2) [of e s i] sc se Suc.prems(1) lt by (simp add: scannable_def)
  have same: "gc_same H hp0 ot hp" using Suc.prems(2) by (simp add: marker_at_def)
  let ?a = "s + of_nat (8 * i)"
  obtain r where r: "get_object hp (load64 (bytes hp) ?a) = Some r" using get_object_total [OF gc_same_ok [OF ok same]] by blast
  have wo: "word_object hp0 ?a = (case r of None \<Rightarrow> [] | Some x \<Rightarrow> [x])"
    using word_object_same [OF ok same sc lt] r by (simp add: word_object_def split: option.split)
  have up: "[i..<word_count s e] = i # [Suc i..<word_count s e]" using lt by (simp add: upt_conv_Cons)
  have nx: "?a + 8 = s + of_nat (8 * Suc i)" by simp
  obtain hp1 st1 M1 W1 where one: "(case r of None \<Rightarrow> Some (hp, st) | Some x \<Rightarrow> mark_and_push (\<lambda>_. True) x hp st) = Some (hp1, st1)"
    and v1: "visit (word_object hp0 ?a) (M, W) = (M1, W1)" and at1: "marker_at H hp0 ot hp1 st1 M1 W1"
  proof (cases r)
    case None
    then show ?thesis using that Suc.prems(2) wo by simp
  next
    case (Some x)
    have "x \<in> set (word_object hp0 ?a)" using wo Some by simp
    then have "heap_object H hp0 ot x" using obj lt unfolding range_objects_def by auto
    then show ?thesis using mark_and_push_visits [OF ok Suc.prems(2)] that wo Some by (metis option.case(2) prod.collapse)
  qed
  obtain hp' st' M' W' where rec: "mark_words (\<lambda>_. True) (s + of_nat (8 * Suc i)) e hp1 st1 = Some (hp', st')"
    "visit (concat (map (\<lambda>i. word_object hp0 (s + of_nat (8 * i))) [Suc i..<word_count s e])) (M1, W1) = (M', W')"
    "marker_at H hp0 ot hp' st' M' W'"
  proof -
    have "k = word_count s e - Suc i" "Suc i \<le> word_count s e" using Suc.hyps(2) lt by simp_all
    then show ?thesis using Suc.hyps(1) [OF _ _ at1] that by blast
  qed
  have "mark_words (\<lambda>_. True) (?a + 8) e hp1 st1 = Some (hp', st')" unfolding nx by (rule rec(1))
  then have "mark_words (\<lambda>_. True) ?a e hp st = Some (hp', st')" using mark_words_step [OF go r one] by simp
  moreover have "visit (concat (map (\<lambda>i. word_object hp0 (s + of_nat (8 * i))) [i..<word_count s e])) (M, W) = (M', W')"
    unfolding up using v1 rec(2) by (simp add: visit_append)
  ultimately show ?case using rec(3) by blast
qed



section \<open>Scanning an object\<close>

lemma small_object_range:
  assumes ok: "gc_heap_ok H hp ot" and i: "i < BLOCKS_COUNT H"
    and sz: "sized (bytes hp) (blk (START_ALLOCATOR_HEAP (small hp)) i) k" and j: "j < slots (al k)"
  defines "x \<equiv> slot (blk (START_ALLOCATOR_HEAP (small hp)) i) (al k) j"
  shows "get_object hp x = Some (Some x)" and "get_object_size hp x = Some (of_nat (al k))"
    and "unat (x + of_nat (al k)) = unat x + al k" and "scannable H hp x (x + of_nat (al k))"
proof -
  let ?B = "START_ALLOCATOR_HEAP (small hp)"
  note sa = slot_address [OF ok i sz j] and room = gc_heap_parts(2) [OF ok]
  have k: "size_ok k" and ld: "load64 (bytes hp) (blk ?B i + 8) = of_nat k" using sz by (simp_all add: sized_def)
  have k0: "(of_nat k :: size_t) \<noteq> 0" using unat_size_ok [OF k] k by (auto simp: size_ok_iff)
  show "get_object_size hp x = Some (of_nat (al k))"
    using get_object_size_small [OF ok i sa(1,2)] by (simp add: ld align_word [OF k] x_def)
  have "(80 + al k * j - 80) div al k = j" using sa(4) by simp
  then show "get_object hp x = Some (Some x)"
    using get_object_small [OF ok i sa(1,2)] ld k0 unat_size_ok [OF k] by (simp add: x_def Let_def)
  have fit: "80 + al k * j + al k \<le> 4096" using slot_fits [of "al k" j] sa(4) j by simp
  have ux: "unat x = unat ?B + 4096 * i + 80 + al k * j"
    using unat_slot [OF blk_end [OF room i] k, of j] j by (simp add: x_def unat_blk [OF room i])
  have be: "unat ?B + 4096 * i + 8192 < 2 ^ 64" using blk_end [OF room i] by (simp add: unat_blk [OF room i])
  have "unat (of_nat (al k) :: size_t) = al k" using al_bounds(2) [OF k] by (intro unat_of_nat_small) simp
  then show ue: "unat (x + of_nat (al k)) = unat x + al k"
    using ux be fit by (subst unat_add_no_wrap) simp_all
  show "scannable H hp x (x + of_nat (al k))"
    unfolding scannable_def ue
  proof (intro conjI allI impI)
    show "unat x + al k + 8 < 2 ^ 64" using ux be fit by simp
    fix a b c :: nat
    assume a: "a < word_count x (x + of_nat (al k))" and b: "b < 8" and c: "c < BLOCKS_COUNT H"
    obtain q where q: "al k = 8 * q" using al_bounds(3) [OF k] by (auto elim: dvdE)
    have "8 * a < 8 * q" using a word_count_bounds(1) [of a x] ue q by simp
    then have "8 * a + 8 \<le> al k" using q by simp
    then have "80 \<le> 80 + al k * j + 8 * a + b \<and> 80 + al k * j + 8 * a + b < 4096" using fit b by linarith
    moreover have "x + of_nat (8 * a) + of_nat b = blk ?B i + of_nat (80 + al k * j + 8 * a + b)"
      by (simp add: x_def slot_def)
    ultimately show "\<not> x + of_nat (8 * a) + of_nat b - (blk ?B c + 16) < 64"
      using not_in_bitmap [OF room i _ c, of "80 + al k * j + 8 * a + b"] by (simp only:) blast
  qed
qed

lemma large_object_range:
  assumes ok: "gc_heap_ok H hp ot" and n: "n \<in> set_tree ot"
  defines "x \<equiv> key (TREENODES_LIST (large hp)) n" and "z \<equiv> prio (TREENODES_LIST (large hp)) n"
  shows "get_object hp x = Some (Some x)" and "get_object_size hp x = Some z"
    and "unat (x + z) = unat x + unat z" and "scannable H hp x (x + z)"
proof -
  let ?h = "TREENODES_LIST (large hp)" and ?B = "START_ALLOCATOR_HEAP (small hp)"
  note f = large_object_found [OF ok n]
  show "get_object hp x = Some (Some x)" unfolding x_def by (rule get_object_large_inside [OF ok n f(5)])
  show "get_object_size hp x = Some z" unfolding x_def z_def by (simp add: get_object_size_def f(1-3))
  show ue: "unat (x + z) = unat x + unat z"
    unfolding x_def z_def using f(6) unat_reg_hi [of "block (?h n)"] by (simp add: reg_hi_def)
  obtain fs where ht: "heap_tiled (large hp) (fs @ blocks ?h ot)" using gc_large_parts(4) [OF ok] by blast
  have b: "block (?h n) \<in> set (fs @ blocks ?h ot)" using n by (simp add: set_blocks)
  obtain s e where se: "START_BIG_ALLOCATOR_HEAP (large hp) = Some s" "END_BIG_ALLOCATOR_HEAP (large hp) = Some e"
    and hi: "unat e + 4096 < 2 ^ 64" using in_large_heap_total [OF ok] by blast
  have reg: "unat x + unat z \<le> unat e" using heap_tiled_bounds(3) [OF ht se b] by (simp add: reg_hi_def x_def z_def)
  have z8: "8 dvd unat z" using ht b by (auto simp: heap_tiled_def z_def)
  show "scannable H hp x (x + z)"
    unfolding scannable_def ue
  proof (intro conjI allI impI)
    show "unat x + unat z + 8 < 2 ^ 64" using reg hi by simp
    fix a b c :: nat
    assume a: "a < word_count x (x + z)" and b: "b < 8" and c: "c < BLOCKS_COUNT H"
    obtain q where q: "unat z = 8 * q" using z8 by (auto elim: dvdE)
    have "8 * a < 8 * q" using a word_count_bounds(1) [of a x "x + z"] ue q by simp
    then have ab: "8 * a + b < unat z" using q b by simp
    let ?a = "x + of_nat (8 * a) + of_nat b"
    have "?a = x + of_nat (8 * a + b)" by simp
    moreover have "unat (of_nat (8 * a + b) :: size_t) = 8 * a + b"
      using ab unat_size_t [of z] by (intro unat_of_nat_small) linarith
    ultimately have "unat ?a = unat x + (8 * a + b)"
      using ab reg hi by (simp only:) (subst unat_add_no_wrap, simp_all)
    then have "holds_addr ?a (block (?h n))"
      using ab f(6) by (simp add: holds_addr_iff x_def z_def reg_hi_def)
    then have il: "in_large_heap hp ?a = Some True" by (rule f(4))
    show "\<not> ?a - (blk ?B c + 16) < 64"
    proof
      assume less: "?a - (blk ?B c + 16) < 64"
      let ?d = "unat (?a - (blk ?B c + 16))"
      have "?d < 64" using less by (simp add: word_less_nat_alt)
      then have off: "16 + ?d < 4096" by simp
      have "blk ?B c + of_nat (16 + ?d) = blk ?B c + 16 + of_nat ?d" by simp
      also have "\<dots> = ?a" unfolding of_nat_unat_word by simp
      finally have "?a = blk ?B c + of_nat (16 + ?d)" by simp
      from small_heap_address(2) [OF ok c off this] il show False by simp
    qed
  qed
qed

lemma object_range:
  assumes ok: "gc_heap_ok H hp ot" and x: "heap_object H hp ot x"
  shows "\<exists>n. get_object hp x = Some (Some x) \<and> get_object_size hp x = Some n
    \<and> unat x \<le> unat (x + n) \<and> scannable H hp x (x + n)"
proof -
  consider (small) i k j where "i < BLOCKS_COUNT H" "sized (bytes hp) (blk (START_ALLOCATOR_HEAP (small hp)) i) k"
      "j < slots (al k)" "x = slot (blk (START_ALLOCATOR_HEAP (small hp)) i) (al k) j"
    | (large) n where "n \<in> set_tree ot" "x = key (TREENODES_LIST (large hp)) n"
    using x by (auto simp: heap_object_def small_object_def large_object_def)
  then show ?thesis
  proof cases
    case small
    then show ?thesis using small_object_range [OF ok small(1-3)] by (intro exI [of _ "of_nat (al k)"]) simp
  next
    case large
    then show ?thesis using large_object_range [OF ok large(1)] by auto
  qed
qed

end
