(* ===== verification/Mark_Reach.thy ===== *)
theory Mark_Reach
  imports Mark_Correct
begin

text \<open>
  The whole of \<^verbatim>\<open>mark\<close>: \<open>scan\<close> visits the children of an object, \<open>closure\<close> empties the stack,
  the stacks of the registered threads and the two data segments give the roots. The result is the
  theorem that the marks are exactly what the roots reach.
\<close>

section \<open>One object\<close>

lemma gc_same_object:
  assumes ok: "gc_heap_ok H hp0 ot" and same: "gc_same H hp0 ot hp" and x: "heap_object H hp0 ot x"
  shows "heap_object H hp ot x" and "get_object_size hp x = get_object_size hp0 x"
proof -
  let ?B = "START_ALLOCATOR_HEAP (small hp0)"
  have sm: "small hp = small hp0" using same by (simp add: gc_same_def)
  have kp: "key (TREENODES_LIST (large hp)) n = key (TREENODES_LIST (large hp0)) n"
    "prio (TREENODES_LIST (large hp)) n = prio (TREENODES_LIST (large hp0)) n" for n
    using same by (auto simp: gc_same_def)
  note ok1 = gc_same_ok [OF ok same]
  consider (small) i k j where "i < BLOCKS_COUNT H" "sized (bytes hp0) (blk ?B i) k"
      "j < slots (al k)" "x = slot (blk ?B i) (al k) j"
    | (large) n where "n \<in> set_tree ot" "x = key (TREENODES_LIST (large hp0)) n"
    using x by (auto simp: heap_object_def small_object_def large_object_def)
  then have "heap_object H hp ot x \<and> get_object_size hp x = get_object_size hp0 x"
  proof cases
    case small
    have sz: "sized (bytes hp) (blk (START_ALLOCATOR_HEAP (small hp)) i) k"
      using small(2) gc_same_sized [OF ok same small(1)] sm by simp
    have "small_object H hp x" using small sz sm unfolding small_object_def by metis
    moreover have "get_object_size hp0 x = get_object_size hp x"
      using small_object_range(2) [OF ok small(1-3)] small_object_range(2) [OF ok1 small(1) sz small(3)] small(4) sm by simp
    ultimately show ?thesis by (simp add: heap_object_def)
  next
    case large
    have "large_object hp ot x" using large kp(1) by (auto simp: large_object_def)
    moreover have "get_object_size hp0 x = get_object_size hp x"
      using large_object_range(2) [OF ok large(1)] large_object_range(2) [OF ok1 large(1)] large(2) kp by simp
    ultimately show ?thesis by (simp add: heap_object_def)
  qed
  then show "heap_object H hp ot x" "get_object_size hp x = get_object_size hp0 x" by blast+
qed

lemma segment_words:
  assumes ok: "gc_heap_ok H hp0 ot" and sc: "scannable H hp0 s e" and se: "unat s \<le> unat e"
    and obj: "\<forall>x \<in> set (range_objects hp0 s e). heap_object H hp0 ot x" and at: "marker_at H hp0 ot hp st M W"
  shows "\<exists>hp' st' M' W'. mark_words (\<lambda>_. True) s e hp st = Some (hp', st')
    \<and> visit (range_objects hp0 s e) (M, W) = (M', W') \<and> marker_at H hp0 ot hp' st' M' W'"
proof -
  have "s + of_nat (8 * 0) = s" by simp
  then show ?thesis using mark_words_visits [OF ok sc se obj le0 at] unfolding range_objects_def by (simp only:)
qed

lemma scan_visits:
  assumes ok: "gc_heap_ok H hp0 ot" and at: "marker_at H hp0 ot hp st M W" and x: "heap_object H hp0 ot x"
    and kd: "\<forall>y \<in> set (kids hp0 x). heap_object H hp0 ot y"
  shows "\<exists>hp' st' M' W'. scan (\<lambda>_. True) x hp st = Some (hp', st')
    \<and> visit (kids hp0 x) (M, W) = (M', W') \<and> marker_at H hp0 ot hp' st' M' W'"
proof -
  have same: "gc_same H hp0 ot hp" using at by (simp add: marker_at_def)
  obtain n where n: "get_object hp0 x = Some (Some x)" "get_object_size hp0 x = Some n"
    "unat x \<le> unat (x + n)" "scannable H hp0 x (x + n)" using object_range [OF ok x] by blast
  have k: "kids hp0 x = range_objects hp0 x (x + n)" by (simp add: kids_def n(2))
  have "scan (\<lambda>_. True) x hp st = mark_words (\<lambda>_. True) x (x + n) hp st"
    using gc_same_get(1) [OF ok same] gc_same_object(2) [OF ok same x] n(1,2) by (simp add: scan_def)
  then show ?thesis using segment_words [OF ok n(4,3) _ at] kd unfolding k by simp
qed


section \<open>Emptying the stack\<close>

text \<open>Every object tracing can meet from the roots \<open>R\<close> is an object of the heap: no word of a root
  range or a reachable object points into the unused tail of a block.\<close>

definition traceable :: "size_t \<Rightarrow> gc_heap \<Rightarrow> nat tree \<Rightarrow> size_t set \<Rightarrow> bool" where
  "traceable H hp ot R \<longleftrightarrow> (\<forall>x. reach (kids hp) {} R x \<longrightarrow> heap_object H hp ot x)"

lemma reach_less_marks: "reach K M0 R x \<Longrightarrow> reach K {} R x"
  by (induction rule: reach.induct) (auto intro: reach.intros)

lemma traceable_mono: "traceable H hp ot R \<Longrightarrow> R' \<subseteq> R \<Longrightarrow> traceable H hp ot R'"
  by (auto simp: traceable_def intro: reach_mono)

lemma traceable_roots: "traceable H hp ot R \<Longrightarrow> x \<in> R \<Longrightarrow> heap_object H hp ot x"
  by (auto simp: traceable_def intro: reach.root)

lemma traceable_kids: "traceable H hp ot R \<Longrightarrow> reach (kids hp) M0 R x \<Longrightarrow> y \<in> set (kids hp x) \<Longrightarrow> heap_object H hp ot y"
  unfolding traceable_def using reach.step [OF reach_less_marks, of "kids hp" M0 R x y] by simp

lemma closure_empties:
  assumes ok: "gc_heap_ok H hp0 ot" and tr: "traceable H hp0 ot R"
  shows "marker_at H hp0 ot hp st M W \<Longrightarrow> grey (kids hp0) M0 R M W \<Longrightarrow>
    \<exists>hp' st' M'. closure (\<lambda>_. True) hp st = Some (hp', st') \<and> marker_at H hp0 ot hp' st' M' []
      \<and> grey (kids hp0) M0 R M' [] \<and> M \<subseteq> M'"
proof (induction "work M W" arbitrary: hp st M W rule: less_induct)
  case less
  have st: "stack_at st W" using less.prems(1) by (simp add: marker_at_def)
  show ?case
  proof (cases W)
    case Nil
    then have "closure (\<lambda>_. True) hp st = Some (hp, st)"
      using ms.empty_law [OF st] by (subst closure.simps) simp
    then show ?thesis using less.prems Nil by blast
  next
    case (Cons x W1)
    obtain st1 where st1: "pop st = Some (x, st1)" "stack_at st1 W1" using ms.del_law st Cons by blast
    have x: "x \<in> M" "reach (kids hp0) M0 R x" using less.prems(2) Cons by (auto simp: grey_def)
    then have ox: "heap_object H hp0 ot x" using less.prems(1) by (simp add: marker_at_def marks_def)
    have at1: "marker_at H hp0 ot hp st1 M W1" using less.prems(1) st1(2) by (simp add: marker_at_def)
    obtain hp2 st2 M2 W2 where s: "scan (\<lambda>_. True) x hp st1 = Some (hp2, st2)"
      "visit (kids hp0 x) (M, W1) = (M2, W2)" "marker_at H hp0 ot hp2 st2 M2 W2"
      using scan_visits [OF ok at1 ox] traceable_kids [OF tr x(2)] by blast
    have g: "grey (kids hp0) M0 R M2 W2" using grey_pop [where kids = "kids hp0" and x = x, OF _ s(2)] less.prems(2) Cons by simp
    obtain hp' st' M' where r: "closure (\<lambda>_. True) hp2 st2 = Some (hp', st')" "marker_at H hp0 ot hp' st' M' []"
      "grey (kids hp0) M0 R M' []" "M2 \<subseteq> M'"
      using less.hyps [OF _ s(3) g] work_pop [OF s(2)] Cons by blast
    have "closure (\<lambda>_. True) hp st = Some (hp', st')"
      using ms.empty_law [OF st] Cons st1(1) s(1) r(1) by (subst closure.simps) simp
    moreover have "M \<subseteq> M'" using visit_result(1) [OF s(2)] r(4) by blast
    ultimately show ?thesis using r(2,3) by blast
  qed
qed


section \<open>Root ranges\<close>

text \<open>A range the code accepts as roots: the assertion of \<^verbatim>\<open>segment_traverse\<close> holds of it.\<close>

definition root_range :: "size_t \<Rightarrow> gc_heap \<Rightarrow> size_t \<times> size_t \<Rightarrow> bool" where
  "root_range H hp r \<longleftrightarrow> fst r \<noteq> 0 \<and> fst r < snd r \<and> scannable H hp (fst r) (snd r)"

definition range_roots :: "gc_heap \<Rightarrow> size_t \<times> size_t \<Rightarrow> size_t set" where
  "range_roots hp r = set (range_objects hp (fst r) (snd r))"

text \<open>Between two root ranges the stack is empty and what was met so far is marked.\<close>

definition traced :: "size_t \<Rightarrow> gc_heap \<Rightarrow> nat tree \<Rightarrow> size_t set \<Rightarrow> size_t set \<Rightarrow> gc_heap \<Rightarrow> mark_stack \<Rightarrow> bool" where
  "traced H hp0 ot M0 R hp st \<longleftrightarrow> (\<exists>M. marker_at H hp0 ot hp st M [] \<and> grey (kids hp0) M0 R M [] \<and> R \<subseteq> M)"

lemma segment_traverse_traces:
  assumes ok: "gc_heap_ok H hp0 ot" and rr: "root_range H hp0 (s, e)" and t: "traced H hp0 ot M0 R hp st"
    and tr: "traceable H hp0 ot (R \<union> range_roots hp0 (s, e))"
  shows "\<exists>hp' st'. segment_traverse (\<lambda>_. True) s e hp st = Some (hp', st')
    \<and> traced H hp0 ot M0 (R \<union> range_roots hp0 (s, e)) hp' st'"
proof -
  let ?R = "R \<union> range_roots hp0 (s, e)"
  obtain M where M: "marker_at H hp0 ot hp st M []" "grey (kids hp0) M0 R M []" "R \<subseteq> M"
    using t by (auto simp: traced_def)
  have se: "unat s \<le> unat e" and sc: "scannable H hp0 s e"
    using rr by (simp_all add: root_range_def word_less_nat_alt)
  have obj: "\<forall>x \<in> set (range_objects hp0 s e). heap_object H hp0 ot x"
    using traceable_roots [OF tr] by (simp add: range_roots_def)
  obtain hp1 st1 M1 W1 where w: "mark_words (\<lambda>_. True) s e hp st = Some (hp1, st1)"
    "visit (range_objects hp0 s e) (M, []) = (M1, W1)" "marker_at H hp0 ot hp1 st1 M1 W1"
    using segment_words [OF ok sc se obj M(1)] by blast
  have g: "grey (kids hp0) M0 ?R M1 W1"
    by (rule grey_roots [OF grey_mono [OF M(2), of ?R] w(2)]) (simp_all add: range_roots_def)
  obtain hp' st' M' where c: "closure (\<lambda>_. True) hp1 st1 = Some (hp', st')" "marker_at H hp0 ot hp' st' M' []"
    "grey (kids hp0) M0 ?R M' []" "M1 \<subseteq> M'" using closure_empties [OF ok tr w(3) g] by blast
  have "segment_traverse (\<lambda>_. True) s e hp st = Some (hp', st')"
    using rr w(1) c(1) by (auto simp: segment_traverse_def root_range_def)
  moreover have "?R \<subseteq> M'" using visit_result(1) [OF w(2)] M(3) c(4) by (auto simp: range_roots_def)
  ultimately show ?thesis using c(2,3) by (auto simp: traced_def)
qed

text \<open>The stack of a thread, as the thread library reports it.\<close>

definition stack_range :: "(size_t \<Rightarrow> size_t \<times> size_t) \<Rightarrow> size_t \<Rightarrow> size_t \<times> size_t" where
  "stack_range stack_of t = (case stack_of t of (a, n) \<Rightarrow> (a, a + n))"

lemma stacks_loop_traces:
  assumes ok: "gc_heap_ok H hp0 ot"
  shows "chain (nxt sto) (current_node_of_traversing sto) cs
    \<Longrightarrow> \<forall>c \<in> set cs. root_range H hp0 (stack_range stack_of (thread (cells sto c)))
    \<Longrightarrow> traced H hp0 ot M0 R hp st
    \<Longrightarrow> traceable H hp0 ot (R \<union> (\<Union>c \<in> set cs. range_roots hp0 (stack_range stack_of (thread (cells sto c)))))
    \<Longrightarrow> \<exists>hp' st'. stacks_loop (\<lambda>_. True) stack_of sto hp st = Some (sto\<lparr>current_node_of_traversing := None\<rparr>, hp', st')
      \<and> traced H hp0 ot M0 (R \<union> (\<Union>c \<in> set cs. range_roots hp0 (stack_range stack_of (thread (cells sto c))))) hp' st'"
proof (induction cs arbitrary: sto R hp st)
  case Nil
  then have "current_node_of_traversing sto = None" by simp
  then have "stacks_loop (\<lambda>_. True) stack_of sto hp st = Some (sto\<lparr>current_node_of_traversing := None\<rparr>, hp, st)"
    by (subst stacks_loop.simps) (simp add: is_storage_empty_def)
  then show ?case using Nil by auto
next
  case (Cons c cs)
  let ?roots = "\<lambda>c. range_roots hp0 (stack_range stack_of (thread (cells sto c)))"
  let ?s = "sto\<lparr>current_node_of_traversing := nxt sto c\<rparr>"
  obtain a n where an: "stack_of (thread (cells sto c)) = (a, n)" by fastforce
  have cur: "current_node_of_traversing sto = Some c" and ch: "chain (nxt sto) (nxt sto c) cs" using Cons.prems(1) by simp_all
  have rng: "stack_range stack_of (thread (cells sto c)) = (a, a + n)" by (simp add: stack_range_def an)
  have rr: "root_range H hp0 (a, a + n)" using Cons.prems(2) rng by simp
  have sub: "traceable H hp0 ot (R \<union> range_roots hp0 (a, a + n))"
    by (rule traceable_mono [OF Cons.prems(4)]) (auto simp: rng)
  obtain hp1 st1 where one: "segment_traverse (\<lambda>_. True) a (a + n) hp st = Some (hp1, st1)"
    and t1: "traced H hp0 ot M0 (R \<union> range_roots hp0 (a, a + n)) hp1 st1"
    using segment_traverse_traces [OF ok rr Cons.prems(3) sub] by blast
  have nx: "nxt ?s = nxt sto" by (simp add: nxt_def fun_eq_iff)
  have un: "(R \<union> range_roots hp0 (a, a + n)) \<union> (\<Union>c \<in> set cs. ?roots c) = R \<union> (\<Union>c \<in> set (c # cs). ?roots c)"
    by (auto simp: rng)
  obtain hp' st' where two: "stacks_loop (\<lambda>_. True) stack_of ?s hp1 st1 = Some (?s\<lparr>current_node_of_traversing := None\<rparr>, hp', st')"
    "traced H hp0 ot M0 (R \<union> (\<Union>c \<in> set (c # cs). ?roots c)) hp' st'"
    using Cons.IH [of ?s "R \<union> range_roots hp0 (a, a + n)" hp1 st1] ch nx Cons.prems(2,4) t1 un by (auto simp: rng)
  have "stacks_loop (\<lambda>_. True) stack_of sto hp st = Some (sto\<lparr>current_node_of_traversing := None\<rparr>, hp', st')"
    using cur an one two(1)
    by (subst stacks_loop.simps) (simp add: is_storage_empty_def get_next_thread_def nxt_def Let_def)
  then show ?case using two(2) by blast
qed


section \<open>The whole marker\<close>

lemma logs_irrelevant [simp]:
  "gc_same H hp0 ot (hp\<lparr>logs := g\<rparr>) = gc_same H hp0 ot hp" "is_marked (hp\<lparr>logs := g\<rparr>) y = is_marked hp y"
  by (simp_all add: gc_same_def is_marked_def in_large_heap_def in_small_heap_def search_occupied_def cong: if_cong)

lemma marks_logs [simp]: "marks H hp0 ot (hp\<lparr>logs := g\<rparr>) = marks H hp0 ot hp"
  by (simp add: marks_def)

lemma traced_logs [simp]: "traced H hp0 ot M0 R (hp\<lparr>logs := g\<rparr>) st = traced H hp0 ot M0 R hp st"
  by (simp add: traced_def marker_at_def)

text \<open>The roots: the words of the threads' stacks and of the data segments.\<close>

definition gc_roots :: "(size_t \<Rightarrow> size_t \<times> size_t) \<Rightarrow> (size_t \<times> size_t) \<times> (size_t \<times> size_t) \<Rightarrow> storage
    \<Rightarrow> nat list \<Rightarrow> gc_heap \<Rightarrow> size_t set" where
  "gc_roots stack_of segs sto cs hp = (\<Union>c \<in> set cs. range_roots hp (stack_range stack_of (thread (cells sto c))))
     \<union> range_roots hp (fst segs) \<union> range_roots hp (snd segs)"

definition root_ranges :: "size_t \<Rightarrow> (size_t \<Rightarrow> size_t \<times> size_t) \<Rightarrow> (size_t \<times> size_t) \<times> (size_t \<times> size_t) \<Rightarrow> storage
    \<Rightarrow> nat list \<Rightarrow> gc_heap \<Rightarrow> bool" where
  "root_ranges H stack_of segs sto cs hp \<longleftrightarrow> (\<forall>c \<in> set cs. root_range H hp (stack_range stack_of (thread (cells sto c))))
     \<and> root_range H hp (fst segs) \<and> root_range H hp (snd segs)"

lemma mark_traces:
  assumes ok: "gc_heap_ok H hp0 ot" and st: "stack_at st []" and sto: "storage_at sto cs"
    and rr: "root_ranges H stack_of segs sto cs hp0"
    and tr: "traceable H hp0 ot (gc_roots stack_of segs sto cs hp0)"
  shows "\<exists>hp st'. mark (\<lambda>_. True) stack_of segs sto hp0 st = Some (sto\<lparr>current_node_of_traversing := None\<rparr>, hp, st')
    \<and> gc_same H hp0 ot hp \<and> stack_at st' []
    \<and> marks H hp0 ot hp = marks H hp0 ot hp0
        \<union> {x. reach (kids hp0) (marks H hp0 ot hp0) (gc_roots stack_of segs sto cs hp0) x}"
proof -
  let ?M0 = "marks H hp0 ot hp0" and ?hp = "hp0\<lparr>logs := log MARK START (logs hp0)\<rparr>"
  let ?S = "\<Union>c \<in> set cs. range_roots hp0 (stack_range stack_of (thread (cells sto c)))"
  let ?sto = "start_threads_storage_traverse sto"
  obtain s1 e1 s2 e2 where segs: "segs = ((s1, e1), (s2, e2))" by (metis surj_pair)
  let ?R2 = "?S \<union> range_roots hp0 (s1, e1)" and ?R3 = "?S \<union> range_roots hp0 (s1, e1) \<union> range_roots hp0 (s2, e2)"
  have R3: "gc_roots stack_of segs sto cs hp0 = ?R3" by (simp add: gc_roots_def segs)
  have tr3: "traceable H hp0 ot ?R3" using tr unfolding R3 .
  have t0: "traced H hp0 ot ?M0 {} ?hp st"
    using st grey_start by (auto simp: traced_def marker_at_def)
  have nx: "nxt ?sto = nxt sto" and cl: "cells ?sto = cells sto"
    by (simp_all add: start_threads_storage_traverse_def nxt_def fun_eq_iff)
  have ch: "chain (nxt ?sto) (current_node_of_traversing ?sto) cs"
    using sto unfolding nx by (simp add: storage_at_def start_threads_storage_traverse_def)
  have trS: "traceable H hp0 ot ({} \<union> (\<Union>c \<in> set cs. range_roots hp0 (stack_range stack_of (thread (cells ?sto c)))))"
    unfolding cl by (rule traceable_mono [OF tr3]) auto
  obtain hp1 st1 where a: "stacks_loop (\<lambda>_. True) stack_of ?sto ?hp st = Some (sto\<lparr>current_node_of_traversing := None\<rparr>, hp1, st1)"
    "traced H hp0 ot ?M0 ?S hp1 st1"
    using stacks_loop_traces [OF ok ch _ t0 trS] rr cl by (auto simp: root_ranges_def start_threads_storage_traverse_def)
  have rr1: "root_range H hp0 (s1, e1)" and rr2: "root_range H hp0 (s2, e2)" using rr by (simp_all add: root_ranges_def segs)
  have tr2: "traceable H hp0 ot ?R2" by (rule traceable_mono [OF tr3]) auto
  obtain hp2 st2 where b: "segment_traverse (\<lambda>_. True) s1 e1 hp1 st1 = Some (hp2, st2)" "traced H hp0 ot ?M0 ?R2 hp2 st2"
    using segment_traverse_traces [OF ok rr1 a(2) tr2] by blast
  obtain hp3 st3 where c: "segment_traverse (\<lambda>_. True) s2 e2 hp2 st2 = Some (hp3, st3)" "traced H hp0 ot ?M0 ?R3 hp3 st3"
    using segment_traverse_traces [OF ok rr2 b(2) tr3] by blast
  have "mark (\<lambda>_. True) stack_of segs sto hp0 st
      = Some (sto\<lparr>current_node_of_traversing := None\<rparr>, hp3\<lparr>logs := log MARK OK (logs hp3)\<rparr>, st3)"
    using a(1) b(1) c(1) by (simp add: mark_def threads_stacks_marking_def segs)
  moreover obtain M where M: "marker_at H hp0 ot hp3 st3 M []" "grey (kids hp0) ?M0 ?R3 M []" "?R3 \<subseteq> M"
    using c(2) by (auto simp: traced_def)
  ultimately show ?thesis using grey_done [OF M(2,3)] M(1) unfolding R3 by (simp add: marker_at_def)
qed

end
