(* ===== verification/Object_Lookup.thy ===== *)
theory Object_Lookup
  imports Mark_Reach
begin

text \<open>
  What \<^verbatim>\<open>get_object\<close> answers: every address inside an object gives that object, and every answer is an
  object, except for addresses behind the last slot of a block. The unused tail of a block, shorter
  than a slot, is taken for one more object, which ends beyond the block.
\<close>

definition tail_object :: "size_t \<Rightarrow> gc_heap \<Rightarrow> size_t \<Rightarrow> bool" where
  "tail_object H hp x \<longleftrightarrow> (\<exists>i < BLOCKS_COUNT H. \<exists>k. sized (bytes hp) (blk (START_ALLOCATOR_HEAP (small hp)) i) k
     \<and> x = slot (blk (START_ALLOCATOR_HEAP (small hp)) i) (al k) (slots (al k)) \<and> 80 + al k * slots (al k) < 4096)"

lemma get_object_inside:
  assumes ok: "gc_heap_ok H hp ot" and x: "heap_object H hp ot x"
  shows "\<exists>n. get_object_size hp x = Some n \<and> 0 < unat n \<and> (\<forall>d < unat n. get_object hp (x + of_nat d) = Some (Some x))"
proof -
  consider (small) i k j where "i < BLOCKS_COUNT H" "sized (bytes hp) (blk (START_ALLOCATOR_HEAP (small hp)) i) k"
      "j < slots (al k)" "x = slot (blk (START_ALLOCATOR_HEAP (small hp)) i) (al k) j"
    | (large) n where "n \<in> set_tree ot" "x = key (TREENODES_LIST (large hp)) n"
    using x by (auto simp: heap_object_def small_object_def large_object_def)
  then show ?thesis
  proof cases
    case small
    have k: "size_ok k" and ld: "load64 (bytes hp) (blk (START_ALLOCATOR_HEAP (small hp)) i + 8) = of_nat k"
      using small(2) by (simp_all add: sized_def)
    have k0: "(of_nat k :: size_t) \<noteq> 0" using unat_size_ok [OF k] k by (auto simp: size_ok_iff)
    note a8 = al_bounds [OF k]
    have un: "unat (of_nat (al k) :: size_t) = al k" using a8(2) by (intro unat_of_nat_small) simp
    have "get_object hp (x + of_nat d) = Some (Some x)" if d: "d < al k" for d
    proof -
      have fit: "80 + al k * j + al k \<le> 4096" using slot_fits [of "al k" j] a8(1) small(3) by simp
      have q: "(80 + al k * j + d - 80) div al k = j" using d by simp
      have lt: "80 + al k * j + d < 4096" using fit d by linarith
      have ad: "x + of_nat d = blk (START_ALLOCATOR_HEAP (small hp)) i + of_nat (80 + al k * j + d)"
        by (simp add: small(4) slot_def)
      have "\<not> 80 + al k * j + d < 80" by simp
      then show ?thesis using get_object_small [OF ok small(1) lt ad] ld k0 unat_size_ok [OF k] q by (simp only: small(4)) (simp add: Let_def)
    qed
    then show ?thesis using small_object_range(2) [OF ok small(1-3)] small(4) un a8(1) by (intro exI [of _ "of_nat (al k)"]) simp
  next
    case large
    let ?b = "block (TREENODES_LIST (large hp) n)"
    note f = large_object_found [OF ok large(1)]
    have "get_object hp (x + of_nat d) = Some (Some x)" if d: "d < unat (bsize ?b)" for d
    proof -
      have "unat (of_nat d :: size_t) = d" using d unat_size_t [of "bsize ?b"] by (intro unat_of_nat_small) linarith
      then have "unat (x + of_nat d) = unat x + d" using d f(6) large(2) by (subst unat_add_no_wrap) (simp_all add: reg_hi_def)
      then have "holds_addr (x + of_nat d) ?b" using d f(6) large(2) by (simp add: holds_addr_iff reg_hi_def)
      then show ?thesis using get_object_large_inside [OF ok large(1)] large(2) by simp
    qed
    moreover have "0 < unat (bsize ?b)" using f(5,6) by (simp add: holds_addr_iff reg_hi_def)
    ultimately show ?thesis using large_object_range(2) [OF ok large(1)] large(2) by simp
  qed
qed

lemma get_object_valid:
  assumes ok: "gc_heap_ok H hp ot" and g: "get_object hp a = Some (Some x)"
  shows "heap_object H hp ot x \<or> tail_object H hp x"
proof -
  let ?B = "START_ALLOCATOR_HEAP (small hp)"
  consider (l) "in_large_heap hp a = Some True" | (s) "in_small_heap hp a" | (n) "\<not> in_small_heap hp a" "in_large_heap hp a = Some False"
    using in_large_heap_total [OF ok] by (metis (full_types))
  then show ?thesis
  proof cases
    case l
    then obtain n where "tfind_region (key (TREENODES_LIST (large hp))) (\<lambda>i. holds_addr a (block (TREENODES_LIST (large hp) i))) a ot = Some n"
      "x = key (TREENODES_LIST (large hp)) n" using get_object_large [OF ok l] g by (auto split: option.splits)
    then show ?thesis using tfind_region_sound by (force simp: heap_object_def large_object_def)
  next
    case s
    then obtain i off where io: "i < BLOCKS_COUNT H" "off < 4096" "a = blk ?B i + of_nat off"
      using in_small_heap_offset [OF ok] by blast
    let ?sz = "load64 (bytes hp) (blk ?B i + 8)"
    have r: "80 \<le> off" "?sz \<noteq> 0" "x = slot (blk ?B i) (al (unat ?sz)) ((off - 80) div al (unat ?sz))"
      using get_object_small [OF ok io] g by (simp_all add: Let_def split: if_splits)
    obtain k where k: "sized (bytes hp) (blk ?B i) k" using gc_heap_parts(4) [OF ok io(1)] r(2) by (auto simp: block_ok_def)
    have x: "x = slot (blk ?B i) (al k) ((off - 80) div al k)" using r(3) k unat_size_ok by (simp add: sized_def)
    have n8: "8 \<le> al k" using al_bounds(1) k by (simp add: sized_def)
    have "(off - 80) div al k \<le> slots (al k)" unfolding slots_def by (rule div_le_mono) (use io(2) in linarith)
    then consider "(off - 80) div al k < slots (al k)" | (e) "(off - 80) div al k = slots (al k)" by linarith
    then show ?thesis
    proof cases
      case 1
      then show ?thesis using io(1) k x unfolding heap_object_def small_object_def by blast
    next
      case e
      have "al k * ((off - 80) div al k) \<le> off - 80" by simp
      then have "80 + al k * slots (al k) < 4096" using r(1) io(2) unfolding e by linarith
      then show ?thesis using io(1) k x unfolding e tail_object_def by blast
    qed
  qed (use g in \<open>simp add: get_object_def\<close>)
qed

text \<open>A tail is never mistaken for an object where the slots fill the block.\<close>

lemma traceable_without_tails:
  assumes ok: "gc_heap_ok H hp ot" and nt: "\<And>x. \<not> tail_object H hp x"
    and R: "\<And>x. x \<in> R \<Longrightarrow> \<exists>s e. x \<in> range_roots hp (s, e)"
  shows "traceable H hp ot R"
proof -
  have w: "heap_object H hp ot y" if "y \<in> set (range_objects hp s e)" for y s e
    using that get_object_valid [OF ok] nt by (auto simp: range_objects_def word_object_def split: option.splits)
  have "heap_object H hp ot x" if "reach (kids hp) {} R x" for x
    using that
  proof (induction rule: reach.induct)
    case (root x)
    then show ?case using R w by (auto simp: range_roots_def)
  next
    case (step x y)
    then show ?case using w by (auto simp: kids_def split: option.splits)
  qed
  then show ?thesis by (simp add: traceable_def)
qed

lemma roots_in_ranges: "x \<in> gc_roots stack_of segs sto cs hp \<Longrightarrow> \<exists>s e. x \<in> range_roots hp (s, e)"
  unfolding gc_roots_def by (metis UN_E Un_iff surj_pair)

end
