(* ===== verification/Small_Runs.thy ===== *)
theory Small_Runs
  imports Small_Heap
begin

text \<open>
  The small heap from its initialisation on: the state \<^verbatim>\<open>__init_small_allocator\<close> builds, one request
  in the terms of the program, and sequences of requests by any threads.
\<close>

section \<open>Initialisation\<close>

lemma blk_mult: "B + BLOCK_SIZE * of_nat i = blk B i"
  by (simp add: blk_def BLOCK_SIZE_def)

definition init_node :: "nat \<Rightarrow> size_t \<Rightarrow> nat \<Rightarrow> block_node" where
  "init_node count B i = \<lparr>block_addr = blk B i, next_node = (if i \<noteq> count - 1 then Some (i + 1) else None)\<rparr>"

lemma init_nodes_result:
  "init_nodes k i count B (ns, m) =
     (\<lambda>j. if i \<le> j \<and> j < i + k then init_node count B j else ns j,
      fold (\<lambda>j m. store64 m (blk B j) (blk B j + BLOCK_HEADER_SIZE)) [i..<i + k] m)"
proof (induction k arbitrary: i ns m)
  case (Suc k)
  have u: "[i..<i + Suc k] = i # [i + 1..<i + 1 + k]" using upt_conv_Cons [of i "i + Suc k"] by simp
  have "init_nodes (Suc k) i count B (ns, m)
      = init_nodes k (i + 1) count B (ns(i := init_node count B i), store64 m (blk B i) (blk B i + BLOCK_HEADER_SIZE))"
    by (simp add: Let_def blk_mult init_node_def)
  moreover have "(\<lambda>j. if i + 1 \<le> j \<and> j < i + 1 + k then f j else (ns(i := f i)) j)
      = (\<lambda>j. if i \<le> j \<and> j < i + Suc k then f j else ns j)" for f
  proof
    show "(if i + 1 \<le> j \<and> j < i + 1 + k then f j else (ns(i := f i)) j)
        = (if i \<le> j \<and> j < i + Suc k then f j else ns j)" for j
      by (cases "j = i") auto
  qed
  ultimately show ?case unfolding u by (simp only: Suc fold.simps comp_apply)
qed (auto simp: fun_eq_iff)

lemma init_chain:
  assumes "\<And>j. nx' j = (if j \<noteq> N - 1 then Some (j + 1) else None)" and "i < N"
  shows "chain nx' (Some i) [i..<N]"
  using assms(2)
proof (induction "N - i" arbitrary: i)
  case (Suc n)
  have u: "[i..<N] = i # [i + 1..<N]" using Suc.prems by (simp add: upt_conv_Cons)
  show ?case
  proof (cases "i = N - 1")
    case True
    then show ?thesis using Suc.prems assms(1) [of i] unfolding u by simp
  next
    case False
    then have "chain nx' (Some (i + 1)) [i + 1..<N]" using Suc by (intro Suc.hyps(1)) simp_all
    then show ?thesis using False assms(1) [of i] unfolding u by simp
  qed
qed simp

lemma init_headers:
  fixes m m' :: mem
  assumes room: "small_room H B" and js: "set js \<subseteq> {..<BLOCKS_COUNT H}" and i: "i < BLOCKS_COUNT H"
  defines "m' \<equiv> fold (\<lambda>j m. store64 m (blk B j) (blk B j + BLOCK_HEADER_SIZE)) js m"
  shows "load64 m' (blk B i + 8) = load64 m (blk B i + 8)"
    and "k < 512 \<Longrightarrow> slot_marked m' (blk B i) k = slot_marked m (blk B i) k"
    and "i \<in> set js \<Longrightarrow> load64 m' (blk B i) = blk B i + BLOCK_HEADER_SIZE"
    and "headers_only H B m m'"
proof -
  have "load64 m' (blk B i + 8) = load64 m (blk B i + 8)
    \<and> (\<forall>k < 512. slot_marked m' (blk B i) k = slot_marked m (blk B i) k)
    \<and> load64 m' (blk B i) = (if i \<in> set js then blk B i + BLOCK_HEADER_SIZE else load64 m (blk B i))
    \<and> headers_only H B m m'"
    using js unfolding m'_def
  proof (induction js arbitrary: m)
    case (Cons j js)
    let ?m = "store64 m (blk B j) (blk B j + BLOCK_HEADER_SIZE)"
    have j: "j < BLOCKS_COUNT H" using Cons.prems by simp
    have off: "agree_off (blk B j) m ?m" using store_header_off [of 0 "blk B j" m] by simp
    have "load64 ?m (blk B i + 8) = load64 m (blk B i + 8)
      \<and> (\<forall>k < 512. slot_marked ?m (blk B i) k = slot_marked m (blk B i) k)
      \<and> load64 ?m (blk B i) = (if i = j then blk B i + BLOCK_HEADER_SIZE else load64 m (blk B i))"
    proof (cases "i = j")
      case True
      then show ?thesis using store_header_marked [of 0 _ m "blk B i"]
        by (simp add: load64_store64 load64_store64_apart [OF slider_sep(2)])
    next
      case False
      have "?m (blk B i + of_nat n) = m (blk B i + of_nat n)" if "n < 80" for n
        using off blk_apart [OF room j i False [symmetric], of n] that by (simp add: agree_off_def)
      then show ?thesis using same_block [of ?m "blk B i" m] False by simp
    qed
    then show ?case
      using Cons.IH [of ?m] Cons.prems headers_only_trans [OF headers_only_block [OF j off]]
      by (cases "i = j") simp_all
  qed simp
  then show "load64 m' (blk B i + 8) = load64 m (blk B i + 8)"
    and "k < 512 \<Longrightarrow> slot_marked m' (blk B i) k = slot_marked m (blk B i) k"
    and "i \<in> set js \<Longrightarrow> load64 m' (blk B i) = blk B i + BLOCK_HEADER_SIZE"
    and "headers_only H B m m'" by simp_all
qed

text \<open>The state before initialisation: static storage is zero, and so is a fresh mapping.\<close>

definition fresh :: "size_t \<Rightarrow> size_t \<Rightarrow> small_state \<Rightarrow> mem \<Rightarrow> bool" where
  "fresh H B s m \<longleftrightarrow> SEGREG_LIST s = (\<lambda>_. None) \<and> nodes_cache s = (\<lambda>_ _. None)
     \<and> (\<forall>i < BLOCKS_COUNT H. \<forall>j < 4096. m (blk B i + of_nat j) = 0)"

lemma fresh_header:
  assumes "fresh H B s m" and "i < BLOCKS_COUNT H"
  shows "load64 m (blk B i + 8) = 0" and "k < 512 \<Longrightarrow> \<not> slot_marked m (blk B i) k"
proof -
  have z: "m (blk B i + of_nat j) = 0" if "j < 4096" for j using assms that by (simp add: fresh_def)
  have "load64 m (blk B i + 8) = load64 (\<lambda>_. 0) (blk B i + 8)"
  proof (rule load64_cong)
    fix n :: nat assume "n < 8"
    then show "m (blk B i + 8 + of_nat n) = 0" using z [of "8 + n"] by (simp add: add.assoc)
  qed
  also have "\<dots> = 0" by (rule bit_word_eqI) (simp add: bit_load64)
  finally show "load64 m (blk B i + 8) = 0" .
  assume "k < 512"
  then have "k div 8 < 64" by (simp add: div_less_iff_less_mult)
  then show "\<not> slot_marked m (blk B i) k" using z [of "16 + k div 8"] by (simp add: slot_marked_def add.assoc)
qed

lemma init_small_runs:
  assumes room: "small_room H B" and ne: "B \<noteq> -1" and N: "0 < BLOCKS_COUNT H" and fr: "fresh H B s m"
    and run: "init_small_allocator H B (s, m, g) = (s', m', g')"
  shows "small_inv H s' m' (\<lambda>_. In_empty) [0..<BLOCKS_COUNT H] (\<lambda>_. [])"
    and "START_ALLOCATOR_HEAP s' = B" and "headers_only H B m m'"
    and "i < BLOCKS_COUNT H \<Longrightarrow> load64 m' (blk B i) = blk B i + 80"
    and "i < BLOCKS_COUNT H \<Longrightarrow> k < 512 \<Longrightarrow> \<not> slot_marked m' (blk B i) k"
proof -
  let ?N = "BLOCKS_COUNT H"
  let ?ns = "\<lambda>j. if j < ?N then init_node ?N B j else NODES_LIST s j"
  let ?m = "fold (\<lambda>j m. store64 m (blk B j) (blk B j + BLOCK_HEADER_SIZE)) [0..<?N] m"
  have nodes: "init_nodes ?N 0 ?N B (NODES_LIST s, m) = (?ns, ?m)" using init_nodes_result [of ?N 0] by simp
  have s': "s' = s\<lparr>START_ALLOCATOR_HEAP := B, END_ALLOCATOR_HEAP := B + H, NODES_LIST := ?ns, EMPTY_LIST_HEAD := Some 0\<rparr>"
    and m': "m' = ?m"
    using run ne nodes by (simp_all add: init_small_allocator_def Let_def split: prod.splits)
  note hd = init_headers [OF room, where js = "[0..<?N]" and m = m, folded m']
  show "START_ALLOCATOR_HEAP s' = B" by (simp add: s')
  show "headers_only H B m m'" by (rule hd(4) [OF _ N]) auto
  show "load64 m' (blk B i) = blk B i + 80" if "i < ?N"
    using hd(3) [OF _ that] that by (simp add: BLOCK_HEADER_SIZE_def atLeast0LessThan)
  show "\<not> slot_marked m' (blk B i) k" if "i < ?N" "k < 512" using hd(2) [OF _ that(1)] that fresh_header(2) [OF fr] by (simp add: atLeast0LessThan)
  have "chain (nx s') (Some 0) [0..<?N]"
  proof (subst chain_cong)
    show "chain (\<lambda>j. if j \<noteq> ?N - 1 then Some (j + 1) else None) (Some 0) [0..<?N]" by (rule init_chain) (simp_all add: N)
  qed (simp add: nx_def s' init_node_def)
  then have "lists_ok ?N s' (\<lambda>_. In_empty) [0..<?N] (\<lambda>_. [])"
    using fr by (auto simp: lists_ok_def s' fresh_def)
  moreover have "load64 m' (blk B i + 8) = 0" if "i < ?N" for i
    using hd(1) [OF _ that] that fresh_header(1) [OF fr] by (simp add: atLeast0LessThan)
  ultimately show "small_inv H s' m' (\<lambda>_. In_empty) [0..<?N] (\<lambda>_. [])"
    using room by (simp add: small_inv_def s' init_node_def)
qed



section \<open>Requests\<close>

definition small_ok :: "size_t \<Rightarrow> small_state \<Rightarrow> mem \<Rightarrow> (nat \<Rightarrow> place) \<Rightarrow> bool" where
  "small_ok H s m pl \<longleftrightarrow> (\<exists>es ss. small_inv H s m pl es ss)"

text \<open>The bytes of an object: its aligned size from its address on.\<close>

definition obj_range :: "size_t \<times> size_t \<Rightarrow> nat set" where
  "obj_range = (\<lambda>(a, sz). {unat a ..< unat a + unat (GET_SIZE_WITH_ALIGNMENT sz)})"

lemma small_size:
  fixes sz :: size_t
  assumes "1 \<le> sz" and "sz \<le> MAX_OBJECT_SIZE"
  shows "size_ok (unat sz)" and "of_nat (unat sz) = sz"
  using assms by (simp_all add: size_ok_iff MAX_OBJECT_SIZE_def word_le_nat_alt)

lemma obj_range_slot:
  assumes "small_room H B" and "i < BLOCKS_COUNT H" and "size_ok k" and "j < slots (al k)"
  shows "obj_range (slot (blk B i) (al k) j, of_nat k) = slot_range (blk B i) k j"
    and "8 dvd unat (slot (blk B i) (al k) j - B)"
    and "slot (blk B i) (al k) j \<noteq> 0"
proof -
  have u: "unat (slot (blk B i) (al k) j) = unat (blk B i) + 80 + al k * j"
    using assms(4) by (intro unat_slot [OF blk_end [OF assms(1,2)] assms(3)]) simp
  then show "obj_range (slot (blk B i) (al k) j, of_nat k) = slot_range (blk B i) k j"
    by (simp add: obj_range_def slot_range_def align_size_ok [OF assms(3)])
  show "slot (blk B i) (al k) j \<noteq> 0" using u by (metis add_is_0 unat_0 zero_neq_numeral)
  have "B \<le> slot (blk B i) (al k) j" using u unat_blk [OF assms(1,2)] by (simp add: word_le_nat_alt)
  then have "unat (slot (blk B i) (al k) j - B) = 4096 * i + 80 + al k * j"
    using u unat_blk [OF assms(1,2)] by (simp add: unat_sub_no_wrap)
  moreover obtain q where "al k = 8 * q" using al_bounds(3) [OF assms(3)] by (auto elim: dvdE)
  then have "4096 * i + 80 + al k * j = 8 * (512 * i + 10 + q * j)" by simp
  ultimately show "8 dvd unat (slot (blk B i) (al k) j - B)" by (metis dvd_triv_left)
qed

text \<open>
  Sequences of successful requests, with the objects they returned: by any threads, in any order, for
  any sizes.
\<close>

inductive small_run :: "small_state \<times> mem \<Rightarrow> small_state \<times> mem \<Rightarrow> (size_t \<times> size_t) list \<Rightarrow> bool"
  for S where
  start: "small_run S S []"
| request: "small_run S (s, m) objs \<Longrightarrow> 1 \<le> sz \<Longrightarrow> sz \<le> MAX_OBJECT_SIZE \<Longrightarrow>
    allocate_small_object t sz (s, m, g) = Some (a, s', m', g') \<Longrightarrow> a \<noteq> 0 \<Longrightarrow>
    small_run S (s', m') ((a, sz) # objs)"

text \<open>One request, in the terms of the program.\<close>

lemma small_request:
  assumes ok: "small_ok H s m pl" and sz: "1 \<le> sz" "sz \<le> MAX_OBJECT_SIZE"
  shows "\<exists>a s' m' g' pl'. allocate_small_object t sz (s, m, g) = Some (a, s', m', g')
    \<and> small_ok H s' m' pl' \<and> START_ALLOCATOR_HEAP s' = START_ALLOCATOR_HEAP s
    \<and> headers_only H (START_ALLOCATOR_HEAP s) m m'
    \<and> (a = 0 \<and> no_room_for H s m pl t (unat sz)
       \<or> a \<noteq> 0 \<and> 8 dvd unat (a - START_ALLOCATOR_HEAP s)
         \<and> obj_range (a, sz) \<subseteq> free_bytes H s m pl
         \<and> free_bytes H s' m' pl' \<subseteq> free_bytes H s m pl - obj_range (a, sz))"
proof -
  let ?k = "unat sz" and ?B = "START_ALLOCATOR_HEAP s"
  note k = small_size [OF sz]
  obtain es ss where inv: "small_inv H s m pl es ss" using ok by (auto simp: small_ok_def)
  then have room: "small_room H ?B" by (simp add: small_inv_def)
  obtain a s' m' g' pl' es' ss' where run: "allocate_small_object t (of_nat ?k) (s, m, g) = Some (a, s', m', g')"
    and i': "small_inv H s' m' pl' es' ss'" and B: "START_ALLOCATOR_HEAP s' = ?B" and ho: "headers_only H ?B m m'"
    and res: "a = 0 \<and> no_room_for H s m pl t ?k
        \<and> (\<exists>m0. m' = clear_blocks s' (listed ss') m0 \<and> free_bytes H s' m0 pl' \<subseteq> free_bytes H s m pl)
      \<or> (\<exists>i < BLOCKS_COUNT H. \<exists>j < slots (al ?k). a = slot (blk ?B i) (al ?k) j
          \<and> slot_range (blk ?B i) ?k j \<subseteq> free_bytes H s m pl
          \<and> free_bytes H s' m' pl' \<subseteq> free_bytes H s m pl - slot_range (blk ?B i) ?k j)"
    using allocate_small_runs [OF inv k(1), of t g] by blast
  have "a = 0 \<and> no_room_for H s m pl t ?k
       \<or> a \<noteq> 0 \<and> 8 dvd unat (a - ?B) \<and> obj_range (a, sz) \<subseteq> free_bytes H s m pl
         \<and> free_bytes H s' m' pl' \<subseteq> free_bytes H s m pl - obj_range (a, sz)"
    using res
  proof
    assume "\<exists>i < BLOCKS_COUNT H. \<exists>j < slots (al ?k). a = slot (blk ?B i) (al ?k) j
      \<and> slot_range (blk ?B i) ?k j \<subseteq> free_bytes H s m pl
      \<and> free_bytes H s' m' pl' \<subseteq> free_bytes H s m pl - slot_range (blk ?B i) ?k j"
    then obtain i j where ij: "i < BLOCKS_COUNT H" "j < slots (al ?k)" "a = slot (blk ?B i) (al ?k) j"
      "slot_range (blk ?B i) ?k j \<subseteq> free_bytes H s m pl"
      "free_bytes H s' m' pl' \<subseteq> free_bytes H s m pl - slot_range (blk ?B i) ?k j" by blast
    then show ?thesis using obj_range_slot [OF room ij(1) k(1) ij(2)] k(2) by simp
  qed simp
  moreover have "small_ok H s' m' pl'" using i' by (auto simp: small_ok_def)
  ultimately show ?thesis using run B ho unfolding k(2) by blast
qed

lemma small_run_inv:
  assumes "small_run (s0, m0) (s, m) objs" and "small_ok H s0 m0 pl0"
  shows "\<exists>pl. small_ok H s m pl \<and> START_ALLOCATOR_HEAP s = START_ALLOCATOR_HEAP s0
    \<and> headers_only H (START_ALLOCATOR_HEAP s0) m0 m
    \<and> free_bytes H s m pl \<subseteq> free_bytes H s0 m0 pl0 - (\<Union>ob \<in> set objs. obj_range ob)
    \<and> (\<forall>(a, sz) \<in> set objs. a \<noteq> 0 \<and> 8 dvd unat (a - START_ALLOCATOR_HEAP s0) \<and> obj_range (a, sz) \<subseteq> free_bytes H s0 m0 pl0)
    \<and> pairwise (\<lambda>x y. obj_range x \<inter> obj_range y = {}) (set objs) \<and> distinct objs"
  using assms
proof (induction "(s, m)" objs arbitrary: s m rule: small_run.induct)
  case start
  then show ?case by (intro exI [of _ pl0]) simp
next
  case (request s m objs sz t g a s' m' g')
  let ?B = "START_ALLOCATOR_HEAP s0" and ?F0 = "free_bytes H s0 m0 pl0"
  obtain pl where ok: "small_ok H s m pl" and B: "START_ALLOCATOR_HEAP s = ?B" and ho: "headers_only H ?B m0 m"
    and F: "free_bytes H s m pl \<subseteq> ?F0 - (\<Union>ob \<in> set objs. obj_range ob)"
    and all: "\<forall>(a, sz) \<in> set objs. a \<noteq> 0 \<and> 8 dvd unat (a - ?B) \<and> obj_range (a, sz) \<subseteq> ?F0"
    and pw: "pairwise (\<lambda>x y. obj_range x \<inter> obj_range y = {}) (set objs)" and di: "distinct objs"
    using request.hyps(2) [OF request.prems] by blast
  obtain pl' where ok': "small_ok H s' m' pl'" and B': "START_ALLOCATOR_HEAP s' = START_ALLOCATOR_HEAP s"
    and ho': "headers_only H (START_ALLOCATOR_HEAP s) m m'" and al: "8 dvd unat (a - START_ALLOCATOR_HEAP s)"
    and sub: "obj_range (a, sz) \<subseteq> free_bytes H s m pl"
    and F': "free_bytes H s' m' pl' \<subseteq> free_bytes H s m pl - obj_range (a, sz)"
    using small_request [OF ok request.hyps(3,4), of t g] request.hyps(5,6) by auto
  have dj: "obj_range (a, sz) \<inter> obj_range ob = {}" if "ob \<in> set objs" for ob using sub F that by blast
  have "unat (GET_SIZE_WITH_ALIGNMENT sz) = al (unat sz)"
    using align_size_ok small_size [OF request.hyps(3,4)] by metis
  then have "obj_range (a, sz) \<noteq> {}"
    using al_bounds(1) [OF small_size(1) [OF request.hyps(3,4)]] by (simp add: obj_range_def)
  then have "(a, sz) \<notin> set objs" using dj by blast
  then show ?case
    using ok' B B' headers_only_trans [OF ho] ho' F F' sub al request.hyps(6) all pw di dj
    by (intro exI [of _ pl']) (auto simp: pairwise_insert Int_commute)
qed



section \<open>A refused request\<close>

lemma clear_blocks_marks:
  assumes inv: "small_inv H s m pl es ss" and xs: "set xs \<subseteq> {..<BLOCKS_COUNT H}" and i: "i \<in> set xs" and n: "n < 512"
  shows "\<not> slot_marked (clear_blocks s xs m) (blk (START_ALLOCATOR_HEAP s) i) n"
proof -
  let ?B = "START_ALLOCATOR_HEAP s"
  have room: "small_room H ?B" and b: "\<And>c. c < BLOCKS_COUNT H \<Longrightarrow> block_addr (NODES_LIST s c) = blk ?B c"
    using inv by (simp_all add: small_inv_def)
  have ib: "i < BLOCKS_COUNT H" using xs i by auto
  have keep: "\<not> slot_marked (clear_blocks s ys m) (blk ?B i) n"
    if "\<not> slot_marked m (blk ?B i) n" "set ys \<subseteq> {..<BLOCKS_COUNT H}" for ys m
    using that
  proof (induction ys arbitrary: m)
    case (Cons c ys)
    have c: "c < BLOCKS_COUNT H" using Cons.prems(2) by simp
    have "\<not> slot_marked (cleared (blk ?B c) m) (blk ?B i) n"
    proof (cases "c = i")
      case True
      then show ?thesis using cleared_marks [OF n] by simp
    next
      case False
      have "cleared (blk ?B c) m (blk ?B i + of_nat j) = m (blk ?B i + of_nat j)" if "j < 80" for j
        using cleared_off [of "blk ?B c" m] blk_apart [OF room c ib False, of j] that by (simp add: agree_off_def)
      then show ?thesis using same_block(3) [OF _ n, of "cleared (blk ?B c) m" "blk ?B i" m] Cons.prems(1) by simp
    qed
    then show ?case using Cons b [OF c] by (simp add: clear_blocks_def)
  qed (simp add: clear_blocks_def)
  obtain ys zs where "xs = ys @ i # zs" using i split_list by metis
  then have "clear_blocks s xs m = clear_blocks s zs (cleared (blk ?B i) (clear_blocks s ys m))"
    by (simp add: clear_blocks_def b [OF ib])
  then show ?thesis using keep [of _ zs] cleared_marks [OF n] xs \<open>xs = ys @ i # zs\<close> by simp
qed

lemma clear_blocks_header:
  assumes inv: "small_inv H s m pl es ss" and xs: "set xs \<subseteq> {..<BLOCKS_COUNT H}" and i: "i < BLOCKS_COUNT H"
  shows "load64 (clear_blocks s xs m) (blk (START_ALLOCATOR_HEAP s) i) = load64 m (blk (START_ALLOCATOR_HEAP s) i)"
  using xs
proof (induction xs arbitrary: m)
  case (Cons c xs)
  let ?B = "START_ALLOCATOR_HEAP s"
  have room: "small_room H ?B" using inv by (simp add: small_inv_def)
  have c: "c < BLOCKS_COUNT H" "block_addr (NODES_LIST s c) = blk ?B c"
    using inv Cons.prems by (simp_all add: small_inv_def)
  have "load64 (cleared (blk ?B c) m) (blk ?B i) = load64 m (blk ?B i)"
  proof (cases "c = i")
    case False
    have "cleared (blk ?B c) m (blk ?B i + of_nat j) = m (blk ?B i + of_nat j)" if "j < 80" for j
      using cleared_off [of "blk ?B c" m] blk_apart [OF room c(1) i False, of j] that by (simp add: agree_off_def)
    then show ?thesis using same_block(1) [of "cleared (blk ?B c) m" "blk ?B i" m] by simp
  qed (simp add: cleared_header)
  then show ?case using Cons c(2) by (simp add: clear_blocks_def)
qed (simp add: clear_blocks_def)

text \<open>
  When no block is left for the size, the request is refused: nothing changes but the bitmaps, and
  those of all blocks in the lists of other sizes are emptied.
\<close>

lemma request_refused:
  assumes inv: "small_inv H s m pl es ss" and k: "size_ok k"
    and none: "SEGREG_LIST s k = None" "EMPTY_LIST_HEAD s = None" "nodes_cache s t k = None"
  shows "\<exists>m' g'. allocate_small_object t (of_nat k) (s, m, g) = Some (0, s, m', g')
    \<and> small_inv H s m' pl es ss \<and> headers_only H (START_ALLOCATOR_HEAP s) m m'
    \<and> (\<forall>i < BLOCKS_COUNT H. (\<exists>k'. size_ok k' \<and> pl i = In_segreg k') \<longrightarrow>
         (\<forall>n < 512. \<not> slot_marked m' (blk (START_ALLOCATOR_HEAP s) i) n))
    \<and> (\<forall>i < BLOCKS_COUNT H. load64 m' (blk (START_ALLOCATOR_HEAP s) i) = load64 m (blk (START_ALLOCATOR_HEAP s) i))"
proof -
  have u: "unat (of_nat k :: size_t) = k" by (rule unat_size_ok [OF k])
  note fill = fill_all_runs [OF inv]
  obtain res g1 where cs: "check_the_space (of_nat (al k)) g = (res, g1)" by fastforce
  have "find_block t (of_nat k) (of_nat (al k)) None s m g1 = Some (None, s, clear_blocks s (listed ss) m, g1)"
    using fill(1) by (subst find_block.simps) (simp add: u get_block_from_segreg_list_def allocate_new_block_def none)
  then have "allocate_small_object t (of_nat k) (s, m, g) = Some (0, s, clear_blocks s (listed ss) m, g1)"
    by (simp add: allocate_small_object_def align_word [OF k] cs u none)
  moreover have "\<not> slot_marked (clear_blocks s (listed ss) m) (blk (START_ALLOCATOR_HEAP s) i) n"
    if "i < BLOCKS_COUNT H" "\<exists>k'. size_ok k' \<and> pl i = In_segreg k'" "n < 512" for i n
    using clear_blocks_marks [OF inv, of "listed ss" i n] fill(4) that by auto
  moreover have "set (listed ss) \<subseteq> {..<BLOCKS_COUNT H}" using fill(4) by auto
  ultimately show ?thesis using fill(2,3) clear_blocks_header [OF inv, of "listed ss"] by blast
qed

text \<open>A request is served from the slot at the slider of the first listed block when that slot is unmarked.\<close>

lemma head_slot_returned:
  assumes inv: "small_inv H s m pl es ss" and k: "size_ok k" and hd: "SEGREG_LIST s k = Some i"
    and ca: "nodes_cache s t k = None" and j: "j < slots (al k)"
    and ld: "load64 m (blk (START_ALLOCATOR_HEAP s) i) = slot (blk (START_ALLOCATOR_HEAP s) i) (al k) j"
    and un: "\<not> slot_marked m (blk (START_ALLOCATOR_HEAP s) i) j"
  shows "\<exists>s' m' g'. allocate_small_object t (of_nat k) (s, m, g)
    = Some (slot (blk (START_ALLOCATOR_HEAP s) i) (al k) j, s', m', g')"
proof -
  let ?B = "START_ALLOCATOR_HEAP s"
  let ?b = "blk ?B i"
  have u: "unat (of_nat k :: size_t) = k" by (rule unat_size_ok [OF k])
  obtain res g1 where cs: "check_the_space (of_nat (al k)) g = (res, g1)" by fastforce
  obtain s1 where get: "get_block_from_segreg_list k s = (Some i, s1)" and i: "i < BLOCKS_COUNT H" "pl i = In_segreg k"
    and s1: "START_ALLOCATOR_HEAP s1 = ?B" "NODES_LIST s1 = NODES_LIST s"
    using take_segreg [OF inv k hd] by blast
  have b: "block_addr (NODES_LIST s i) = ?b" and room: "small_room H ?B" and op: "opened m ?b k"
    using inv i by (auto simp: small_inv_def)
  have ld8: "load64 m (?b + 8) = of_nat k" using op by (simp add: opened_def sized_def)
  have bit: "get_bit_by_address ?B m (slot ?b (al k) j) = Some 0"
    using get_bit_slot [OF blk_block [OF room i(1)] _ al_bounds(1) [OF k] j] un by (simp add: ld8 align_size_ok [OF k])
  have guard: "slot ?b (al k) j + of_nat (al k) \<le> ?b + BLOCK_SIZE"
    using slot_guard [OF blk_end [OF room i(1)] k, of j] j by simp
  have "slide_block s1 i (of_nat (al k)) m = Some (True, slot ?b (al k) j, store64 m ?b (slot ?b (al k) j))"
    unfolding slide_block_def Let_def
    by (subst slide.simps) (simp add: s1 b GET_SLIDER_POSITION_ADDR_def ld bit guard)
  then have "find_block t (of_nat k) (of_nat (al k)) None s m g1
      = Some (Some i, s1, store64 m ?b (slot ?b (al k) j), g1)"
    using get by (subst find_block.simps) (simp add: u)
  then show ?thesis
    by (simp add: allocate_small_object_def align_word [OF k] cs u ca s1 b Let_def GET_SLIDER_POSITION_ADDR_def load64_store64)
qed

end
