(* ===== verification/Sweep_Small.thy ===== *)
theory Sweep_Small
  imports Small_Runs
begin

text \<open>
  \<^verbatim>\<open>sweep_small_heap\<close> of \<^verbatim>\<open>sweeper/sweep.c\<close>: every block goes to the list of empty blocks or to the list
  of its size, and its slider back to the first slot.
\<close>

definition set_next :: "nat \<Rightarrow> nat option \<Rightarrow> small_state \<Rightarrow> small_state" where
  "set_next i p s = s\<lparr>NODES_LIST := (NODES_LIST s)(i := (NODES_LIST s i)\<lparr>next_node := p\<rparr>)\<rparr>"

definition set_empty_list_head :: "nat option \<Rightarrow> small_state \<Rightarrow> small_state" where
  "set_empty_list_head p s = s\<lparr>EMPTY_LIST_HEAD := p\<rparr>"

definition set_segreg_list_head :: "nat \<Rightarrow> nat option \<Rightarrow> small_state \<Rightarrow> small_state" where
  "set_segreg_list_head k p s = s\<lparr>SEGREG_LIST := (SEGREG_LIST s)(k := p)\<rparr>"

text \<open>
  The loop body for block \<open>i\<close>. A size in the header that is not an index of \<^verbatim>\<open>SEGREG_LIST\<close> is an access
  out of its bounds.
\<close>

definition sweep_block :: "nat \<Rightarrow> small_state \<times> mem \<Rightarrow> (small_state \<times> mem) option" where
  "sweep_block i = (\<lambda>(s, m).
     let b = block_addr (NODES_LIST s i);
         m = store64 m (GET_SLIDER_POSITION_ADDR b) (b + BLOCK_HEADER_SIZE);
         s = set_next i None s
     in if is_bitmap_empty m b then
          (let m = store64 m (GET_OBJECT_SIZE_ADDR b) 0 in
           if EMPTY_LIST_HEAD s = None then Some (set_empty_list_head (Some i) s, m)
           else Some (set_empty_list_head (Some i) (set_next i (EMPTY_LIST_HEAD s) s), m))
        else
          (let object_size = load64 m (GET_OBJECT_SIZE_ADDR b) in
           if unat object_size \<ge> OBJECT_SIZE_UPPER_BOUND then None
           else if SEGREG_LIST s (unat object_size) = None
             then Some (set_segreg_list_head (unat object_size) (Some i) s, m)
           else Some (set_segreg_list_head (unat object_size) (Some i)
                       (set_next i (SEGREG_LIST s (unat object_size)) s), m)))"

fun sweep_blocks :: "nat \<Rightarrow> nat \<Rightarrow> small_state \<times> mem \<Rightarrow> (small_state \<times> mem) option" where
  "sweep_blocks 0 i sm = Some sm"
| "sweep_blocks (Suc k) i sm = do { sm \<leftarrow> sweep_block i sm; sweep_blocks k (i + 1) sm }"

definition sweep_small_heap :: "size_t \<Rightarrow> small_state \<times> mem \<Rightarrow> (small_state \<times> mem) option" where
  "sweep_small_heap HEAP_SIZE = (\<lambda>(s, m).
     let s = set_empty_list_head None s;
         s = fold (\<lambda>i. set_segreg_list_head i None) [0..<OBJECT_SIZE_UPPER_BOUND] s
     in sweep_blocks (BLOCKS_COUNT HEAP_SIZE) 0 (s, m))"


section \<open>One block\<close>

text \<open>Where a block goes, by the bitmap and the size it has before the sweep.\<close>

definition destination :: "mem \<Rightarrow> size_t \<Rightarrow> place" where
  "destination m b = (if \<forall>n < 512. \<not> slot_marked m b n then In_empty else In_segreg (unat (load64 m (b + 8))))"

definition sweepable :: "mem \<Rightarrow> size_t \<Rightarrow> bool" where
  "sweepable m b \<longleftrightarrow> (\<forall>n < 512. \<not> slot_marked m b n) \<or> (\<exists>k. sized m b k)"

definition swept_block :: "mem \<Rightarrow> size_t \<Rightarrow> mem \<Rightarrow> bool" where
  "swept_block m b m' \<longleftrightarrow> (\<forall>n < 512. slot_marked m' b n = slot_marked m b n) \<and> load64 m' b = b + 80
     \<and> load64 m' (b + 8) = (if destination m b = In_empty then 0 else load64 m (b + 8))"

lemma sweep_block_memory:
  assumes "m1 = store64 m b (b + BLOCK_HEADER_SIZE)" and "m' = (if destination m b = In_empty then store64 m1 (b + 8) 0 else m1)"
  shows "swept_block m b m'" and "agree_off b m m'"
proof -
  have "\<And>n. n < 512 \<Longrightarrow> slot_marked m1 b n = slot_marked m b n" "load64 m1 b = b + 80" "load64 m1 (b + 8) = load64 m (b + 8)"
    "agree_off b m m1"
    using store_header_marked [of 0 _ m b] store_header_off [of 0 b m] load64_store64_apart [OF slider_sep(2), of m b]
    by (simp_all add: assms(1) load64_store64 BLOCK_HEADER_SIZE_def)
  then show "swept_block m b m'" "agree_off b m m'"
    using store_header_marked [of 8 _ m1 b] store_header_off [of 8 b m1] load64_store64_apart [OF slider_sep(1), of m1]
      agree_off_trans [of b m m1]
    by (auto simp: swept_block_def assms(2) load64_store64)
qed

lemma set_next_simps [simp]:
  "START_ALLOCATOR_HEAP (set_next i p s) = START_ALLOCATOR_HEAP s" "END_ALLOCATOR_HEAP (set_next i p s) = END_ALLOCATOR_HEAP s"
  "SEGREG_LIST (set_next i p s) = SEGREG_LIST s" "EMPTY_LIST_HEAD (set_next i p s) = EMPTY_LIST_HEAD s"
  "nodes_cache (set_next i p s) = nodes_cache s" "block_addr (NODES_LIST (set_next i p s) j) = block_addr (NODES_LIST s j)"
  "nx (set_next i p s) = (nx s)(i := p)" "set_next i p (set_next i q s) = set_next i p s"
  by (simp_all add: set_next_def nx_def fun_eq_iff)

lemma set_head_simps [simp]:
  "START_ALLOCATOR_HEAP (set_empty_list_head p s) = START_ALLOCATOR_HEAP s" "END_ALLOCATOR_HEAP (set_empty_list_head p s) = END_ALLOCATOR_HEAP s"
  "SEGREG_LIST (set_empty_list_head p s) = SEGREG_LIST s" "EMPTY_LIST_HEAD (set_empty_list_head p s) = p"
  "nodes_cache (set_empty_list_head p s) = nodes_cache s" "NODES_LIST (set_empty_list_head p s) = NODES_LIST s"
  "nx (set_empty_list_head p s) = nx s"
  "START_ALLOCATOR_HEAP (set_segreg_list_head k p s) = START_ALLOCATOR_HEAP s" "END_ALLOCATOR_HEAP (set_segreg_list_head k p s) = END_ALLOCATOR_HEAP s"
  "SEGREG_LIST (set_segreg_list_head k p s) = (SEGREG_LIST s)(k := p)" "EMPTY_LIST_HEAD (set_segreg_list_head k p s) = EMPTY_LIST_HEAD s"
  "nodes_cache (set_segreg_list_head k p s) = nodes_cache s" "NODES_LIST (set_segreg_list_head k p s) = NODES_LIST s"
  "nx (set_segreg_list_head k p s) = nx s"
  by (simp_all add: set_empty_list_head_def set_segreg_list_head_def nx_def fun_eq_iff)

text \<open>The lists after block \<open>i\<close>, from the lists of the blocks before it.\<close>

lemma lists_push:
  assumes li: "lists_ok i s pl es ss"
    and s': "s' = (case pl i of
        In_empty \<Rightarrow> set_empty_list_head (Some i) (set_next i (EMPTY_LIST_HEAD s) s)
      | In_segreg k \<Rightarrow> set_segreg_list_head k (Some i) (set_next i (SEGREG_LIST s k) s))"
    and p: "pl i = In_empty \<or> (\<exists>k. size_ok k \<and> pl i = In_segreg k)"
  shows "\<exists>es' ss'. lists_ok (Suc i) s' pl es' ss'"
proof -
  have old: "chain ((nx s)(i := p)) q xs = chain (nx s) q xs" if "set xs \<subseteq> {..<i}" for p q xs
    using that by (intro chain_cong) auto
  note e = lists_empty [OF li] and sg = lists_segreg [OF li] and ca = lists_cache [OF li]
  have es: "set es \<subseteq> {..<i}" and ss: "\<And>k. size_ok k \<Longrightarrow> set (ss k) \<subseteq> {..<i}" using e(2) sg(2) by auto
  consider (empty) "pl i = In_empty" | (seg) k where "size_ok k" "pl i = In_segreg k" using p by blast
  then show ?thesis
  proof cases
    case empty
    then have "lists_ok (Suc i) s' pl (i # es) ss"
      using e sg ca es ss by (auto simp: lists_ok_def s' old less_Suc_eq)
    then show ?thesis by blast
  next
    case (seg k)
    then have "lists_ok (Suc i) s' pl es (ss(k := i # ss k))"
      using e sg ca es ss by (auto simp: lists_ok_def s' old less_Suc_eq)
    then show ?thesis by blast
  qed
qed


definition same_frame :: "small_state \<Rightarrow> small_state \<Rightarrow> bool" where
  "same_frame s s' \<longleftrightarrow> START_ALLOCATOR_HEAP s' = START_ALLOCATOR_HEAP s \<and> END_ALLOCATOR_HEAP s' = END_ALLOCATOR_HEAP s
     \<and> nodes_cache s' = nodes_cache s \<and> (\<forall>i. block_addr (NODES_LIST s' i) = block_addr (NODES_LIST s i))"

lemma same_frame_trans: "same_frame s s' \<Longrightarrow> same_frame s' s'' \<Longrightarrow> same_frame s s''"
  by (simp add: same_frame_def)

lemma sweep_block_runs:
  assumes b: "block_addr (NODES_LIST s i) = b" and sw: "sweepable m b" and pl: "pl i = destination m b"
    and li: "lists_ok i s pl es ss"
  shows "\<exists>s' m' es' ss'. sweep_block i (s, m) = Some (s', m') \<and> lists_ok (Suc i) s' pl es' ss'
    \<and> swept_block m b m' \<and> agree_off b m m' \<and> same_frame s s'"
proof -
  let ?m1 = "store64 m b (b + BLOCK_HEADER_SIZE)"
  let ?m2 = "if destination m b = In_empty then store64 ?m1 (b + 8) 0 else ?m1"
  let ?k = "unat (load64 m (b + 8))"
  let ?s = "case pl i of
        In_empty \<Rightarrow> set_empty_list_head (Some i) (set_next i (EMPTY_LIST_HEAD s) s)
      | In_segreg k \<Rightarrow> set_segreg_list_head k (Some i) (set_next i (SEGREG_LIST s k) s)"
  have em: "is_bitmap_empty ?m1 b \<longleftrightarrow> (\<forall>n < 512. \<not> slot_marked m b n)"
    using store_header_marked [of 0 _ m b] by (simp add: is_bitmap_empty_marks)
  have ld: "load64 ?m1 (b + 8) = load64 m (b + 8)" by (rule load64_store64_apart [OF slider_sep(2)])
  have p: "pl i = In_empty \<or> (\<exists>k. size_ok k \<and> pl i = In_segreg k)"
    using sw pl by (auto simp: sweepable_def destination_def sized_def unat_size_ok)
  have run: "sweep_block i (s, m) = Some (?s, ?m2)"
  proof (cases "\<forall>n < 512. \<not> slot_marked m b n")
    case True
    then have "destination m b = In_empty" by (simp add: destination_def)
    moreover have "is_bitmap_empty ?m1 b" using em True by blast
    ultimately show ?thesis
      using pl b by (simp add: sweep_block_def Let_def GET_SLIDER_POSITION_ADDR_def GET_OBJECT_SIZE_ADDR_def)
  next
    case False
    then have d: "destination m b = In_segreg ?k" by (simp add: destination_def)
    then have "?k < OBJECT_SIZE_UPPER_BOUND" using p pl by (auto simp: size_ok_def)
    moreover have "\<not> is_bitmap_empty ?m1 b" using em False by blast
    ultimately show ?thesis
      using pl b d ld
      by (simp add: sweep_block_def Let_def GET_SLIDER_POSITION_ADDR_def GET_OBJECT_SIZE_ADDR_def)
  qed
  obtain es' ss' where "lists_ok (Suc i) ?s pl es' ss'" using lists_push [OF li refl p] by blast
  moreover have "same_frame s ?s" using p by (auto simp: same_frame_def)
  ultimately show ?thesis using run sweep_block_memory [where m = m and b = b, OF refl refl] by blast
qed

lemma swept_cong:
  assumes "load64 m b = load64 m0 b" and "load64 m (b + 8) = load64 m0 (b + 8)"
    and "\<And>n. n < 512 \<Longrightarrow> slot_marked m b n = slot_marked m0 b n"
  shows "sweepable m b = sweepable m0 b" and "destination m b = destination m0 b" and "swept_block m b m' = swept_block m0 b m'"
proof -
  have "sized m b = sized m0 b" by (simp add: fun_eq_iff sized_def assms)
  then show "sweepable m b = sweepable m0 b" using assms(3) by (auto simp: sweepable_def)
  show d: "destination m b = destination m0 b" using assms(2,3) by (auto simp: destination_def)
  show "swept_block m b m' = swept_block m0 b m'" using assms(2,3) by (auto simp: swept_block_def d)
qed

lemma sweep_blocks_runs:
  assumes "i + k = BLOCKS_COUNT H" and room: "small_room H B"
    and "\<And>j. j < BLOCKS_COUNT H \<Longrightarrow> block_addr (NODES_LIST s j) = blk B j"
    and "\<And>j. i \<le> j \<Longrightarrow> j < BLOCKS_COUNT H \<Longrightarrow> sweepable m (blk B j) \<and> pl j = destination m (blk B j)"
    and "lists_ok i s pl es ss"
  shows "\<exists>s' m' es' ss'. sweep_blocks k i (s, m) = Some (s', m') \<and> lists_ok (BLOCKS_COUNT H) s' pl es' ss'
    \<and> (\<forall>j. i \<le> j \<and> j < BLOCKS_COUNT H \<longrightarrow> swept_block m (blk B j) m')
    \<and> (\<forall>j < i. load64 m' (blk B j) = load64 m (blk B j) \<and> load64 m' (blk B j + 8) = load64 m (blk B j + 8)
         \<and> (\<forall>n < 512. slot_marked m' (blk B j) n = slot_marked m (blk B j) n))
    \<and> headers_only H B m m' \<and> same_frame s s'"
  using assms(1,3-5)
proof (induction k arbitrary: i s m es ss)
  case 0
  then show ?case by (auto simp: same_frame_def)
next
  case (Suc k)
  have i: "i < BLOCKS_COUNT H" using Suc.prems(1) by simp
  obtain s1 m1 es1 ss1 where run: "sweep_block i (s, m) = Some (s1, m1)" and li: "lists_ok (Suc i) s1 pl es1 ss1"
    and sw: "swept_block m (blk B i) m1" and off: "agree_off (blk B i) m m1" and sb: "same_frame s s1"
    using sweep_block_runs [OF Suc.prems(2) [OF i] _ _ Suc.prems(4)] Suc.prems(3) [of i] i by blast
  have same: "load64 m1 (blk B j) = load64 m (blk B j)" "load64 m1 (blk B j + 8) = load64 m (blk B j + 8)"
    "n < 512 \<Longrightarrow> slot_marked m1 (blk B j) n = slot_marked m (blk B j) n"
    if "j < BLOCKS_COUNT H" "j \<noteq> i" for j n
  proof -
    have "m1 (blk B j + of_nat a) = m (blk B j + of_nat a)" if "a < 80" for a
      using off blk_apart [OF room i \<open>j < BLOCKS_COUNT H\<close> \<open>j \<noteq> i\<close> [symmetric], of a] that by (simp add: agree_off_def)
    note s = same_block [of m1 "blk B j" m, OF this]
    show "load64 m1 (blk B j) = load64 m (blk B j)" "load64 m1 (blk B j + 8) = load64 m (blk B j + 8)"
      "n < 512 \<Longrightarrow> slot_marked m1 (blk B j) n = slot_marked m (blk B j) n" using s by auto
  qed
  have cong: "sweepable m1 (blk B j) = sweepable m (blk B j)" "destination m1 (blk B j) = destination m (blk B j)"
    "swept_block m1 (blk B j) m' = swept_block m (blk B j) m'" if "j < BLOCKS_COUNT H" "j \<noteq> i" for j m'
    using swept_cong [OF same [OF that]] by auto
  have "i + 1 + k = BLOCKS_COUNT H" using Suc.prems(1) by simp
  moreover have "block_addr (NODES_LIST s1 j) = blk B j" if "j < BLOCKS_COUNT H" for j
    using Suc.prems(2) [OF that] sb by (simp add: same_frame_def)
  moreover have "sweepable m1 (blk B j) \<and> pl j = destination m1 (blk B j)" if "i + 1 \<le> j" "j < BLOCKS_COUNT H" for j
    using Suc.prems(3) [of j] that cong(1,2) [of j] by simp
  moreover have "lists_ok (i + 1) s1 pl es1 ss1" using li by simp
  ultimately obtain s' m' es' ss' where rec: "sweep_blocks k (i + 1) (s1, m1) = Some (s', m')"
    "lists_ok (BLOCKS_COUNT H) s' pl es' ss'" "\<forall>j. i + 1 \<le> j \<and> j < BLOCKS_COUNT H \<longrightarrow> swept_block m1 (blk B j) m'"
    and pre: "\<forall>j < i + 1. load64 m' (blk B j) = load64 m1 (blk B j) \<and> load64 m' (blk B j + 8) = load64 m1 (blk B j + 8)
         \<and> (\<forall>n < 512. slot_marked m' (blk B j) n = slot_marked m1 (blk B j) n)"
    and ho: "headers_only H B m1 m'" and sb': "same_frame s1 s'"
    using Suc.IH [of "i + 1" s1 m1 es1 ss1] by blast
  have "swept_block m (blk B j) m'" if "i \<le> j" "j < BLOCKS_COUNT H" for j
  proof (cases "j = i")
    case True
    then show ?thesis using sw pre by (auto simp: swept_block_def)
  next
    case False
    then show ?thesis using rec(3) that cong(3) [of j m'] by simp
  qed
  moreover have "load64 m' (blk B j) = load64 m (blk B j) \<and> load64 m' (blk B j + 8) = load64 m (blk B j + 8)
      \<and> (\<forall>n < 512. slot_marked m' (blk B j) n = slot_marked m (blk B j) n)" if "j < i" for j
    using pre same [of j] that i by simp
  moreover have "headers_only H B m m'" by (rule headers_only_trans [OF headers_only_block [OF i off] ho])
  moreover have "sweep_blocks (Suc k) i (s, m) = Some (s', m')" using run rec(1) by simp
  ultimately show ?case using rec(2) same_frame_trans [OF sb sb'] by blast
qed



section \<open>The sweep\<close>

text \<open>What the sweep makes free in a block: all of it without marks, otherwise the unmarked slots.\<close>

definition unmarked_bytes :: "mem \<Rightarrow> size_t \<Rightarrow> nat set" where
  "unmarked_bytes m b =
     (if \<forall>n < 512. \<not> slot_marked m b n then {unat b + 80 ..< unat b + 4096}
      else (\<Union>j \<in> {j. j < slots (al (unat (load64 m (b + 8)))) \<and> \<not> slot_marked m b j}.
        slot_range b (unat (load64 m (b + 8))) j))"

lemma swept_free:
  assumes "sweepable m b" and "swept_block m b m'"
  shows "placed m' b (destination m b)" and "free_at m' b (destination m b) = unmarked_bytes m b"
proof -
  let ?k = "unat (load64 m (b + 8))"
  have "placed m' b (destination m b) \<and> free_at m' b (destination m b) = unmarked_bytes m b"
  proof (cases "\<forall>n < 512. \<not> slot_marked m b n")
    case True
    then show ?thesis using assms(2) by (simp add: destination_def swept_block_def unmarked_bytes_def)
  next
    case False
    then have d: "destination m b = In_segreg ?k" and "\<exists>k. sized m b k"
      using assms(1) by (auto simp: destination_def sweepable_def)
    then have k: "sized m b ?k" "size_ok ?k" by (auto simp: sized_def unat_size_ok)
    have ld: "load64 m' b = slot b (al ?k) 0" "load64 m' (b + 8) = load64 m (b + 8)"
      using assms(2) d by (simp_all add: swept_block_def slot_def)
    then have "opened m' b ?k" using k by (auto simp: opened_def sized_def)
    moreover have "free_slot m' b ?k j \<longleftrightarrow> j < slots (al ?k) \<and> \<not> slot_marked m b j" for j
      using free_slot_at [OF k(2) ld(1)] assms(2) slots_ok(2) [OF k(2)] by (auto simp: swept_block_def)
    ultimately show ?thesis using d unfolding unmarked_bytes_def if_not_P [OF False] by (simp add: free_slots_def)
  qed
  then show "placed m' b (destination m b)" "free_at m' b (destination m b) = unmarked_bytes m b" by simp_all
qed

lemma empty_heads:
  "SEGREG_LIST (fold (\<lambda>i. set_segreg_list_head i None) ks s) k = (if k \<in> set ks then None else SEGREG_LIST s k)"
  "same_frame s (fold (\<lambda>i. set_segreg_list_head i None) ks s)"
  "EMPTY_LIST_HEAD (fold (\<lambda>i. set_segreg_list_head i None) ks s) = EMPTY_LIST_HEAD s"
  by (induction ks arbitrary: s) (auto simp: same_frame_def)

lemma sweep_small_runs:
  assumes room: "small_room H B" and B: "START_ALLOCATOR_HEAP s = B" "END_ALLOCATOR_HEAP s = B + H"
    and b: "\<And>j. j < BLOCKS_COUNT H \<Longrightarrow> block_addr (NODES_LIST s j) = blk B j"
    and ca: "\<And>t k. size_ok k \<Longrightarrow> nodes_cache s t k = None"
    and sw: "\<And>j. j < BLOCKS_COUNT H \<Longrightarrow> sweepable m (blk B j)"
  shows "\<exists>s' m' es ss. sweep_small_heap H (s, m) = Some (s', m')
    \<and> small_inv H s' m' (\<lambda>i. destination m (blk B i)) es ss
    \<and> free_bytes H s' m' (\<lambda>i. destination m (blk B i)) = (\<Union>i < BLOCKS_COUNT H. unmarked_bytes m (blk B i))
    \<and> (\<forall>i < BLOCKS_COUNT H. \<forall>n < 512. slot_marked m' (blk B i) n = slot_marked m (blk B i) n)
    \<and> headers_only H B m m' \<and> same_frame s s'"
proof -
  let ?s0 = "fold (\<lambda>i. set_segreg_list_head i None) [0..<OBJECT_SIZE_UPPER_BOUND] (set_empty_list_head None s)"
  let ?pl = "\<lambda>i. destination m (blk B i)" and ?N = "BLOCKS_COUNT H"
  have "same_frame s (set_empty_list_head None s)" by (simp add: same_frame_def)
  then have sb0: "same_frame s ?s0" using empty_heads(2) same_frame_trans by blast
  have li: "lists_ok 0 ?s0 ?pl [] (\<lambda>_. [])"
    using ca sb0 by (simp add: lists_ok_def empty_heads size_ok_def same_frame_def)
  obtain s' m' es ss where run: "sweep_blocks ?N 0 (?s0, m) = Some (s', m')" and li': "lists_ok ?N s' ?pl es ss"
    and swt: "\<forall>j. 0 \<le> j \<and> j < ?N \<longrightarrow> swept_block m (blk B j) m'" and ho: "headers_only H B m m'" and sb: "same_frame ?s0 s'"
    using sweep_blocks_runs [OF _ room _ _ li, where k = ?N and m = m] b sw sb0 by (auto simp: same_frame_def)
  have sb': "same_frame s s'" by (rule same_frame_trans [OF sb0 sb])
  have f: "placed m' (blk B i) (?pl i)" "free_at m' (blk B i) (?pl i) = unmarked_bytes m (blk B i)" if "i < ?N" for i
    using swept_free [OF sw [OF that]] swt that by simp_all
  have "small_inv H s' m' ?pl es ss" using room B b li' sb' f(1) by (simp add: small_inv_def same_frame_def)
  moreover have "free_bytes H s' m' ?pl = (\<Union>i < ?N. unmarked_bytes m (blk B i))"
    unfolding free_bytes_def using sb' B(1) f(2) by (intro SUP_cong) (simp_all add: same_frame_def)
  moreover have "sweep_small_heap H (s, m) = Some (s', m')" using run by (simp add: sweep_small_heap_def)
  ultimately show ?thesis using swt ho sb' by (auto simp: swept_block_def)
qed

text \<open>Emptying the cache of a thread leaves its blocks out of all lists.\<close>

fun uncached :: "nat \<Rightarrow> place \<Rightarrow> place" where
  "uncached t (In_cache t' k) = (if t' = t then Detached else In_cache t' k)"
| "uncached t p = p"

lemma uncached_eq:
  "uncached t p = In_empty \<longleftrightarrow> p = In_empty" "uncached t p = In_segreg k \<longleftrightarrow> p = In_segreg k"
  "uncached t p = In_cache t' k \<longleftrightarrow> p = In_cache t' k \<and> t' \<noteq> t"
  by (cases p; auto)+

lemma clear_cache_simps [simp]:
  "START_ALLOCATOR_HEAP (clear_cache t s) = START_ALLOCATOR_HEAP s" "END_ALLOCATOR_HEAP (clear_cache t s) = END_ALLOCATOR_HEAP s"
  "NODES_LIST (clear_cache t s) = NODES_LIST s" "SEGREG_LIST (clear_cache t s) = SEGREG_LIST s"
  "EMPTY_LIST_HEAD (clear_cache t s) = EMPTY_LIST_HEAD s" "nx (clear_cache t s) = nx s"
  "nodes_cache (clear_cache t s) t' k = (if t' = t \<and> k < OBJECT_SIZE_UPPER_BOUND then None else nodes_cache s t' k)"
  by (auto simp: clear_cache_def nx_def)

lemma clear_cache_inv:
  assumes "small_inv H s m pl es ss"
  shows "small_inv H (clear_cache t s) m (\<lambda>i. uncached t (pl i)) es ss"
proof -
  have "placed m b p \<Longrightarrow> placed m b (uncached t p)" for b p by (cases p) (auto simp: opened_def)
  moreover have "lists_ok (BLOCKS_COUNT H) (clear_cache t s) (\<lambda>i. uncached t (pl i)) es ss"
    using assms by (auto simp: small_inv_def lists_ok_def uncached_eq size_ok_def)
  ultimately show ?thesis using assms by (simp add: small_inv_def)
qed

end
