(* ===== verification/Small_Properties.thy ===== *)
theory Small_Properties
  imports Sweep_Small
begin

text \<open>
  The properties of the small allocator and of the sweep of its heap, with a heap of one block as the
  example: it is in the list of size 1000, and its first slot is marked.
\<close>

definition ex_small :: small_state where
  "ex_small = \<lparr>START_ALLOCATOR_HEAP = 4096, END_ALLOCATOR_HEAP = 8192, SEGREG_LIST = (\<lambda>_. None)(1000 := Some 0),
     NODES_LIST = (\<lambda>_. \<lparr>block_addr = 4096, next_node = None\<rparr>), EMPTY_LIST_HEAD = None, nodes_cache = (\<lambda>_ _. None)\<rparr>"

definition ex_small_mem :: mem where
  "ex_small_mem = put_mark 4096 0 True (store64 (store64 (\<lambda>_. 0) (4096 + 8) 1000) 4096 (4096 + 80))"

definition ex_small_log :: log_state where
  "ex_small_log = \<lparr>last_object_size = 0, memory_limit = 8192, memory_used = 0, object_count = 0, m_size = 0\<rparr>"

lemma ex_BLOCKS_COUNT [simp]: "BLOCKS_COUNT 4096 = Suc 0" "BLOCKS_COUNT 8192 = 2"
  by (simp_all add: BLOCKS_COUNT_nat)

lemma ex_blk [simp]: "blk B 0 = B"
  by (simp add: blk_def)

lemma ex_size [simp]: "size_ok 1000" "al 1000 = 1000" "slots 1000 = 4" "size_ok 2008"
  by (simp_all add: size_ok_iff al_def slots_def)

lemma ex_small_header:
  "load64 ex_small_mem 4104 = 1000" "load64 ex_small_mem 4096 = 4176"
  "n < 512 \<Longrightarrow> slot_marked ex_small_mem 4096 n \<longleftrightarrow> n = 0"
proof -
  let ?m = "store64 (store64 (\<lambda>_. 0) (4096 + 8) 1000) (4096 :: size_t) (4096 + 80)"
  have "load64 ?m (4096 + 8) = 1000" "load64 ?m 4096 = 4096 + 80"
    using load64_store64_apart [OF slider_sep(2), of "store64 (\<lambda>_. 0) (4096 + 8) 1000" 4096]
    by (simp_all only: load64_store64)
  then show "load64 ex_small_mem 4104 = 1000" "load64 ex_small_mem 4096 = 4176"
    unfolding ex_small_mem_def using put_mark_header [of 0 4096 True ?m] by simp_all
  assume n: "n < 512"
  have "\<not> slot_marked ?m 4096 n"
    using store_header_marked [of 0 n "store64 (\<lambda>_. 0) (4096 + 8) 1000" 4096] store_header_marked [of 8 n "\<lambda>_. 0" 4096] n
    by (simp add: slot_marked_def)
  then show "slot_marked ex_small_mem 4096 n \<longleftrightarrow> n = 0"
    unfolding ex_small_mem_def using slot_marked_put [of 0 n 4096 True ?m] n by simp
qed

lemma ex_small_inv: "small_inv 4096 ex_small ex_small_mem (\<lambda>_. In_segreg 1000) [] ((\<lambda>_. [])(1000 := [0]))"
proof -
  have "opened ex_small_mem 4096 1000"
    using ex_small_header by (auto simp: opened_def sized_def slot_def intro!: exI [of _ 0])
  then show ?thesis
    by (auto simp: small_inv_def lists_ok_def ex_small_def nx_def small_room_def)
qed

lemma ex_small_ok: "small_ok 4096 ex_small ex_small_mem (\<lambda>_. In_segreg 1000)"
  using ex_small_inv by (auto simp: small_ok_def)


lemma ex_small_room: "\<not> no_room_for 4096 ex_small ex_small_mem (\<lambda>_. In_segreg 1000) 0 (unat (1000 :: size_t))"
proof -
  have "free_slot ex_small_mem 4096 1000 1"
    using free_slot_at [of 1000 ex_small_mem 4096 0 1] ex_small_header by (simp add: slot_def)
  then have "free_slots ex_small_mem 4096 1000 \<noteq> {}"
    using slot_range_free [of ex_small_mem 4096 1000 1] by (auto simp: slot_range_def)
  then show "\<not> no_room_for 4096 ex_small ex_small_mem (\<lambda>_. In_segreg 1000) 0 (unat (1000 :: size_t))"
    by (simp add: no_room_for_def ex_small_def)
qed

lemma ex_size_bounds: "1 \<le> (1000 :: size_t)" "1000 \<le> MAX_OBJECT_SIZE"
  by (simp_all add: MAX_OBJECT_SIZE_def)

lemma ex_small_call:
  "\<exists>a s' m' g'. allocate_small_object 0 1000 (ex_small, ex_small_mem, ex_small_log) = Some (a, s', m', g') \<and> a \<noteq> 0"
  using small_request [OF ex_small_ok ex_size_bounds, of 0 ex_small_log] ex_small_room by blast


section \<open>Initialisation\<close>

definition blank_small :: small_state where
  "blank_small = \<lparr>START_ALLOCATOR_HEAP = 0, END_ALLOCATOR_HEAP = 0, SEGREG_LIST = (\<lambda>_. None),
     NODES_LIST = (\<lambda>_. \<lparr>block_addr = 0, next_node = None\<rparr>), EMPTY_LIST_HEAD = None, nodes_cache = (\<lambda>_ _. None)\<rparr>"

text \<open>__init_small_allocator on a fresh mapping builds the invariant with every block in the list of
  empty blocks; all bytes behind the headers are free, no slot is marked, and every slider stands at
  the first slot.\<close>

theorem init_small_allocator_correct:
  assumes "small_room H B" and "B \<noteq> -1" and "0 < BLOCKS_COUNT H" and "fresh H B s m"
  shows "\<exists>s' m' g'. init_small_allocator H B (s, m, g) = (s', m', g')
    \<and> small_ok H s' m' (\<lambda>_. In_empty) \<and> START_ALLOCATOR_HEAP s' = B
    \<and> free_bytes H s' m' (\<lambda>_. In_empty) = (\<Union>i < BLOCKS_COUNT H. {unat B + 4096 * i + 80 ..< unat B + 4096 * i + 4096})
    \<and> (\<forall>i < BLOCKS_COUNT H. load64 m' (blk B i) = blk B i + 80 \<and> is_bitmap_empty m' (blk B i))"
proof -
  obtain s' m' g' where run: "init_small_allocator H B (s, m, g) = (s', m', g')" by (metis prod_cases3)
  note r = init_small_runs [OF assms run]
  have "free_bytes H s' m' (\<lambda>_. In_empty) = (\<Union>i < BLOCKS_COUNT H. {unat B + 4096 * i + 80 ..< unat B + 4096 * i + 4096})"
    unfolding free_bytes_def by (intro SUP_cong) (simp_all add: r(2) unat_blk [OF assms(1)])
  then show ?thesis using run r by (auto simp: small_ok_def is_bitmap_empty_marks)
qed

theorem init_small_allocator_correct_witness:
  "\<exists>s' m' g'. init_small_allocator 8192 4096 (blank_small, (\<lambda>_. 0), ex_small_log) = (s', m', g')
    \<and> small_ok 8192 s' m' (\<lambda>_. In_empty) \<and> START_ALLOCATOR_HEAP s' = 4096
    \<and> free_bytes 8192 s' m' (\<lambda>_. In_empty)
      = (\<Union>i < BLOCKS_COUNT 8192. {unat (4096 :: size_t) + 4096 * i + 80 ..< unat (4096 :: size_t) + 4096 * i + 4096})
    \<and> (\<forall>i < BLOCKS_COUNT 8192. load64 m' (blk 4096 i) = blk 4096 i + 80 \<and> is_bitmap_empty m' (blk 4096 i))"
  by (rule init_small_allocator_correct) (simp_all add: small_room_def fresh_def blank_small_def)


section \<open>Allocation\<close>

text \<open>C15: every request for 1 to 2008 bytes returns, keeps the invariant and writes only block headers. It
  yields either NULL, and then no block has room for the size, or an address aligned to 8 in the
  heap whose bytes were free and now are not.\<close>

theorem allocate_small_object_correct:
  assumes "small_ok H s m pl" and "1 \<le> sz" and "sz \<le> MAX_OBJECT_SIZE"
  shows "\<exists>a s' m' g' pl'. allocate_small_object t sz (s, m, g) = Some (a, s', m', g')
    \<and> small_ok H s' m' pl' \<and> START_ALLOCATOR_HEAP s' = START_ALLOCATOR_HEAP s
    \<and> headers_only H (START_ALLOCATOR_HEAP s) m m'
    \<and> (a = 0 \<and> no_room_for H s m pl t (unat sz)
       \<or> a \<noteq> 0 \<and> 8 dvd unat (a - START_ALLOCATOR_HEAP s)
         \<and> obj_range (a, sz) \<subseteq> free_bytes H s m pl
         \<and> free_bytes H s' m' pl' \<subseteq> free_bytes H s m pl - obj_range (a, sz))"
  by (rule small_request [OF assms])

theorem allocate_small_object_correct_witness:
  "\<exists>a s' m' g' pl'. allocate_small_object 0 1000 (ex_small, ex_small_mem, ex_small_log) = Some (a, s', m', g')
    \<and> small_ok 4096 s' m' pl' \<and> a \<noteq> 0"
  using allocate_small_object_correct [OF ex_small_ok ex_size_bounds, of 0 ex_small_log] ex_small_room by auto


text \<open>The objects returned by any sequence of requests, by any threads and for any mix of sizes, are
  pairwise disjoint, aligned, inside the bytes that were free when the sequence started (so clear
  of block headers and of all objects alive then), and no byte outside the headers is written.\<close>

theorem small_objects_disjoint:
  assumes "small_run (s0, m0) (s, m) objs" and "small_ok H s0 m0 pl0"
  shows "pairwise (\<lambda>x y. obj_range x \<inter> obj_range y = {}) (set objs) \<and> distinct objs
    \<and> (\<forall>ob \<in> set objs. obj_range ob \<subseteq> free_bytes H s0 m0 pl0 \<and> fst ob \<noteq> 0
         \<and> 8 dvd unat (fst ob - START_ALLOCATOR_HEAP s0))
    \<and> headers_only H (START_ALLOCATOR_HEAP s0) m0 m"
  using small_run_inv [OF assms] by (auto simp: case_prod_beta)

lemma ex_small_run:
  "\<exists>s m a. small_run (ex_small, ex_small_mem) (s, m) [(a, 1000)] \<and> a \<noteq> 0"
  using ex_small_call small_run.request [OF small_run.start ex_size_bounds] by blast

theorem small_objects_disjoint_witness:
  "\<exists>s m a. small_run (ex_small, ex_small_mem) (s, m) [(a, 1000)]
    \<and> obj_range (a, 1000) \<subseteq> free_bytes 4096 ex_small ex_small_mem (\<lambda>_. In_segreg 1000)"
  using ex_small_run small_objects_disjoint [OF _ ex_small_ok] by fastforce

text \<open>When no block is left for a size, the request returns NULL and leaves lists, cache and all bytes
  behind the headers as they are; the bitmaps of all blocks in the lists of other sizes are emptied.\<close>

theorem allocate_small_object_refused:
  assumes "small_inv H s m pl es ss" and "1 \<le> sz" and "sz \<le> MAX_OBJECT_SIZE"
    and "SEGREG_LIST s (unat sz) = None" and "EMPTY_LIST_HEAD s = None" and "nodes_cache s t (unat sz) = None"
  shows "\<exists>m' g'. allocate_small_object t sz (s, m, g) = Some (0, s, m', g')
    \<and> small_inv H s m' pl es ss \<and> headers_only H (START_ALLOCATOR_HEAP s) m m'
    \<and> (\<forall>i < BLOCKS_COUNT H. (\<exists>k. size_ok k \<and> pl i = In_segreg k) \<longrightarrow>
         is_bitmap_empty m' (blk (START_ALLOCATOR_HEAP s) i))"
  using request_refused [OF assms(1) small_size(1) [OF assms(2,3)] assms(4-6), of g]
  unfolding small_size(2) [OF assms(2,3)] is_bitmap_empty_marks by blast

theorem allocate_small_object_refused_witness:
  "\<exists>m' g'. allocate_small_object 0 2008 (ex_small, ex_small_mem, ex_small_log) = Some (0, ex_small, m', g')
    \<and> is_bitmap_empty m' 4096 \<and> \<not> is_bitmap_empty ex_small_mem 4096"
proof -
  have "\<not> is_bitmap_empty ex_small_mem 4096" using ex_small_header(3) [of 0] by (auto simp: is_bitmap_empty_marks intro!: exI [of _ 0])
  then show ?thesis
    using allocate_small_object_refused [OF ex_small_inv, of 2008 0 ex_small_log]
    by (auto simp: ex_small_def MAX_OBJECT_SIZE_def)
qed

text \<open>C17: a refused request exposes live objects. If slot \<open>j\<close> at the slider of the first block of a list
  is marked, it is not free; but a request of another size that is refused clears its mark, and the
  next request for the block's size returns the address of that slot.\<close>

theorem refused_request_exposes_marked:
  assumes inv: "small_inv H s m pl es ss" and sz: "1 \<le> sz" "sz \<le> MAX_OBJECT_SIZE"
    and none: "SEGREG_LIST s (unat sz) = None" "EMPTY_LIST_HEAD s = None" "nodes_cache s t (unat sz) = None"
    and k: "size_ok k" "SEGREG_LIST s k = Some i" "nodes_cache s t k = None"
    and ld: "load64 m (blk (START_ALLOCATOR_HEAP s) i) = slot (blk (START_ALLOCATOR_HEAP s) i) (al k) j" "j < slots (al k)"
    and mk: "slot_marked m (blk (START_ALLOCATOR_HEAP s) i) j"
  shows "\<not> free_slot m (blk (START_ALLOCATOR_HEAP s) i) k j
    \<and> (\<exists>m1 g1 s2 m2 g2. allocate_small_object t sz (s, m, g) = Some (0, s, m1, g1)
        \<and> allocate_small_object t (of_nat k) (s, m1, g1) = Some (slot (blk (START_ALLOCATOR_HEAP s) i) (al k) j, s2, m2, g2))"
proof -
  obtain m1 g1 where r: "allocate_small_object t sz (s, m, g) = Some (0, s, m1, g1)" "small_inv H s m1 pl es ss"
    and e: "\<forall>i < BLOCKS_COUNT H. (\<exists>k'. size_ok k' \<and> pl i = In_segreg k') \<longrightarrow>
      (\<forall>n < 512. \<not> slot_marked m1 (blk (START_ALLOCATOR_HEAP s) i) n)"
    and h: "\<forall>i < BLOCKS_COUNT H. load64 m1 (blk (START_ALLOCATOR_HEAP s) i) = load64 m (blk (START_ALLOCATOR_HEAP s) i)"
    using request_refused [OF inv small_size(1) [OF sz] none, of g] unfolding small_size(2) [OF sz] by blast
  have i: "i < BLOCKS_COUNT H" "pl i = In_segreg k" using take_segreg [OF inv k(1,2)] by auto
  have "\<not> slot_marked m1 (blk (START_ALLOCATOR_HEAP s) i) j"
    using e i k(1) ld(2) slots_ok(2) [OF k(1)] by auto
  then show ?thesis
    using head_slot_returned [OF r(2) k ld(2), of g1] r(1) h i(1) ld(1) mk by (auto simp: free_slot_def)
qed

theorem refused_request_exposes_marked_witness:
  "slot_marked ex_small_mem 4096 0
    \<and> (\<exists>m1 g1 s2 m2 g2. allocate_small_object 0 2008 (ex_small, ex_small_mem, ex_small_log) = Some (0, ex_small, m1, g1)
      \<and> allocate_small_object 0 1000 (ex_small, m1, g1) = Some (4176, s2, m2, g2))"
proof -
  have "slot_marked ex_small_mem 4096 0" using ex_small_header(3) [of 0] by simp
  then show ?thesis
    using refused_request_exposes_marked [OF ex_small_inv, of 2008 0 1000 0 0 ex_small_log] ex_small_header(2)
    by (simp add: ex_small_def MAX_OBJECT_SIZE_def slot_def)
qed


section \<open>The sweep\<close>

text \<open>What the mark phase and the stopping of the threads leave: empty caches, and marks only in blocks in
  use.\<close>

definition sweep_ready :: "size_t \<Rightarrow> small_state \<Rightarrow> mem \<Rightarrow> bool" where
  "sweep_ready H s m \<longleftrightarrow> (\<exists>pl. small_ok H s m pl \<and> (\<forall>t k. size_ok k \<longrightarrow> nodes_cache s t k = None)
     \<and> (\<forall>i < BLOCKS_COUNT H. pl i = In_empty \<longrightarrow> is_bitmap_empty m (blk (START_ALLOCATOR_HEAP s) i)))"

lemma sweep_ready_runs:
  assumes "sweep_ready H s m"
  shows "\<exists>s' m' es ss. sweep_small_heap H (s, m) = Some (s', m')
    \<and> small_inv H s' m' (\<lambda>i. destination m (blk (START_ALLOCATOR_HEAP s) i)) es ss
    \<and> free_bytes H s' m' (\<lambda>i. destination m (blk (START_ALLOCATOR_HEAP s) i))
      = (\<Union>i < BLOCKS_COUNT H. unmarked_bytes m (blk (START_ALLOCATOR_HEAP s) i))
    \<and> (\<forall>i < BLOCKS_COUNT H. \<forall>n < 512. slot_marked m' (blk (START_ALLOCATOR_HEAP s) i) n
         = slot_marked m (blk (START_ALLOCATOR_HEAP s) i) n)
    \<and> headers_only H (START_ALLOCATOR_HEAP s) m m' \<and> same_frame s s'"
proof -
  let ?B = "START_ALLOCATOR_HEAP s"
  obtain pl es ss where inv: "small_inv H s m pl es ss" and ca: "\<And>t k. size_ok k \<Longrightarrow> nodes_cache s t k = None"
    and em: "\<And>i. i < BLOCKS_COUNT H \<Longrightarrow> pl i = In_empty \<Longrightarrow> is_bitmap_empty m (blk ?B i)"
    using assms by (auto simp: sweep_ready_def small_ok_def)
  have "sweepable m (blk ?B i)" if i: "i < BLOCKS_COUNT H" for i
  proof (cases "pl i = In_empty")
    case True
    then show ?thesis using em [OF i] by (simp add: sweepable_def is_bitmap_empty_marks)
  next
    case False
    have "placed m (blk ?B i) (pl i)" using inv i by (simp add: small_inv_def)
    then show ?thesis using False by (cases "pl i") (auto simp: sweepable_def opened_def)
  qed
  then show ?thesis
    using inv ca by (intro sweep_small_runs) (simp_all add: small_inv_def)
qed

text \<open>C16: the sweep of the small heap returns and restores the invariant; every block without marks is in
  the list of empty blocks, every other in the list of its size, and the free bytes are exactly the
  unmarked slots and the unmarked blocks. The marks themselves stay.\<close>

theorem sweep_small_heap_correct:
  assumes "sweep_ready H s m"
  shows "\<exists>s' m'. sweep_small_heap H (s, m) = Some (s', m')
    \<and> small_ok H s' m' (\<lambda>i. destination m (blk (START_ALLOCATOR_HEAP s) i))
    \<and> free_bytes H s' m' (\<lambda>i. destination m (blk (START_ALLOCATOR_HEAP s) i))
      = (\<Union>i < BLOCKS_COUNT H. unmarked_bytes m (blk (START_ALLOCATOR_HEAP s) i))
    \<and> (\<forall>i < BLOCKS_COUNT H. \<forall>n < 512. slot_marked m' (blk (START_ALLOCATOR_HEAP s) i) n
         = slot_marked m (blk (START_ALLOCATOR_HEAP s) i) n)
    \<and> headers_only H (START_ALLOCATOR_HEAP s) m m'"
  using sweep_ready_runs [OF assms] unfolding small_ok_def by blast

lemma ex_small_ready: "sweep_ready 4096 ex_small ex_small_mem"
  unfolding sweep_ready_def using ex_small_ok by (auto simp: ex_small_def)

theorem sweep_small_heap_correct_witness:
  "\<exists>s' m'. sweep_small_heap 4096 (ex_small, ex_small_mem) = Some (s', m')
    \<and> small_ok 4096 s' m' (\<lambda>i. destination ex_small_mem (blk 4096 i)) \<and> slot_marked m' 4096 0"
  using sweep_small_heap_correct [OF ex_small_ready] ex_small_header(3) [of 0]
  by (fastforce simp: ex_small_def)


lemma marked_not_free:
  assumes room: "small_room H B" and i: "i < BLOCKS_COUNT H" and sz: "sized m (blk B i) k"
    and j: "j < slots (al k)" and mk: "slot_marked m (blk B i) j"
  shows "slot_range (blk B i) k j \<inter> (\<Union>c < BLOCKS_COUNT H. unmarked_bytes m (blk B c)) = {}"
proof -
  have k: "size_ok k" using sz by (simp add: sized_def)
  have fit: "80 + al k * j + al k \<le> 4096" using slot_fits [of "al k" j] al_bounds(1) [OF k] j by simp
  have "x \<notin> unmarked_bytes m (blk B c)" if c: "c < BLOCKS_COUNT H" and x: "x \<in> slot_range (blk B i) k j" for c x
  proof (cases "c = i")
    case False
    have x1: "unat B + 4096 * i + 80 \<le> x" "x < unat B + 4096 * i + 4096"
      using x fit unat_blk [OF room i] by (auto simp: slot_range_def)
    have "x \<notin> {unat (blk B c) + 80 ..< unat (blk B c) + 4096}"
    proof -
      have "i + 1 \<le> c \<or> c + 1 \<le> i" using False by auto
      then have "4096 * i + 4096 \<le> 4096 * c \<or> 4096 * c + 4096 \<le> 4096 * i" by auto
      then show ?thesis using x1 by (auto simp: unat_blk [OF room c])
    qed
    moreover have sub: "slot_range (blk B c) k' n \<subseteq> {unat (blk B c) + 80 ..< unat (blk B c) + 4096}"
      if "n < slots (al k')" for k' n
    proof (cases "al k' = 0")
      case False
      then show ?thesis using that slot_fits [of "al k'" n] by (fastforce simp: slot_range_def)
    qed (simp add: slot_range_def)
    have "unmarked_bytes m (blk B c) \<subseteq> {unat (blk B c) + 80 ..< unat (blk B c) + 4096}"
    proof (cases "\<forall>n < 512. \<not> slot_marked m (blk B c) n")
      case True
      then show ?thesis by (simp add: unmarked_bytes_def)
    next
      case False
      then show ?thesis unfolding unmarked_bytes_def if_not_P [OF False] using sub by blast
    qed
    ultimately show ?thesis by blast
  next
    case True
    have k': "unat (load64 m (blk B i + 8)) = k" using sz by (simp add: sized_def unat_size_ok)
    have ne: "\<not> (\<forall>n < 512. \<not> slot_marked m (blk B i) n)" using mk j slots_ok(2) [OF k] by (meson less_trans)
    have "x \<notin> slot_range (blk B i) k n" if "n \<noteq> j" for n
    proof -
      have "al k * n + al k \<le> al k * j \<or> al k * j + al k \<le> al k * n"
        using that mult_le_mono2 [of "n + 1" j "al k"] mult_le_mono2 [of "j + 1" n "al k"] by (cases "n < j") auto
      then show ?thesis using x by (auto simp: slot_range_def)
    qed
    then show ?thesis unfolding True unmarked_bytes_def if_not_P [OF ne] k' using mk by (metis (no_types, lifting) UN_E mem_Collect_eq)
  qed
  then show ?thesis by blast
qed

lemma slot_kept:
  assumes ho: "headers_only H B m m'" and room: "small_room H B" and i: "i < BLOCKS_COUNT H"
    and sz: "sized m (blk B i) k" and j: "j < slots (al k)"
  shows "\<forall>n < al k. m' (slot (blk B i) (al k) j + of_nat n) = m (slot (blk B i) (al k) j + of_nat n)"
proof (intro allI impI)
  fix n assume n: "n < al k"
  have "size_ok k" using sz by (simp add: sized_def)
  then have fit: "80 + al k * j + al k \<le> 4096"
    using slot_fits [of "al k" j] al_bounds(1) [of k] j by simp
  have e: "slot (blk B i) (al k) j + of_nat n = blk B i + of_nat (80 + al k * j + n)" by (simp add: slot_def)
  have "\<not> blk B i + of_nat (80 + al k * j + n) - blk B c < 80" if c: "c < BLOCKS_COUNT H" for c
    using in_header [of "80 + al k * j + n" "blk B i"] blk_apart [OF room c i, of "80 + al k * j + n"] fit n
    by (cases "c = i") (simp_all del: of_nat_add of_nat_mult)
  then show "m' (slot (blk B i) (al k) j + of_nat n) = m (slot (blk B i) (al k) j + of_nat n)"
    using ho unfolding e by (simp add: headers_only_def del: of_nat_add of_nat_mult)
qed

text \<open>After a sweep, no sequence of requests returns a byte of an object that was marked, and none
  changes one: the survivors of a collection are neither reused nor overwritten by the allocator.\<close>

theorem survivors_not_reused:
  assumes "sweep_ready H s m" and "sweep_small_heap H (s, m) = Some (s1, m1)"
    and "small_run (s1, m1) (s2, m2) objs"
    and "i < BLOCKS_COUNT H" and "sized m (blk (START_ALLOCATOR_HEAP s) i) k"
    and "j < slots (al k)" and "slot_marked m (blk (START_ALLOCATOR_HEAP s) i) j"
  shows "(\<forall>ob \<in> set objs. obj_range ob \<inter> slot_range (blk (START_ALLOCATOR_HEAP s) i) k j = {})
    \<and> (\<forall>n < al k. m2 (slot (blk (START_ALLOCATOR_HEAP s) i) (al k) j + of_nat n)
         = m (slot (blk (START_ALLOCATOR_HEAP s) i) (al k) j + of_nat n))"
proof -
  let ?B = "START_ALLOCATOR_HEAP s"
  obtain es ss where inv: "small_inv H s1 m1 (\<lambda>i. destination m (blk ?B i)) es ss"
    and fr: "free_bytes H s1 m1 (\<lambda>i. destination m (blk ?B i)) = (\<Union>c < BLOCKS_COUNT H. unmarked_bytes m (blk ?B c))"
    and ho: "headers_only H ?B m m1" and sb: "same_frame s s1"
    using sweep_ready_runs [OF assms(1)] assms(2) by auto
  have B: "START_ALLOCATOR_HEAP s1 = ?B" using sb by (simp add: same_frame_def)
  have room: "small_room H ?B" using inv B by (simp add: small_inv_def)
  have ok: "small_ok H s1 m1 (\<lambda>i. destination m (blk ?B i))" using inv by (auto simp: small_ok_def)
  have run: "\<forall>ob \<in> set objs. obj_range ob \<subseteq> (\<Union>c < BLOCKS_COUNT H. unmarked_bytes m (blk ?B c))"
    and ho': "headers_only H ?B m1 m2"
    using small_run_inv [OF assms(3) ok] fr B by auto
  have "slot_range (blk ?B i) k j \<inter> (\<Union>c < BLOCKS_COUNT H. unmarked_bytes m (blk ?B c)) = {}"
    by (rule marked_not_free [OF room assms(4-7)])
  with run have "\<forall>ob \<in> set objs. obj_range ob \<inter> slot_range (blk ?B i) k j = {}" by blast
  moreover have "\<forall>n < al k. m2 (slot (blk ?B i) (al k) j + of_nat n) = m (slot (blk ?B i) (al k) j + of_nat n)"
    by (rule slot_kept [OF headers_only_trans [OF ho ho'] room assms(4-6)])
  ultimately show ?thesis by blast
qed

lemma ex_small_swept:
  "\<exists>s1 m1 a s2 m2 g2. sweep_small_heap 4096 (ex_small, ex_small_mem) = Some (s1, m1)
    \<and> allocate_small_object 0 1000 (s1, m1, ex_small_log) = Some (a, s2, m2, g2) \<and> a \<noteq> 0
    \<and> nodes_cache s1 = (\<lambda>_ _. None)"
proof -
  let ?d = "\<lambda>i. destination ex_small_mem (blk 4096 i)"
  have st: "START_ALLOCATOR_HEAP ex_small = 4096" by (simp add: ex_small_def)
  obtain s1 m1 where sw: "sweep_small_heap 4096 (ex_small, ex_small_mem) = Some (s1, m1)" "small_ok 4096 s1 m1 ?d"
    "free_bytes 4096 s1 m1 ?d = (\<Union>i < BLOCKS_COUNT 4096. unmarked_bytes ex_small_mem (blk 4096 i))"
    and B: "START_ALLOCATOR_HEAP s1 = 4096" "nodes_cache s1 = (\<lambda>_ _. None)"
    using sweep_ready_runs [OF ex_small_ready] st by (auto simp: small_ok_def same_frame_def ex_small_def)
  have mk: "slot_marked ex_small_mem 4096 0" "\<not> slot_marked ex_small_mem 4096 1"
    using ex_small_header(3) [of 0] ex_small_header(3) [of 1] by simp_all
  then have ne: "\<not> (\<forall>n < 512. \<not> slot_marked ex_small_mem 4096 n)" by (meson zero_less_numeral)
  have "slot_range 4096 1000 1 \<subseteq> unmarked_bytes ex_small_mem 4096"
    using mk(2) ex_small_header(1) unfolding unmarked_bytes_def if_not_P [OF ne] by (auto intro!: exI [of _ "Suc 0"])
  then have "free_bytes 4096 s1 m1 ?d \<noteq> {}" using sw(3) by (auto simp: slot_range_def)
  moreover have "?d 0 = In_segreg 1000" using ne ex_small_header(1) by (simp add: destination_def)
  ultimately have n: "\<not> no_room_for 4096 s1 m1 ?d 0 (unat (1000 :: size_t))"
    by (simp add: no_room_for_def free_bytes_def B(1) lessThan_Suc)
  then show ?thesis
    using small_request [OF sw(2) ex_size_bounds, of 0 ex_small_log] sw(1) B(2) by blast
qed

lemma ex_small_slot: "sized ex_small_mem (blk (START_ALLOCATOR_HEAP ex_small) 0) 1000" "slot_marked ex_small_mem 4096 0"
  using ex_small_header(1) ex_small_header(3) [of 0] by (simp_all add: sized_def ex_small_def)

theorem survivors_not_reused_witness:
  "\<exists>s1 m1 s2 m2 a. sweep_small_heap 4096 (ex_small, ex_small_mem) = Some (s1, m1)
    \<and> small_run (s1, m1) (s2, m2) [(a, 1000)]
    \<and> obj_range (a, 1000) \<inter> slot_range 4096 1000 0 = {}"
proof -
  obtain s1 m1 a s2 m2 where sw: "sweep_small_heap 4096 (ex_small, ex_small_mem) = Some (s1, m1)"
    and run: "small_run (s1, m1) (s2, m2) [(a, 1000)]"
    using ex_small_swept small_run.request [OF small_run.start ex_size_bounds] by blast
  have "START_ALLOCATOR_HEAP ex_small = 4096" by (simp add: ex_small_def)
  then show ?thesis
    using survivors_not_reused [OF ex_small_ready sw run, of 0 1000 0] ex_small_slot run sw by auto
qed

end
