(* ===== verification/Object_Properties.thy ===== *)
theory Object_Properties
  imports Object_Lookup Small_Properties
begin

text \<open>
  Theorems on \<^verbatim>\<open>object.c\<close> and \<^verbatim>\<open>marking.c\<close> in the terms of the program, and a concrete heap on which
  they apply: one block with two slots of 2008 bytes at 4096, the region of a large object at 8192, a
  free region behind it, and a thread whose stack at 100 has one word, an address inside the first
  slot, whose first word in turn is the address of the large object.
\<close>

section \<open>A heap\<close>

definition ex_gc_mem :: "bool \<Rightarrow> mem" where
  "ex_gc_mem v = put_mark 4096 0 v
     (store64 (store64 (store64 (store64 (\<lambda>_. 0) 100 4180) 4176 8200) (4096 + 8) 2008) 4096 8192)"

definition ex_gc_small :: small_state where
  "ex_gc_small = \<lparr>START_ALLOCATOR_HEAP = 4096, END_ALLOCATOR_HEAP = 8192, SEGREG_LIST = (\<lambda>_. None)(2008 := Some 0),
     NODES_LIST = (\<lambda>_. \<lparr>block_addr = 4096, next_node = None\<rparr>), EMPTY_LIST_HEAD = None, nodes_cache = (\<lambda>_ _. None)\<rparr>"

definition ex_gc_large :: large_state where
  "ex_gc_large = \<lparr>TREENODES_LIST = (\<lambda>_. leaf_node 0 0)(0 := leaf_node 8192 2016, 1 := leaf_node 10208 2080),
     TREENODE_LIST_HEAD = None, free_root = Some 1, occupied_root = Some 0,
     START_BIG_ALLOCATOR_HEAP = Some 8192, END_BIG_ALLOCATOR_HEAP = Some 12288\<rparr>"

definition ex_gc :: "bool \<Rightarrow> gc_heap" where
  "ex_gc v = \<lparr>small = ex_gc_small, large = ex_gc_large, bytes = ex_gc_mem v, logs = ex_small_log\<rparr>"

lemma ex_gc_fields [simp]:
  "small (ex_gc v) = ex_gc_small" "large (ex_gc v) = ex_gc_large" "bytes (ex_gc v) = ex_gc_mem v"
  "START_ALLOCATOR_HEAP ex_gc_small = 4096" "END_ALLOCATOR_HEAP ex_gc_small = 8192"
  by (simp_all add: ex_gc_def ex_gc_small_def)

lemma ex_gc_size [simp]: "al 2008 = 2008" "slots 2008 = 2"
  by (simp_all add: al_def slots_def)

lemma load64_outside_mark:
  assumes "k < 512" and "\<And>i. i < 8 \<Longrightarrow> 80 \<le> a + of_nat i - b"
  shows "load64 (put_mark b k v m) a = load64 m a"
  using put_mark_off [OF assms(1), of b m v] assms(2) by (intro load64_cong) (auto simp: agree_off_def not_less)

lemma less8: "i < 8 \<Longrightarrow> i = 0 \<or> i = 1 \<or> i = 2 \<or> i = 3 \<or> i = 4 \<or> i = 5 \<or> i = 6 \<or> i = 7" for i :: nat
  by linarith

lemma ex_gc_loads:
  "load64 (ex_gc_mem v) 4104 = 2008" "load64 (ex_gc_mem v) 4096 = 8192"
  "load64 (ex_gc_mem v) 100 = 4180" "load64 (ex_gc_mem v) 4176 = 8200"
proof -
  let ?m = "store64 (store64 (store64 (store64 (\<lambda>_. 0) 100 4180) 4176 8200) (4096 + 8) 2008) (4096 :: size_t) 8192"
  have "apart 4096 4104" "apart 4096 4176" "apart 4096 100" "apart 4104 4176" "apart 4104 100" "apart 4176 100"
    by (simp_all add: apart_def)
  then have l: "load64 ?m 4104 = 2008" "load64 ?m 4096 = 8192" "load64 ?m 4176 = 8200" "load64 ?m 100 = 4180"
    by (simp_all add: load64_store64 load64_store64_apart)
  show "load64 (ex_gc_mem v) 4104 = 2008" "load64 (ex_gc_mem v) 4096 = 8192"
    unfolding ex_gc_mem_def using put_mark_header [of 0 4096 v ?m] l by simp_all
  have s: "80 \<le> a + of_nat i - (4096 :: size_t)" if "a = 100 \<or> a = 4176" "i < 8" for a i
    using that(1) less8 [OF that(2)] by (elim disjE) simp_all
  have "load64 (put_mark 4096 0 v ?m) 100 = load64 ?m 100" "load64 (put_mark 4096 0 v ?m) 4176 = load64 ?m 4176"
    by (rule load64_outside_mark [OF _ s]; simp)+
  then show "load64 (ex_gc_mem v) 100 = 4180" "load64 (ex_gc_mem v) 4176 = 8200"
    unfolding ex_gc_mem_def using l by simp_all
qed

lemma ex_gc_zero: assumes "a \<in> {60, 160, 200, 300}" shows "load64 (ex_gc_mem v) a = 0"
proof -
  let ?m = "store64 (store64 (store64 (store64 (\<lambda>_. 0) 100 4180) 4176 8200) (4096 + 8) 2008) (4096 :: size_t) 8192"
  have "apart 4096 a" "apart 4104 a" "apart 4176 a" "apart 100 a" using assms by (auto simp: apart_def)
  moreover have "load64 (\<lambda>_. 0) a = 0" by (rule bit_word_eqI) (simp add: bit_load64)
  ultimately have "load64 ?m a = 0" by (simp add: load64_store64_apart)
  moreover have "80 \<le> a + of_nat i - (4096 :: size_t)" if "i < 8" for i
    using assms less8 [OF that] by (elim insertE disjE emptyE) simp_all
  ultimately show ?thesis unfolding ex_gc_mem_def by (subst load64_outside_mark) simp_all
qed

lemma ex_gc_inv: "large_inv ex_gc_large (Node Leaf 1 Leaf) (Node Leaf 0 Leaf) []"
proof -
  let ?ts = "[new_object 8192 2016, new_object 10208 2080]"
  have "tiles 8192 12288 ?ts" by (simp add: new_object_def reg_hi_def)
  moreover have "\<forall>b \<in> set ?ts. 8 dvd unat (addr b) \<and> 8 dvd unat (bsize b)" by (simp add: new_object_def)
  ultimately have "heap_tiled ex_gc_large ?ts"
    unfolding heap_tiled_def
    by (intro conjI exI [of _ 8192] exI [of _ 12288] exI [of _ ?ts]) (simp_all add: ex_gc_large_def)
  then have "heap_tiled ex_gc_large (rev ?ts)" by (rule heap_tiled_perm [THEN iffD1, rotated]) simp
  then show ?thesis by (simp add: large_inv_def ex_gc_large_def leaf_node_def new_object_def)
qed

lemma ex_gc_ok: "gc_heap_ok 4096 (ex_gc v) (Node Leaf 0 Leaf)"
proof -
  note ex_gc_inv
  moreover have "sized (ex_gc_mem v) 4096 2008" using ex_gc_loads(1) by (simp add: sized_def)
  ultimately show ?thesis
    unfolding gc_heap_ok_def Let_def by (auto simp: small_room_def block_ok_def ex_gc_large_def)
qed

lemma ex_gc_no_tail: "\<not> tail_object 4096 (ex_gc v) x"
proof
  assume "tail_object 4096 (ex_gc v) x"
  then obtain k where "sized (ex_gc_mem v) 4096 k" "80 + al k * slots (al k) < 4096" by (auto simp: tail_object_def)
  moreover have "sized (ex_gc_mem v) 4096 2008" using ex_gc_loads(1) by (simp add: sized_def)
  ultimately show False using sized_unique by fastforce
qed

lemma ex_gc_objects:
  "heap_object 4096 (ex_gc v) (Node Leaf 0 Leaf) 4176" "heap_object 4096 (ex_gc v) (Node Leaf 0 Leaf) 8192"
proof -
  have "sized (ex_gc_mem v) 4096 2008" using ex_gc_loads(1) by (simp add: sized_def)
  then have "\<exists>k j. sized (ex_gc_mem v) 4096 k \<and> j < slots (al k) \<and> 4176 = slot 4096 (al k) j"
    by (intro exI [of _ 2008] exI [of _ 0]) (simp add: slot_def)
  then have "small_object 4096 (ex_gc v) 4176" by (simp add: small_object_def)
  then show "heap_object 4096 (ex_gc v) (Node Leaf 0 Leaf) 4176" by (simp add: heap_object_def)
  show "heap_object 4096 (ex_gc v) (Node Leaf 0 Leaf) 8192"
    by (simp add: heap_object_def large_object_def ex_gc_large_def leaf_node_def new_object_def)
qed


section \<open>Looking up and marking\<close>

text \<open>C29: \<^verbatim>\<open>get_object\<close> returns on every address. An address inside an object gives that object, whichever
  heap it is in; and an answer is an object of the heap, or the unused tail of a block behind its
  last slot, which the code takes for one more object.\<close>

theorem get_object_correct:
  assumes "gc_heap_ok H hp ot"
  shows "(\<forall>a. \<exists>r. get_object hp a = Some r
        \<and> (case r of None \<Rightarrow> True | Some x \<Rightarrow> heap_object H hp ot x \<or> tail_object H hp x))
    \<and> (\<forall>x. heap_object H hp ot x \<longrightarrow> (\<exists>n. get_object_size hp x = Some n \<and> 0 < unat n
        \<and> (\<forall>d < unat n. get_object hp (x + of_nat d) = Some (Some x))))"
proof -
  have "\<exists>r. get_object hp a = Some r \<and> (case r of None \<Rightarrow> True | Some x \<Rightarrow> heap_object H hp ot x \<or> tail_object H hp x)" for a
    using get_object_total [OF assms, of a] get_object_valid [OF assms, of a] by (auto split: option.split)
  then show ?thesis using get_object_inside [OF assms] by blast
qed

theorem get_object_correct_witness:
  "\<exists>n. get_object_size (ex_gc True) 4176 = Some n \<and> (\<forall>d < unat n. get_object (ex_gc True) (4176 + of_nat d) = Some (Some 4176))"
  using get_object_correct [OF ex_gc_ok [of True]] ex_gc_objects(1) [of True] by blast

text \<open>Marking an object of either heap succeeds, sets the mark of that object and of no other, and
  changes neither what addresses mean nor the invariant of the heap.\<close>

theorem mark_object_correct:
  assumes "gc_heap_ok H hp ot" and "heap_object H hp ot x"
  shows "\<exists>hp'. mark_object x hp = Some hp' \<and> gc_heap_ok H hp' ot
    \<and> (\<forall>y. heap_object H hp ot y \<longrightarrow> is_marked hp' y = Some (y = x \<or> is_marked hp y = Some True))
    \<and> (\<forall>a. get_object hp' a = get_object hp a)
    \<and> (\<forall>y. heap_object H hp ot y \<longrightarrow> heap_object H hp' ot y \<and> get_object_size hp' y = get_object_size hp y)"
proof -
  obtain hp' where m: "mark_object x hp = Some hp'" "gc_same H hp ot hp'"
    "\<forall>y. heap_object H hp ot y \<longrightarrow> is_marked hp' y = Some (y = x \<or> is_marked hp y = Some True)"
    using gc_mark_laws(2) [OF assms(1) gc_same_refl assms(2)] by blast
  then show ?thesis using gc_same_ok [OF assms(1) m(2)] gc_same_get(1) [OF assms(1) m(2)] gc_same_object [OF assms(1) m(2)] by blast
qed

theorem mark_object_correct_witness:
  "\<exists>hp'. mark_object 8192 (ex_gc False) = Some hp' \<and> is_marked hp' 8192 = Some True
    \<and> (is_marked hp' 4176 = Some True \<longleftrightarrow> is_marked (ex_gc False) 4176 = Some True)"
  using mark_object_correct [OF ex_gc_ok ex_gc_objects(2), of False] ex_gc_objects [of False] by fastforce


section \<open>Tracing\<close>

text \<open>C1: \<^verbatim>\<open>mark\<close> returns, leaves the heap as it is but for marks, and the marked objects are exactly those
  that were marked before and those the roots (the words of every registered thread's stack and of
  the two data segments) reach along words of objects, not passing objects marked before. Started
  on a heap without marks it marks exactly the reachable objects. No word that is reached may point
  into the unused tail of a block, and the stack of the marker can always grow.\<close>

theorem mark_correct:
  assumes "gc_heap_ok H hp ot" and "stack_at st []" and "storage_at sto cs"
    and "root_ranges H stack_of segs sto cs hp" and "traceable H hp ot (gc_roots stack_of segs sto cs hp)"
  shows "\<exists>hp' sto' st'. mark (\<lambda>_. True) stack_of segs sto hp st = Some (sto', hp', st')
    \<and> gc_same H hp ot hp' \<and> stack_at st' [] \<and> storage_at sto' cs
    \<and> marks H hp ot hp' = marks H hp ot hp
        \<union> {x. reach (kids hp) (marks H hp ot hp) (gc_roots stack_of segs sto cs hp) x}
    \<and> (marks H hp ot hp = {} \<longrightarrow>
        marks H hp ot hp' = {x. reach (kids hp) {} (gc_roots stack_of segs sto cs hp) x})"
proof -
  have n: "nxt (sto\<lparr>current_node_of_traversing := None\<rparr>) = nxt sto" by (simp add: nxt_def fun_eq_iff)
  have "backs (sto\<lparr>current_node_of_traversing := None\<rparr>) None cs = backs sto None cs" by (rule backs_cong) simp
  then have "storage_at (sto\<lparr>current_node_of_traversing := None\<rparr>) cs" using assms(3) n by (simp add: storage_at_def)
  then show ?thesis using mark_traces [OF assms] by fastforce
qed

abbreviation ex_stack_of :: "size_t \<Rightarrow> size_t \<times> size_t" where
  "ex_stack_of t \<equiv> (2 * t, 8)"

abbreviation ex_segs :: "(size_t \<times> size_t) \<times> (size_t \<times> size_t)" where
  "ex_segs \<equiv> ((200, 208), (300, 308))"

lemma ex_root_range:
  assumes "a \<in> {60, 100, 160, 200, 300}"
  shows "root_range 4096 (ex_gc v) (a, a + 8)"
proof -
  have "word_count a (a + 8) = 1" using assms by (auto simp: word_count_def)
  moreover have "64 \<le> a + of_nat j - 4112" if "j < 8" for j
    using assms less8 [OF that] by (elim insertE disjE emptyE) simp_all
  ultimately show ?thesis using assms by (auto simp: root_range_def scannable_def not_less)
qed

lemma ex_root_ranges: "root_ranges 4096 ex_stack_of ex_segs ex_storage [5, 3, 8] (ex_gc v)"
  using ex_root_range [of 60] ex_root_range [of 100] ex_root_range [of 160] ex_root_range [of 200] ex_root_range [of 300]
  by (simp add: root_ranges_def stack_range_def ex_storage_def)

lemma ex_traceable: "traceable 4096 (ex_gc v) (Node Leaf 0 Leaf) (gc_roots ex_stack_of ex_segs ex_storage [5, 3, 8] (ex_gc v))"
  by (rule traceable_without_tails [OF ex_gc_ok ex_gc_no_tail roots_in_ranges])

lemma ex_sizes: "get_object_size (ex_gc v) 4176 = Some 2008" "get_object_size (ex_gc v) 8192 = Some 2016"
  using large_object_range(2) [OF ex_gc_ok [of v], of 0]
  by (simp_all add: get_object_size_def in_small_heap_def Let_def BLOCK_SIZE_def GET_OBJECT_SIZE_ADDR_def
    GET_SIZE_WITH_ALIGNMENT_def ex_gc_loads ex_gc_large_def leaf_node_def new_object_def)

lemma get_object_at:
  "gc_heap_ok H hp ot \<Longrightarrow> heap_object H hp ot x \<Longrightarrow> get_object_size hp x = Some n \<Longrightarrow> d < unat n \<Longrightarrow>
     get_object hp (x + of_nat d) = Some (Some x)"
  using get_object_inside by fastforce

lemma ex_words:
  "word_object (ex_gc v) 100 = [4176]" "word_object (ex_gc v) 4176 = [8192]"
  "a \<in> {60, 160, 200, 300} \<Longrightarrow> word_object (ex_gc v) a = []"
proof -
  have a: "get_object (ex_gc v) (4176 + of_nat 4) = Some (Some 4176)"
    by (rule get_object_at [OF ex_gc_ok ex_gc_objects(1) ex_sizes(1)]) simp
  have b: "get_object (ex_gc v) (8192 + of_nat 8) = Some (Some 8192)"
    by (rule get_object_at [OF ex_gc_ok ex_gc_objects(2) ex_sizes(2)]) simp
  show "word_object (ex_gc v) 100 = [4176]" "word_object (ex_gc v) 4176 = [8192]"
    using a b by (simp_all add: word_object_def ex_gc_loads)
  have "get_object (ex_gc v) 0 = Some None" by (simp add: get_object_def in_large_heap_def in_small_heap_def ex_gc_large_def)
  then show "a \<in> {60, 160, 200, 300} \<Longrightarrow> word_object (ex_gc v) a = []"
    using ex_gc_zero [of a v] by (simp add: word_object_def)
qed

lemma ex_kid: "8192 \<in> set (kids (ex_gc v) 4176)"
proof -
  have "(0 :: nat) < word_count 4176 (4176 + 2008)" by (simp add: word_count_def)
  then have "8192 \<in> set (range_objects (ex_gc v) 4176 (4176 + 2008))"
    using ex_words(2) [of v] unfolding range_objects_def by (auto intro!: bexI [of _ 0])
  then show ?thesis by (simp add: kids_def ex_sizes)
qed

lemma ex_roots: "gc_roots ex_stack_of ex_segs ex_storage [5, 3, 8] (ex_gc v) = {4176}"
proof -
  have w: "range_roots (ex_gc v) (a, a + 8) = set (word_object (ex_gc v) a)" if "a \<in> {60, 100, 160, 200, 300}" for a
  proof -
    have "word_count a (a + 8) = 1" using that by (auto simp: word_count_def)
    then show ?thesis by (simp add: range_roots_def range_objects_def)
  qed
  show ?thesis
    using w [of 60] w [of 100] w [of 160] w [of 200] w [of 300] ex_words(1) [of v]
      ex_words(3) [of 60 v] ex_words(3) [of 160 v] ex_words(3) [of 200 v] ex_words(3) [of 300 v]
    by (simp add: gc_roots_def stack_range_def ex_storage_def)
qed

lemma ex_marks: "is_marked (ex_gc v) 4176 = Some v" "is_marked (ex_gc v) 8192 = Some False"
proof -
  have "sized (ex_gc_mem v) 4096 2008" using ex_gc_loads(1) by (simp add: sized_def)
  moreover have "slot_marked (ex_gc_mem v) 4096 0 = v" by (simp add: ex_gc_mem_def slot_marked_put)
  ultimately show "is_marked (ex_gc v) 4176 = Some v"
    using is_marked_small [OF ex_gc_ok [of v], of 0 2008 0] by (simp add: slot_def)
  show "is_marked (ex_gc v) 8192 = Some False"
    using is_marked_large [OF ex_gc_ok [of v], of 0] by (simp add: ex_gc_large_def leaf_node_def new_object_def)
qed

theorem mark_correct_witness:
  "\<exists>hp' sto' st'. mark (\<lambda>_. True) ex_stack_of ex_segs ex_storage (ex_gc False) (create_stack (\<lambda>_. 0)) = Some (sto', hp', st')
    \<and> is_marked hp' 4176 = Some True \<and> is_marked hp' 8192 = Some True"
proof -
  let ?m = "marks 4096 (ex_gc False) (Node Leaf 0 Leaf)" and ?r = "gc_roots ex_stack_of ex_segs ex_storage [5, 3, 8] (ex_gc False)"
  obtain hp' sto' st' where r: "mark (\<lambda>_. True) ex_stack_of ex_segs ex_storage (ex_gc False) (create_stack (\<lambda>_. 0)) = Some (sto', hp', st')"
    and m: "?m hp' = ?m (ex_gc False) \<union> {x. reach (kids (ex_gc False)) (?m (ex_gc False)) ?r x}"
    using mark_correct [OF ex_gc_ok create_stack_empty ex_storage_at ex_root_ranges ex_traceable] by blast
  have un: "8192 \<notin> ?m (ex_gc False)" using ex_marks(2) [of False] by (simp add: marks_def)
  have un': "4176 \<notin> ?m (ex_gc False)"
    using ex_marks(1) [of False] by (simp add: marks_def)
  have "reach (kids (ex_gc False)) (?m (ex_gc False)) ?r 4176" by (rule reach.root) (use ex_roots un' in blast)+
  from reach.step [OF this ex_kid un] have "8192 \<in> ?m hp'" using m by blast
  moreover have "4176 \<in> ?m hp'" using m \<open>reach _ _ _ 4176\<close> by blast
  ultimately show ?thesis using r by (auto simp: marks_def)
qed

text \<open>C27: a mark that is already there hides what lies behind it. If every root is marked before \<^verbatim>\<open>mark\<close>
  starts, an unmarked object that one of them refers to stays unmarked, though it is reachable. Marks
  of small objects survive a sweep and only a refused small request clears them, so a
  collection that a large request starts can find those of the one before.\<close>

theorem stale_marks_hide_objects:
  assumes "gc_heap_ok H hp ot" and "stack_at st []" and "storage_at sto cs"
    and "root_ranges H stack_of segs sto cs hp" and "traceable H hp ot (gc_roots stack_of segs sto cs hp)"
    and "\<forall>x \<in> gc_roots stack_of segs sto cs hp. is_marked hp x = Some True"
    and "x \<in> gc_roots stack_of segs sto cs hp" and "y \<in> set (kids hp x)" and "is_marked hp y = Some False"
  shows "reach (kids hp) {} (gc_roots stack_of segs sto cs hp) y
    \<and> (\<exists>hp' sto' st'. mark (\<lambda>_. True) stack_of segs sto hp st = Some (sto', hp', st') \<and> is_marked hp' y = Some False)"
proof -
  let ?R = "gc_roots stack_of segs sto cs hp"
  have "reach (kids hp) {} ?R x" by (rule reach.root [OF assms(7)]) simp
  from reach.step [OF this assms(8)] have ry: "reach (kids hp) {} ?R y" by simp
  have oy: "heap_object H hp ot y" using ry assms(5) by (simp add: traceable_def)
  obtain hp' st' where m: "mark (\<lambda>_. True) stack_of segs sto hp st = Some (sto\<lparr>current_node_of_traversing := None\<rparr>, hp', st')"
    "gc_same H hp ot hp'" "marks H hp ot hp' = marks H hp ot hp \<union> {x. reach (kids hp) (marks H hp ot hp) ?R x}"
    using mark_traces [OF assms(1-5)] by blast
  have "?R \<subseteq> marks H hp ot hp"
  proof
    fix z assume "z \<in> ?R"
    then show "z \<in> marks H hp ot hp" using assms(6) traceable_roots [OF assms(5)] by (simp add: marks_def)
  qed
  then have "\<not> reach (kids hp) (marks H hp ot hp) ?R z" for z
    using reach_covered by metis
  then have "y \<notin> marks H hp ot hp'" using m(3) assms(9) by (simp add: marks_def)
  moreover obtain b where "is_marked hp' y = Some b" using gc_mark_laws(1) [OF assms(1) m(2) oy] by blast
  ultimately have "is_marked hp' y = Some False" using oy by (cases b) (simp_all add: marks_def)
  then show ?thesis using ry m(1) by blast
qed

theorem stale_marks_hide_objects_witness:
  "\<exists>hp' sto' st'. mark (\<lambda>_. True) ex_stack_of ex_segs ex_storage (ex_gc True) (create_stack (\<lambda>_. 0)) = Some (sto', hp', st')
    \<and> is_marked hp' 8192 = Some False"
  using stale_marks_hide_objects [OF ex_gc_ok create_stack_empty ex_storage_at ex_root_ranges ex_traceable _ _ ex_kid ex_marks(2), of True]
    ex_marks(1) [of True] ex_roots [of True] by auto

end
