(* ===== verification/Collector.thy ===== *)
theory Collector
  imports Object_Properties
begin

text \<open>
  One collection, what the service thread does between stopping and starting the world: \<^verbatim>\<open>mark\<close>, then
  \<^verbatim>\<open>sweep\<close> (\<^verbatim>\<open>sweeper/sweep.c\<close>). The theorem is the contract of the collector: what the roots reach stays
  where it is and as it is, everything else is free afterwards.
\<close>

definition sweep :: "size_t \<Rightarrow> gc_heap \<Rightarrow> gc_heap option" where
  "sweep H hp = do {
     let hp = hp\<lparr>logs := log SWEEP START (logs hp)\<rparr>;
     (s, m) \<leftarrow> sweep_small_heap H (small hp, bytes hp);
     let hp = hp\<lparr>small := s, bytes := m\<rparr>;
     l \<leftarrow> sweep_large_heap (large hp);
     let hp = hp\<lparr>large := l\<rparr>;
     Some (hp\<lparr>logs := log SWEEP OK (logs hp)\<rparr>)
   }"

text \<open>The two calls of \<^verbatim>\<open>service_thread_routine\<close>.\<close>

definition collect :: "size_t \<Rightarrow> (int \<Rightarrow> bool) \<Rightarrow> (size_t \<Rightarrow> size_t \<times> size_t) \<Rightarrow> (size_t \<times> size_t) \<times> (size_t \<times> size_t)
    \<Rightarrow> storage \<Rightarrow> gc_heap \<Rightarrow> mark_stack \<Rightarrow> (storage \<times> gc_heap \<times> mark_stack) option" where
  "collect H R stack_of segs sto hp st = do {
     (sto, hp, st) \<leftarrow> mark R stack_of segs sto hp st;
     hp \<leftarrow> sweep H hp;
     Some (sto, hp, st)
   }"


section \<open>From the mark phase to the sweep\<close>

text \<open>A heap in which both allocators satisfy their invariants, no thread has a cached block (the
  handler of the stop signal empties the caches) and no block has a mark.\<close>

definition collectable :: "size_t \<Rightarrow> gc_heap \<Rightarrow> nat tree \<Rightarrow> bool" where
  "collectable H hp ot \<longleftrightarrow> gc_heap_ok H hp ot \<and> sweep_ready H (small hp) (bytes hp)
     \<and> (\<forall>i < BLOCKS_COUNT H. is_bitmap_empty (bytes hp) (blk (START_ALLOCATOR_HEAP (small hp)) i))
     \<and> (\<forall>n \<in> set_tree ot. \<not> isMarked (block (TREENODES_LIST (large hp) n)))"

lemma gc_same_placed:
  assumes ok: "gc_heap_ok H hp0 ot" and same: "gc_same H hp0 ot hp" and i: "i < BLOCKS_COUNT H"
  shows "placed (bytes hp) (blk (START_ALLOCATOR_HEAP (small hp0)) i) p = placed (bytes hp0) (blk (START_ALLOCATOR_HEAP (small hp0)) i) p"
proof -
  let ?b = "blk (START_ALLOCATOR_HEAP (small hp0)) i"
  have "load64 (bytes hp) ?b = load64 (bytes hp0) ?b"
    using gc_same_header [OF ok same i] by (intro load64_cong) simp
  moreover have "sized (bytes hp) ?b = sized (bytes hp0) ?b" using gc_same_size [OF ok same i] by (simp add: fun_eq_iff sized_def)
  ultimately show ?thesis using gc_same_size [OF ok same i] by (cases p) (simp_all add: opened_def)
qed

lemma sized_nonzero: "sized m b k \<Longrightarrow> load64 m (b + 8) \<noteq> 0"
  using unat_size_ok [of k] by (auto simp: sized_def size_ok_iff)

lemma gc_same_ready:
  assumes ok: "gc_heap_ok H hp0 ot" and same: "gc_same H hp0 ot hp" and r: "sweep_ready H (small hp0) (bytes hp0)"
  shows "sweep_ready H (small hp) (bytes hp)"
proof -
  let ?B = "START_ALLOCATOR_HEAP (small hp0)"
  obtain pl es ss where inv: "small_inv H (small hp0) (bytes hp0) pl es ss"
    and ca: "\<forall>t k. size_ok k \<longrightarrow> nodes_cache (small hp0) t k = None"
    and em: "\<forall>i < BLOCKS_COUNT H. pl i = In_empty \<longrightarrow> is_bitmap_empty (bytes hp0) (blk ?B i)"
    using r by (auto simp: sweep_ready_def small_ok_def)
  have sm: "small hp = small hp0" using same by (simp add: gc_same_def)
  have "small_inv H (small hp) (bytes hp) pl es ss"
    using inv gc_same_placed [OF ok same] unfolding sm small_inv_def by simp
  moreover have "is_bitmap_empty (bytes hp) (blk ?B i)" if i: "i < BLOCKS_COUNT H" "pl i = In_empty" for i
  proof -
    have "placed (bytes hp0) (blk ?B i) (pl i)" using inv i(1) by (simp add: small_inv_def)
    then have "\<not> sized (bytes hp0) (blk ?B i) k" for k
      using i(2) sized_nonzero by fastforce
    moreover have "\<forall>n < 512. \<not> slot_marked (bytes hp0) (blk ?B i) n" using em i by (simp add: is_bitmap_empty_marks)
    ultimately show ?thesis using same i(1) unfolding gc_same_def is_bitmap_empty_marks by blast
  qed
  ultimately show ?thesis using ca unfolding sweep_ready_def small_ok_def sm by blast
qed

lemma no_marks:
  assumes "collectable H hp ot"
  shows "marks H hp ot hp = {}"
proof -
  have ok: "gc_heap_ok H hp ot" using assms by (simp add: collectable_def)
  have "is_marked hp x \<noteq> Some True" if x: "heap_object H hp ot x" for x
  proof -
    consider (small) i k j where "i < BLOCKS_COUNT H" "sized (bytes hp) (blk (START_ALLOCATOR_HEAP (small hp)) i) k"
        "j < slots (al k)" "x = slot (blk (START_ALLOCATOR_HEAP (small hp)) i) (al k) j"
      | (large) n where "n \<in> set_tree ot" "x = key (TREENODES_LIST (large hp)) n"
      using x by (auto simp: heap_object_def small_object_def large_object_def)
    then show ?thesis
    proof cases
      case small
      then have "\<not> slot_marked (bytes hp) (blk (START_ALLOCATOR_HEAP (small hp)) i) j"
        using assms slot_address(5) [OF ok small(1-3)] by (simp add: collectable_def is_bitmap_empty_marks)
      then show ?thesis using is_marked_small [OF ok small(1-3)] small(4) by simp
    next
      case large
      then show ?thesis using is_marked_large [OF ok large(1)] assms by (simp add: collectable_def)
    qed
  qed
  then show ?thesis by (auto simp: marks_def)
qed


section \<open>The large heap\<close>

definition region_bytes :: "Header \<Rightarrow> nat set" where
  "region_bytes b = {reg_lo b ..< reg_hi b}"

definition large_free :: "large_state \<Rightarrow> nat tree \<Rightarrow> nat set" where
  "large_free s ft = (\<Union>b \<in> set (blocks (TREENODES_LIST s) ft). region_bytes b)"

lemma tiles_cover: "tiles a e ts \<Longrightarrow> a \<le> y \<Longrightarrow> y < e \<Longrightarrow> \<exists>b \<in> set ts. y \<in> region_bytes b"
proof (induction ts arbitrary: a)
  case (Cons b ts)
  then show ?case by (cases "y < reg_hi b") (auto simp: region_bytes_def)
qed simp

lemma sweep_large_frees:
  assumes inv: "large_inv s ft ot pool" and safe: "sweep_safe (TREENODES_LIST s) ot"
  shows "\<exists>s' ft' ot' pool'. sweep_large_heap s = Some s' \<and> large_inv s' ft' ot' pool' \<and> same_limits s s'
    \<and> (\<forall>n \<in> set_tree ot. if isMarked (block (TREENODES_LIST s n))
         then remark (block (TREENODES_LIST s n)) \<in> set (blocks (TREENODES_LIST s') ot')
           \<and> region_bytes (block (TREENODES_LIST s n)) \<inter> large_free s' ft' = {}
         else region_bytes (block (TREENODES_LIST s n)) \<subseteq> large_free s' ft')
    \<and> (\<forall>n \<in> set_tree ot'. \<not> isMarked (block (TREENODES_LIST s' n))) \<and> (right_spine ot \<longrightarrow> right_spine ot')"
proof -
  let ?h = "TREENODES_LIST s"
  obtain s' ft' ot' pool' where r: "sweep_large_heap s = Some s'" "large_inv s' ft' ot' pool'" "same_limits s s'"
    and bo: "blocks (TREENODES_LIST s') ot' = map remark (filter isMarked (blocks ?h ot))" and sp: "right_spine ot \<longrightarrow> right_spine ot'"
    using sweep_large_heap_refines [OF inv safe] by blast
  have ht: "heap_tiled s (blocks ?h ft @ blocks ?h ot)" using inv by (simp add: large_inv_def)
  have ht': "heap_tiled s' (blocks (TREENODES_LIST s') ft' @ blocks (TREENODES_LIST s') ot')"
    using r(2) by (simp add: large_inv_def)
  have bb: "if isMarked b then remark b \<in> set (blocks (TREENODES_LIST s') ot') \<and> region_bytes b \<inter> large_free s' ft' = {}
     else region_bytes b \<subseteq> large_free s' ft'" if b: "b \<in> set (blocks ?h ot)" for b
  proof (cases "isMarked b")
    case True
    then have rb: "remark b \<in> set (blocks (TREENODES_LIST s') ot')" using b bo by simp
    have "region_bytes b \<inter> region_bytes c = {}" if c: "c \<in> set (blocks (TREENODES_LIST s') ft')" for c
    proof -
      have "c \<noteq> remark b" using heap_tiled_regions(2) [OF ht'] rb c by auto
      then have "reg_hi c \<le> reg_lo (remark b) \<or> reg_hi (remark b) \<le> reg_lo c"
        using heap_tiled_regions(4) [OF ht'] rb c by auto
      then show ?thesis by (auto simp: region_bytes_def remark_def reg_hi_def)
    qed
    then show ?thesis using True rb by (auto simp: large_free_def)
  next
    case False
    have "y \<in> large_free s' ft'" if y: "y \<in> region_bytes b" for y
    proof -
      obtain a e ts where t: "START_BIG_ALLOCATOR_HEAP s' = Some a" "END_BIG_ALLOCATOR_HEAP s' = Some e"
        "tiles (unat a) (unat e) ts" "mset ts = mset (blocks (TREENODES_LIST s') ft' @ blocks (TREENODES_LIST s') ot')"
        using ht' by (auto simp: heap_tiled_def)
      have "START_BIG_ALLOCATOR_HEAP s = Some a" "END_BIG_ALLOCATOR_HEAP s = Some e" using t(1,2) r(3) by (simp_all add: same_limits_def)
      then have "unat a \<le> y" "y < unat e"
        using heap_tiled_bounds [OF ht, of a e b] b y by (auto simp: region_bytes_def)
      then obtain c where c: "c \<in> set ts" "y \<in> region_bytes c" using tiles_cover [OF t(3)] by blast
      have "c \<notin> set (blocks (TREENODES_LIST s') ot')"
      proof
        assume "c \<in> set (blocks (TREENODES_LIST s') ot')"
        then obtain d where d: "d \<in> set (blocks ?h ot)" "isMarked d" "c = remark d" unfolding bo by auto
        then have "d \<noteq> b" using False by auto
        then have "reg_hi d \<le> reg_lo b \<or> reg_hi b \<le> reg_lo d" using heap_tiled_regions(4) [OF ht] d(1) b by auto
        then show False using y c(2) d(3) by (auto simp: region_bytes_def remark_def reg_hi_def)
      qed
      then have "c \<in> set (blocks (TREENODES_LIST s') ft')" using c(1) mset_eq_setD [OF t(4)] by auto
      then show ?thesis using c(2) by (auto simp: large_free_def)
    qed
    then show ?thesis using False by auto
  qed
  have "block (?h n) \<in> set (blocks ?h ot)" if "n \<in> set_tree ot" for n using that by (simp add: set_blocks)
  moreover have "\<not> isMarked (block (TREENODES_LIST s' n))" if "n \<in> set_tree ot'" for n
  proof -
    have "block (TREENODES_LIST s' n) \<in> set (blocks (TREENODES_LIST s') ot')" using that by (simp add: set_blocks)
    then show ?thesis unfolding bo by (auto simp: remark_def)
  qed
  ultimately show ?thesis using r bb sp by blast
qed


section \<open>The small heap\<close>

lemma unmarked_bound: "unmarked_bytes m b \<subseteq> {unat b + 80 ..< unat b + 4096}"
proof (cases "\<forall>n < 512. \<not> slot_marked m b n")
  case True
  then show ?thesis by (simp add: unmarked_bytes_def)
next
  case False
  have "slot_range b k n \<subseteq> {unat b + 80 ..< unat b + 4096}" if "n < slots (al k)" for k n
  proof (cases "al k = 0")
    case False
    then show ?thesis using that slot_fits [of "al k" n] by (fastforce simp: slot_range_def)
  qed (simp add: slot_range_def)
  then show ?thesis unfolding unmarked_bytes_def if_not_P [OF False] by blast
qed

lemma unmarked_free:
  assumes sz: "sized m b k" and j: "j < slots (al k)" and u: "\<not> slot_marked m b j"
  shows "slot_range b k j \<subseteq> unmarked_bytes m b"
proof (cases "\<forall>n < 512. \<not> slot_marked m b n")
  case True
  have "80 + al k * j + al k \<le> 4096" using slot_fits [of "al k" j] al_bounds(1) [of k] sz j by (simp add: sized_def)
  then show ?thesis using True by (auto simp: unmarked_bytes_def slot_range_def)
next
  case False
  have "unat (load64 m (b + 8)) = k" using sz unat_size_ok by (simp add: sized_def)
  then show ?thesis using j u unfolding unmarked_bytes_def if_not_P [OF False] by auto
qed


section \<open>Headers\<close>

definition off_headers :: "size_t \<Rightarrow> size_t \<Rightarrow> size_t \<Rightarrow> bool" where
  "off_headers H B a \<longleftrightarrow> (\<forall>c < BLOCKS_COUNT H. \<not> a - blk B c < 80)"

lemma off_headers_small:
  assumes "small_room H B" and "i < BLOCKS_COUNT H" and "80 \<le> off" and "off < 4096"
  shows "off_headers H B (blk B i + of_nat off)"
proof -
  have "\<not> blk B i + of_nat off - blk B c < 80" if c: "c < BLOCKS_COUNT H" for c
    using in_header [of off "blk B i"] blk_apart [OF assms(1) c assms(2), of off] assms(3,4) by (cases "c = i") simp_all
  then show ?thesis by (simp add: off_headers_def)
qed

lemma off_headers_large:
  assumes ok: "gc_heap_ok H hp ot" and a: "in_large_heap hp a = Some True"
  shows "off_headers H (START_ALLOCATOR_HEAP (small hp)) a"
  unfolding off_headers_def
proof (intro allI impI notI)
  let ?B = "START_ALLOCATOR_HEAP (small hp)"
  fix c assume c: "c < BLOCKS_COUNT H" and less: "a - blk ?B c < 80"
  then have "unat (a - blk ?B c) < 4096" by (simp add: word_less_nat_alt)
  moreover have "a = blk ?B c + of_nat (unat (a - blk ?B c))" unfolding of_nat_unat_word by simp
  ultimately show False using small_heap_address(2) [OF ok c, of "unat (a - blk ?B c)" a] a by simp
qed

lemma off_headers_same:
  assumes "off_headers H B a"
  shows "headers_only H B m m' \<Longrightarrow> m' a = m a"
    and "gc_same H hp0 ot hp \<Longrightarrow> B = START_ALLOCATOR_HEAP (small hp0) \<Longrightarrow> bytes hp a = bytes hp0 a"
proof -
  show "headers_only H B m m' \<Longrightarrow> m' a = m a" using assms by (simp add: headers_only_def off_headers_def)
  have "\<not> a - (blk B c + 16) < 64" if "c < BLOCKS_COUNT H" for c
  proof -
    have n: "\<not> a - blk B c < 80" using assms that by (simp add: off_headers_def)
    then have "80 \<le> unat (a - blk B c)" by (simp add: word_less_nat_alt)
    then show ?thesis using past_header [OF n, of 16] by (simp add: word_less_nat_alt)
  qed
  then show "gc_same H hp0 ot hp \<Longrightarrow> B = START_ALLOCATOR_HEAP (small hp0) \<Longrightarrow> bytes hp a = bytes hp0 a"
    by (simp add: gc_same_def)
qed


section \<open>Sweeping both heaps\<close>

definition object_bytes :: "size_t \<Rightarrow> size_t \<Rightarrow> nat set" where
  "object_bytes x n = {unat x ..< unat x + unat n}"

definition gc_free :: "size_t \<Rightarrow> gc_heap \<Rightarrow> (nat \<Rightarrow> place) \<Rightarrow> nat tree \<Rightarrow> nat set" where
  "gc_free H hp pl ft = free_bytes H (small hp) (bytes hp) pl \<union> large_free (large hp) ft"

text \<open>The object is still there in \<open>hp'\<close>, with its size and its bytes.\<close>

definition survives :: "size_t \<Rightarrow> gc_heap \<Rightarrow> gc_heap \<Rightarrow> nat tree \<Rightarrow> size_t \<Rightarrow> size_t \<Rightarrow> bool" where
  "survives H hp hp' ot' x n \<longleftrightarrow> heap_object H hp' ot' x \<and> get_object_size hp' x = Some n
     \<and> (\<forall>d < unat n. bytes hp' (x + of_nat d) = bytes hp (x + of_nat d))"

lemma small_object_cases:
  assumes ok: "gc_heap_ok H hp ot" and x: "small_object H hp x" and n: "get_object_size hp x = Some n"
  obtains i k j where "i < BLOCKS_COUNT H" "sized (bytes hp) (blk (START_ALLOCATOR_HEAP (small hp)) i) k" "j < slots (al k)"
    "x = slot (blk (START_ALLOCATOR_HEAP (small hp)) i) (al k) j" "unat n = al k" "n = of_nat (al k)"
    "object_bytes x n = slot_range (blk (START_ALLOCATOR_HEAP (small hp)) i) k j"
    "is_marked hp x = Some (slot_marked (bytes hp) (blk (START_ALLOCATOR_HEAP (small hp)) i) j)"
proof -
  let ?B = "START_ALLOCATOR_HEAP (small hp)"
  obtain i k j where o: "i < BLOCKS_COUNT H" "sized (bytes hp) (blk ?B i) k" "j < slots (al k)"
    "x = slot (blk ?B i) (al k) j" using x by (auto simp: small_object_def)
  have k: "size_ok k" using o(2) by (simp add: sized_def)
  have ne: "n = of_nat (al k)" using small_object_range(2) [OF ok o(1-3)] o(4) n by simp
  have un: "unat n = al k" unfolding ne using al_bounds(2) [OF k] by (intro unat_of_nat_small) simp
  have "unat x = unat (blk ?B i) + 80 + al k * j"
    unfolding o(4) using o(3) by (intro unat_slot [OF blk_end [OF gc_heap_parts(2) [OF ok] o(1)] k]) simp
  then have "object_bytes x n = slot_range (blk ?B i) k j" by (simp add: object_bytes_def slot_range_def un)
  then show ?thesis using that o ne un is_marked_small [OF ok o(1-3)] by simp
qed

lemma large_object_cases:
  assumes ok: "gc_heap_ok H hp ot" and x: "large_object hp ot x" and n: "get_object_size hp x = Some n"
  obtains i where "i \<in> set_tree ot" "x = key (TREENODES_LIST (large hp)) i" "n = prio (TREENODES_LIST (large hp)) i"
    "object_bytes x n = region_bytes (block (TREENODES_LIST (large hp) i))"
    "is_marked hp x = Some (isMarked (block (TREENODES_LIST (large hp) i)))"
proof -
  obtain i where i: "i \<in> set_tree ot" "x = key (TREENODES_LIST (large hp)) i" using x by (auto simp: large_object_def)
  have ne: "n = prio (TREENODES_LIST (large hp)) i" using large_object_range(2) [OF ok i(1)] n i(2) by simp
  then have "object_bytes x n = region_bytes (block (TREENODES_LIST (large hp) i))"
    by (simp add: object_bytes_def region_bytes_def i(2) reg_hi_def)
  then show ?thesis using that i ne is_marked_large [OF ok i(1)] by simp
qed

lemma object_off_headers:
  assumes ok: "gc_heap_ok H hp ot" and x: "heap_object H hp ot x" and n: "get_object_size hp x = Some n" and d: "d < unat n"
  shows "off_headers H (START_ALLOCATOR_HEAP (small hp)) (x + of_nat d)"
proof (cases "small_object H hp x")
  case True
  from small_object_cases [OF ok this n] obtain i k j where o: "i < BLOCKS_COUNT H"
    "sized (bytes hp) (blk (START_ALLOCATOR_HEAP (small hp)) i) k" "j < slots (al k)"
    "x = slot (blk (START_ALLOCATOR_HEAP (small hp)) i) (al k) j" "unat n = al k" by metis
  have "80 + al k * j + al k \<le> 4096" using slot_fits [of "al k" j] al_bounds(1) [of k] o(2,3) by (simp add: sized_def)
  then have "80 \<le> 80 + al k * j + d" "80 + al k * j + d < 4096" using d o(5) by linarith+
  from off_headers_small [OF gc_heap_parts(2) [OF ok] o(1) this]
  show ?thesis by (simp add: o(4) slot_def add.assoc)
next
  case False
  then have "large_object hp ot x" using x by (simp add: heap_object_def)
  from large_object_cases [OF ok this n] obtain i where i: "i \<in> set_tree ot" "x = key (TREENODES_LIST (large hp)) i"
    "n = prio (TREENODES_LIST (large hp)) i" by metis
  note f = large_object_found [OF ok i(1)]
  have "unat (of_nat d :: size_t) = d" using d unat_size_t [of n] by (intro unat_of_nat_small) linarith
  then have "unat (x + of_nat d) = unat x + d" using d f(6) i by (subst unat_add_no_wrap) (simp_all add: reg_hi_def)
  then have "holds_addr (x + of_nat d) (block (TREENODES_LIST (large hp) i))"
    using d f(6) i by (simp add: holds_addr_iff reg_hi_def)
  then show ?thesis using off_headers_large [OF ok f(4)] by blast
qed


definition after_sweep :: "size_t \<Rightarrow> gc_heap \<Rightarrow> nat tree \<Rightarrow> gc_heap \<Rightarrow> nat tree \<Rightarrow> nat tree \<Rightarrow> bool" where
  "after_sweep H hp ot hp' ft' ot' \<longleftrightarrow>
     (let B = START_ALLOCATOR_HEAP (small hp); h = TREENODES_LIST (large hp) in
      small_ok H (small hp') (bytes hp') (\<lambda>i. destination (bytes hp) (blk B i))
      \<and> free_bytes H (small hp') (bytes hp') (\<lambda>i. destination (bytes hp) (blk B i)) = (\<Union>i < BLOCKS_COUNT H. unmarked_bytes (bytes hp) (blk B i))
      \<and> headers_only H B (bytes hp) (bytes hp') \<and> START_ALLOCATOR_HEAP (small hp') = B
      \<and> (\<exists>pool'. large_inv (large hp') ft' ot' pool') \<and> same_limits (large hp) (large hp')
      \<and> (\<forall>n \<in> set_tree ot. if isMarked (block (h n))
           then remark (block (h n)) \<in> set (blocks (TREENODES_LIST (large hp')) ot')
             \<and> region_bytes (block (h n)) \<inter> large_free (large hp') ft' = {}
           else region_bytes (block (h n)) \<subseteq> large_free (large hp') ft')
      \<and> sweep_ready H (small hp') (bytes hp') \<and> (\<forall>n \<in> set_tree ot'. \<not> isMarked (block (TREENODES_LIST (large hp') n)))
      \<and> (right_spine ot \<longrightarrow> right_spine ot'))"

lemma sweep_runs:
  assumes ok: "gc_heap_ok H hp ot" and rdy: "sweep_ready H (small hp) (bytes hp)"
    and safe: "sweep_safe (TREENODES_LIST (large hp)) ot"
  shows "\<exists>hp' ft' ot'. sweep H hp = Some hp' \<and> after_sweep H hp ot hp' ft' ot'"
proof -
  obtain s' m' es ss where a: "sweep_small_heap H (small hp, bytes hp) = Some (s', m')"
    "small_inv H s' m' (\<lambda>i. destination (bytes hp) (blk (START_ALLOCATOR_HEAP (small hp)) i)) es ss"
    "free_bytes H s' m' (\<lambda>i. destination (bytes hp) (blk (START_ALLOCATOR_HEAP (small hp)) i))
      = (\<Union>i < BLOCKS_COUNT H. unmarked_bytes (bytes hp) (blk (START_ALLOCATOR_HEAP (small hp)) i))"
    "headers_only H (START_ALLOCATOR_HEAP (small hp)) (bytes hp) m'" "same_frame (small hp) s'"
    and mk: "\<forall>i < BLOCKS_COUNT H. \<forall>n < 512. slot_marked m' (blk (START_ALLOCATOR_HEAP (small hp)) i) n
       = slot_marked (bytes hp) (blk (START_ALLOCATOR_HEAP (small hp)) i) n"
    using sweep_ready_runs [OF rdy] by blast
  obtain ft pool where "large_inv (large hp) ft ot pool" using gc_heap_parts(5) [OF ok] by blast
  from sweep_large_frees [OF this safe] obtain l ft' ot' pool' where b: "sweep_large_heap (large hp) = Some l" "large_inv l ft' ot' pool'"
    "same_limits (large hp) l" "\<forall>n \<in> set_tree ot. if isMarked (block (TREENODES_LIST (large hp) n))
         then remark (block (TREENODES_LIST (large hp) n)) \<in> set (blocks (TREENODES_LIST l) ot')
           \<and> region_bytes (block (TREENODES_LIST (large hp) n)) \<inter> large_free l ft' = {}
         else region_bytes (block (TREENODES_LIST (large hp) n)) \<subseteq> large_free l ft'"
    "\<forall>n \<in> set_tree ot'. \<not> isMarked (block (TREENODES_LIST l n))" "right_spine ot \<longrightarrow> right_spine ot'" by blast
  let ?hp = "hp\<lparr>small := s', bytes := m', large := l, logs := log SWEEP OK (log SWEEP START (logs hp))\<rparr>"
  have "sweep H hp = Some ?hp" using a(1) b(1) by (simp add: sweep_def)
  moreover have "small_ok H s' m' (\<lambda>i. destination (bytes hp) (blk (START_ALLOCATOR_HEAP (small hp)) i))"
    using a(2) unfolding small_ok_def by blast
  moreover have B: "START_ALLOCATOR_HEAP s' = START_ALLOCATOR_HEAP (small hp)" using a(5) by (simp add: same_frame_def)
  moreover have "sweep_ready H s' m'"
  proof -
    have "is_bitmap_empty m' (blk (START_ALLOCATOR_HEAP s') i)"
      if "i < BLOCKS_COUNT H" "destination (bytes hp) (blk (START_ALLOCATOR_HEAP (small hp)) i) = In_empty" for i
      using that mk unfolding B is_bitmap_empty_marks destination_def by (simp split: if_splits)
    moreover have "nodes_cache s' t k = None" if "size_ok k" for t k
      using rdy a(5) that by (auto simp: sweep_ready_def same_frame_def)
    ultimately show ?thesis using a(2) unfolding sweep_ready_def small_ok_def by blast
  qed
  ultimately have "after_sweep H hp ot ?hp ft' ot'"
    unfolding after_sweep_def Let_def using a(3,4) b(2-6) by auto
  with \<open>sweep H hp = Some ?hp\<close> show ?thesis by blast
qed

lemma after_sweep_heap:
  assumes ok: "gc_heap_ok H hp ot" and af: "after_sweep H hp ot hp' ft' ot'"
  shows "gc_heap_ok H hp' ot'"
proof -
  let ?B = "START_ALLOCATOR_HEAP (small hp)"
  have B: "START_ALLOCATOR_HEAP (small hp') = ?B" and so: "small_ok H (small hp') (bytes hp') (\<lambda>i. destination (bytes hp) (blk ?B i))"
    and l: "\<exists>ft pool. large_inv (large hp') ft ot' pool" and sl: "same_limits (large hp) (large hp')"
    using af unfolding after_sweep_def Let_def by blast+
  have room: "small_room H ?B" and en: "END_ALLOCATOR_HEAP (small hp') = ?B + H"
    and pl: "i < BLOCKS_COUNT H \<Longrightarrow> placed (bytes hp') (blk ?B i) (destination (bytes hp) (blk ?B i))" for i
    using so B by (auto simp: small_ok_def small_inv_def)
  have "block_ok (bytes hp') (blk ?B i)" if "i < BLOCKS_COUNT H" for i
    using pl [OF that] by (auto simp: block_ok_def destination_def opened_def split: if_splits)
  then show ?thesis
    using ok room en l sl unfolding gc_heap_ok_def Let_def B by (auto simp: same_limits_def)
qed

lemma after_sweep_small:
  assumes ok: "gc_heap_ok H hp ot" and af: "after_sweep H hp ot hp' ft' ot'"
    and x: "small_object H hp x" and n: "get_object_size hp x = Some n"
  shows "if is_marked hp x = Some True
    then object_bytes x n \<inter> free_bytes H (small hp') (bytes hp') (\<lambda>i. destination (bytes hp) (blk (START_ALLOCATOR_HEAP (small hp)) i)) = {}
      \<and> small_object H hp' x \<and> get_object_size hp' x = Some n
    else object_bytes x n \<subseteq> free_bytes H (small hp') (bytes hp') (\<lambda>i. destination (bytes hp) (blk (START_ALLOCATOR_HEAP (small hp)) i))"
proof -
  let ?B = "START_ALLOCATOR_HEAP (small hp)" and ?m = "bytes hp"
  have fb: "free_bytes H (small hp') (bytes hp') (\<lambda>i. destination ?m (blk ?B i)) = (\<Union>i < BLOCKS_COUNT H. unmarked_bytes ?m (blk ?B i))"
    and B: "START_ALLOCATOR_HEAP (small hp') = ?B" and so: "small_ok H (small hp') (bytes hp') (\<lambda>i. destination ?m (blk ?B i))"
    using af unfolding after_sweep_def Let_def by blast+
  from small_object_cases [OF ok x n] obtain i k j where o: "i < BLOCKS_COUNT H" "sized ?m (blk ?B i) k" "j < slots (al k)"
    "x = slot (blk ?B i) (al k) j" "n = of_nat (al k)" "object_bytes x n = slot_range (blk ?B i) k j"
    "is_marked hp x = Some (slot_marked ?m (blk ?B i) j)" by metis
  show ?thesis
  proof (cases "slot_marked ?m (blk ?B i) j")
    case True
    have k: "size_ok k" using o(2) by (simp add: sized_def)
    have "j < 512" using o(3) slots_ok(2) [OF k] by simp
    then have "\<not> (\<forall>n < 512. \<not> slot_marked ?m (blk ?B i) n)" using True by blast
    then have "destination ?m (blk ?B i) = In_segreg k"
      using o(2) unat_size_ok [OF k] by (simp add: destination_def sized_def)
    then have "opened (bytes hp') (blk ?B i) k" using so B o(1) by (auto simp: small_ok_def small_inv_def)
    then have sz: "sized (bytes hp') (blk ?B i) k" by (simp add: opened_def)
    then have "small_object H hp' x" unfolding small_object_def B using o(1,3,4) by blast
    moreover have "get_object_size hp' x = Some n"
      using small_object_range(2) [OF after_sweep_heap [OF ok af] o(1)] sz o(3-5) unfolding B by blast
    moreover have "object_bytes x n \<inter> (\<Union>i < BLOCKS_COUNT H. unmarked_bytes ?m (blk ?B i)) = {}"
      unfolding o(6) by (rule marked_not_free [OF gc_heap_parts(2) [OF ok] o(1-3) True])
    ultimately show ?thesis using True o(7) fb by simp
  next
    case False
    then have "object_bytes x n \<subseteq> (\<Union>i < BLOCKS_COUNT H. unmarked_bytes ?m (blk ?B i))"
      using unmarked_free [OF o(2,3)] o(1) unfolding o(6) by blast
    then show ?thesis using False o(7) fb by simp
  qed
qed


lemma after_sweep_large:
  assumes ok: "gc_heap_ok H hp ot" and af: "after_sweep H hp ot hp' ft' ot'"
    and x: "large_object hp ot x" and n: "get_object_size hp x = Some n"
  shows "if is_marked hp x = Some True
    then object_bytes x n \<inter> large_free (large hp') ft' = {} \<and> large_object hp' ot' x \<and> get_object_size hp' x = Some n
    else object_bytes x n \<subseteq> large_free (large hp') ft'"
proof -
  let ?h = "TREENODES_LIST (large hp)"
  from large_object_cases [OF ok x n] obtain i where i: "i \<in> set_tree ot" "x = key ?h i" "n = prio ?h i"
    "object_bytes x n = region_bytes (block (?h i))" "is_marked hp x = Some (isMarked (block (?h i)))" by metis
  have c: "if isMarked (block (?h i)) then remark (block (?h i)) \<in> set (blocks (TREENODES_LIST (large hp')) ot')
       \<and> region_bytes (block (?h i)) \<inter> large_free (large hp') ft' = {}
     else region_bytes (block (?h i)) \<subseteq> large_free (large hp') ft'"
    using af i(1) unfolding after_sweep_def Let_def by blast
  show ?thesis
  proof (cases "isMarked (block (?h i))")
    case True
    then obtain q where q: "q \<in> set_tree ot'" "block (TREENODES_LIST (large hp') q) = remark (block (?h i))"
      using c by (auto simp: set_blocks)
    then have k: "key (TREENODES_LIST (large hp')) q = x" "prio (TREENODES_LIST (large hp')) q = n"
      by (simp_all add: remark_def i(2,3))
    then have "large_object hp' ot' x" using q(1) by (auto simp: large_object_def)
    moreover have "get_object_size hp' x = Some n"
      using large_object_range(2) [OF after_sweep_heap [OF ok af] q(1)] k by simp
    ultimately show ?thesis using True c i(4,5) by simp
  qed (use c i(4,5) in simp)
qed

text \<open>The two mappings do not overlap.\<close>

lemma small_in_mapping:
  assumes "small_room H B"
  shows "(\<Union>i < BLOCKS_COUNT H. {unat (blk B i) + 80 ..< unat (blk B i) + 4096}) \<subseteq> {unat B ..< unat B + unat H}"
proof (rule UN_least)
  fix i assume "i \<in> {..<BLOCKS_COUNT H}"
  then show "{unat (blk B i) + 80 ..< unat (blk B i) + 4096} \<subseteq> {unat B ..< unat B + unat H}"
    using unat_blk [OF assms, of i] block_in_heap [of i H] by auto
qed

lemma small_object_in_mapping:
  assumes ok: "gc_heap_ok H hp ot" and x: "small_object H hp x" and n: "get_object_size hp x = Some n"
  shows "object_bytes x n \<subseteq> {unat (START_ALLOCATOR_HEAP (small hp)) ..< unat (START_ALLOCATOR_HEAP (small hp)) + unat H}"
proof -
  from small_object_cases [OF ok x n] obtain i k j where o: "i < BLOCKS_COUNT H"
    "sized (bytes hp) (blk (START_ALLOCATOR_HEAP (small hp)) i) k" "j < slots (al k)"
    "object_bytes x n = slot_range (blk (START_ALLOCATOR_HEAP (small hp)) i) k j" by metis
  have "80 + al k * j + al k \<le> 4096" using slot_fits [of "al k" j] al_bounds(1) [of k] o(2,3) by (simp add: sized_def)
  then show ?thesis
    using unat_blk [OF gc_heap_parts(2) [OF ok] o(1)] block_in_heap [OF o(1)] unfolding o(4) by (auto simp: slot_range_def)
qed

lemma large_in_mapping:
  assumes inv: "large_inv s ft ot pool" and se: "START_BIG_ALLOCATOR_HEAP s = Some a" "END_BIG_ALLOCATOR_HEAP s = Some e"
  shows "large_free s ft \<subseteq> {unat a ..< unat e}" and "n \<in> set_tree ot \<Longrightarrow> region_bytes (block (TREENODES_LIST s n)) \<subseteq> {unat a ..< unat e}"
proof -
  have ht: "heap_tiled s (blocks (TREENODES_LIST s) ft @ blocks (TREENODES_LIST s) ot)" using inv by (simp add: large_inv_def)
  have "region_bytes b \<subseteq> {unat a ..< unat e}" if "b \<in> set (blocks (TREENODES_LIST s) ft @ blocks (TREENODES_LIST s) ot)" for b
    using heap_tiled_bounds [OF ht se that] by (auto simp: region_bytes_def)
  then show "large_free s ft \<subseteq> {unat a ..< unat e}" "n \<in> set_tree ot \<Longrightarrow> region_bytes (block (TREENODES_LIST s n)) \<subseteq> {unat a ..< unat e}"
    by (auto simp: large_free_def set_blocks)
qed

lemma sweep_correct:
  assumes ok: "gc_heap_ok H hp ot" and af: "after_sweep H hp ot hp' ft' ot'"
    and x: "heap_object H hp ot x" and n: "get_object_size hp x = Some n"
  defines "F \<equiv> gc_free H hp' (\<lambda>i. destination (bytes hp) (blk (START_ALLOCATOR_HEAP (small hp)) i)) ft'"
  shows "if is_marked hp x = Some True then object_bytes x n \<inter> F = {} \<and> survives H hp hp' ot' x n
    else object_bytes x n \<subseteq> F"
proof -
  let ?B = "START_ALLOCATOR_HEAP (small hp)"
  let ?S = "free_bytes H (small hp') (bytes hp') (\<lambda>i. destination (bytes hp) (blk ?B i))"
  have fb: "?S = (\<Union>i < BLOCKS_COUNT H. unmarked_bytes (bytes hp) (blk ?B i))" and ho: "headers_only H ?B (bytes hp) (bytes hp')"
    and l: "\<exists>pool'. large_inv (large hp') ft' ot' pool'" and sl: "same_limits (large hp) (large hp')"
    using af unfolding after_sweep_def Let_def by blast+
  have by': "bytes hp' (x + of_nat d) = bytes hp (x + of_nat d)" if "d < unat n" for d
    by (rule off_headers_same(1) [OF object_off_headers [OF ok x n that] ho])
  have S: "?S \<subseteq> {unat ?B ..< unat ?B + unat H}"
    unfolding fb using unmarked_bound small_in_mapping [OF gc_heap_parts(2) [OF ok]] by blast
  obtain s e where se: "START_BIG_ALLOCATOR_HEAP (large hp) = Some s" "END_BIG_ALLOCATOR_HEAP (large hp) = Some e"
    and apart: "unat e \<le> unat ?B \<or> unat ?B + unat H \<le> unat s" using in_large_heap_total [OF ok] by blast
  have se': "START_BIG_ALLOCATOR_HEAP (large hp') = Some s" "END_BIG_ALLOCATOR_HEAP (large hp') = Some e"
    using se sl by (simp_all add: same_limits_def)
  have L: "large_free (large hp') ft' \<subseteq> {unat s ..< unat e}" using l large_in_mapping(1) [OF _ se'] by blast
  have sep: "X \<inter> Y = {}" if "X \<subseteq> {unat ?B ..< unat ?B + unat H}" "Y \<subseteq> {unat s ..< unat e}" for X Y :: "nat set"
  proof -
    have "{unat ?B ..< unat ?B + unat H} \<inter> {unat s ..< unat e} = {}" using apart by auto
    then show ?thesis using that by blast
  qed
  show ?thesis
  proof (cases "small_object H hp x")
    case True
    have "object_bytes x n \<inter> large_free (large hp') ft' = {}"
      by (rule sep [OF small_object_in_mapping [OF ok True n] L])
    then show ?thesis
      using after_sweep_small [OF ok af True n] by' unfolding F_def gc_free_def survives_def heap_object_def by (auto split: if_splits)
  next
    case False
    then have lo: "large_object hp ot x" using x by (simp add: heap_object_def)
    from large_object_cases [OF ok lo n] obtain i where i: "i \<in> set_tree ot"
      "object_bytes x n = region_bytes (block (TREENODES_LIST (large hp) i))" by metis
    obtain ft pool where "large_inv (large hp) ft ot pool" using gc_heap_parts(5) [OF ok] by blast
    then have "object_bytes x n \<subseteq> {unat s ..< unat e}" unfolding i(2) by (rule large_in_mapping(2) [OF _ se i(1)])
    then have "object_bytes x n \<inter> ?S = {}" using sep [OF S] by blast
    then show ?thesis
      using after_sweep_large [OF ok af lo n] by' unfolding F_def gc_free_def survives_def heap_object_def by (auto split: if_splits)
  qed
qed


section \<open>A collection\<close>

text \<open>No object of block \<open>i\<close> is reached.\<close>

definition block_unreached :: "size_t \<Rightarrow> gc_heap \<Rightarrow> size_t set \<Rightarrow> nat \<Rightarrow> bool" where
  "block_unreached H hp R i \<longleftrightarrow> (\<forall>k j. sized (bytes hp) (blk (START_ALLOCATOR_HEAP (small hp)) i) k \<longrightarrow> j < slots (al k) \<longrightarrow>
     \<not> reach (kids hp) {} R (slot (blk (START_ALLOCATOR_HEAP (small hp)) i) (al k) j))"

text \<open>The objects a collection keeps: those marked before, and those the roots reach without passing one that was.\<close>

definition spared :: "size_t \<Rightarrow> gc_heap \<Rightarrow> nat tree \<Rightarrow> size_t set \<Rightarrow> size_t set" where
  "spared H hp ot R = marks H hp ot hp \<union> {x. reach (kids hp) (marks H hp ot hp) R x}"

text \<open>No node without \<open>P\<close> has nodes with \<open>P\<close> in both of its subtrees.\<close>

fun no_gap :: "('a \<Rightarrow> bool) \<Rightarrow> 'a tree \<Rightarrow> bool" where
  "no_gap P Leaf \<longleftrightarrow> True"
| "no_gap P (Node l i r) \<longleftrightarrow> (P i \<or> (\<forall>j \<in> set_tree l. \<not> P j) \<or> (\<forall>j \<in> set_tree r. \<not> P j)) \<and> no_gap P l \<and> no_gap P r"

lemma no_gap_cong: "(\<And>i. i \<in> set_tree t \<Longrightarrow> P i = Q i) \<Longrightarrow> no_gap P t = no_gap Q t"
  by (induction t) auto

lemma sweep_safe_no_gap: "sweep_safe h t \<longleftrightarrow> no_gap (\<lambda>n. isMarked (block (h n))) t"
  by (induction t) (auto simp: filter_empty_conv set_blocks)

lemma right_spine_no_gap: "right_spine t \<Longrightarrow> no_gap P t"
  by (induction t) auto

lemma spared_unmarked: "marks H hp ot hp = {} \<Longrightarrow> spared H hp ot R = {x. reach (kids hp) {} R x}"
  by (simp add: spared_def)

lemma spared_large:
  assumes "gc_heap_ok H hp ot" and "n \<in> set_tree ot"
  shows "heap_object H hp ot (key (TREENODES_LIST (large hp)) n)"
  using assms(2) by (auto simp: heap_object_def large_object_def)

lemma collect_runs:
  assumes ok: "gc_heap_ok H hp ot" and rdy: "sweep_ready H (small hp) (bytes hp)" and "stack_at st []" and "storage_at sto cs"
    and "root_ranges H stack_of segs sto cs hp" and "traceable H hp ot (gc_roots stack_of segs sto cs hp)"
    and gap: "no_gap (\<lambda>n. key (TREENODES_LIST (large hp)) n \<in> spared H hp ot (gc_roots stack_of segs sto cs hp)) ot"
  shows "\<exists>hp' sto' st' pl' ft' ot'. collect H (\<lambda>_. True) stack_of segs sto hp st = Some (sto', hp', st')
    \<and> gc_heap_ok H hp' ot' \<and> small_ok H (small hp') (bytes hp') pl' \<and> (\<exists>pool'. large_inv (large hp') ft' ot' pool')
    \<and> (\<forall>x n. heap_object H hp ot x \<longrightarrow> get_object_size hp x = Some n \<longrightarrow>
        (if x \<in> spared H hp ot (gc_roots stack_of segs sto cs hp)
         then object_bytes x n \<inter> gc_free H hp' pl' ft' = {} \<and> survives H hp hp' ot' x n
         else object_bytes x n \<subseteq> gc_free H hp' pl' ft'))
    \<and> sweep_ready H (small hp') (bytes hp') \<and> (\<forall>n \<in> set_tree ot'. \<not> isMarked (block (TREENODES_LIST (large hp') n)))
    \<and> (right_spine ot \<longrightarrow> right_spine ot')
    \<and> START_ALLOCATOR_HEAP (small hp') = START_ALLOCATOR_HEAP (small hp)
    \<and> (\<forall>i < BLOCKS_COUNT H. block_unreached H hp (gc_roots stack_of segs sto cs hp) i \<longrightarrow>
        is_bitmap_empty (bytes hp) (blk (START_ALLOCATOR_HEAP (small hp)) i) \<longrightarrow> pl' i = In_empty)"
proof -
  let ?R = "gc_roots stack_of segs sto cs hp"
  let ?S = "spared H hp ot ?R"
  obtain hp1 st' where m: "mark (\<lambda>_. True) stack_of segs sto hp st = Some (sto\<lparr>current_node_of_traversing := None\<rparr>, hp1, st')"
    "gc_same H hp ot hp1" "marks H hp ot hp1 = ?S"
    using mark_traces [OF ok assms(3-6)] unfolding spared_def by blast
  note ok1 = gc_same_ok [OF ok m(2)] and rdy1 = gc_same_ready [OF ok m(2) rdy]
  have mk: "is_marked hp1 x = Some True \<longleftrightarrow> x \<in> ?S" if "heap_object H hp ot x" for x
    using m(3) that by (auto simp: marks_def)
  have ke: "key (TREENODES_LIST (large hp1)) n = key (TREENODES_LIST (large hp)) n" for n
  proof -
    obtain M where "large hp1 = mark_nodes M (large hp)" using m(2) unfolding gc_same_def by blast
    then show ?thesis by simp
  qed
  have im: "isMarked (block (TREENODES_LIST (large hp1) n)) \<longleftrightarrow> key (TREENODES_LIST (large hp)) n \<in> ?S" if n: "n \<in> set_tree ot" for n
    using is_marked_large [OF ok1 n] mk [OF spared_large [OF ok n]] unfolding ke by simp
  have "sweep_safe (TREENODES_LIST (large hp1)) ot" unfolding sweep_safe_no_gap by (subst no_gap_cong [OF im]) (use gap in simp_all)
  then obtain hp' ft' ot' where s: "sweep H hp1 = Some hp'" "after_sweep H hp1 ot hp' ft' ot'"
    using sweep_runs [OF ok1 rdy1] by blast
  let ?pl = "\<lambda>i. destination (bytes hp1) (blk (START_ALLOCATOR_HEAP (small hp1)) i)"
  have "if x \<in> ?S then object_bytes x n \<inter> gc_free H hp' ?pl ft' = {} \<and> survives H hp hp' ot' x n
      else object_bytes x n \<subseteq> gc_free H hp' ?pl ft'" if x: "heap_object H hp ot x" and n: "get_object_size hp x = Some n" for x n
  proof -
    note o = gc_same_object [OF ok m(2) x]
    have n1: "get_object_size hp1 x = Some n" using o(2) n by simp
    have "bytes hp1 (x + of_nat d) = bytes hp (x + of_nat d)" if "d < unat n" for d
      by (rule off_headers_same(2) [OF object_off_headers [OF ok x n that] m(2) refl])
    then show ?thesis using sweep_correct [OF ok1 s(2) o(1) n1] mk [OF x] by (simp add: survives_def split: if_splits)
  qed
  moreover have "small_ok H (small hp') (bytes hp') ?pl" "\<exists>pool'. large_inv (large hp') ft' ot' pool'"
    "sweep_ready H (small hp') (bytes hp')" "\<forall>n \<in> set_tree ot'. \<not> isMarked (block (TREENODES_LIST (large hp') n))"
    "right_spine ot \<longrightarrow> right_spine ot'"
    using s(2) unfolding after_sweep_def Let_def by blast+
  moreover have "collect H (\<lambda>_. True) stack_of segs sto hp st = Some (sto\<lparr>current_node_of_traversing := None\<rparr>, hp', st')"
    using m(1) s(1) by (simp add: collect_def)
  moreover have "START_ALLOCATOR_HEAP (small hp') = START_ALLOCATOR_HEAP (small hp)"
    using s(2) m(2) unfolding after_sweep_def Let_def gc_same_def by metis
  moreover have "?pl i = In_empty" if i: "i < BLOCKS_COUNT H" and un: "block_unreached H hp ?R i"
    and em: "is_bitmap_empty (bytes hp) (blk (START_ALLOCATOR_HEAP (small hp)) i)" for i
  proof -
    let ?b = "blk (START_ALLOCATOR_HEAP (small hp)) i"
    have sm: "small hp1 = small hp" using m(2) by (simp add: gc_same_def)
    have "\<not> slot_marked (bytes hp1) ?b j" if j: "j < 512" for j
    proof
      assume sj: "slot_marked (bytes hp1) ?b j"
      have uj: "\<not> slot_marked (bytes hp) ?b j" using em j by (simp add: is_bitmap_empty_marks)
      then obtain k where k: "sized (bytes hp) ?b k" "j < slots (al k)" using m(2) i j sj unfolding gc_same_def by blast
      have "sized (bytes hp1) (blk (START_ALLOCATOR_HEAP (small hp1)) i) k" using k(1) gc_same_sized [OF ok m(2) i] by simp
      then have "is_marked hp1 (slot ?b (al k) j) = Some True" using is_marked_small [OF ok1 i _ k(2)] sj sm by simp
      moreover have "heap_object H hp ot (slot ?b (al k) j)" using i k by (auto simp: heap_object_def small_object_def)
      ultimately have "slot ?b (al k) j \<in> ?S" using mk by blast
      moreover have "slot ?b (al k) j \<notin> marks H hp ot hp" using is_marked_small [OF ok i k] uj by (simp add: marks_def)
      ultimately have "reach (kids hp) {} ?R (slot ?b (al k) j)" using reach_less_marks by (auto simp: spared_def)
      then show False using un k by (auto simp: block_unreached_def)
    qed
    then show ?thesis by (simp add: destination_def sm)
  qed
  ultimately show ?thesis using after_sweep_heap [OF ok1 s(2)] by blast
qed

text \<open>C2: a collection, on any heap that satisfies the invariants of both allocators and whose caches are empty, returns
  and restores the invariants. Spared are the objects that were marked before and those that the roots
  (the stacks of the registered threads and the data segments) reach without passing a marked one; on a
  heap without marks these are exactly the reachable objects. If in the tree of the large
  objects no node that is not spared has spared ones in both its subtrees, the collection separates
  the objects exactly: a spared one keeps its address, its size and all its bytes and none of its bytes
  is free afterwards; all bytes of every other object are free; no large object is marked any more, and the
  caches are empty as the next collection needs it. An occupied tree without left children
  satisfies the condition and keeps its shape. No word that is reached may point into the unused
  tail of a block, and the stack of the marker can always grow.\<close>

theorem collect_correct:
  assumes "gc_heap_ok H hp ot" and "sweep_ready H (small hp) (bytes hp)" and "stack_at st []" and "storage_at sto cs"
    and "root_ranges H stack_of segs sto cs hp" and "traceable H hp ot (gc_roots stack_of segs sto cs hp)"
    and "no_gap (\<lambda>n. key (TREENODES_LIST (large hp)) n \<in> spared H hp ot (gc_roots stack_of segs sto cs hp)) ot"
  shows "(\<exists>hp' sto' st' pl' ft' ot'. collect H (\<lambda>_. True) stack_of segs sto hp st = Some (sto', hp', st')
    \<and> gc_heap_ok H hp' ot' \<and> small_ok H (small hp') (bytes hp') pl' \<and> (\<exists>pool'. large_inv (large hp') ft' ot' pool')
    \<and> (\<forall>x n. heap_object H hp ot x \<longrightarrow> get_object_size hp x = Some n \<longrightarrow>
        (if x \<in> spared H hp ot (gc_roots stack_of segs sto cs hp)
         then object_bytes x n \<inter> gc_free H hp' pl' ft' = {} \<and> survives H hp hp' ot' x n
         else object_bytes x n \<subseteq> gc_free H hp' pl' ft'))
    \<and> sweep_ready H (small hp') (bytes hp') \<and> (\<forall>n \<in> set_tree ot'. \<not> isMarked (block (TREENODES_LIST (large hp') n)))
    \<and> (right_spine ot \<longrightarrow> right_spine ot'))
    \<and> (marks H hp ot hp = {} \<longrightarrow>
        spared H hp ot (gc_roots stack_of segs sto cs hp) = {x. reach (kids hp) {} (gc_roots stack_of segs sto cs hp) x})
    \<and> (right_spine ot \<longrightarrow> no_gap (\<lambda>n. key (TREENODES_LIST (large hp)) n \<in> spared H hp ot (gc_roots stack_of segs sto cs hp)) ot)"
  using collect_runs [OF assms] spared_unmarked assms(7) by blast

lemma ex_gc_small_ok: "small_ok 4096 ex_gc_small (ex_gc_mem False) (\<lambda>_. In_segreg 2008)"
proof -
  have "opened (ex_gc_mem False) 4096 2008"
    using ex_gc_loads(1,2) [of False] by (auto simp: opened_def sized_def slot_def intro!: exI [of _ 2])
  then have "small_inv 4096 ex_gc_small (ex_gc_mem False) (\<lambda>_. In_segreg 2008) [] ((\<lambda>_. [])(2008 := [0]))"
    by (auto simp: small_inv_def lists_ok_def ex_gc_small_def nx_def small_room_def)
  then show ?thesis by (auto simp: small_ok_def)
qed

lemma ex_gc_bitmap: "is_bitmap_empty (ex_gc_mem False) 4096"
    unfolding is_bitmap_empty_marks
  proof (intro allI impI)
    fix n :: nat assume n: "n < 512"
    let ?m = "store64 (store64 (\<lambda>_. 0) 100 4180) (4176 :: size_t) 8200"
    let ?m2 = "store64 ?m (4096 + of_nat 8) 2008" and ?j = "n div 8"
    have j: "?j < 64" using n by (simp add: div_less_iff_less_mult)
    have "store64 (store64 (\<lambda>_. 0) 100 4180) (4096 + of_nat 80) 8200 (4096 + of_nat (16 + ?j))
        = store64 (\<lambda>_. 0) 100 4180 (4096 + of_nat (16 + ?j))"
      using j by (intro store_header_byte) simp_all
    moreover have "store64 (\<lambda>_. 0) (100 + of_nat 0) 4180 (100 + of_nat (4012 + ?j)) = 0"
      using j by (subst store_header_byte) simp_all
    ultimately have "\<not> slot_marked ?m 4096 n" by (simp add: slot_marked_def)
    then have "\<not> slot_marked (store64 ?m2 (4096 + of_nat 0) 8192) 4096 n"
      using store_header_marked [of 0 n ?m2 4096 8192] store_header_marked [of 8 n ?m 4096 2008] n by blast
    then have "\<not> slot_marked (store64 (store64 ?m (4096 + 8) 2008) 4096 8192) 4096 n" by simp
    then show "\<not> slot_marked (ex_gc_mem False) 4096 n"
      unfolding ex_gc_mem_def using slot_marked_put [of 0 n] n by simp
  qed

lemma ex_gc_collectable: "collectable 4096 (ex_gc False) (Node Leaf 0 Leaf)"
proof -
  have "sweep_ready 4096 ex_gc_small (ex_gc_mem False)"
    unfolding sweep_ready_def using ex_gc_small_ok by (intro exI [of _ "\<lambda>_. In_segreg 2008"]) (simp add: ex_gc_small_def)
  then show ?thesis
    using ex_gc_ok ex_gc_bitmap by (simp add: collectable_def ex_gc_large_def leaf_node_def new_object_def)
qed

theorem collect_correct_witness:
  "\<exists>hp' sto' st' ot'. collect 4096 (\<lambda>_. True) ex_stack_of ex_segs ex_storage (ex_gc False) (create_stack (\<lambda>_. 0)) = Some (sto', hp', st')
    \<and> survives 4096 (ex_gc False) hp' ot' 4176 2008 \<and> survives 4096 (ex_gc False) hp' ot' 8192 2016"
proof -
  let ?r = "gc_roots ex_stack_of ex_segs ex_storage [5, 3, 8] (ex_gc False)"
  have a: "reach (kids (ex_gc False)) {} ?r 4176" by (rule reach.root) (simp_all add: ex_roots)
  from reach.step [OF this ex_kid] have b: "reach (kids (ex_gc False)) {} ?r 8192" by simp
  have sp: "spared 4096 (ex_gc False) (Node Leaf 0 Leaf) ?r = {x. reach (kids (ex_gc False)) {} ?r x}"
    by (rule spared_unmarked [OF no_marks [OF ex_gc_collectable]])
  have h: "gc_heap_ok 4096 (ex_gc False) (Node Leaf 0 Leaf)" "sweep_ready 4096 (small (ex_gc False)) (bytes (ex_gc False))"
    using ex_gc_collectable by (simp_all only: collectable_def)
  have "no_gap (\<lambda>n. key (TREENODES_LIST (large (ex_gc False))) n \<in> spared 4096 (ex_gc False) (Node Leaf 0 Leaf) ?r) (Node Leaf 0 Leaf)"
    by simp
  from conjunct1 [OF collect_correct [OF h create_stack_empty ex_storage_at ex_root_ranges ex_traceable this]]
  obtain hp' sto' st' pl' ft' ot' where c: "collect 4096 (\<lambda>_. True) ex_stack_of ex_segs ex_storage (ex_gc False) (create_stack (\<lambda>_. 0)) = Some (sto', hp', st')"
    and s: "\<And>x n. heap_object 4096 (ex_gc False) (Node Leaf 0 Leaf) x \<Longrightarrow> get_object_size (ex_gc False) x = Some n \<Longrightarrow>
        (if x \<in> spared 4096 (ex_gc False) (Node Leaf 0 Leaf) ?r
         then object_bytes x n \<inter> gc_free 4096 hp' pl' ft' = {} \<and> survives 4096 (ex_gc False) hp' ot' x n
         else object_bytes x n \<subseteq> gc_free 4096 hp' pl' ft')" by blast
  show ?thesis using c s [OF ex_gc_objects(1) ex_sizes(1)] s [OF ex_gc_objects(2) ex_sizes(2)] a b unfolding sp by auto
qed

end
