(* ===== verification/Gc.thy ===== *)
theory Gc
  imports Collector Memory
begin

text \<open>
  The front end: \<^verbatim>\<open>allocator/allocator.c\<close> and \<^verbatim>\<open>gc.c\<close>. \<open>t\<close> is the calling thread; \<open>service\<close> is what has
  happened to the heap when \<^verbatim>\<open>call_service_thread\<close> has returned and the allocation lock is free again.
\<close>

section \<open>\<^verbatim>\<open>allocator.c\<close>\<close>

text \<open>\<open>B\<close> and \<open>M\<close> are the mappings of the two heaps, \<open>nodes\<close>, \<open>start_cell\<close> and \<open>end_cell\<close> the answers of
  \<^verbatim>\<open>calloc\<close> for the large allocator.\<close>

definition init_allocator ::
  "size_t \<Rightarrow> size_t \<Rightarrow> tstore option \<Rightarrow> bool \<Rightarrow> bool \<Rightarrow> size_t \<Rightarrow> gc_heap \<Rightarrow> gc_heap option" where
  "init_allocator H B nodes start_cell end_cell M hp = do {
     let hp = hp\<lparr>logs := log INIT_ALLOCATOR START (logs hp)\<rparr>;
     let (s, m, g) = init_small_allocator H B (small hp, bytes hp, logs hp);
     (l, g) \<leftarrow> init_large_allocator H nodes start_cell end_cell M (large hp, g);
     let hp = hp\<lparr>small := s, bytes := m, large := l, logs := g\<rparr>;
     let hp = hp\<lparr>logs := set_memory_limit (H * 2) 100 (logs hp)\<rparr>;
     Some (hp\<lparr>logs := log INIT_ALLOCATOR OK (logs hp)\<rparr>)
   }"

definition allocate_new_object :: "size_t \<Rightarrow> nat \<Rightarrow> size_t \<Rightarrow> gc_heap \<Rightarrow> (size_t \<times> gc_heap) option" where
  "allocate_new_object H t sz hp =
     (if sz \<ge> 1 \<and> sz \<le> MAX_OBJECT_SIZE then do {
        (res, s, m, g) \<leftarrow> allocate_small_object t sz (small hp, bytes hp, logs hp);
        let hp = hp\<lparr>small := s, bytes := m, logs := g\<rparr>;
        Some (res, if res = 0 then hp\<lparr>logs := log ALLOCATE_NEW_OBJECT HEAP_ERROR (logs hp)\<rparr> else hp)
      } else if sz > MAX_OBJECT_SIZE \<and> sz \<le> H then do {
        (res, l, g) \<leftarrow> allocate_large_object sz (large hp, logs hp);
        let hp = hp\<lparr>large := l, logs := g\<rparr>;
        Some (res, if res = 0 then hp\<lparr>logs := log ALLOCATE_NEW_OBJECT B_HEAP_ERROR (logs hp)\<rparr> else hp)
      } else Some (0, hp))"


section \<open>\<^verbatim>\<open>gc.c\<close>\<close>

definition gc_malloc ::
  "size_t \<Rightarrow> nat \<Rightarrow> (gc_heap \<Rightarrow> gc_heap option) \<Rightarrow> size_t \<Rightarrow> gc_heap \<Rightarrow> (size_t \<times> gc_heap) option" where
  "gc_malloc H t service sz hp =
     (if sz < 1 \<or> sz > H then Some (0, hp)
      else do {
        (res, hp) \<leftarrow> allocate_new_object H t sz hp;
        if res = 0 then do {
          hp \<leftarrow> service hp;
          allocate_new_object H t sz hp
        } else Some (res, hp)
      })"

definition SIZE_MAX :: size_t where
  "SIZE_MAX = -1"

definition gc_calloc ::
  "size_t \<Rightarrow> nat \<Rightarrow> (gc_heap \<Rightarrow> gc_heap option) \<Rightarrow> size_t \<Rightarrow> size_t \<Rightarrow> gc_heap \<Rightarrow> (size_t \<times> gc_heap) option" where
  "gc_calloc H t service nelem elsize hp =
     (if nelem \<noteq> 0 \<and> elsize > SIZE_MAX div nelem then Some (0, hp)
      else do {
        let sz = nelem * elsize;
        (res, hp) \<leftarrow> gc_malloc H t service sz hp;
        if res \<noteq> 0 then do {
          (_, m) \<leftarrow> gc_memset res 0 sz (bytes hp);
          Some (res, hp\<lparr>bytes := m\<rparr>)
        } else Some (res, hp)
      })"

definition gc_realloc ::
  "size_t \<Rightarrow> nat \<Rightarrow> (gc_heap \<Rightarrow> gc_heap option) \<Rightarrow> size_t \<Rightarrow> size_t \<Rightarrow> gc_heap \<Rightarrow> (size_t \<times> gc_heap) option" where
  "gc_realloc H t service memblock sz hp =
     (if memblock = 0 then gc_malloc H t service sz hp
      else do {
        r \<leftarrow> get_object hp memblock;
        case r of
          None \<Rightarrow> Some (0, hp)
        | Some obj \<Rightarrow> do {
            (res, hp) \<leftarrow> gc_malloc H t service sz hp;
            if res \<noteq> 0 then do {
              n \<leftarrow> get_object_size hp obj;
              (_, m) \<leftarrow> gc_memcpy res obj n (bytes hp);
              Some (res, hp\<lparr>bytes := m\<rparr>)
            } else Some (res, hp)
          }
      })"


section \<open>Failed small requests\<close>

text \<open>A request that finds no slot changes no size of a block and sets no mark.\<close>

definition kept :: "size_t \<Rightarrow> size_t \<Rightarrow> mem \<Rightarrow> mem \<Rightarrow> bool" where
  "kept H B m m' \<longleftrightarrow> (\<forall>i < BLOCKS_COUNT H. load64 m' (blk B i + 8) = load64 m (blk B i + 8)
     \<and> (\<forall>n < 512. slot_marked m' (blk B i) n \<longrightarrow> slot_marked m (blk B i) n))"

lemma kept_refl [simp]: "kept H B m m"
  by (simp add: kept_def)

lemma kept_trans: "kept H B m m' \<Longrightarrow> kept H B m' m'' \<Longrightarrow> kept H B m m''"
  by (simp add: kept_def)

lemma kept_block:
  assumes room: "small_room H B" and c: "c < BLOCKS_COUNT H" and off: "agree_off (blk B c) m m'"
    and h: "load64 m' (blk B c + 8) = load64 m (blk B c + 8)"
    and mk: "\<And>n. n < 512 \<Longrightarrow> slot_marked m' (blk B c) n \<Longrightarrow> slot_marked m (blk B c) n"
  shows "kept H B m m'"
  unfolding kept_def
proof (intro allI impI)
  fix i assume i: "i < BLOCKS_COUNT H"
  show "load64 m' (blk B i + 8) = load64 m (blk B i + 8) \<and> (\<forall>n < 512. slot_marked m' (blk B i) n \<longrightarrow> slot_marked m (blk B i) n)"
  proof (cases "i = c")
    case False
    have "m' (blk B i + of_nat j) = m (blk B i + of_nat j)" if "j < 80" for j
      using off blk_apart [OF room c i, of j] False that by (simp add: agree_off_def)
    then show ?thesis using same_block(2,3) [of m' "blk B i" m] by blast
  qed (use h mk in blast)
qed

lemma kept_clear_blocks:
  assumes "small_inv H s m pl es ss" and "set xs \<subseteq> {..<BLOCKS_COUNT H}"
  shows "kept H (START_ALLOCATOR_HEAP s) m (clear_blocks s xs m)"
  using assms
proof (induction xs arbitrary: m)
  case (Cons c xs)
  let ?B = "START_ALLOCATOR_HEAP s"
  let ?m = "cleared (blk ?B c) m"
  have c: "c < BLOCKS_COUNT H" using Cons.prems(2) by simp
  have b: "block_addr (NODES_LIST s c) = blk ?B c" and room: "small_room H ?B" using Cons.prems(1) c by (simp_all add: small_inv_def)
  have "kept H ?B m ?m" by (rule kept_block [OF room c cleared_off]) (simp_all add: cleared_header cleared_marks)
  moreover have "kept H ?B ?m (clear_blocks s xs ?m)"
    using Cons.IH [OF small_inv_cleared [OF Cons.prems(1) c]] Cons.prems(2) by simp
  ultimately show ?case using b kept_trans by (simp add: clear_blocks_def)
qed (simp add: clear_blocks_def)

lemma slide_block_kept:
  assumes inv: "small_inv H s m pl es ss" and c: "c < BLOCKS_COUNT H"
    and op: "opened m (blk (START_ALLOCATOR_HEAP s) c) k"
    and run: "slide_block s c (of_nat (al k)) m = Some (f, pos, m')"
  shows "kept H (START_ALLOCATOR_HEAP s) m m'"
proof -
  let ?B = "START_ALLOCATOR_HEAP s" and ?b = "blk (START_ALLOCATOR_HEAP s) c"
  have room: "small_room H ?B" and b: "block_addr (NODES_LIST s c) = ?b" using inv c by (simp_all add: small_inv_def)
  obtain j where sz: "sized m ?b k" and j: "j \<le> slots (al k)" "load64 m ?b = slot ?b (al k) j"
    using op by (auto simp: opened_def)
  obtain j' m2 where "slide ?B ?b (of_nat (al k)) (slot ?b (al k) j) m = Some (j' < slots (al k), slot ?b (al k) j', m2)"
    and sl: "slid ?b k j j' m m2"
    using slide_runs [OF blk_block [OF room c] blk_end [OF room c] sz j(1)] by blast
  then have "m' = m2" using run j(2) by (simp add: slide_block_def b GET_SLIDER_POSITION_ADDR_def)
  then show ?thesis using sl by (intro kept_block [OF room c]) (simp_all add: slid_def)
qed

lemma find_block_lists_kept:
  assumes "small_inv H s m pl es ss" and "size_ok k"
    and "find_block t (of_nat k) (of_nat (al k)) None s m g = Some (None, s', m', g')"
  shows "kept H (START_ALLOCATOR_HEAP s) m m'"
  using assms
proof (induction "length (ss k)" arbitrary: s m pl ss rule: less_induct)
  case less
  let ?B = "START_ALLOCATOR_HEAP s"
  note inv = less.prems(1) and k = less.prems(2)
  have u: "unat (of_nat k :: size_t) = k" by (rule unat_size_ok [OF k])
  show ?case
  proof (cases "SEGREG_LIST s k")
    case hd: None
    show ?thesis
    proof (cases "EMPTY_LIST_HEAD s")
      case None
      have "find_block t (of_nat k) (of_nat (al k)) None s m g = Some (None, s, clear_blocks s (listed ss) m, g)"
        using fill_all_runs(1) [OF inv]
        by (subst find_block.simps) (simp add: u get_block_from_segreg_list_def hd allocate_new_block_def None)
      moreover have "set (listed ss) \<subseteq> {..<BLOCKS_COUNT H}" using fill_all_runs(4) [OF inv] by auto
      ultimately show ?thesis using less.prems(3) kept_clear_blocks [OF inv] by simp
    next
      case (Some c)
      then have "allocate_new_block (s, g) = (Some c, s\<lparr>EMPTY_LIST_HEAD := next_node (NODES_LIST s c),
            NODES_LIST := (NODES_LIST s)(c := (NODES_LIST s c)\<lparr>next_node := None\<rparr>)\<rparr>, g)"
        by (simp add: allocate_new_block_def)
      then show ?thesis
        using less.prems(3) by (subst (asm) find_block.simps) (simp add: u get_block_from_segreg_list_def hd)
    qed
  next
    case (Some c)
    let ?b = "blk ?B c" and ?pl = "pl(c := Detached)"
    obtain cs s1 where get: "get_block_from_segreg_list k s = (Some c, s1)" and cs: "ss k = c # cs"
      and c: "c < BLOCKS_COUNT H" "pl c = In_segreg k"
      and i1: "small_inv H s1 m ?pl es (ss(k := cs))"
      and s1: "START_ALLOCATOR_HEAP s1 = ?B" "nodes_cache s1 = nodes_cache s"
      using take_segreg [OF inv k Some] by blast
    have op: "opened m (blk (START_ALLOCATOR_HEAP s1) c) k" using inv c s1(1) by (auto simp: small_inv_def)
    obtain f pos m1 where run: "slide_block s1 c (of_nat (al k)) m = Some (f, pos, m1)"
      and i': "small_inv H s1 m1 ?pl es (ss(k := cs))"
      using slide_detached [OF i1 c(1) _ op] by (metis fun_upd_same)
    have one: "kept H ?B m m1" using slide_block_kept [OF i1 c(1) op run] s1(1) by simp
    have "\<not> f"
      using less.prems(3) get run by (subst (asm) find_block.simps) (auto simp: u)
    then have "find_block t (of_nat k) (of_nat (al k)) None s m g = find_block t (of_nat k) (of_nat (al k)) None s1 m1 g"
      using get run by (subst find_block.simps) (simp add: u)
    moreover have "length ((ss(k := cs)) k) < length (ss k)" by (simp add: cs)
    ultimately have "kept H (START_ALLOCATOR_HEAP s1) m1 m'" using less.hyps [OF _ i' k] less.prems(3) by simp
    then show ?thesis using one kept_trans s1(1) by metis
  qed
qed

lemma refused_kept:
  assumes ok: "small_ok H s m pl" and sz: "1 \<le> sz" "sz \<le> MAX_OBJECT_SIZE"
    and run: "allocate_small_object t sz (s, m, g) = Some (0, s', m', g')"
  shows "kept H (START_ALLOCATOR_HEAP s) m m'"
proof -
  let ?k = "unat sz" and ?B = "START_ALLOCATOR_HEAP s"
  note k = small_size [OF sz]
  obtain es ss where inv: "small_inv H s m pl es ss" using ok by (auto simp: small_ok_def)
  have room: "small_room H ?B" using inv by (simp add: small_inv_def)
  have u: "unat (of_nat ?k :: size_t) = ?k" by (rule unat_size_ok [OF k(1)])
  obtain res g1 where cs: "check_the_space (of_nat (al ?k)) g = (res, g1)" by fastforce
  obtain r s1 m1 pl1 es1 ss1 where fb: "find_block t (of_nat ?k) (of_nat (al ?k)) (nodes_cache s t ?k) s m g1 = Some (r, s1, m1, g1)"
    "small_inv H (set_cache t ?k None s1) m1 pl1 es1 ss1" "START_ALLOCATOR_HEAP s1 = ?B"
    "found_block H t ?k (free_bytes H s m pl) r (set_cache t ?k None s1) m1 pl1 ss1"
    using find_block_runs [OF inv k(1), of t g1] by blast
  have aw: "GET_SIZE_WITH_ALIGNMENT sz = of_nat (al ?k)" using align_word [OF k(1)] unfolding k(2) .
  have r: "r = None"
  proof (rule ccontr)
    assume "r \<noteq> None"
    then obtain c where c: "r = Some c" by blast
    from finish_block [OF fb(2) k(1), of "free_bytes H s m pl" c] fb(4) c obtain j where j: "j < slots (al ?k)"
      "load64 m1 (blk ?B c) = slot (blk ?B c) (al ?k) j" "c < BLOCKS_COUNT H" "block_addr (NODES_LIST s1 c) = blk ?B c"
      using fb(3) by (auto simp: Let_def)
    have "slot (blk ?B c) (al ?k) j = 0"
      using run fb(1) c j by (simp add: allocate_small_object_def aw cs GET_SLIDER_POSITION_ADDR_def Let_def)
    then show False using obj_range_slot(3) [OF room j(3) k(1) j(1)] by simp
  qed
  have m': "m' = m1" using run fb(1) r by (simp add: allocate_small_object_def aw cs)
  show ?thesis
  proof (cases "nodes_cache s t ?k")
    case None
    then show ?thesis using find_block_lists_kept [OF inv k(1)] fb(1) r m' by simp
  next
    case (Some c)
    let ?s = "set_cache t ?k None s"
    note c = uncache(1,2) [OF inv k(1) Some] and i1 = uncache(3) [OF inv k(1) Some]
    have op: "opened m (blk (START_ALLOCATOR_HEAP ?s) c) ?k" and badr: "block_addr (NODES_LIST s c) = blk ?B c"
      using inv c by (auto simp: small_inv_def)
    obtain f pos m2 where run2: "slide_block ?s c (of_nat (al ?k)) m = Some (f, pos, m2)"
      and fpos: "f \<longleftrightarrow> \<not> pos + of_nat (al ?k) > blk (START_ALLOCATOR_HEAP ?s) c + BLOCK_SIZE"
      and i': "small_inv H ?s m2 (pl(c := Detached)) es ss"
      using slide_detached [OF i1 c(1) _ op] by (metis fun_upd_same)
    have one: "kept H ?B m m2" using slide_block_kept [OF i1 c(1) op run2] by simp
    have "\<not> f"
      using fb(1) r run2 fpos by (subst (asm) find_block.simps) (auto simp: u Some badr)
    then have "find_block t (of_nat ?k) (of_nat (al ?k)) None ?s m2 g1 = Some (None, s1, m1, g1)"
      using fb(1) r run2 fpos by (subst (asm) find_block.simps) (simp add: u Some badr)
    from find_block_lists_kept [OF i' k(1) this] show ?thesis using one kept_trans m' by (metis set_cache_simps(1))
  qed
qed

end
