(* ===== verification/Gc_View.thy ===== *)
theory Gc_View
  imports Gc
begin

text \<open>
  Heaps that differ in nothing the marker reads: sliders, marks and lists may change, sizes of blocks
  and the bytes behind the headers do not. A refused request and the stopping of the threads lead
  from a heap to such a heap, so the collector then sees the same objects and the same references.
\<close>

definition same_view :: "size_t \<Rightarrow> gc_heap \<Rightarrow> gc_heap \<Rightarrow> bool" where
  "same_view H hp hp' \<longleftrightarrow> large hp' = large hp
     \<and> START_ALLOCATOR_HEAP (small hp') = START_ALLOCATOR_HEAP (small hp)
     \<and> END_ALLOCATOR_HEAP (small hp') = END_ALLOCATOR_HEAP (small hp)
     \<and> (\<forall>i < BLOCKS_COUNT H. load64 (bytes hp') (blk (START_ALLOCATOR_HEAP (small hp)) i + 8)
          = load64 (bytes hp) (blk (START_ALLOCATOR_HEAP (small hp)) i + 8))
     \<and> headers_only H (START_ALLOCATOR_HEAP (small hp)) (bytes hp) (bytes hp')"

lemma same_view_trans: "same_view H hp hp1 \<Longrightarrow> same_view H hp1 hp2 \<Longrightarrow> same_view H hp hp2"
  unfolding same_view_def by (auto intro: headers_only_trans)

lemma same_view_sized:
  "same_view H hp hp' \<Longrightarrow> i < BLOCKS_COUNT H \<Longrightarrow>
     sized (bytes hp') (blk (START_ALLOCATOR_HEAP (small hp)) i) k = sized (bytes hp) (blk (START_ALLOCATOR_HEAP (small hp)) i) k"
  by (simp add: same_view_def sized_def)

lemma same_view_ok:
  assumes ok: "gc_heap_ok H hp ot" and v: "same_view H hp hp'"
  shows "gc_heap_ok H hp' ot"
proof -
  have e: "large hp' = large hp" "START_ALLOCATOR_HEAP (small hp') = START_ALLOCATOR_HEAP (small hp)"
    "END_ALLOCATOR_HEAP (small hp') = END_ALLOCATOR_HEAP (small hp)" using v by (simp_all add: same_view_def)
  have "block_ok (bytes hp') (blk (START_ALLOCATOR_HEAP (small hp)) i)" if i: "i < BLOCKS_COUNT H" for i
    using gc_heap_parts(4) [OF ok i] v i same_view_sized [OF v i] by (simp add: block_ok_def same_view_def)
  then show ?thesis using ok unfolding gc_heap_ok_def Let_def e by blast
qed

lemma same_view_places:
  assumes v: "same_view H hp hp'"
  shows "in_large_heap hp' a = in_large_heap hp a" and "in_small_heap hp' a = in_small_heap hp a"
    and "search_occupied hp' a = search_occupied hp a"
  using v by (simp_all add: same_view_def in_large_heap_def in_small_heap_def search_occupied_def cong: if_cong)

lemma same_view_get:
  assumes ok: "gc_heap_ok H hp ot" and v: "same_view H hp hp'"
  shows "get_object_size hp' a = get_object_size hp a" and "get_object hp' a = get_object hp a"
proof -
  note ok' = same_view_ok [OF ok v] and pl = same_view_places [OF v]
  have L: "large hp' = large hp" and B: "START_ALLOCATOR_HEAP (small hp') = START_ALLOCATOR_HEAP (small hp)"
    using v by (simp_all add: same_view_def)
  have "get_object_size hp' a = get_object_size hp a \<and> get_object hp' a = get_object hp a"
  proof (cases "in_small_heap hp a")
    case True
    then obtain i off where io: "i < BLOCKS_COUNT H" "off < 4096" "a = blk (START_ALLOCATOR_HEAP (small hp)) i + of_nat off"
      using in_small_heap_offset [OF ok] by blast
    have a': "a = blk (START_ALLOCATOR_HEAP (small hp')) i + of_nat off" using io(3) B by simp
    have sz: "load64 (bytes hp') (blk (START_ALLOCATOR_HEAP (small hp)) i + 8)
        = load64 (bytes hp) (blk (START_ALLOCATOR_HEAP (small hp)) i + 8)" using v io(1) by (simp add: same_view_def)
    show ?thesis
      unfolding get_object_size_small [OF ok io] get_object_size_small [OF ok' io(1,2) a']
        get_object_small [OF ok io] get_object_small [OF ok' io(1,2) a'] unfolding B sz by blast
  next
    case False
    then have "get_object_size hp' a = get_object_size hp a"
      unfolding get_object_size_def L pl by simp
    moreover from False have "get_object hp' a = get_object hp a"
      unfolding get_object_def L pl(1,2) by simp
    ultimately show ?thesis by blast
  qed
  then show "get_object_size hp' a = get_object_size hp a" "get_object hp' a = get_object hp a" by blast+
qed

lemma same_view_object:
  assumes v: "same_view H hp hp'"
  shows "heap_object H hp' ot x = heap_object H hp ot x"
  using v same_view_sized [OF v] by (auto simp: heap_object_def small_object_def large_object_def same_view_def)


section \<open>References\<close>

lemma object_extent:
  assumes ok: "gc_heap_ok H hp ot" and x: "heap_object H hp ot x" and n: "get_object_size hp x = Some n"
  shows "unat (x + n) = unat x + unat n" and "8 dvd unat n"
proof -
  have "unat (x + n) = unat x + unat n \<and> 8 dvd unat n"
  proof (cases "small_object H hp x")
    case True
    from small_object_cases [OF ok this n] obtain i k j where o: "i < BLOCKS_COUNT H"
      "sized (bytes hp) (blk (START_ALLOCATOR_HEAP (small hp)) i) k" "j < slots (al k)"
      "x = slot (blk (START_ALLOCATOR_HEAP (small hp)) i) (al k) j" "unat n = al k" "n = of_nat (al k)" by metis
    have "size_ok k" using o(2) by (simp add: sized_def)
    then show ?thesis using small_object_range(3) [OF ok o(1-3)] o(4-6) al_bounds(3) by simp
  next
    case False
    then have "large_object hp ot x" using x by (simp add: heap_object_def)
    from large_object_cases [OF ok this n] obtain i where i: "i \<in> set_tree ot" "x = key (TREENODES_LIST (large hp)) i"
      "n = prio (TREENODES_LIST (large hp)) i" by metis
    obtain fs where "heap_tiled (large hp) (fs @ blocks (TREENODES_LIST (large hp)) ot)" using gc_large_parts(4) [OF ok] by blast
    moreover have "block (TREENODES_LIST (large hp) i) \<in> set (fs @ blocks (TREENODES_LIST (large hp)) ot)"
      using i(1) by (simp add: set_blocks)
    ultimately have "8 dvd unat n" unfolding heap_tiled_def i(3) by blast
    then show ?thesis using large_object_range(3) [OF ok i(1)] i(2,3) by simp
  qed
  then show "unat (x + n) = unat x + unat n" "8 dvd unat n" by blast+
qed

text \<open>The words of a range, all of whose bytes are outside block headers.\<close>

definition range_off_headers :: "size_t \<Rightarrow> gc_heap \<Rightarrow> size_t \<times> size_t \<Rightarrow> bool" where
  "range_off_headers H hp r \<longleftrightarrow> (\<forall>i < word_count (fst r) (snd r). \<forall>j < 8.
     off_headers H (START_ALLOCATOR_HEAP (small hp)) (fst r + of_nat (8 * i) + of_nat j))"

lemma same_view_range:
  assumes ok: "gc_heap_ok H hp ot" and v: "same_view H hp hp'" and r: "range_off_headers H hp (s, e)"
  shows "range_objects hp' s e = range_objects hp s e"
proof -
  have "word_object hp' (s + of_nat (8 * i)) = word_object hp (s + of_nat (8 * i))" if i: "i < word_count s e" for i
  proof -
    have "load64 (bytes hp') (s + of_nat (8 * i)) = load64 (bytes hp) (s + of_nat (8 * i))"
    proof (rule load64_cong)
      fix j :: nat assume "j < 8"
      then have "off_headers H (START_ALLOCATOR_HEAP (small hp)) (s + of_nat (8 * i) + of_nat j)"
        using r i by (simp only: range_off_headers_def fst_conv snd_conv)
      then show "bytes hp' (s + of_nat (8 * i) + of_nat j) = bytes hp (s + of_nat (8 * i) + of_nat j)"
        using off_headers_same(1) v by (simp only: same_view_def)
    qed
    then show ?thesis using same_view_get(2) [OF ok v] by (simp only: word_object_def)
  qed
  then show ?thesis unfolding range_objects_def by (intro arg_cong [where f = concat] map_cong) auto
qed

lemma object_range_off_headers:
  assumes ok: "gc_heap_ok H hp ot" and x: "heap_object H hp ot x" and n: "get_object_size hp x = Some n"
  shows "range_off_headers H hp (x, x + n)"
  unfolding range_off_headers_def
proof (intro allI impI)
  fix i j :: nat assume i: "i < word_count (fst (x, x + n)) (snd (x, x + n))" and j: "j < 8"
  note e = object_extent [OF assms]
  obtain q where q: "unat n = 8 * q" using e(2) by (auto elim: dvdE)
  have "8 * i < 8 * q" using i word_count_bounds(1) [of i x "x + n"] e(1) q by simp
  then have "8 * i + j < unat n" using q j by simp
  then have "off_headers H (START_ALLOCATOR_HEAP (small hp)) (x + of_nat (8 * i + j))" by (rule object_off_headers [OF ok x n])
  then show "off_headers H (START_ALLOCATOR_HEAP (small hp)) (fst (x, x + n) + of_nat (8 * i) + of_nat j)"
    by (simp add: add.assoc)
qed

lemma same_view_kids:
  assumes ok: "gc_heap_ok H hp ot" and v: "same_view H hp hp'" and x: "heap_object H hp ot x"
  shows "kids hp' x = kids hp x"
proof -
  obtain n where n: "get_object_size hp x = Some n" using object_range [OF ok x] by blast
  then show ?thesis
    using same_view_get(1) [OF ok v] same_view_range [OF ok v object_range_off_headers [OF ok x n]] by (simp add: kids_def)
qed

lemma same_view_reach:
  assumes ok: "gc_heap_ok H hp ot" and v: "same_view H hp hp'" and tr: "traceable H hp ot R"
  shows "reach (kids hp') M R x \<longleftrightarrow> reach (kids hp) M R x"
proof
  have hx: "heap_object H hp ot y" if "reach (kids hp) M R y" for y
    using reach_less_marks [OF that] tr by (simp add: traceable_def)
  show "reach (kids hp) M R x" if "reach (kids hp') M R x"
    using that
  proof (induction rule: reach.induct)
    case (step x y)
    then have "y \<in> set (kids hp x)" using same_view_kids [OF ok v hx] by simp
    then show ?case using reach.step [OF step.IH] step.hyps(3) by blast
  qed (simp add: reach.root)
  show "reach (kids hp') M R x" if "reach (kids hp) M R x"
    using that
  proof (induction rule: reach.induct)
    case (step x y)
    then have "y \<in> set (kids hp' x)" using same_view_kids [OF ok v hx] by simp
    then show ?case using reach.step [OF step.IH] step.hyps(3) by blast
  qed (simp add: reach.root)
qed

lemma reach_fewer_marks: "reach K M R x \<Longrightarrow> M' \<subseteq> M \<Longrightarrow> reach K M' R x"
  by (induction rule: reach.induct) (auto intro: reach.intros)

text \<open>Marks may have been cleared.\<close>

lemma same_view_marks:
  assumes ok: "gc_heap_ok H hp ot" and v: "same_view H hp hp'" and k: "kept H (START_ALLOCATOR_HEAP (small hp)) (bytes hp) (bytes hp')"
  shows "marks H hp' ot hp' \<subseteq> marks H hp ot hp"
proof
  fix x assume "x \<in> marks H hp' ot hp'"
  then have x: "heap_object H hp ot x" and m: "is_marked hp' x = Some True" using same_view_object [OF v] by (simp_all add: marks_def)
  note ok' = same_view_ok [OF ok v]
  have L: "large hp' = large hp" and B: "START_ALLOCATOR_HEAP (small hp') = START_ALLOCATOR_HEAP (small hp)"
    using v by (simp_all add: same_view_def)
  have "is_marked hp x = Some True"
  proof (cases "small_object H hp x")
    case True
    then obtain i kk j where o: "i < BLOCKS_COUNT H" "sized (bytes hp) (blk (START_ALLOCATOR_HEAP (small hp)) i) kk" "j < slots (al kk)"
      "x = slot (blk (START_ALLOCATOR_HEAP (small hp)) i) (al kk) j" by (auto simp: small_object_def)
    have "size_ok kk" using o(2) by (simp add: sized_def)
    then have j: "j < 512" using slots_ok(2) o(3) by fastforce
    have "sized (bytes hp') (blk (START_ALLOCATOR_HEAP (small hp')) i) kk" using o(1,2) same_view_sized [OF v] B by simp
    from is_marked_small [OF ok' o(1) this o(3)] have "slot_marked (bytes hp') (blk (START_ALLOCATOR_HEAP (small hp)) i) j"
      using m o(4) B by simp
    then have "slot_marked (bytes hp) (blk (START_ALLOCATOR_HEAP (small hp)) i) j" using k o(1) j by (simp add: kept_def)
    then show ?thesis using is_marked_small [OF ok o(1-3)] o(4) by simp
  next
    case False
    then obtain n where n: "n \<in> set_tree ot" "x = key (TREENODES_LIST (large hp)) n" using x by (auto simp: heap_object_def large_object_def)
    then show ?thesis using is_marked_large [OF ok n(1)] is_marked_large [OF ok' n(1)] m L by simp
  qed
  then show "x \<in> marks H hp ot hp" using x by (simp add: marks_def)
qed

lemma same_view_traceable:
  assumes "gc_heap_ok H hp ot" and v: "same_view H hp hp'" and "traceable H hp ot R"
  shows "traceable H hp' ot R"
  using same_view_reach [OF assms] assms(3) same_view_object [OF v] by (simp add: traceable_def)

lemma same_view_root_range: "same_view H hp hp' \<Longrightarrow> root_range H hp' r = root_range H hp r"
  by (simp add: root_range_def scannable_def same_view_def)

end
