(* ===== verification/Gc_Safe.thy ===== *)
theory Gc_Safe
  imports Gc_View
begin

text \<open>
  The promise of the whole collector to its client for small requests: \<^verbatim>\<open>gc_malloc\<close> hands out no memory of an object
  that the client can still reach, whether or not a collection ran on the way, and it changes no byte
  of such an object. Marks left over from the collection before weaken the promise: what only objects with such a
  mark refer to is not covered.
\<close>

section \<open>Stopping the threads\<close>

text \<open>What the handlers of the stop signal do to the heap: each thread empties its cache.\<close>

definition stop_threads :: "nat list \<Rightarrow> gc_heap \<Rightarrow> gc_heap" where
  "stop_threads ts hp = hp\<lparr>small := fold clear_cache ts (small hp)\<rparr>"

text \<open>One turn of the loop of \<^verbatim>\<open>service_thread_routine\<close>, as the calling thread sees it.\<close>

definition service_cycle :: "size_t \<Rightarrow> (int \<Rightarrow> bool) \<Rightarrow> (size_t \<Rightarrow> size_t \<times> size_t) \<Rightarrow> (size_t \<times> size_t) \<times> (size_t \<times> size_t)
    \<Rightarrow> nat list \<Rightarrow> storage \<Rightarrow> mark_stack \<Rightarrow> gc_heap \<Rightarrow> gc_heap option" where
  "service_cycle H R stack_of segs ts sto st hp = do {
     (sto, hp, st) \<leftarrow> collect H R stack_of segs sto (stop_threads ts hp) st;
     Some hp
   }"

definition cached_by :: "nat list \<Rightarrow> small_state \<Rightarrow> bool" where
  "cached_by ts s \<longleftrightarrow> (\<forall>t k. size_ok k \<longrightarrow> nodes_cache s t k \<noteq> None \<longrightarrow> t \<in> set ts)"

lemma clear_caches:
  "small_ok H s m pl \<Longrightarrow> \<exists>pl'. small_ok H (fold clear_cache ts s) m pl' \<and> (\<forall>i. pl' i = In_empty \<longleftrightarrow> pl i = In_empty)"
proof (induction ts arbitrary: s pl)
  case (Cons t ts)
  obtain es ss where "small_inv H s m pl es ss" using Cons.prems by (auto simp: small_ok_def)
  then have "small_ok H (clear_cache t s) m (\<lambda>i. uncached t (pl i))" using clear_cache_inv unfolding small_ok_def by blast
  moreover have "uncached t p = In_empty \<longleftrightarrow> p = In_empty" for p by (cases p) auto
  ultimately show ?case using Cons.IH by fastforce
qed auto

lemma clear_caches_frame:
  "START_ALLOCATOR_HEAP (fold clear_cache ts s) = START_ALLOCATOR_HEAP s"
  "END_ALLOCATOR_HEAP (fold clear_cache ts s) = END_ALLOCATOR_HEAP s"
  "size_ok k \<Longrightarrow> nodes_cache (fold clear_cache ts s) t k = (if t \<in> set ts then None else nodes_cache s t k)"
  by (induction ts arbitrary: s) (auto simp: clear_cache_def size_ok_def)

text \<open>A request changes the cache of the calling thread only.\<close>

lemma get_block_cache: "nodes_cache (snd (get_block_from_segreg_list k s)) = nodes_cache s"
  by (simp add: get_block_from_segreg_list_def split: option.split)

lemma new_block_cache: "allocate_new_block (s, g) = (r, s', g') \<Longrightarrow> nodes_cache s' = nodes_cache s"
  by (auto simp: allocate_new_block_def split: option.splits)

lemma find_block_cache:
  assumes "find_block t k n cached s m g = Some r" and "t' \<noteq> t"
  shows "nodes_cache (fst (snd r)) t' = nodes_cache s t'"
proof -
  have "\<forall>t'. t' \<noteq> t \<longrightarrow> nodes_cache (fst (snd r)) t' = nodes_cache s t'"
    using assms(1)
  proof (rule find_block.raw_induct [where P = "\<lambda>t k n cached s m g r. \<forall>t'. t' \<noteq> t \<longrightarrow> nodes_cache (fst (snd r)) t' = nodes_cache s t'", rotated])
    fix fb t k n cached s m g r
    assume ih: "\<And>t k n cached s m g r. fb t k n cached s m g = Some r \<Longrightarrow> \<forall>t'. t' \<noteq> t \<longrightarrow> nodes_cache (fst (snd r)) t' = nodes_cache s t'"
      and run: "(case cached of
        Some c \<Rightarrow> do {
          (is_block_found, slider_position, m) \<leftarrow> slide_block s c n m;
          let s = (if slider_position + n > block_addr (NODES_LIST s c) + BLOCK_SIZE
                   then set_cache t (unat k) None s else s);
          if is_block_found then Some (Some c, s, m, g)
          else fb t k n None s m g
        }
      | None \<Rightarrow>
          (case get_block_from_segreg_list (unat k) s of
             (Some c, s) \<Rightarrow> do {
               (is_block_found, slider_position, m) \<leftarrow> slide_block s c n m;
               if is_block_found then Some (Some c, s, m, g)
               else fb t k n None s m g
             }
           | (None, s) \<Rightarrow>
               (case allocate_new_block (s, g) of
                  (None, s, g) \<Rightarrow> do {
                    m \<leftarrow> fill_all_bitmaps_with_zeros s m;
                    Some (None, s, m, g)
                  }
                | (Some c, s, g) \<Rightarrow> Some (Some c, s, init_header (NODES_LIST s c) k m, g)))) = Some r"
    have sc: "t' \<noteq> t \<Longrightarrow> nodes_cache (set_cache t k c s) t' = nodes_cache s t'" for t' k c s by (simp add: set_cache_def)
    have gb: "get_block_from_segreg_list k s = (x, s') \<Longrightarrow> nodes_cache s' = nodes_cache s" for k s x s'
      using get_block_cache [of k s] by simp
    show "\<forall>t'. t' \<noteq> t \<longrightarrow> nodes_cache (fst (snd r)) t' = nodes_cache s t'"
      using run by (auto simp: bind_eq_Some_conv Let_def sc split: option.splits prod.splits if_splits dest!: ih gb new_block_cache)
  qed
  then show ?thesis using assms(2) by blast
qed

lemma request_cache:
  assumes "allocate_small_object t sz (s, m, g) = Some (a, s', m', g')" and "t' \<noteq> t"
  shows "nodes_cache s' t' = nodes_cache s t'"
proof -
  obtain res g1 where cs: "check_the_space (GET_SIZE_WITH_ALIGNMENT sz) g = (res, g1)" by fastforce
  obtain r s1 m1 g2 where fb: "find_block t sz (GET_SIZE_WITH_ALIGNMENT sz) (nodes_cache s t (unat sz)) s m g1 = Some (r, s1, m1, g2)"
    using assms(1) by (auto simp: allocate_small_object_def cs Let_def bind_eq_Some_conv)
  have "nodes_cache s1 t' = nodes_cache s t'" using find_block_cache [OF fb assms(2)] by simp
  moreover have "nodes_cache s' t' = nodes_cache s1 t'"
    using assms fb by (auto simp: allocate_small_object_def cs Let_def set_cache_def split: option.splits)
  ultimately show ?thesis by simp
qed

lemma request_cached_by:
  assumes "allocate_small_object t sz (s, m, g) = Some (a, s', m', g')" and "t \<in> set ts" and "cached_by ts s"
  shows "cached_by ts s'"
  using assms(2,3) request_cache [OF assms(1)] unfolding cached_by_def by metis

text \<open>No request puts a block into the empty list.\<close>

lemma find_block_no_empty:
  assumes "find_block t k n cached s m g = Some r" and "EMPTY_LIST_HEAD s = None"
  shows "EMPTY_LIST_HEAD (fst (snd r)) = None"
proof -
  have gb: "get_block_from_segreg_list k s = (x, s') \<Longrightarrow> EMPTY_LIST_HEAD s' = EMPTY_LIST_HEAD s" for k s x s'
    by (auto simp: get_block_from_segreg_list_def split: option.splits)
  have sc: "EMPTY_LIST_HEAD (set_cache t k c s) = EMPTY_LIST_HEAD s" for t k c s by (simp add: set_cache_def)
  have nb: "allocate_new_block (s, g) = (c, s', g') \<Longrightarrow> EMPTY_LIST_HEAD s = None \<Longrightarrow> c = None \<and> EMPTY_LIST_HEAD s' = None" for s g c s' g'
    by (auto simp: allocate_new_block_def)
  have "EMPTY_LIST_HEAD s = None \<longrightarrow> EMPTY_LIST_HEAD (fst (snd r)) = None"
    using assms(1)
  proof (rule find_block.raw_induct [where P = "\<lambda>t k n cached s m g r. EMPTY_LIST_HEAD s = None \<longrightarrow> EMPTY_LIST_HEAD (fst (snd r)) = None", rotated])
    fix fb t k n cached s m g r
    assume ih: "\<And>t k n cached s m g r. fb t k n cached s m g = Some r \<Longrightarrow> EMPTY_LIST_HEAD s = None \<longrightarrow> EMPTY_LIST_HEAD (fst (snd r)) = None"
      and run: "(case cached of
        Some c \<Rightarrow> do {
          (is_block_found, slider_position, m) \<leftarrow> slide_block s c n m;
          let s = (if slider_position + n > block_addr (NODES_LIST s c) + BLOCK_SIZE
                   then set_cache t (unat k) None s else s);
          if is_block_found then Some (Some c, s, m, g)
          else fb t k n None s m g
        }
      | None \<Rightarrow>
          (case get_block_from_segreg_list (unat k) s of
             (Some c, s) \<Rightarrow> do {
               (is_block_found, slider_position, m) \<leftarrow> slide_block s c n m;
               if is_block_found then Some (Some c, s, m, g)
               else fb t k n None s m g
             }
           | (None, s) \<Rightarrow>
               (case allocate_new_block (s, g) of
                  (None, s, g) \<Rightarrow> do {
                    m \<leftarrow> fill_all_bitmaps_with_zeros s m;
                    Some (None, s, m, g)
                  }
                | (Some c, s, g) \<Rightarrow> Some (Some c, s, init_header (NODES_LIST s c) k m, g)))) = Some r"
    show "EMPTY_LIST_HEAD s = None \<longrightarrow> EMPTY_LIST_HEAD (fst (snd r)) = None"
      using run by (auto simp: bind_eq_Some_conv Let_def sc split: option.splits prod.splits if_splits dest!: ih gb dest: nb)
  qed
  then show ?thesis using assms(2) by blast
qed

lemma request_no_empty:
  assumes "allocate_small_object t sz (s, m, g) = Some (a, s', m', g')" and "EMPTY_LIST_HEAD s = None"
  shows "EMPTY_LIST_HEAD s' = None"
proof -
  obtain res g1 where cs: "check_the_space (GET_SIZE_WITH_ALIGNMENT sz) g = (res, g1)" by fastforce
  obtain r s1 m1 g2 where fb: "find_block t sz (GET_SIZE_WITH_ALIGNMENT sz) (nodes_cache s t (unat sz)) s m g1 = Some (r, s1, m1, g2)"
    using assms(1) by (auto simp: allocate_small_object_def cs Let_def bind_eq_Some_conv)
  have "EMPTY_LIST_HEAD s1 = None" using find_block_no_empty [OF fb assms(2)] by simp
  then show ?thesis using assms(1) fb by (auto simp: allocate_small_object_def cs Let_def set_cache_def split: option.splits)
qed


section \<open>A heap between two collections\<close>

text \<open>A heap that has not been collected yet.\<close>

definition untraced :: "size_t \<Rightarrow> gc_heap \<Rightarrow> (nat \<Rightarrow> place) \<Rightarrow> nat tree \<Rightarrow> nat list \<Rightarrow> bool" where
  "untraced H hp pl ot ts \<longleftrightarrow> gc_heap_ok H hp ot \<and> small_ok H (small hp) (bytes hp) pl \<and> cached_by ts (small hp)
     \<and> (\<forall>i < BLOCKS_COUNT H. is_bitmap_empty (bytes hp) (blk (START_ALLOCATOR_HEAP (small hp)) i))
     \<and> (\<forall>n \<in> set_tree ot. \<not> isMarked (block (TREENODES_LIST (large hp) n))) \<and> right_spine ot"

text \<open>One that may have been collected, with marks left over: only an empty block must not have any.\<close>

definition settled :: "size_t \<Rightarrow> gc_heap \<Rightarrow> (nat \<Rightarrow> place) \<Rightarrow> nat tree \<Rightarrow> nat list \<Rightarrow> bool" where
  "settled H hp pl ot ts \<longleftrightarrow> gc_heap_ok H hp ot \<and> small_ok H (small hp) (bytes hp) pl \<and> cached_by ts (small hp)
     \<and> (\<forall>i < BLOCKS_COUNT H. pl i = In_empty \<longrightarrow> is_bitmap_empty (bytes hp) (blk (START_ALLOCATOR_HEAP (small hp)) i))"

lemma untraced_settled: "untraced H hp pl ot ts \<Longrightarrow> settled H hp pl ot ts"
  by (simp add: untraced_def settled_def)

lemma untraced_no_marks:
  assumes "untraced H hp pl ot ts"
  shows "marks H hp ot hp = {}"
proof -
  have "is_marked hp x \<noteq> Some True" if x: "heap_object H hp ot x" for x
  proof -
    have ok: "gc_heap_ok H hp ot" using assms by (simp add: untraced_def)
    obtain n where n: "get_object_size hp x = Some n" using object_range [OF ok x] by blast
    show ?thesis
    proof (cases "small_object H hp x")
      case True
      from small_object_cases [OF ok this n] obtain i k j where o: "i < BLOCKS_COUNT H"
        "sized (bytes hp) (blk (START_ALLOCATOR_HEAP (small hp)) i) k" "j < slots (al k)"
        "is_marked hp x = Some (slot_marked (bytes hp) (blk (START_ALLOCATOR_HEAP (small hp)) i) j)" by metis
      have "size_ok k" using o(2) by (simp add: sized_def)
      then have "j < 512" using slots_ok(2) o(3) by fastforce
      then show ?thesis using assms o(1,4) by (simp add: untraced_def is_bitmap_empty_marks)
    next
      case False
      then have "large_object hp ot x" using x by (simp add: heap_object_def)
      from large_object_cases [OF ok this n] obtain i where "i \<in> set_tree ot"
        "is_marked hp x = Some (isMarked (block (TREENODES_LIST (large hp) i)))" by metis
      then show ?thesis using assms by (simp add: untraced_def)
    qed
  qed
  then show ?thesis by (auto simp: marks_def)
qed

lemma settled_refused:
  fixes g :: log_state
  assumes un: "settled H hp pl ot ts" and t: "t \<in> set ts" and sz: "1 \<le> sz" "sz \<le> MAX_OBJECT_SIZE"
    and run: "allocate_small_object t sz (small hp, bytes hp, logs hp) = Some (0, s', m', g')"
  defines "hp' \<equiv> hp\<lparr>small := s', bytes := m', logs := g\<rparr>"
  shows "same_view H hp hp'" and "kept H (START_ALLOCATOR_HEAP (small hp)) (bytes hp) (bytes hp')" and "\<exists>pl'. settled H hp' pl' ot ts"
proof -
  let ?B = "START_ALLOCATOR_HEAP (small hp)"
  have ok: "gc_heap_ok H hp ot" and so: "small_ok H (small hp) (bytes hp) pl" using un by (simp_all add: settled_def)
  obtain pl' where so': "small_ok H s' m' pl'" and B: "START_ALLOCATOR_HEAP s' = ?B" and ho: "headers_only H ?B (bytes hp) m'"
    and nr: "no_room_for H (small hp) (bytes hp) pl t (unat sz)"
    using small_request [OF so sz, of t "logs hp"] run by auto
  have kp: "kept H ?B (bytes hp) m'" by (rule refused_kept [OF so sz run])
  then show "kept H ?B (bytes hp) (bytes hp')" by (simp add: hp'_def)
  have "END_ALLOCATOR_HEAP s' = END_ALLOCATOR_HEAP (small hp)"
    using so so' B by (auto simp: small_ok_def small_inv_def)
  then show v: "same_view H hp hp'" using B ho kp by (simp add: same_view_def hp'_def kept_def)
  obtain es ss where li: "lists_ok (BLOCKS_COUNT H) (small hp) pl es ss" using so by (auto simp: small_ok_def small_inv_def)
  have "set es = {}" unfolding lists_empty(2) [OF li] using nr by (auto simp: no_room_for_def)
  then have "EMPTY_LIST_HEAD (small hp) = None" using lists_empty(1) [OF li] by simp
  then have e: "EMPTY_LIST_HEAD s' = None" by (rule request_no_empty [OF run])
  obtain es' ss' where li': "lists_ok (BLOCKS_COUNT H) s' pl' es' ss'" using so' by (auto simp: small_ok_def small_inv_def)
  have "es' = []" using lists_empty(1) [OF li'] e by (cases es') auto
  then have "\<forall>i < BLOCKS_COUNT H. pl' i \<noteq> In_empty" using lists_empty(2) [OF li'] by auto
  then have "settled H hp' pl' ot ts"
    using un same_view_ok [OF ok v] so' request_cached_by [OF run t] by (simp add: settled_def hp'_def)
  then show "\<exists>pl'. settled H hp' pl' ot ts" by blast
qed

lemma settled_stopped:
  assumes un: "settled H hp pl ot ts"
  shows "same_view H hp (stop_threads ts hp)" and "gc_heap_ok H (stop_threads ts hp) ot"
    and "sweep_ready H (small (stop_threads ts hp)) (bytes (stop_threads ts hp))"
proof -
  have ok: "gc_heap_ok H hp ot" and so: "small_ok H (small hp) (bytes hp) pl" using un by (simp_all add: settled_def)
  show v: "same_view H hp (stop_threads ts hp)"
    by (simp add: same_view_def stop_threads_def clear_caches_frame)
  then show "gc_heap_ok H (stop_threads ts hp) ot" by (rule same_view_ok [OF ok])
  obtain pl' where "small_ok H (fold clear_cache ts (small hp)) (bytes hp) pl'" "\<forall>i. pl' i = In_empty \<longleftrightarrow> pl i = In_empty"
    using clear_caches [OF so] by blast
  moreover have "nodes_cache (fold clear_cache ts (small hp)) t k = None" if "size_ok k" for t k
  proof (cases "t \<in> set ts")
    case False
    then have "nodes_cache (small hp) t k = None" using un that unfolding settled_def cached_by_def by blast
    then show ?thesis using False clear_caches_frame(3) [OF that] by simp
  qed (simp add: clear_caches_frame(3) [OF that])
  ultimately have "sweep_ready H (fold clear_cache ts (small hp)) (bytes hp)"
    using un unfolding sweep_ready_def settled_def clear_caches_frame(1) by blast
  then show "sweep_ready H (small (stop_threads ts hp)) (bytes (stop_threads ts hp))" by (simp add: stop_threads_def)
qed

text \<open>Whichever marks a refused request clears, the tree of the large objects can be swept.\<close>

definition gapless :: "size_t \<Rightarrow> gc_heap \<Rightarrow> nat tree \<Rightarrow> size_t set \<Rightarrow> bool" where
  "gapless H hp ot R \<longleftrightarrow> (\<forall>M \<subseteq> marks H hp ot hp.
     no_gap (\<lambda>n. key (TREENODES_LIST (large hp)) n \<in> M \<or> reach (kids hp) M R (key (TREENODES_LIST (large hp)) n)) ot)"

lemma right_spine_gapless: "right_spine ot \<Longrightarrow> gapless H hp ot R"
  by (simp add: gapless_def right_spine_no_gap)

text \<open>What the roots refer to directly or through objects without a mark.\<close>

definition visible :: "size_t \<Rightarrow> gc_heap \<Rightarrow> nat tree \<Rightarrow> size_t set \<Rightarrow> size_t \<Rightarrow> bool" where
  "visible H hp ot R x \<longleftrightarrow> x \<in> R \<or> (\<exists>y. reach (kids hp) (marks H hp ot hp) R y \<and> x \<in> set (kids hp y))"

lemma visible_unmarked: "marks H hp ot hp = {} \<Longrightarrow> visible H hp ot R x \<longleftrightarrow> reach (kids hp) {} R x"
  by (auto simp: visible_def intro: reach.intros elim: reach_cases)

lemma visible_reach: "visible H hp ot R x \<Longrightarrow> reach (kids hp) {} R x"
  unfolding visible_def using reach_less_marks reach.intros by fastforce

lemma visible_spared:
  assumes ok: "gc_heap_ok H hp ot" and v: "same_view H hp hp'" and tr: "traceable H hp ot R"
    and k: "kept H (START_ALLOCATOR_HEAP (small hp)) (bytes hp) (bytes hp')" and x: "visible H hp ot R x"
  shows "x \<in> spared H hp' ot R"
proof (cases "x \<in> marks H hp' ot hp'")
  case False
  have r: "reach (kids hp') (marks H hp' ot hp') R y" if "reach (kids hp) (marks H hp ot hp) R y" for y
    using reach_fewer_marks [OF that same_view_marks [OF ok v k]] same_view_reach [OF ok v tr] by blast
  from x consider "x \<in> R" | y where "reach (kids hp) (marks H hp ot hp) R y" "x \<in> set (kids hp y)" by (auto simp: visible_def)
  then have "reach (kids hp') (marks H hp' ot hp') R x"
  proof cases
    case 1
    then show ?thesis using False by (rule reach.root)
  next
    case 2
    have "heap_object H hp ot y" using reach_less_marks [OF 2(1)] tr by (simp add: traceable_def)
    then have "x \<in> set (kids hp' y)" using 2(2) same_view_kids [OF ok v] by simp
    then show ?thesis using reach.step [OF r [OF 2(1)]] False by blast
  qed
  then show ?thesis by (simp add: spared_def)
qed (simp add: spared_def)


section \<open>\<^verbatim>\<open>gc_malloc\<close>\<close>

text \<open>What one small request does for an object that is allocated: its bytes are not free.\<close>

lemma request_spares:
  assumes so: "small_ok H s m pl" and sz: "1 \<le> sz" "sz \<le> MAX_OBJECT_SIZE"
    and run: "allocate_small_object t sz (s, m, g) = Some (a, s', m', g')" and a: "a \<noteq> 0"
    and x: "object_bytes x n \<inter> free_bytes H s m pl = {}"
  shows "object_bytes x n \<inter> obj_range (a, sz) = {}"
proof -
  have "obj_range (a, sz) \<subseteq> free_bytes H s m pl" using small_request [OF so sz, of t g] run a by auto
  then show ?thesis using x by blast
qed

definition allocated :: "size_t \<Rightarrow> gc_heap \<Rightarrow> (nat \<Rightarrow> place) \<Rightarrow> nat tree \<Rightarrow> size_t \<Rightarrow> size_t \<Rightarrow> bool" where
  "allocated H hp pl ot x n \<longleftrightarrow> heap_object H hp ot x \<and> get_object_size hp x = Some n
     \<and> object_bytes x n \<inter> free_bytes H (small hp) (bytes hp) pl = {}"

lemma collected_request:
  assumes un: "settled H hp pl ot ts" and t: "t \<in> set ts" and sz: "1 \<le> sz" "sz \<le> MAX_OBJECT_SIZE"
    and run: "allocate_small_object t sz (small hp, bytes hp, logs hp) = Some (0, s', m', g')"
    and st: "stack_at st []" and sto: "storage_at sto cs" and rr: "root_ranges H stack_of segs sto cs hp"
    and tr: "traceable H hp ot (gc_roots stack_of segs sto cs hp)"
    and ro: "\<forall>r \<in> insert (fst segs) (insert (snd segs) ((\<lambda>c. stack_range stack_of (thread (cells sto c))) ` set cs)).
      range_off_headers H hp r"
    and gap: "gapless H hp ot (gc_roots stack_of segs sto cs hp)"
  shows "\<exists>hp3 pl3. service_cycle H (\<lambda>_. True) stack_of segs ts sto st (hp\<lparr>small := s', bytes := m', logs := g\<rparr>) = Some hp3
    \<and> small_ok H (small hp3) (bytes hp3) pl3 \<and> START_ALLOCATOR_HEAP (small hp3) = START_ALLOCATOR_HEAP (small hp)
    \<and> (\<forall>x n. allocated H hp pl ot x n \<longrightarrow> visible H hp ot (gc_roots stack_of segs sto cs hp) x \<longrightarrow>
        object_bytes x n \<inter> free_bytes H (small hp3) (bytes hp3) pl3 = {}
        \<and> (\<forall>d < unat n. bytes hp3 (x + of_nat d) = bytes hp (x + of_nat d)))
    \<and> ((\<exists>i < BLOCKS_COUNT H. block_unreached H hp (gc_roots stack_of segs sto cs hp) i
          \<and> is_bitmap_empty (bytes hp) (blk (START_ALLOCATOR_HEAP (small hp)) i)) \<longrightarrow> (\<exists>i < BLOCKS_COUNT H. pl3 i = In_empty))"
proof -
  let ?R = "gc_roots stack_of segs sto cs hp"
  let ?hp1 = "hp\<lparr>small := s', bytes := m', logs := g\<rparr>"
  let ?hp2 = "stop_threads ts ?hp1"
  let ?B = "START_ALLOCATOR_HEAP (small hp)"
  have ok: "gc_heap_ok H hp ot" using un by (simp add: settled_def)
  obtain pl1 where un1: "settled H ?hp1 pl1 ot ts" using settled_refused(3) [OF un t sz run] by blast
  have v: "same_view H hp ?hp2"
    using same_view_trans [OF settled_refused(1) [OF un t sz run] settled_stopped(1) [OF un1]] .
  have kp: "kept H ?B (bytes hp) (bytes ?hp2)" using settled_refused(2) [OF un t sz run] by (simp add: stop_threads_def)
  note ok2 = settled_stopped(2) [OF un1] and rdy2 = settled_stopped(3) [OF un1]
  have rg: "range_roots ?hp2 r = range_roots hp r"
    if "r \<in> insert (fst segs) (insert (snd segs) ((\<lambda>c. stack_range stack_of (thread (cells sto c))) ` set cs))" for r
  proof -
    have "range_off_headers H hp (fst r, snd r)" using ro that unfolding prod.collapse by blast
    then show ?thesis using same_view_range [OF ok v] by (simp add: range_roots_def)
  qed
  have R: "gc_roots stack_of segs sto cs ?hp2 = ?R" using rg unfolding gc_roots_def by simp
  have rr2: "root_ranges H stack_of segs sto cs ?hp2"
    using rr by (simp add: root_ranges_def same_view_root_range [OF v])
  have tr2: "traceable H ?hp2 ot (gc_roots stack_of segs sto cs ?hp2)" unfolding R by (rule same_view_traceable [OF ok v tr])
  have L: "large ?hp2 = large hp" and B2: "START_ALLOCATOR_HEAP (small ?hp2) = ?B" using v by (simp_all add: same_view_def)
  have "no_gap (\<lambda>n. key (TREENODES_LIST (large hp)) n \<in> marks H ?hp2 ot ?hp2
      \<or> reach (kids hp) (marks H ?hp2 ot ?hp2) ?R (key (TREENODES_LIST (large hp)) n)) ot"
    using gap same_view_marks [OF ok v kp] unfolding gapless_def by blast
  then have gap2: "no_gap (\<lambda>n. key (TREENODES_LIST (large ?hp2)) n \<in> spared H ?hp2 ot (gc_roots stack_of segs sto cs ?hp2)) ot"
    unfolding R L spared_def Un_iff mem_Collect_eq same_view_reach [OF ok v tr] .
  obtain hp3 sto' st' pl3 ft' ot' where c: "collect H (\<lambda>_. True) stack_of segs sto ?hp2 st = Some (sto', hp3, st')"
    "small_ok H (small hp3) (bytes hp3) pl3"
    and lv: "\<forall>x n. heap_object H ?hp2 ot x \<longrightarrow> get_object_size ?hp2 x = Some n \<longrightarrow> (if x \<in> spared H ?hp2 ot ?R
        then object_bytes x n \<inter> gc_free H hp3 pl3 ft' = {} \<and> survives H ?hp2 hp3 ot' x n
        else object_bytes x n \<subseteq> gc_free H hp3 pl3 ft')"
    and B3: "START_ALLOCATOR_HEAP (small hp3) = START_ALLOCATOR_HEAP (small ?hp2)"
    and em: "\<forall>i < BLOCKS_COUNT H. block_unreached H ?hp2 ?R i \<longrightarrow>
        is_bitmap_empty (bytes ?hp2) (blk (START_ALLOCATOR_HEAP (small ?hp2)) i) \<longrightarrow> pl3 i = In_empty"
    using collect_runs [OF ok2 rdy2 st sto rr2 tr2 gap2] unfolding R by blast
  have "object_bytes x n \<inter> free_bytes H (small hp3) (bytes hp3) pl3 = {}
        \<and> (\<forall>d < unat n. bytes hp3 (x + of_nat d) = bytes hp (x + of_nat d))"
    if al: "allocated H hp pl ot x n" and rx: "visible H hp ot ?R x" for x n
  proof -
    have o: "heap_object H hp ot x" "get_object_size hp x = Some n" using al by (simp_all add: allocated_def)
    have l: "object_bytes x n \<inter> gc_free H hp3 pl3 ft' = {}" "survives H ?hp2 hp3 ot' x n"
      using lv same_view_object [OF v] same_view_get(1) [OF ok v] o visible_spared [OF ok v tr kp rx] by simp_all
    have "bytes ?hp2 (x + of_nat d) = bytes hp (x + of_nat d)" if "d < unat n" for d
      by (rule off_headers_same(1) [OF object_off_headers [OF ok o that]]) (use v in \<open>simp add: same_view_def\<close>)
    then show ?thesis using l by (auto simp: survives_def gc_free_def)
  qed
  moreover have "pl3 i = In_empty" if "block_unreached H hp ?R i" "i < BLOCKS_COUNT H" "is_bitmap_empty (bytes hp) (blk ?B i)" for i
  proof -
    have "block_unreached H ?hp2 ?R i"
      using that(1,2) same_view_sized [OF v] same_view_reach [OF ok v tr] unfolding block_unreached_def B2 by simp
    moreover have "is_bitmap_empty (bytes ?hp2) (blk ?B i)"
      using that(2,3) kp unfolding is_bitmap_empty_marks kept_def by blast
    ultimately show ?thesis using em that(2) B2 by simp
  qed
  moreover have "service_cycle H (\<lambda>_. True) stack_of segs ts sto st ?hp1 = Some hp3"
    using c(1) by (simp add: service_cycle_def)
  ultimately show ?thesis using c(2) B3 B2 by (intro exI [of _ hp3] exI [of _ pl3]) auto
qed

text \<open>C3: \<^verbatim>\<open>gc_malloc\<close> of 1 to 2008 bytes returns, with the collection it may run on the way, on a heap that
  may have been collected before. The memory it returns is disjoint from every allocated object that
  the stacks and the data segments refer to, directly or through objects without a mark, and no byte of
  such an object changes; while no object is marked, that is until the first collection, these are all
  reachable objects. It does not return NULL if in some block of the small heap without marks no object is
  reached. In the tree of the large objects, no node that the collection does not spare may have
  spared ones in both subtrees (a tree without left children has none), the roots must lie outside the
  block headers, and no word that is reached may point into the unused tail of a block.\<close>

theorem gc_malloc_safe:
  assumes "settled H hp pl ot ts" and "t \<in> set ts" and "1 \<le> sz" and "sz \<le> MAX_OBJECT_SIZE" and "sz \<le> H"
    and "stack_at st []" and "storage_at sto cs" and "root_ranges H stack_of segs sto cs hp"
    and "traceable H hp ot (gc_roots stack_of segs sto cs hp)"
    and "\<forall>r \<in> insert (fst segs) (insert (snd segs) ((\<lambda>c. stack_range stack_of (thread (cells sto c))) ` set cs)).
      range_off_headers H hp r"
    and "gapless H hp ot (gc_roots stack_of segs sto cs hp)"
  shows "(\<exists>a hp' pl'. gc_malloc H t (service_cycle H (\<lambda>_. True) stack_of segs ts sto st) sz hp = Some (a, hp')
      \<and> small_ok H (small hp') (bytes hp') pl'
      \<and> (\<forall>x n. allocated H hp pl ot x n \<longrightarrow> visible H hp ot (gc_roots stack_of segs sto cs hp) x \<longrightarrow>
          (a \<noteq> 0 \<longrightarrow> object_bytes x n \<inter> obj_range (a, sz) = {})
          \<and> (\<forall>d < unat n. bytes hp' (x + of_nat d) = bytes hp (x + of_nat d)))
      \<and> ((\<exists>i < BLOCKS_COUNT H. block_unreached H hp (gc_roots stack_of segs sto cs hp) i
            \<and> is_bitmap_empty (bytes hp) (blk (START_ALLOCATOR_HEAP (small hp)) i)) \<longrightarrow> a \<noteq> 0))
    \<and> (marks H hp ot hp = {} \<longrightarrow> (\<forall>x. visible H hp ot (gc_roots stack_of segs sto cs hp) x
          \<longleftrightarrow> reach (kids hp) {} (gc_roots stack_of segs sto cs hp) x))"
proof (intro conjI impI allI)
  let ?R = "gc_roots stack_of segs sto cs hp" and ?B = "START_ALLOCATOR_HEAP (small hp)"
  show "visible H hp ot ?R x \<longleftrightarrow> reach (kids hp) {} ?R x" if "marks H hp ot hp = {}" for x
    by (rule visible_unmarked [OF that])
  have ok: "gc_heap_ok H hp ot" and so: "small_ok H (small hp) (bytes hp) pl" using assms(1) by (simp_all add: settled_def)
  have lo: "\<not> (sz < 1 \<or> sz > H)" using assms(3,5) by auto
  have same: "bytes hp' (x + of_nat d) = m (x + of_nat d)"
    if "allocated H hp pl ot x n" "d < unat n" "headers_only H ?B m (bytes hp')" for x n d m and hp' :: gc_heap
    using off_headers_same(1) [OF object_off_headers [OF ok _ _ that(2)] that(3)] that(1) by (simp add: allocated_def)
  obtain a s' m' g' pl' where r: "allocate_small_object t sz (small hp, bytes hp, logs hp) = Some (a, s', m', g')"
    "small_ok H s' m' pl'" "headers_only H ?B (bytes hp) m'" using small_request [OF so assms(3,4)] by blast
  let ?room = "\<exists>i < BLOCKS_COUNT H. block_unreached H hp ?R i \<and> is_bitmap_empty (bytes hp) (blk ?B i)"
  show "\<exists>a hp' pl'. gc_malloc H t (service_cycle H (\<lambda>_. True) stack_of segs ts sto st) sz hp = Some (a, hp')
      \<and> small_ok H (small hp') (bytes hp') pl'
      \<and> (\<forall>x n. allocated H hp pl ot x n \<longrightarrow> visible H hp ot ?R x \<longrightarrow>
          (a \<noteq> 0 \<longrightarrow> object_bytes x n \<inter> obj_range (a, sz) = {})
          \<and> (\<forall>d < unat n. bytes hp' (x + of_nat d) = bytes hp (x + of_nat d)))
      \<and> (?room \<longrightarrow> a \<noteq> 0)"
  proof (cases "a = 0")
    case False
    let ?hp = "hp\<lparr>small := s', bytes := m', logs := g'\<rparr>"
    have "gc_malloc H t (service_cycle H (\<lambda>_. True) stack_of segs ts sto st) sz hp = Some (a, ?hp)"
      using r(1) False lo assms(3,4) by (simp add: gc_malloc_def allocate_new_object_def)
    moreover have "object_bytes x n \<inter> obj_range (a, sz) = {} \<and> (\<forall>d < unat n. bytes ?hp (x + of_nat d) = bytes hp (x + of_nat d))"
      if "allocated H hp pl ot x n" for x n
      using request_spares [OF so assms(3,4) r(1) False] same [OF that, of _ "bytes hp" ?hp] r(3) that by (simp add: allocated_def)
    ultimately show ?thesis using r(2) False by (intro exI [of _ a] exI [of _ ?hp] exI [of _ pl']) simp
  next
    case True
    let ?g = "log ALLOCATE_NEW_OBJECT HEAP_ERROR g'"
    obtain hp3 pl3 where c: "service_cycle H (\<lambda>_. True) stack_of segs ts sto st (hp\<lparr>small := s', bytes := m', logs := ?g\<rparr>) = Some hp3"
      "small_ok H (small hp3) (bytes hp3) pl3" "START_ALLOCATOR_HEAP (small hp3) = ?B"
      and lv: "\<And>x n. allocated H hp pl ot x n \<Longrightarrow> visible H hp ot ?R x \<Longrightarrow>
        object_bytes x n \<inter> free_bytes H (small hp3) (bytes hp3) pl3 = {}
        \<and> (\<forall>d < unat n. bytes hp3 (x + of_nat d) = bytes hp (x + of_nat d))"
      and em: "?room \<longrightarrow> (\<exists>i < BLOCKS_COUNT H. pl3 i = In_empty)"
      using collected_request [OF assms(1-4) _ assms(6-11), of s' m' g' ?g] r(1) True by blast
    obtain b s4 m4 g4 pl4 where q: "allocate_small_object t sz (small hp3, bytes hp3, logs hp3) = Some (b, s4, m4, g4)"
      "small_ok H s4 m4 pl4" "headers_only H ?B (bytes hp3) m4" "b = 0 \<longrightarrow> no_room_for H (small hp3) (bytes hp3) pl3 t (unat sz)"
      using small_request [OF c(2) assms(3,4), of t "logs hp3"] unfolding c(3) by blast
    let ?hp = "hp3\<lparr>small := s4, bytes := m4, logs := if b = 0 then log ALLOCATE_NEW_OBJECT HEAP_ERROR g4 else g4\<rparr>"
    have "gc_malloc H t (service_cycle H (\<lambda>_. True) stack_of segs ts sto st) sz hp = Some (b, ?hp)"
      using r(1) True lo assms(3,4) c(1) q(1) by (simp add: gc_malloc_def allocate_new_object_def)
    moreover have "(b \<noteq> 0 \<longrightarrow> object_bytes x n \<inter> obj_range (b, sz) = {}) \<and> (\<forall>d < unat n. bytes ?hp (x + of_nat d) = bytes hp (x + of_nat d))"
      if "allocated H hp pl ot x n" "visible H hp ot ?R x" for x n
      using request_spares [OF c(2) assms(3,4) q(1)] lv [OF that] same [OF that(1), of _ "bytes hp3" ?hp] q(3) by simp
    moreover have "?room \<longrightarrow> b \<noteq> 0"
      using em q(4) by (auto simp: no_room_for_def)
    ultimately show ?thesis using q(2) by (intro exI [of _ b] exI [of _ ?hp] exI [of _ pl4]) simp
  qed
qed

lemma ex_gc_untraced: "untraced 4096 (ex_gc False) (\<lambda>_. In_segreg 2008) (Node Leaf 0 Leaf) [0]"
  using ex_gc_ok ex_gc_small_ok ex_gc_bitmap
  by (simp add: untraced_def cached_by_def ex_gc_small_def ex_gc_large_def leaf_node_def new_object_def)

lemma ex_gc_allocated: "allocated 4096 (ex_gc False) (\<lambda>_. In_segreg 2008) (Node Leaf 0 Leaf) 4176 2008"
proof -
  have "\<not> free_slot (ex_gc_mem False) 4096 2008 i" for i
    using free_slot_at [of 2008 "ex_gc_mem False" 4096 2 i] ex_gc_loads(2) [of False] by (simp add: slot_def)
  then have "free_bytes 4096 ex_gc_small (ex_gc_mem False) (\<lambda>_. In_segreg 2008) = {}"
    by (simp add: free_bytes_def free_slots_def)
  then show ?thesis using ex_gc_objects(1) ex_sizes(1) by (simp add: allocated_def)
qed

lemma ex_off_headers:
  assumes "r \<in> insert (fst ex_segs) (insert (snd ex_segs) ((\<lambda>c. stack_range ex_stack_of (thread (cells ex_storage c))) ` set [5, 3, 8]))"
  shows "range_off_headers 4096 (ex_gc v) r"
proof -
  have r: "r \<in> {(60, 68), (100, 108), (160, 168), (200, 208), (300, 308)}"
    using assms by (auto simp: stack_range_def ex_storage_def)
  then have "word_count (fst r) (snd r) = 1" by (auto simp: word_count_def)
  moreover have "80 \<le> fst r + of_nat j - 4096" if "j < 8" for j
    using r less8 [OF that] by (elim insertE disjE emptyE) simp_all
  ultimately show ?thesis by (simp add: range_off_headers_def off_headers_def not_less)
qed

theorem gc_malloc_safe_witness:
  "\<exists>a hp' pl'. gc_malloc 4096 0 (service_cycle 4096 (\<lambda>_. True) ex_stack_of ex_segs [0] ex_storage (create_stack (\<lambda>_. 0))) 2008 (ex_gc False)
      = Some (a, hp') \<and> small_ok 4096 (small hp') (bytes hp') pl' \<and> (a \<noteq> 0 \<longrightarrow> object_bytes 4176 2008 \<inter> obj_range (a, 2008) = {})"
proof -
  let ?r = "gc_roots ex_stack_of ex_segs ex_storage [5, 3, 8] (ex_gc False)"
  have a: "reach (kids (ex_gc False)) {} ?r 4176" by (rule reach.root) (simp_all add: ex_roots)
  have "\<forall>r \<in> insert (fst ex_segs) (insert (snd ex_segs) ((\<lambda>c. stack_range ex_stack_of (thread (cells ex_storage c))) ` set [5, 3, 8])).
      range_off_headers 4096 (ex_gc False) r" using ex_off_headers by blast
  moreover have "0 \<in> set [0 :: nat]" "1 \<le> (2008 :: size_t)" "2008 \<le> MAX_OBJECT_SIZE" "2008 \<le> (4096 :: size_t)"
    by (simp_all add: MAX_OBJECT_SIZE_def)
  ultimately show ?thesis
    using gc_malloc_safe [OF untraced_settled [OF ex_gc_untraced] _ _ _ _ create_stack_empty [of "\<lambda>_. 0"] ex_storage_at ex_root_ranges ex_traceable
        _ right_spine_gapless, of 0 2008] visible_unmarked [OF untraced_no_marks [OF ex_gc_untraced]] a ex_gc_allocated
    by auto
qed

end
