(* ===== verification/Gc_Properties.thy ===== *)
theory Gc_Properties
  imports Gc_Safe
begin

text \<open>
  Theorems on the rest of the front end: the initial state satisfies what \<^verbatim>\<open>gc_malloc\<close> needs,
  \<^verbatim>\<open>gc_calloc\<close> zeroes and is safe from overflow, \<^verbatim>\<open>gc_realloc\<close> copies too much.
\<close>

section \<open>Initialisation\<close>

lemma init_allocator_runs:
  assumes room: "small_room H B" and ne: "B \<noteq> -1" and N: "4096 dvd unat H" "0 < unat H"
    and fr: "fresh H B (small hp) (bytes hp)" and occ: "occupied_root (large hp) = None"
    and M: "heap_ok H M" "unat M + unat H + 4096 < 2 ^ 64" and ap: "unat M + unat H \<le> unat B \<or> unat B + unat H \<le> unat M"
  shows "\<exists>hp'. init_allocator H B (Some nodes) True True M hp = Some hp' \<and> untraced H hp' (\<lambda>_. In_empty) Leaf []
    \<and> large_run H M (large hp', logs hp) \<and> headers_only H B (bytes hp) (bytes hp') \<and> START_ALLOCATOR_HEAP (small hp') = B
    \<and> memory_limit (logs hp') = H * 2 * 100 div 100 \<and> memory_used (logs hp') = memory_used (logs hp)"
proof -
  obtain q where q: "unat H = 4096 * q" "0 < q" using N by (auto elim!: dvdE)
  have N0: "0 < BLOCKS_COUNT H" unfolding BLOCKS_COUNT_nat q(1) using q(2) by simp
  obtain s m g where si: "init_small_allocator H B (small hp, bytes hp, logs hp) = (s, m, g)" by (metis prod_cases3)
  note r = init_small_runs [OF room ne N0 fr si]
  have g: "g = logs hp" using si ne by (simp add: init_small_allocator_def Let_def split: prod.splits)
  have H: "0 < unat (TREENODE_COUNT H)" "0 < H"
    using M(1) by (simp_all add: heap_ok_def TREENODE_COUNT_def GET_SIZE_WITH_ALIGNMENT_def
        MAX_OBJECT_SIZE_def unat_div div_greater_zero_iff word_greater_zero_iff unat_gt_0 [symmetric])
  obtain l where l: "init_large_allocator H (Some nodes) True True M (large hp, logs hp) = Some (l, logs hp)"
    "large_inv l (Node Leaf 0 Leaf) Leaf [1..<unat (TREENODE_COUNT H)]"
    "START_BIG_ALLOCATOR_HEAP l = Some M" "END_BIG_ALLOCATOR_HEAP l = Some (M + H)"
    using init_large_allocator_inv [OF occ H(1) _ H(2), of M nodes "logs hp"] M(1) by (auto simp: heap_ok_def)
  let ?hp = "hp\<lparr>small := s, bytes := m, large := l, logs := log INIT_ALLOCATOR OK (set_memory_limit (H * 2) 100 (logs hp))\<rparr>"
  have run: "init_allocator H B (Some nodes) True True M hp = Some ?hp"
    using si l(1) by (simp add: init_allocator_def g)
  have so: "small_ok H s m (\<lambda>_. In_empty)" using r(1) by (auto simp: small_ok_def)
  have ca: "nodes_cache s = (\<lambda>_ _. None)"
    using si ne fr by (auto simp: init_small_allocator_def Let_def fresh_def split: prod.splits)
  have "block_ok m (blk B i)" if "i < BLOCKS_COUNT H" for i
    using r(1,2) that by (auto simp: small_inv_def block_ok_def)
  moreover have "unat (M + H) = unat M + unat H" using M(2) by (intro unat_add_no_wrap) simp
  ultimately have "gc_heap_ok H ?hp Leaf"
    using N(1) room r(1,2) l(2-4) M(2) ap unfolding gc_heap_ok_def Let_def by (auto simp: small_inv_def)
  then have "untraced H ?hp (\<lambda>_. In_empty) Leaf []"
    using so ca r(5) r(2) by (simp add: untraced_def cached_by_def is_bitmap_empty_marks)
  moreover have "large_run H M (l, logs hp)" by (rule large_run.start [OF occ l(1)])
  ultimately show ?thesis
    using run r(2,3) by (intro exI [of _ ?hp]) (simp add: set_memory_limit_def log_def)
qed

text \<open>C30: on fresh mappings, not overlapping, \<^verbatim>\<open>init_allocator\<close> returns and sets up a heap from which
  \<^verbatim>\<open>gc_malloc\<close> may start: the invariants of both allocators hold, every block of the small heap is
  empty, nothing is marked, cached or occupied, and the limit is twice the heap size.\<close>

theorem init_allocator_ready:
  assumes "small_room H B" and "B \<noteq> -1" and "4096 dvd unat H" and "0 < unat H"
    and "fresh H B (small hp) (bytes hp)" and "occupied_root (large hp) = None"
    and "heap_ok H M" and "unat M + unat H + 4096 < 2 ^ 64" and "unat M + unat H \<le> unat B \<or> unat B + unat H \<le> unat M"
  shows "\<exists>hp'. init_allocator H B (Some nodes) True True M hp = Some hp' \<and> untraced H hp' (\<lambda>_. In_empty) Leaf []
    \<and> large_run H M (large hp', logs hp) \<and> headers_only H B (bytes hp) (bytes hp') \<and> START_ALLOCATOR_HEAP (small hp') = B
    \<and> memory_limit (logs hp') = H * 2 * 100 div 100 \<and> memory_used (logs hp') = memory_used (logs hp)"
  by (rule init_allocator_runs [OF assms])

definition ex_start :: gc_heap where
  "ex_start = \<lparr>small = blank_small, large = ex_blank, bytes = \<lambda>_. 0, logs = ex_small_log\<rparr>"

theorem init_allocator_ready_witness:
  "\<exists>hp'. init_allocator 8192 4096 (Some (\<lambda>_. leaf_node 0 0)) True True 12288 ex_start = Some hp'
    \<and> untraced 8192 hp' (\<lambda>_. In_empty) Leaf []"
proof -
  have "small_room 8192 4096" "(4096 :: size_t) \<noteq> -1" "4096 dvd unat (8192 :: size_t)" "0 < unat (8192 :: size_t)"
    "fresh 8192 4096 (small ex_start) (bytes ex_start)" "occupied_root (large ex_start) = None" "heap_ok 8192 12288"
    "unat (12288 :: size_t) + unat (8192 :: size_t) + 4096 < 2 ^ 64"
    "unat (12288 :: size_t) + unat (8192 :: size_t) \<le> unat (4096 :: size_t) \<or> unat (4096 :: size_t) + unat (8192 :: size_t) \<le> unat (12288 :: size_t)"
    by (simp_all add: small_room_def fresh_def blank_small_def ex_start_def ex_blank_def heap_ok_def)
  from init_allocator_ready [OF this, of "\<lambda>_. leaf_node 0 0"] show ?thesis by blast
qed


section \<open>\<^verbatim>\<open>gc_calloc\<close>\<close>

lemma overflow_test:
  "(n \<noteq> 0 \<and> e > SIZE_MAX div n) \<longleftrightarrow> 2 ^ 64 \<le> unat n * unat e" for n e :: size_t
proof (cases "n = 0")
  case False
  then have p: "0 < unat n" by (simp add: unat_gt_0)
  have m: "unat SIZE_MAX = 2 ^ 64 - 1" by (simp add: SIZE_MAX_def unsigned_minus_1_eq_mask mask_eq_exp_minus_1)
  have "e > SIZE_MAX div n \<longleftrightarrow> (2 ^ 64 - 1) div unat n < unat e"
    by (simp add: word_less_nat_alt unat_div m)
  also have "\<dots> \<longleftrightarrow> 2 ^ 64 - 1 < unat e * unat n" by (rule div_less_iff_less_mult [OF p])
  finally show ?thesis using False by (auto simp: mult.commute)
qed simp

lemma gc_malloc_small_size: "gc_malloc H t service sz hp = Some (a, hp') \<Longrightarrow> a \<noteq> 0 \<Longrightarrow> sz \<le> H"
  by (auto simp: gc_malloc_def not_less split: if_splits)

lemma large_step_ok:
  assumes ok: "gc_heap_ok H hp ot" and l: "large_inv l ft ot' pool" "same_limits (large hp) l"
  shows "gc_heap_ok H (hp\<lparr>large := l, logs := g\<rparr>) ot'"
  using ok l unfolding gc_heap_ok_def same_limits_def Let_def by auto

lemma exact_request:
  assumes ok: "gc_heap_ok H hp ot" and inv: "large_inv (large hp) (Node Leaf f Leaf) ot pool" and i: "i \<in> set_tree ot"
    and sz: "MAX_OBJECT_SIZE < sz" "sz \<le> H" "prio (TREENODES_LIST (large hp)) f = GET_SIZE_WITH_ALIGNMENT sz"
    and f0: "key (TREENODES_LIST (large hp)) f \<noteq> 0"
  shows "\<exists>l g. gc_malloc H t service sz hp = Some (key (TREENODES_LIST (large hp)) f, hp\<lparr>large := l, logs := g\<rparr>)
    \<and> get_object_size (hp\<lparr>large := l, logs := g\<rparr>) (key (TREENODES_LIST (large hp)) i) = Some (prio (TREENODES_LIST (large hp)) i)"
proof -
  let ?h = "TREENODES_LIST (large hp)"
  obtain l ot' where r: "allocate_large_object sz (large hp, logs hp)
      = Some (key ?h f, l, log ALLOCATE_NEW_OBJECT OK (snd (check_the_space (GET_SIZE_WITH_ALIGNMENT sz) (logs hp))))"
    "large_inv l Leaf ot' pool" "blocks (TREENODES_LIST l) ot' = insort_key addr (block (?h f)) (blocks ?h ot)" "same_limits (large hp) l"
    using allocate_large_object_exact [OF inv refl sz(3), of "logs hp"] by blast
  let ?hp = "hp\<lparr>large := l, logs := log ALLOCATE_NEW_OBJECT OK (snd (check_the_space (GET_SIZE_WITH_ALIGNMENT sz) (logs hp)))\<rparr>"
  have "block (?h i) \<in> set (blocks (TREENODES_LIST l) ot')" using i by (simp add: r(3) set_insort_key set_blocks)
  then obtain j where j: "j \<in> set_tree ot'" "block (?h i) = block (TREENODES_LIST l j)" by (auto simp: set_blocks)
  have "get_object_size ?hp (key ?h i) = Some (prio ?h i)"
    using large_object_range(2) [OF large_step_ok [OF ok r(2,4)] j(1)] j(2) by simp
  moreover have "\<not> (sz < 1 \<or> sz > H)" "\<not> sz \<le> MAX_OBJECT_SIZE"
    using sz(1,2) by (auto simp: MAX_OBJECT_SIZE_def word_less_nat_alt word_le_nat_alt)
  ultimately show ?thesis
    using r(1) sz f0 by (intro exI) (auto simp: gc_malloc_def allocate_new_object_def)
qed

text \<open>C32: \<^verbatim>\<open>gc_calloc\<close> returns NULL and changes nothing exactly when the product does not fit a \<open>size_t\<close>;
  otherwise it is \<^verbatim>\<open>gc_malloc\<close> of the product, with the bytes of the new object, and no others, zero.\<close>

theorem gc_calloc_correct:
  assumes "unat H + 16 < 2 ^ 64"
  shows "gc_calloc H t service nelem elsize hp =
    (if 2 ^ 64 \<le> unat nelem * unat elsize then Some (0, hp)
     else case gc_malloc H t service (nelem * elsize) hp of
       None \<Rightarrow> None
     | Some (a, hp') \<Rightarrow> Some (a, if a = 0 then hp'
         else hp'\<lparr>bytes := \<lambda>c. if unat (c - a) < unat nelem * unat elsize then 0 else bytes hp' c\<rparr>))"
proof (cases "2 ^ 64 \<le> unat nelem * unat elsize")
  case True
  then show ?thesis unfolding gc_calloc_def overflow_test by simp
next
  case False
  then have u: "unat (nelem * elsize) = unat nelem * unat elsize" by (simp add: unat_word_ariths)
  show ?thesis
  proof (cases "gc_malloc H t service (nelem * elsize) hp")
    case (Some r)
    obtain a hp' where r: "r = (a, hp')" by fastforce
    have "gc_memset a 0 (nelem * elsize) (bytes hp')
        = Some (a, \<lambda>c. if unat (c - a) < unat (nelem * elsize) then ucast (0 :: 32 word) else bytes hp' c)" if "a \<noteq> 0"
    proof (rule memset_exact)
      have "nelem * elsize \<le> H" using gc_malloc_small_size Some r that by blast
      then show "unat (nelem * elsize) + 16 < 2 ^ 64" using assms by (simp add: word_le_nat_alt)
    qed
    then show ?thesis using False Some r unfolding gc_calloc_def overflow_test u unsigned_0 by (simp add: Let_def)
  qed (use False in \<open>simp add: gc_calloc_def overflow_test Let_def\<close>)
qed

theorem gc_calloc_correct_witness:
  "gc_calloc 4096 0 Some (2 ^ 33) (2 ^ 33) (ex_gc False) = Some (0, ex_gc False)
    \<and> (\<exists>hp'. gc_calloc 4096 0 Some 65 32 (ex_gc False) = Some (10208, hp') \<and> (\<forall>d < 2080. bytes hp' (10208 + of_nat d) = 0))"
proof -
  have "large_inv (large (ex_gc False)) (Node Leaf 1 Leaf) (Node Leaf 0 Leaf) []" "0 \<in> set_tree (Node Leaf (0::nat) Leaf)"
    "MAX_OBJECT_SIZE < 2080" "(2080 :: size_t) \<le> 4096" "prio (TREENODES_LIST (large (ex_gc False))) 1 = GET_SIZE_WITH_ALIGNMENT 2080"
    "key (TREENODES_LIST (large (ex_gc False))) 1 \<noteq> 0"
    using ex_gc_inv by (simp_all add: ex_gc_large_def MAX_OBJECT_SIZE_def GET_SIZE_WITH_ALIGNMENT_def leaf_node_def new_object_def)
  from exact_request [OF ex_gc_ok this, of 0 Some] obtain hp' where
    "gc_malloc 4096 0 Some 2080 (ex_gc False) = Some (10208, hp')"
    by (auto simp: ex_gc_large_def leaf_node_def new_object_def)
  then have "gc_calloc 4096 0 Some 65 32 (ex_gc False)
      = Some (10208, hp'\<lparr>bytes := \<lambda>c. if unat (c - 10208) < 2080 then 0 else bytes hp' c\<rparr>)"
    by (simp add: gc_calloc_correct)
  moreover have "unat (of_nat d :: size_t) = d" if "d < 2080" for d :: nat using that by (intro unat_of_nat_small) simp
  ultimately show ?thesis by (simp add: gc_calloc_correct)
qed


section \<open>\<^verbatim>\<open>gc_realloc\<close>\<close>

text \<open>C33: \<^verbatim>\<open>gc_realloc\<close> of a large object, when a free region behind it fits the request exactly, returns that
  region and copies the whole old object to its start, whatever the requested size: the size of the
  copy is that of the old object. If the new object is smaller, the bytes behind it are overwritten.\<close>

theorem gc_realloc_copies_old_size:
  assumes "gc_heap_ok H hp ot" and "large_inv (large hp) (Node Leaf f Leaf) ot pool" and "i \<in> set_tree ot"
    and "MAX_OBJECT_SIZE < sz" and "sz \<le> H" and "prio (TREENODES_LIST (large hp)) f = GET_SIZE_WITH_ALIGNMENT sz"
    and "reg_hi (block (TREENODES_LIST (large hp) i)) \<le> unat (key (TREENODES_LIST (large hp)) f)"
    and "unat (key (TREENODES_LIST (large hp)) f) + unat (prio (TREENODES_LIST (large hp)) i) + 16 < 2 ^ 64"
    and "key (TREENODES_LIST (large hp)) i \<noteq> 0"
  shows "\<exists>hp'. gc_realloc H t service (key (TREENODES_LIST (large hp)) i) sz hp = Some (key (TREENODES_LIST (large hp)) f, hp')
    \<and> bytes hp' = (\<lambda>c. if unat (c - key (TREENODES_LIST (large hp)) f) < unat (prio (TREENODES_LIST (large hp)) i)
        then bytes hp (key (TREENODES_LIST (large hp)) i + (c - key (TREENODES_LIST (large hp)) f)) else bytes hp c)"
proof -
  let ?h = "TREENODES_LIST (large hp)"
  let ?x = "key ?h i" and ?a = "key ?h f" and ?n = "prio ?h i"
  note lr = large_object_range [OF assms(1,3)]
  have le: "unat ?x + unat ?n \<le> unat ?a" using assms(7) by (simp add: reg_hi_def)
  have n: "0 < unat ?n" using large_object_found(5) [OF assms(1,3)] large_object_found(6) [OF assms(1,3)] by (simp add: holds_addr_iff reg_hi_def)
  then have a0: "?a \<noteq> 0" using le by (auto simp: unat_eq_0)
  obtain l g where m: "gc_malloc H t service sz hp = Some (?a, hp\<lparr>large := l, logs := g\<rparr>)"
    "get_object_size (hp\<lparr>large := l, logs := g\<rparr>) ?x = Some ?n"
    using exact_request [OF assms(1-6) a0] by blast
  have sep: "\<forall>k < unat ?n. unat ?n \<le> unat (?x + of_nat k - ?a)"
  proof (intro allI impI)
    fix k assume k: "k < unat ?n"
    have "?x + of_nat k - ?a = of_nat (unat ?x + k + (2 ^ 64 - unat ?a))"
      using unat_size_t [of ?a] by (simp add: of_nat_diff)
    also have "unat \<dots> = unat ?x + k + (2 ^ 64 - unat ?a)"
      using k le unat_size_t [of ?a] by (intro unat_of_nat_small) linarith
    finally show "unat ?n \<le> unat (?x + of_nat k - ?a)" using assms(8) by linarith
  qed
  have "unat ?n + 16 < 2 ^ 64" using assms(8) by linarith
  from memcpy_exact [OF this sep, of "bytes hp"] show ?thesis
    using m lr(1) assms(9) a0 by (simp add: gc_realloc_def)
qed

definition ex_re_large :: large_state where
  "ex_re_large = \<lparr>TREENODES_LIST = (\<lambda>_. leaf_node 0 0)(0 := leaf_node 8192 2080, 1 := leaf_node 10272 2016),
     TREENODE_LIST_HEAD = None, free_root = Some 1, occupied_root = Some 0,
     START_BIG_ALLOCATOR_HEAP = Some 8192, END_BIG_ALLOCATOR_HEAP = Some 12288\<rparr>"

lemma ex_re_inv: "large_inv ex_re_large (Node Leaf 1 Leaf) (Node Leaf 0 Leaf) []"
proof -
  let ?ts = "[new_object 8192 2080, new_object 10272 2016]"
  have "tiles 8192 12288 ?ts" by (simp add: new_object_def reg_hi_def)
  moreover have "\<forall>b \<in> set ?ts. 8 dvd unat (addr b) \<and> 8 dvd unat (bsize b)" by (simp add: new_object_def)
  ultimately have "heap_tiled ex_re_large ?ts"
    unfolding heap_tiled_def
    by (intro conjI exI [of _ 8192] exI [of _ 12288] exI [of _ ?ts]) (simp_all add: ex_re_large_def)
  then have "heap_tiled ex_re_large (rev ?ts)" by (rule heap_tiled_perm [THEN iffD1, rotated]) simp
  then show ?thesis by (simp add: large_inv_def ex_re_large_def leaf_node_def new_object_def)
qed

text \<open>An object of 2080 bytes is reallocated to 2016 bytes: the 64 bytes behind the new object, here beyond
  the end of the heap at 12288, are written.\<close>

theorem gc_realloc_copies_old_size_witness:
  "\<exists>hp'. gc_realloc 4096 0 Some 8192 2016 ((ex_gc False)\<lparr>large := ex_re_large\<rparr>) = Some (10272, hp')
    \<and> (\<forall>d < 2080. bytes hp' (10272 + of_nat d) = ex_gc_mem False (8192 + of_nat d))"
proof -
  let ?hp = "(ex_gc False)\<lparr>large := ex_re_large\<rparr>"
  have ok: "gc_heap_ok 4096 ?hp (Node Leaf 0 Leaf)"
    using ex_gc_ok [of False] ex_re_inv unfolding gc_heap_ok_def Let_def by (auto simp: ex_re_large_def ex_gc_large_def)
  have "large_inv (large ?hp) (Node Leaf 1 Leaf) (Node Leaf 0 Leaf) []" "0 \<in> set_tree (Node Leaf (0::nat) Leaf)"
    "MAX_OBJECT_SIZE < 2016" "(2016 :: size_t) \<le> 4096" "prio (TREENODES_LIST (large ?hp)) 1 = GET_SIZE_WITH_ALIGNMENT 2016"
    "reg_hi (block (TREENODES_LIST (large ?hp) 0)) \<le> unat (key (TREENODES_LIST (large ?hp)) 1)"
    "unat (key (TREENODES_LIST (large ?hp)) 1) + unat (prio (TREENODES_LIST (large ?hp)) 0) + 16 < 2 ^ 64"
    "key (TREENODES_LIST (large ?hp)) 0 \<noteq> 0"
    using ex_re_inv by (simp_all add: ex_re_large_def MAX_OBJECT_SIZE_def GET_SIZE_WITH_ALIGNMENT_def leaf_node_def new_object_def reg_hi_def)
  note w = gc_realloc_copies_old_size [OF ok this, of 0 Some]
  have k: "key (TREENODES_LIST (large ?hp)) 0 = 8192" "key (TREENODES_LIST (large ?hp)) 1 = 10272"
    "prio (TREENODES_LIST (large ?hp)) 0 = 2080" "unat (2080 :: size_t) = 2080" "bytes ?hp = ex_gc_mem False"
    by (simp_all add: ex_re_large_def leaf_node_def new_object_def)
  from w [unfolded k] obtain hp' where
    r: "gc_realloc 4096 0 Some 8192 2016 ?hp = Some (10272, hp')"
      "bytes hp' = (\<lambda>c. if unat (c - 10272) < 2080 then ex_gc_mem False (8192 + (c - 10272)) else ex_gc_mem False c)"
    by blast
  have "unat (of_nat d :: size_t) = d" if "d < 2080" for d :: nat using that by (intro unat_of_nat_small) simp
  then show ?thesis using r by (intro exI [of _ hp']) simp
qed

end
