(* ===== verification/World.thy ===== *)
theory World
  imports Main
begin

text \<open>
  The threads of a program that uses the collector: \<^verbatim>\<open>mt-safety/mt-safety.c\<close>,
  \<^verbatim>\<open>mt-safety/stop-the-world.c\<close> and the control flow of \<^verbatim>\<open>gc_malloc\<close>, as steps that interleave. A step is
  one call of the thread library or one access to a shared variable; what is protected by
  \<^verbatim>\<open>is_world_started_lock\<close> and \<^verbatim>\<open>storage_lock\<close> is one step. Locks, barriers, condition variables and
  signals behave as POSIX describes them. Threads are numbers, 0 is the main thread; the list of
  registered threads is that of \<^theory_text>\<open>Threads_Storage\<close>, each cell named by its thread.
\<close>

section \<open>State\<close>

text \<open>The positions in \<^verbatim>\<open>stop_the_world\<close>, \<^verbatim>\<open>start_the_world\<close> and \<^verbatim>\<open>service_thread_routine\<close>.\<close>

datatype stop_pc = W_lock | Count | Init | Unset | Traverse | Kill | Enter | Waiting | Destroy

datatype start_pc = Set_started | Broadcast | W_unlock

datatype service_pc = D_lock | B_enter | B_waiting | K_test | A_lock | D_unlock | Stop stop_pc
  | Mark | Sweep | Start start_pc | L_lock | L_clear | L_unlock | A_release | Returned

text \<open>The positions in the stop handler; \<open>H_none\<close> is a thread outside it.\<close>

datatype handler_pc = H_none | H_clear | H_push | H_barrier | H_waiting | H_check | H_cond | H_return

text \<open>The positions of a client thread: \<open>A\<close> in \<^verbatim>\<open>allocate_new_object\<close> (\<open>True\<close> for the second attempt of
  \<^verbatim>\<open>gc_malloc\<close>), \<open>C\<close> in \<^verbatim>\<open>call_service_thread\<close>, \<open>R\<close> in \<^verbatim>\<open>__wrap_pthread_create\<close>, \<open>E\<close> at the end of
  \<^verbatim>\<open>wrap_user_routine\<close>, \<open>X\<close> in \<^verbatim>\<open>__destroy_mt_safety\<close>.\<close>

datatype client_pc = Unborn | Running | Exited
  | A_rdlock bool | A_body bool | A_unlock bool
  | C_lock | C_check | C_barrier | C_waiting | C_spin_lock | C_spin_unlock | C_unlock
  | R_rdlock | R_cell | R_create nat | R_set nat | R_fail nat | R_unlock
  | E_destroy | E_free
  | X_kill | X_barrier | X_waiting | X_done

datatype owner = Service_thread | Client nat

record world =
  service :: service_pc
  thr :: "nat \<Rightarrow> client_pc"
  hpc :: "nat \<Rightarrow> handler_pc"
  pending :: "nat set"
  registered :: "nat list"
  cursor :: "nat option"
  cached :: "nat \<Rightarrow> bool"
  is_gc_called :: bool
  kill_service_thread :: bool
  is_world_started :: bool
  threads_stopped :: nat
  barrier_size :: nat
  arrived :: "nat list"
  at_signal_barrier :: "owner option"
  signal_delivery_lock :: "owner option"
  service_thrd_call_lock :: "owner option"
  allocation_readers :: "nat set"
  allocation_writer :: bool
  creation_readers :: "nat set"
  creation_writer :: bool
  wild :: bool

text \<open>\<open>cached\<close> says which threads may have blocks in their caches, \<open>wild\<close> that a freed cell was used: no
  step follows, since nothing is known of a program that does so.\<close>

definition start_world :: world where
  "start_world = \<lparr>service = D_lock, thr = (\<lambda>_. Unborn)(0 := Running), hpc = \<lambda>_. H_none, pending = {},
     registered = [0], cursor = None, cached = \<lambda>_. False, is_gc_called = False, kill_service_thread = False,
     is_world_started = False, threads_stopped = 0, barrier_size = 0, arrived = [], at_signal_barrier = None,
     signal_delivery_lock = None, service_thrd_call_lock = None, allocation_readers = {}, allocation_writer = False,
     creation_readers = {}, creation_writer = False, wild = False\<rparr>"

definition goto :: "service_pc \<Rightarrow> world \<Rightarrow> world" where
  "goto p w = w\<lparr>service := p\<rparr>"

definition move :: "nat \<Rightarrow> client_pc \<Rightarrow> world \<Rightarrow> world" where
  "move t p w = w\<lparr>thr := (thr w)(t := p)\<rparr>"

definition handle :: "nat \<Rightarrow> handler_pc \<Rightarrow> world \<Rightarrow> world" where
  "handle t p w = w\<lparr>hpc := (hpc w)(t := p)\<rparr>"


section \<open>Barriers\<close>

text \<open>\<^verbatim>\<open>signal_barrier\<close> has size two: whoever comes second releases both.\<close>

fun released :: "owner \<Rightarrow> world \<Rightarrow> world" where
  "released Service_thread w = goto K_test w"
| "released (Client t) w = move t (case thr w t of C_waiting \<Rightarrow> C_spin_lock | C_barrier \<Rightarrow> C_spin_lock | _ \<Rightarrow> X_done) w"

definition meet :: "owner \<Rightarrow> (world \<Rightarrow> world) \<Rightarrow> world \<Rightarrow> world" where
  "meet self wait w =
     (case at_signal_barrier w of
        None \<Rightarrow> wait (w\<lparr>at_signal_barrier := Some self\<rparr>)
      | Some other \<Rightarrow> released self (released other (w\<lparr>at_signal_barrier := None\<rparr>)))"

text \<open>The barrier of a stop opens when \<open>barrier_size\<close> threads, the service thread among them, have come.\<close>

definition open_barrier :: "nat list \<Rightarrow> world \<Rightarrow> world" where
  "open_barrier ts w = w\<lparr>arrived := [], hpc := \<lambda>t. if t \<in> set ts then H_check else hpc w t,
     service := if service w = Stop Waiting then Stop Destroy else service w\<rparr>"

definition come :: "nat \<Rightarrow> world \<Rightarrow> world" where
  "come t w =
     (let ts = t # arrived w
      in if length ts + (if service w = Stop Waiting then 1 else 0) = barrier_size w then open_barrier ts w
         else handle t H_waiting (w\<lparr>arrived := ts\<rparr>))"

definition service_comes :: "world \<Rightarrow> world" where
  "service_comes w =
     (if length (arrived w) + 1 = barrier_size w then open_barrier (arrived w) (goto (Stop Waiting) w)
      else goto (Stop Waiting) w)"


section \<open>The service thread\<close>

fun next_after :: "nat \<Rightarrow> nat list \<Rightarrow> nat option" where
  "next_after t [] = None"
| "next_after t (u # us) = (if u = t then (case us of [] \<Rightarrow> None | v # _ \<Rightarrow> Some v) else next_after t us)"

fun stop_the_world :: "stop_pc \<Rightarrow> world \<Rightarrow> world option" where
  "stop_the_world W_lock w =
     (if creation_readers w = {} then Some (goto (Stop Count) (w\<lparr>creation_writer := True\<rparr>)) else None)"
| "stop_the_world Count w = Some (goto (Stop Init) (w\<lparr>threads_stopped := length (registered w)\<rparr>))"
| "stop_the_world Init w = Some (goto (Stop Unset) (w\<lparr>barrier_size := threads_stopped w + 1, arrived := []\<rparr>))"
| "stop_the_world Unset w = Some (goto (Stop Traverse) (w\<lparr>is_world_started := False\<rparr>))"
| "stop_the_world Traverse w =
     Some (goto (Stop Kill) (w\<lparr>cursor := (case registered w of [] \<Rightarrow> None | t # _ \<Rightarrow> Some t)\<rparr>))"
| "stop_the_world Kill w =
     (case cursor w of
        None \<Rightarrow> Some (goto (Stop Enter) w)
      | Some t \<Rightarrow> Some (if t \<in> set (registered w)
          then w\<lparr>cursor := next_after t (registered w), pending := insert t (pending w)\<rparr>
          else w\<lparr>wild := True\<rparr>))"
| "stop_the_world Enter w = Some (service_comes w)"
| "stop_the_world Waiting w = None"
| "stop_the_world Destroy w = Some (goto Mark w)"

fun start_the_world :: "start_pc \<Rightarrow> world \<Rightarrow> world option" where
  "start_the_world Set_started w = Some (goto (Start Broadcast) (w\<lparr>is_world_started := True\<rparr>))"
| "start_the_world Broadcast w = Some (goto (Start W_unlock)
     (w\<lparr>hpc := \<lambda>t. if hpc w t = H_cond then H_return else hpc w t\<rparr>))"
| "start_the_world W_unlock w = Some (goto L_lock (w\<lparr>creation_writer := False\<rparr>))"

fun service_thread_routine :: "service_pc \<Rightarrow> world \<Rightarrow> world option" where
  "service_thread_routine D_lock w =
     (if signal_delivery_lock w = None then Some (goto B_enter (w\<lparr>signal_delivery_lock := Some Service_thread\<rparr>)) else None)"
| "service_thread_routine B_enter w = Some (meet Service_thread (goto B_waiting) w)"
| "service_thread_routine B_waiting w = None"
| "service_thread_routine K_test w = Some (goto (if kill_service_thread w then Returned else A_lock) w)"
| "service_thread_routine A_lock w =
     (if allocation_readers w = {} then Some (goto D_unlock (w\<lparr>allocation_writer := True\<rparr>)) else None)"
| "service_thread_routine D_unlock w = Some (goto (Stop W_lock) (w\<lparr>signal_delivery_lock := None\<rparr>))"
| "service_thread_routine (Stop p) w = stop_the_world p w"
| "service_thread_routine Mark w = Some (goto Sweep w)"
| "service_thread_routine Sweep w = Some (goto (Start Set_started) w)"
| "service_thread_routine (Start p) w = start_the_world p w"
| "service_thread_routine L_lock w =
     (if service_thrd_call_lock w = None then Some (goto L_clear (w\<lparr>service_thrd_call_lock := Some Service_thread\<rparr>)) else None)"
| "service_thread_routine L_clear w = Some (goto L_unlock (w\<lparr>is_gc_called := False\<rparr>))"
| "service_thread_routine L_unlock w = Some (goto A_release (w\<lparr>service_thrd_call_lock := None\<rparr>))"
| "service_thread_routine A_release w = Some (goto D_lock (w\<lparr>allocation_writer := False\<rparr>))"
| "service_thread_routine Returned w = None"


section \<open>The stop handler\<close>

fun handler :: "nat \<Rightarrow> handler_pc \<Rightarrow> world \<Rightarrow> world option" where
  "handler t H_none w = None"
| "handler t H_clear w = Some (handle t H_push (w\<lparr>cached := (cached w)(t := False)\<rparr>))"
| "handler t H_push w = Some (handle t H_barrier w)"
| "handler t H_barrier w = Some (come t w)"
| "handler t H_waiting w = None"
| "handler t H_check w = Some (handle t (if is_world_started w then H_return else H_cond) w)"
| "handler t H_cond w = None"
| "handler t H_return w = Some (handle t H_none w)"


section \<open>The clients\<close>

text \<open>What a client does next, where the program leaves it open: what it calls, which thread
  number the system gives to a child, whether an allocation or the creation of a thread fails.\<close>

datatype choice = Go | Malloc | Create | Finish | Leave | Child nat | Fails

definition gc_malloc_step :: "nat \<Rightarrow> choice \<Rightarrow> world \<Rightarrow> world option" where
  "gc_malloc_step t c w =
     (case thr w t of
        A_rdlock again \<Rightarrow>
          if allocation_writer w then None
          else Some (move t (A_body again) (w\<lparr>allocation_readers := insert t (allocation_readers w)\<rparr>))
      | A_body again \<Rightarrow> Some (move t (A_unlock again) (w\<lparr>cached := (cached w)(t := True)\<rparr>))
      | A_unlock again \<Rightarrow>
          (let w = w\<lparr>allocation_readers := allocation_readers w - {t}\<rparr>
           in Some (move t (if c = Fails \<and> \<not> again then C_lock else Running) w))
      | _ \<Rightarrow> None)"

definition call_service_thread :: "nat \<Rightarrow> world \<Rightarrow> world option" where
  "call_service_thread t w =
     (case thr w t of
        C_lock \<Rightarrow>
          if service_thrd_call_lock w = None then Some (move t C_check (w\<lparr>service_thrd_call_lock := Some (Client t)\<rparr>))
          else None
      | C_check \<Rightarrow> Some (if is_gc_called w then move t C_unlock w else move t C_barrier (w\<lparr>is_gc_called := True\<rparr>))
      | C_barrier \<Rightarrow> Some (meet (Client t) (move t C_waiting) w)
      | C_spin_lock \<Rightarrow>
          if signal_delivery_lock w = None then Some (move t C_spin_unlock (w\<lparr>signal_delivery_lock := Some (Client t)\<rparr>))
          else None
      | C_spin_unlock \<Rightarrow> Some (move t C_unlock (w\<lparr>signal_delivery_lock := None\<rparr>))
      | C_unlock \<Rightarrow> Some (move t (A_rdlock True) (w\<lparr>service_thrd_call_lock := None\<rparr>))
      | _ \<Rightarrow> None)"

definition wrap_pthread_create :: "nat \<Rightarrow> choice \<Rightarrow> world \<Rightarrow> world option" where
  "wrap_pthread_create t c w =
     (case thr w t of
        R_rdlock \<Rightarrow>
          if creation_writer w then None
          else Some (move t R_cell (w\<lparr>creation_readers := insert t (creation_readers w)\<rparr>))
      | R_cell \<Rightarrow>
          (case c of
             Child u \<Rightarrow>
               if thr w u = Unborn \<and> u \<notin> set (registered w)
               then Some (move t (R_create u) (w\<lparr>registered := u # registered w\<rparr>)) else None
           | _ \<Rightarrow> None)
      | R_create u \<Rightarrow> Some (if c = Fails then move t (R_fail u) w else move t (R_set u) (move u Running w))
      | R_set u \<Rightarrow> Some (if u \<in> set (registered w) then move t R_unlock w else w\<lparr>wild := True\<rparr>)
      | R_fail u \<Rightarrow> Some (move t R_unlock (w\<lparr>registered := remove1 u (registered w)\<rparr>))
      | R_unlock \<Rightarrow> Some (move t Running (w\<lparr>creation_readers := creation_readers w - {t}\<rparr>))
      | _ \<Rightarrow> None)"

definition wrap_user_routine :: "nat \<Rightarrow> world \<Rightarrow> world option" where
  "wrap_user_routine t w =
     (case thr w t of
        E_destroy \<Rightarrow> Some (move t E_free (w\<lparr>registered := remove1 t (registered w)\<rparr>))
      | E_free \<Rightarrow> Some (move t Exited w)
      | _ \<Rightarrow> None)"

definition destroy_mt_safety :: "nat \<Rightarrow> world \<Rightarrow> world option" where
  "destroy_mt_safety t w =
     (case thr w t of
        X_kill \<Rightarrow> Some (move t X_barrier (w\<lparr>kill_service_thread := True\<rparr>))
      | X_barrier \<Rightarrow> Some (meet (Client t) (move t X_waiting) w)
      | _ \<Rightarrow> None)"

text \<open>A thread that runs code of the client calls the collector, creates a thread, returns from its
  routine (the main thread is not wrapped) or ends the process.\<close>

definition client_calls :: "nat \<Rightarrow> choice \<Rightarrow> world \<Rightarrow> world option" where
  "client_calls t c w =
     (case c of
        Malloc \<Rightarrow> Some (move t (A_rdlock False) w)
      | Create \<Rightarrow> Some (move t R_rdlock w)
      | Finish \<Rightarrow> if t = 0 then None else Some (move t E_destroy w)
      | Leave \<Rightarrow> Some (move t X_kill w)
      | _ \<Rightarrow> None)"

text \<open>The function a position is in.\<close>

datatype place_in = In_client | In_malloc | In_call | In_create | In_exit | In_destructor | Nowhere

fun inside :: "client_pc \<Rightarrow> place_in" where
  "inside Running = In_client"
| "inside (A_rdlock _) = In_malloc"
| "inside (A_body _) = In_malloc"
| "inside (A_unlock _) = In_malloc"
| "inside C_lock = In_call"
| "inside C_check = In_call"
| "inside C_barrier = In_call"
| "inside C_waiting = In_call"
| "inside C_spin_lock = In_call"
| "inside C_spin_unlock = In_call"
| "inside C_unlock = In_call"
| "inside R_rdlock = In_create"
| "inside R_cell = In_create"
| "inside (R_create _) = In_create"
| "inside (R_set _) = In_create"
| "inside (R_fail _) = In_create"
| "inside R_unlock = In_create"
| "inside E_destroy = In_exit"
| "inside E_free = In_exit"
| "inside X_kill = In_destructor"
| "inside X_barrier = In_destructor"
| "inside X_waiting = In_destructor"
| "inside X_done = In_destructor"
| "inside Unborn = Nowhere"
| "inside Exited = Nowhere"

definition client :: "nat \<Rightarrow> choice \<Rightarrow> world \<Rightarrow> world option" where
  "client t c w =
     (case inside (thr w t) of
        In_client \<Rightarrow> client_calls t c w
      | In_malloc \<Rightarrow> gc_malloc_step t c w
      | In_call \<Rightarrow> call_service_thread t w
      | In_create \<Rightarrow> wrap_pthread_create t c w
      | In_exit \<Rightarrow> wrap_user_routine t w
      | In_destructor \<Rightarrow> destroy_mt_safety t w
      | Nowhere \<Rightarrow> None)"


section \<open>Steps\<close>

text \<open>A signal is delivered to a thread outside the handler, since the handler runs with all signals
  blocked, and a thread in the handler does nothing else. \<open>Wake\<close> is a spurious wake-up of
  \<^verbatim>\<open>pthread_cond_wait\<close>; \<open>sp\<close> says whether they occur.\<close>

datatype event = Service | Deliver nat | Handler nat | Thread nat choice | Wake nat

fun fire :: "bool \<Rightarrow> event \<Rightarrow> world \<Rightarrow> world option" where
  "fire sp Service w = (if wild w then None else service_thread_routine (service w) w)"
| "fire sp (Deliver t) w =
     (if \<not> wild w \<and> t \<in> pending w \<and> hpc w t = H_none \<and> thr w t \<notin> {Unborn, Exited}
      then Some (handle t H_clear (w\<lparr>pending := pending w - {t}\<rparr>)) else None)"
| "fire sp (Handler t) w = (if wild w then None else handler t (hpc w t) w)"
| "fire sp (Thread t c) w = (if \<not> wild w \<and> hpc w t = H_none then client t c w else None)"
| "fire sp (Wake t) w = (if sp \<and> \<not> wild w \<and> hpc w t = H_cond then Some (handle t H_return w) else None)"

inductive reachable :: "bool \<Rightarrow> world \<Rightarrow> bool" for sp where
  start: "reachable sp start_world"
| step: "reachable sp w \<Longrightarrow> fire sp e w = Some w' \<Longrightarrow> reachable sp w'"

fun run :: "bool \<Rightarrow> event list \<Rightarrow> world \<Rightarrow> world option" where
  "run sp [] w = Some w"
| "run sp (e # es) w = (case fire sp e w of None \<Rightarrow> None | Some w' \<Rightarrow> run sp es w')"

lemma run_reachable: "reachable sp w \<Longrightarrow> run sp es w = Some w' \<Longrightarrow> reachable sp w'"
  by (induction es arbitrary: w) (auto split: option.splits intro: reachable.step)

lemma run_append: "run sp (es @ fs) w = (case run sp es w of None \<Rightarrow> None | Some w' \<Rightarrow> run sp fs w')"
  by (induction es arbitrary: w) (auto split: option.split)

text \<open>Invariants: what the start and every step without spurious wake-ups keep holds in every reachable world.\<close>

locale step_invariant =
  fixes holds :: "world \<Rightarrow> bool"
  assumes at_start: "holds start_world"
    and keeps: "holds w \<Longrightarrow> fire False e w = Some w' \<Longrightarrow> holds w'"
begin

lemma always: "reachable False w \<Longrightarrow> holds w"
  by (induction rule: reachable.induct) (auto intro: at_start keeps)

lemma always_run: "reachable False w \<Longrightarrow> run False es w = Some w' \<Longrightarrow> holds w'"
  by (rule always) (rule run_reachable)

end

end
