(* ===== verification/Stop_World.thy ===== *)
theory Stop_World
  imports World
begin

text \<open>
  The invariants of the interleaved steps of \<^theory_text>\<open>World\<close>: which positions hold which lock, which threads
  are registered, and how far a stop of the world has come.
\<close>

named_theorems world_simps

lemmas [world_simps] = goto_def handle_def

text \<open>The steps of a client, one by one.\<close>

lemmas client_defs = client_def client_calls_def gc_malloc_step_def call_service_thread_def wrap_pthread_create_def
  wrap_user_routine_def destroy_mt_safety_def

lemma client_elim:
  assumes "client t c w = Some w'"
  obtains (malloc) "thr w t = Running" "w' = move t (A_rdlock False) w"
  | (create) "thr w t = Running" "w' = move t R_rdlock w"
  | (finish) "thr w t = Running" "t \<noteq> 0" "w' = move t E_destroy w"
  | (leave) "thr w t = Running" "w' = move t X_kill w"
  | (a_rdlock) r where "thr w t = A_rdlock r" "\<not> allocation_writer w"
      "w' = move t (A_body r) (w\<lparr>allocation_readers := insert t (allocation_readers w)\<rparr>)"
  | (a_body) r where "thr w t = A_body r" "w' = move t (A_unlock r) (w\<lparr>cached := (cached w)(t := True)\<rparr>)"
  | (a_unlock) r p where "thr w t = A_unlock r" "p \<in> {Running, C_lock}"
      "w' = move t p (w\<lparr>allocation_readers := allocation_readers w - {t}\<rparr>)"
  | (c_lock) "thr w t = C_lock" "service_thrd_call_lock w = None" "w' = move t C_check (w\<lparr>service_thrd_call_lock := Some (Client t)\<rparr>)"
  | (c_called) "thr w t = C_check" "is_gc_called w" "w' = move t C_unlock w"
  | (c_call) "thr w t = C_check" "\<not> is_gc_called w" "w' = move t C_barrier (w\<lparr>is_gc_called := True\<rparr>)"
  | (c_barrier) "thr w t = C_barrier" "w' = meet (Client t) (move t C_waiting) w"
  | (c_spin_lock) "thr w t = C_spin_lock" "signal_delivery_lock w = None" "w' = move t C_spin_unlock (w\<lparr>signal_delivery_lock := Some (Client t)\<rparr>)"
  | (c_spin_unlock) "thr w t = C_spin_unlock" "w' = move t C_unlock (w\<lparr>signal_delivery_lock := None\<rparr>)"
  | (c_unlock) "thr w t = C_unlock" "w' = move t (A_rdlock True) (w\<lparr>service_thrd_call_lock := None\<rparr>)"
  | (r_rdlock) "thr w t = R_rdlock" "\<not> creation_writer w" "w' = move t R_cell (w\<lparr>creation_readers := insert t (creation_readers w)\<rparr>)"
  | (r_cell) u where "thr w t = R_cell" "thr w u = Unborn" "u \<notin> set (registered w)" "w' = move t (R_create u) (w\<lparr>registered := u # registered w\<rparr>)"
  | (r_fails) u where "thr w t = R_create u" "w' = move t (R_fail u) w"
  | (r_create) u where "thr w t = R_create u" "w' = move t (R_set u) (move u Running w)"
  | (r_set) u where "thr w t = R_set u" "u \<in> set (registered w)" "w' = move t R_unlock w"
  | (r_wild) u where "thr w t = R_set u" "u \<notin> set (registered w)" "w' = w\<lparr>wild := True\<rparr>"
  | (r_fail) u where "thr w t = R_fail u" "w' = move t R_unlock (w\<lparr>registered := remove1 u (registered w)\<rparr>)"
  | (r_unlock) "thr w t = R_unlock" "w' = move t Running (w\<lparr>creation_readers := creation_readers w - {t}\<rparr>)"
  | (e_destroy) "thr w t = E_destroy" "w' = move t E_free (w\<lparr>registered := remove1 t (registered w)\<rparr>)"
  | (e_free) "thr w t = E_free" "w' = move t Exited w"
  | (x_kill) "thr w t = X_kill" "w' = move t X_barrier (w\<lparr>kill_service_thread := True\<rparr>)"
  | (x_barrier) "thr w t = X_barrier" "w' = meet (Client t) (move t X_waiting) w"
  using assms
  by (cases "thr w t") (auto simp: client_defs Let_def split: choice.splits if_splits)

text \<open>Moving a client changes its position only.\<close>

lemma move_frame [simp]:
  "service (move t p w) = service w" "thr (move t p w) = (thr w)(t := p)" "hpc (move t p w) = hpc w"
  "pending (move t p w) = pending w" "arrived (move t p w) = arrived w" "registered (move t p w) = registered w"
  "cursor (move t p w) = cursor w" "cached (move t p w) = cached w" "wild (move t p w) = wild w"
  "is_gc_called (move t p w) = is_gc_called w" "kill_service_thread (move t p w) = kill_service_thread w"
  "is_world_started (move t p w) = is_world_started w" "threads_stopped (move t p w) = threads_stopped w"
  "barrier_size (move t p w) = barrier_size w" "at_signal_barrier (move t p w) = at_signal_barrier w"
  "signal_delivery_lock (move t p w) = signal_delivery_lock w" "service_thrd_call_lock (move t p w) = service_thrd_call_lock w"
  "allocation_readers (move t p w) = allocation_readers w" "allocation_writer (move t p w) = allocation_writer w"
  "creation_readers (move t p w) = creation_readers w" "creation_writer (move t p w) = creation_writer w"
  by (simp_all add: move_def)

text \<open>The threads in one set of positions.\<close>

definition standing :: "(client_pc \<Rightarrow> bool) \<Rightarrow> (nat \<Rightarrow> client_pc) \<Rightarrow> nat set" where
  "standing P f = {t. P (f t)}"

lemma standing_upd [simp]:
  "P (f t) \<longleftrightarrow> P p \<Longrightarrow> standing P (f(t := p)) = standing P f"
  "\<not> P (f t) \<Longrightarrow> P p \<Longrightarrow> standing P (f(t := p)) = insert t (standing P f)"
  "P (f t) \<Longrightarrow> \<not> P p \<Longrightarrow> standing P (f(t := p)) = standing P f - {t}"
  by (auto simp: standing_def)

lemma in_standing [simp]: "t \<in> standing P f \<longleftrightarrow> P (f t)"
  by (simp add: standing_def)

section \<open>Locks\<close>

fun holds_allocation :: "service_pc \<Rightarrow> bool" where
  "holds_allocation D_lock = False"
| "holds_allocation B_enter = False"
| "holds_allocation B_waiting = False"
| "holds_allocation K_test = False"
| "holds_allocation A_lock = False"
| "holds_allocation Returned = False"
| "holds_allocation _ = True"

fun holds_creation :: "service_pc \<Rightarrow> bool" where
  "holds_creation (Stop p) = (p \<noteq> W_lock)"
| "holds_creation Mark = True"
| "holds_creation Sweep = True"
| "holds_creation (Start p) = True"
| "holds_creation _ = False"

fun allocating :: "client_pc \<Rightarrow> bool" where
  "allocating (A_body _) = True"
| "allocating (A_unlock _) = True"
| "allocating _ = False"

fun creating :: "client_pc \<Rightarrow> bool" where
  "creating R_cell = True"
| "creating (R_create _) = True"
| "creating (R_set _) = True"
| "creating (R_fail _) = True"
| "creating R_unlock = True"
| "creating _ = False"

definition locks_ok :: "world \<Rightarrow> bool" where
  "locks_ok w \<longleftrightarrow> (allocation_writer w \<longleftrightarrow> holds_allocation (service w)) \<and> (creation_writer w \<longleftrightarrow> holds_creation (service w))
     \<and> (allocation_writer w \<longrightarrow> allocation_readers w = {}) \<and> (creation_writer w \<longrightarrow> creation_readers w = {})
     \<and> standing allocating (thr w) = allocation_readers w \<and> standing creating (thr w) = creation_readers w"


text \<open>Who waits at the signal barrier.\<close>

fun waits :: "client_pc \<Rightarrow> bool" where
  "waits C_waiting = True"
| "waits X_waiting = True"
| "waits _ = False"

definition barrier_ok :: "world \<Rightarrow> bool" where
  "barrier_ok w \<longleftrightarrow> (at_signal_barrier w = Some Service_thread \<longleftrightarrow> service w = B_waiting)
     \<and> standing waits (thr w) = (case at_signal_barrier w of Some (Client t) \<Rightarrow> {t} | _ \<Rightarrow> {})"


section \<open>Registered threads\<close>

fun child :: "client_pc \<Rightarrow> nat option" where
  "child (R_create u) = Some u"
| "child (R_fail u) = Some u"
| "child _ = None"

fun present :: "client_pc \<Rightarrow> bool" where
  "present Unborn = False"
| "present E_free = False"
| "present Exited = False"
| "present _ = True"

text \<open>Every thread that may still run code of the client is registered, and so is a thread about to be
  created, by the one thread that creates it.\<close>

definition registry :: "(nat \<Rightarrow> client_pc) \<Rightarrow> nat list \<Rightarrow> bool" where
  "registry f xs \<longleftrightarrow> distinct xs \<and> (\<forall>t. present (f t) \<longrightarrow> t \<in> set xs)
     \<and> (\<forall>t u. child (f t) = Some u \<longrightarrow> u \<in> set xs \<and> f u = Unborn)
     \<and> (\<forall>t s u. child (f t) = Some u \<longrightarrow> child (f s) = Some u \<longrightarrow> t = s)"

abbreviation registry_ok :: "world \<Rightarrow> bool" where
  "registry_ok w \<equiv> registry (thr w) (registered w)"

lemma registryD:
  assumes "registry f xs"
  shows "distinct xs" and "present (f t) \<Longrightarrow> t \<in> set xs" and "child (f t) = Some u \<Longrightarrow> u \<in> set xs"
    and "child (f t) = Some u \<Longrightarrow> f u = Unborn" and "child (f t) = Some u \<Longrightarrow> child (f s) = Some u \<Longrightarrow> t = s"
  using assms unfolding registry_def by blast+

lemma registryI:
  assumes "distinct xs" and "\<And>t. present (f t) \<Longrightarrow> t \<in> set xs"
    and "\<And>t u. child (f t) = Some u \<Longrightarrow> u \<in> set xs \<and> f u = Unborn"
    and "\<And>t s u. child (f t) = Some u \<Longrightarrow> child (f s) = Some u \<Longrightarrow> t = s"
  shows "registry f xs"
  using assms unfolding registry_def by blast

lemma child_present: "child p = Some u \<Longrightarrow> present p"
  by (cases p) auto

lemma registry_upd:
  assumes r: "registry f xs" and t: "f t \<noteq> Unborn" and p: "p \<noteq> Unborn" "present p \<longrightarrow> present (f t)" "child p = None \<or> child p = child (f t)"
  shows "registry (f(t := p)) xs"
proof (rule registryI)
  have c: "child (f s) = Some u" if "child ((f(t := p)) s) = Some u" for s u using that p(3) by (auto split: if_splits)
  show "u \<in> set xs \<and> (f(t := p)) u = Unborn" if "child ((f(t := p)) s) = Some u" for s u
    using registryD(3,4) [OF r c [OF that]] t by auto
  show "s = s'" if "child ((f(t := p)) s) = Some u" "child ((f(t := p)) s') = Some u" for s s' u
    by (rule registryD(5) [OF r c [OF that(1)] c [OF that(2)]])
  show "s \<in> set xs" if "present ((f(t := p)) s)" for s using registryD(2) [OF r, of s] p(2) that by (auto split: if_splits)
qed (rule registryD(1) [OF r])

lemma registry_cell:
  assumes r: "registry f xs" and t: "f t = R_cell" and u: "f u = Unborn" "u \<notin> set xs"
  shows "registry (f(t := R_create u)) (u # xs)"
proof (rule registryI)
  have c: "child ((f(t := R_create u)) s) = (if s = t then Some u else child (f s))" for s by simp
  have nu: "child (f s) \<noteq> Some u" for s using registryD(3) [OF r] u(2) by blast
  show "v \<in> set (u # xs) \<and> (f(t := R_create u)) v = Unborn" if "child ((f(t := R_create u)) s) = Some v" for s v
    using that registryD(3,4) [OF r, of s v] t u by (auto split: if_splits)
  show "s = s'" if "child ((f(t := R_create u)) s) = Some v" "child ((f(t := R_create u)) s') = Some v" for s s' v
    using that registryD(5) [OF r, of s v s'] nu [of s] nu [of s'] unfolding c by (auto split: if_splits)
  show "s \<in> set (u # xs)" if "present ((f(t := R_create u)) s)" for s
    using that registryD(2) [OF r, of s] registryD(2) [OF r, of t] t by (auto split: if_splits)
  show "distinct (u # xs)" using registryD(1) [OF r] u(2) by simp
qed

lemma registry_create:
  assumes r: "registry f xs" and t: "child (f t) = Some u"
  shows "registry (f(u := Running, t := R_set u)) xs"
proof (rule registryI)
  let ?f = "f(u := Running, t := R_set u)"
  have u: "u \<in> set xs" "f u = Unborn" using registryD(3,4) [OF r t] by simp_all
  have c: "child (f s) = Some v \<and> s \<noteq> t \<and> v \<noteq> u" if "child (?f s) = Some v" for s v
    using that registryD(5) [OF r t, of s] by (auto split: if_splits)
  show "v \<in> set xs \<and> ?f v = Unborn" if "child (?f s) = Some v" for s v
    using registryD(3,4) [OF r, of s v] c [OF that] t by auto
  show "s = s'" if "child (?f s) = Some v" "child (?f s') = Some v" for s s' v
    using registryD(5) [OF r, of s v s'] c [OF that(1)] c [OF that(2)] by blast
  show "s \<in> set xs" if "present (?f s)" for s
    using that u(1) registryD(2) [OF r, of s] registryD(2) [OF r child_present [OF t]] by (auto split: if_splits)
qed (rule registryD(1) [OF r])

lemma registry_remove:
  assumes r: "registry f xs" and u: "u = t \<and> f t \<noteq> Unborn \<and> p = E_free \<or> child (f t) = Some u \<and> p = R_unlock"
  shows "registry (f(t := p)) (remove1 u xs)"
proof (rule registryI)
  let ?f = "f(t := p)"
  have p: "child p = None" "p \<noteq> Unborn" using u by auto
  have c: "child (f s) = Some v \<and> s \<noteq> t \<and> v \<noteq> t \<and> v \<noteq> u" if "child (?f s) = Some v" for s v
    using that p u registryD(4) [OF r, of s v] registryD(5) [OF r, of t u s] child_present [of "f t"] by (auto split: if_splits)
  show "v \<in> set (remove1 u xs) \<and> ?f v = Unborn" if "child (?f s) = Some v" for s v
    using registryD(1) [OF r] registryD(3,4) [OF r, of s v] c [OF that] by simp
  show "s = s'" if "child (?f s) = Some v" "child (?f s') = Some v" for s s' v
    using registryD(5) [OF r, of s v s'] c [OF that(1)] c [OF that(2)] by blast
  show "s \<in> set (remove1 u xs)" if "present (?f s)" for s
    using that u registryD(1) [OF r] registryD(2) [OF r, of s] registryD(2) [OF r child_present [of "f t" u]] registryD(4) [OF r, of t u]
    by (auto split: if_splits)
  show "distinct (remove1 u xs)" using registryD(1) [OF r] by simp
qed


section \<open>The stop\<close>

fun early :: "handler_pc \<Rightarrow> bool" where
  "early H_clear = True"
| "early H_push = True"
| "early H_barrier = True"
| "early H_waiting = True"
| "early _ = False"

definition caches_ok :: "world \<Rightarrow> bool" where
  "caches_ok w \<longleftrightarrow> (\<forall>t. hpc w t \<notin> {H_none, H_clear} \<longrightarrow> \<not> cached w t)"

definition calm :: "world \<Rightarrow> bool" where
  "calm w \<longleftrightarrow> pending w = {} \<and> arrived w = [] \<and> (\<forall>t. \<not> early (hpc w t))"

definition counted :: "nat set \<Rightarrow> world \<Rightarrow> bool" where
  "counted C w \<longleftrightarrow> finite C \<and> card C = threads_stopped w \<and> set (registered w) \<subseteq> C"

definition signalled :: "world \<Rightarrow> nat set" where
  "signalled w = pending w \<union> {t. early (hpc w t)}"

definition stopping :: "nat set \<Rightarrow> world \<Rightarrow> bool" where
  "stopping C w \<longleftrightarrow> counted C w \<and> barrier_size w = threads_stopped w + 1 \<and> \<not> is_world_started w \<and> signalled w \<subseteq> C
     \<and> distinct (arrived w) \<and> set (arrived w) = {t. hpc w t = H_waiting} \<and> (\<forall>t \<in> pending w. \<not> early (hpc w t))"

definition stopped :: "world \<Rightarrow> bool" where
  "stopped w \<longleftrightarrow> \<not> is_world_started w \<and> (\<forall>t \<in> set (registered w). hpc w t \<in> {H_check, H_cond})"

definition remaining :: "nat option \<Rightarrow> nat list \<Rightarrow> nat list" where
  "remaining c ts = (case c of None \<Rightarrow> [] | Some t \<Rightarrow> dropWhile (\<lambda>u. u \<noteq> t) ts)"

datatype phase = Quiet | Counted | Sized | Unflagged | Killing | Gathering | Halted

fun phase_of :: "service_pc \<Rightarrow> phase" where
  "phase_of (Stop Init) = Counted"
| "phase_of (Stop Unset) = Sized"
| "phase_of (Stop Traverse) = Unflagged"
| "phase_of (Stop Kill) = Killing"
| "phase_of (Stop Enter) = Gathering"
| "phase_of (Stop Waiting) = Gathering"
| "phase_of (Stop Destroy) = Halted"
| "phase_of Mark = Halted"
| "phase_of Sweep = Halted"
| "phase_of (Start Set_started) = Halted"
| "phase_of _ = Quiet"

primrec phase_ok :: "phase \<Rightarrow> world \<Rightarrow> bool" where
  "phase_ok Quiet w = calm w"
| "phase_ok Counted w = (calm w \<and> (\<exists>C. counted C w))"
| "phase_ok Sized w = (calm w \<and> (\<exists>C. counted C w) \<and> barrier_size w = threads_stopped w + 1)"
| "phase_ok Unflagged w = (calm w \<and> (\<exists>C. counted C w) \<and> barrier_size w = threads_stopped w + 1 \<and> \<not> is_world_started w)"
| "phase_ok Killing w = (\<exists>C. stopping C w \<and> signalled w \<inter> set (remaining (cursor w) (registered w)) = {})"
| "phase_ok Gathering w = (\<exists>C. stopping C w)"
| "phase_ok Halted w = (calm w \<and> stopped w)"

definition world_ok :: "world \<Rightarrow> bool" where
  "world_ok w \<longleftrightarrow> barrier_ok w \<and> locks_ok w \<and> registry_ok w \<and> caches_ok w \<and> phase_ok (phase_of (service w)) w"

lemma start_ok: "world_ok start_world"
  by (auto simp: world_ok_def start_world_def barrier_ok_def locks_ok_def registry_def caches_ok_def calm_def)


section \<open>Steps of the clients\<close>

text \<open>A thread that meets another at the signal barrier: only these two move, out of the barrier.\<close>

lemma released_frame [simp]:
  "hpc (released o1 w) = hpc w" "pending (released o1 w) = pending w" "arrived (released o1 w) = arrived w"
  "registered (released o1 w) = registered w" "cached (released o1 w) = cached w" "wild (released o1 w) = wild w"
  "allocation_writer (released o1 w) = allocation_writer w" "creation_writer (released o1 w) = creation_writer w"
  "allocation_readers (released o1 w) = allocation_readers w" "creation_readers (released o1 w) = creation_readers w"
  "at_signal_barrier (released o1 w) = at_signal_barrier w" "is_gc_called (released o1 w) = is_gc_called w"
  "kill_service_thread (released o1 w) = kill_service_thread w"
  "signal_delivery_lock (released o1 w) = signal_delivery_lock w" "service_thrd_call_lock (released o1 w) = service_thrd_call_lock w"
  "threads_stopped (released o1 w) = threads_stopped w" "barrier_size (released o1 w) = barrier_size w"
  "is_world_started (released o1 w) = is_world_started w" "cursor (released o1 w) = cursor w"
  by (cases o1; simp add: world_simps)+

fun out :: "client_pc \<Rightarrow> client_pc" where
  "out C_barrier = C_spin_lock"
| "out C_waiting = C_spin_lock"
| "out _ = X_done"

lemma meet_elim:
  assumes ok: "barrier_ok w" and b: "thr w t \<in> {C_barrier, X_barrier}"
  obtains (wait) "at_signal_barrier w = None" "meet (Client t) (move t p) w = move t p (w\<lparr>at_signal_barrier := Some (Client t)\<rparr>)"
  | (service) "at_signal_barrier w = Some Service_thread" "service w = B_waiting"
      "meet (Client t) (move t p) w = move t (out (thr w t)) (w\<lparr>at_signal_barrier := None, service := K_test\<rparr>)"
  | (other) s where "at_signal_barrier w = Some (Client s)" "s \<noteq> t" "waits (thr w s)"
      "meet (Client t) (move t p) w = move t (out (thr w t)) (move s (out (thr w s)) (w\<lparr>at_signal_barrier := None\<rparr>))"
proof (cases "at_signal_barrier w")
  case (Some q)
  show ?thesis
  proof (cases q)
    case Service_thread
    then show ?thesis using assms Some service by (auto simp: barrier_ok_def meet_def world_simps)
  next
    case (Client s)
    then have "s \<in> standing waits (thr w)" using ok Some by (simp add: barrier_ok_def)
    then have s: "waits (thr w s)" "s \<noteq> t" using b by auto
    then have "out (thr w s) = (case thr w s of C_waiting \<Rightarrow> C_spin_lock | C_barrier \<Rightarrow> C_spin_lock | _ \<Rightarrow> X_done)"
      by (cases "thr w s") auto
    then show ?thesis using b Some Client s other [of s] by (auto simp: meet_def)
  qed
qed (use wait in \<open>simp add: meet_def\<close>)

lemma out_neutral [simp]: "\<not> waits (out p)" "\<not> allocating (out p)" "\<not> creating (out p)" "child (out p) = None" "out p \<noteq> Unborn"
  by (cases p; simp)+

lemma waits_neutral: "waits p \<Longrightarrow> \<not> allocating p \<and> \<not> creating p \<and> child p = None \<and> present p \<and> p \<noteq> Unborn"
  by (cases p) auto

lemma client_barrier:
  assumes "barrier_ok w" and "registry_ok w" and "client t c w = Some w'"
  shows "barrier_ok w'"
  using assms(3)
proof (cases rule: client_elim)
  case c_barrier
  then show ?thesis by (cases rule: meet_elim [OF assms(1), of t C_waiting]) (use assms(1) in \<open>simp_all add: barrier_ok_def\<close>)
next
  case x_barrier
  then show ?thesis by (cases rule: meet_elim [OF assms(1), of t X_waiting]) (use assms(1) in \<open>simp_all add: barrier_ok_def\<close>)
next
  case (a_unlock r p)
  then have "\<not> waits p" by auto
  then show ?thesis using a_unlock assms(1) by (simp add: barrier_ok_def)
next
  case (r_create u)
  then have "thr w u = Unborn" "u \<noteq> t" using registryD(4) [OF assms(2), of t u] by auto
  then show ?thesis using r_create assms(1) by (simp add: barrier_ok_def)
qed (use assms(1) in \<open>simp_all add: barrier_ok_def\<close>)

lemma client_locks:
  assumes "barrier_ok w" and "registry_ok w" and "locks_ok w" and "client t c w = Some w'"
  shows "locks_ok w'"
  using assms(4)
proof (cases rule: client_elim)
  case c_barrier
  then show ?thesis
    by (cases rule: meet_elim [OF assms(1), of t C_waiting]) (use assms(3) waits_neutral in \<open>simp_all add: locks_ok_def\<close>)
next
  case x_barrier
  then show ?thesis
    by (cases rule: meet_elim [OF assms(1), of t X_waiting]) (use assms(3) waits_neutral in \<open>simp_all add: locks_ok_def\<close>)
next
  case (a_unlock r p)
  then have "\<not> allocating p" "\<not> creating p" by auto
  then show ?thesis using a_unlock assms(3) by (simp add: locks_ok_def)
next
  case (r_create u)
  then have "thr w u = Unborn" "u \<noteq> t" using registryD(4) [OF assms(2), of t u] by auto
  then show ?thesis using r_create assms(3) by (simp add: locks_ok_def)
qed (use assms(3) in \<open>simp_all add: locks_ok_def\<close>)

lemma client_registry:
  assumes "barrier_ok w" and "registry_ok w" and "client t c w = Some w'"
  shows "registry_ok w'"
  using assms(3)
proof (cases rule: client_elim)
  case c_barrier
  then show ?thesis
    by (cases rule: meet_elim [OF assms(1), of t C_waiting]) (use assms(2) waits_neutral in \<open>simp_all add: registry_upd\<close>)
next
  case x_barrier
  then show ?thesis
    by (cases rule: meet_elim [OF assms(1), of t X_waiting]) (use assms(2) waits_neutral in \<open>simp_all add: registry_upd\<close>)
next
  case (a_unlock r p)
  then have "child p = None" "p \<noteq> Unborn" by auto
  then show ?thesis using a_unlock assms(2) by (simp add: registry_upd)
qed (use assms(2) in \<open>simp_all add: registry_upd registry_cell registry_create registry_remove\<close>)

lemma client_frame:
  assumes "barrier_ok w" and "client t c w = Some w'"
  shows "hpc w' = hpc w" and "pending w' = pending w" and "arrived w' = arrived w" and "cursor w' = cursor w"
    and "threads_stopped w' = threads_stopped w" and "barrier_size w' = barrier_size w" and "is_world_started w' = is_world_started w"
    and "\<forall>s. s \<noteq> t \<longrightarrow> cached w' s = cached w s"
    and "service w' = service w \<or> service w = B_waiting \<and> service w' = K_test"
    and "(\<exists>u. registered w' = remove1 u (registered w)) \<or> registered w' = registered w \<or> creating (thr w t)"
proof -
  have "hpc w' = hpc w \<and> pending w' = pending w \<and> arrived w' = arrived w \<and> cursor w' = cursor w
    \<and> threads_stopped w' = threads_stopped w \<and> barrier_size w' = barrier_size w \<and> is_world_started w' = is_world_started w
    \<and> (\<forall>s. s \<noteq> t \<longrightarrow> cached w' s = cached w s) \<and> (service w' = service w \<or> service w = B_waiting \<and> service w' = K_test)
    \<and> ((\<exists>u. registered w' = remove1 u (registered w)) \<or> registered w' = registered w \<or> creating (thr w t))"
    using assms(2)
  proof (cases rule: client_elim)
    case c_barrier
    then show ?thesis by (cases rule: meet_elim [OF assms(1), of t C_waiting]) simp_all
  next
    case x_barrier
    then show ?thesis by (cases rule: meet_elim [OF assms(1), of t X_waiting]) simp_all
  next
    case (e_destroy)
    then show ?thesis by auto
  qed simp_all
  then show "hpc w' = hpc w" "pending w' = pending w" "arrived w' = arrived w" "cursor w' = cursor w"
    "threads_stopped w' = threads_stopped w" "barrier_size w' = barrier_size w" "is_world_started w' = is_world_started w"
    "\<forall>s. s \<noteq> t \<longrightarrow> cached w' s = cached w s" "service w' = service w \<or> service w = B_waiting \<and> service w' = K_test"
    "(\<exists>u. registered w' = remove1 u (registered w)) \<or> registered w' = registered w \<or> creating (thr w t)"
    by blast+
qed

text \<open>The stop does not mind threads that leave the list.\<close>

lemma remaining_remove1: "set (remaining c (remove1 u xs)) \<subseteq> set (remaining c xs)"
proof (cases c)
  case (Some t)
  have "set (dropWhile (\<lambda>u. u \<noteq> t) (remove1 u xs)) \<subseteq> set (dropWhile (\<lambda>u. u \<noteq> t) xs)"
    by (induction xs) (auto dest: set_dropWhileD notin_set_remove1 intro: subsetD [OF set_remove1_subset])
  then show ?thesis using Some by (simp add: remaining_def)
qed (simp add: remaining_def)

definition same_stop :: "world \<Rightarrow> world \<Rightarrow> bool" where
  "same_stop w w' \<longleftrightarrow> hpc w' = hpc w \<and> pending w' = pending w \<and> arrived w' = arrived w \<and> cursor w' = cursor w
     \<and> threads_stopped w' = threads_stopped w \<and> barrier_size w' = barrier_size w \<and> is_world_started w' = is_world_started w"

lemma same_stop_ok:
  assumes s: "same_stop w w'" and r: "set (registered w') \<subseteq> set (registered w)"
      "\<And>c. set (remaining c (registered w')) \<subseteq> set (remaining c (registered w))"
    and ok: "phase_ok p w"
  shows "phase_ok p w'"
proof -
  have c: "calm w' = calm w" "signalled w' = signalled w" "counted C w \<Longrightarrow> counted C w'" "stopped w \<Longrightarrow> stopped w'" for C
    using s r(1) by (auto simp: same_stop_def calm_def signalled_def counted_def stopped_def)
  then have st: "stopping C w \<Longrightarrow> stopping C w'" for C using s by (simp add: stopping_def same_stop_def)
  have k: "signalled w \<inter> set (remaining (cursor w) (registered w)) = {} \<Longrightarrow> signalled w' \<inter> set (remaining (cursor w') (registered w')) = {}"
    using s r(2) [of "cursor w"] c(2) by (auto simp: same_stop_def)
  have e: "\<exists>C. counted C w \<Longrightarrow> \<exists>C. counted C w'" "\<exists>C. stopping C w \<Longrightarrow> \<exists>C. stopping C w'"
    "\<exists>C. stopping C w \<and> signalled w \<inter> set (remaining (cursor w) (registered w)) = {}
      \<Longrightarrow> \<exists>C. stopping C w' \<and> signalled w' \<inter> set (remaining (cursor w') (registered w')) = {}"
    using c(3) st k by blast+
  show ?thesis
    using ok c(1,4) e s by (cases p) (simp_all only: phase_ok.simps same_stop_def simp_thms)
qed

lemma phase_quiet: "\<not> holds_creation p \<Longrightarrow> phase_of p = Quiet"
  by (cases p rule: phase_of.cases) auto

lemma client_stop:
  assumes ok: "world_ok w" and run: "client t c w = Some w'"
  shows "phase_ok (phase_of (service w')) w'"
proof -
  have b: "barrier_ok w" and l: "locks_ok w" and st: "phase_ok (phase_of (service w)) w" using ok by (simp_all add: world_ok_def)
  note f = client_frame [OF b run]
  have same: "same_stop w w'" using f(1-7) by (simp add: same_stop_def)
  show ?thesis
  proof (cases "creating (thr w t)")
    case True
    then have "t \<in> creation_readers w" using l by (auto simp: locks_ok_def)
    then have n: "\<not> holds_creation (service w)" using l by (auto simp: locks_ok_def)
    then have "\<not> holds_creation (service w')" using f(9) by auto
    moreover have "calm w'" using st same n phase_quiet by (simp add: same_stop_def calm_def)
    ultimately show ?thesis by (simp add: phase_quiet)
  next
    case False
    then have r: "(\<exists>u. registered w' = remove1 u (registered w)) \<or> registered w' = registered w" using f(10) by blast
    have "set (registered w') \<subseteq> set (registered w)" using r set_remove1_subset by fastforce
    moreover have "set (remaining c (registered w')) \<subseteq> set (remaining c (registered w))" for c
      using r remaining_remove1 by (metis order_refl)
    ultimately have "phase_ok (phase_of (service w)) w'" using same_stop_ok [OF same _ _ st] by blast
    then show ?thesis using f(9) by auto
  qed
qed

lemma client_caches:
  assumes "barrier_ok w" and "caches_ok w" and "client t c w = Some w'" and "hpc w t = H_none"
  shows "caches_ok w'"
proof -
  note f = client_frame [OF assms(1,3)]
  have "\<not> cached w' s" if "hpc w s \<notin> {H_none, H_clear}" for s
    using that assms(2,4) f(8) by (cases "s = t") (auto simp: caches_ok_def)
  then show ?thesis unfolding caches_ok_def f(1) by blast
qed

lemma client_ok:
  assumes "world_ok w" and "client t c w = Some w'" and "hpc w t = H_none"
  shows "world_ok w'"
  using assms client_barrier client_locks client_registry client_caches client_stop unfolding world_ok_def by blast


section \<open>Steps of the handlers\<close>

lemma handle_frame [simp]:
  "service (handle t p w) = service w" "thr (handle t p w) = thr w" "hpc (handle t p w) = (hpc w)(t := p)"
  "pending (handle t p w) = pending w" "arrived (handle t p w) = arrived w" "registered (handle t p w) = registered w"
  "cursor (handle t p w) = cursor w" "cached (handle t p w) = cached w" "wild (handle t p w) = wild w"
  "is_gc_called (handle t p w) = is_gc_called w" "kill_service_thread (handle t p w) = kill_service_thread w"
  "is_world_started (handle t p w) = is_world_started w" "threads_stopped (handle t p w) = threads_stopped w"
  "barrier_size (handle t p w) = barrier_size w" "at_signal_barrier (handle t p w) = at_signal_barrier w"
  "signal_delivery_lock (handle t p w) = signal_delivery_lock w" "service_thrd_call_lock (handle t p w) = service_thrd_call_lock w"
  "allocation_readers (handle t p w) = allocation_readers w" "allocation_writer (handle t p w) = allocation_writer w"
  "creation_readers (handle t p w) = creation_readers w" "creation_writer (handle t p w) = creation_writer w"
  by (simp_all add: handle_def)

lemma phase_pending:
  assumes "phase_ok p w" and "early (hpc w t) \<or> t \<in> pending w"
  shows "p \<in> {Killing, Gathering}"
  using assms by (cases p) (auto simp: calm_def)

lemma phase_stopping:
  assumes p: "p \<in> {Killing, Gathering}" "phase_ok p w" and st: "\<And>C. stopping C w \<Longrightarrow> stopping C w'"
    and same: "signalled w' = signalled w" "cursor w' = cursor w" "registered w' = registered w"
  shows "phase_ok p w'"
proof -
  have "\<exists>C. stopping C w \<Longrightarrow> \<exists>C. stopping C w'"
    "\<exists>C. stopping C w \<and> signalled w \<inter> set (remaining (cursor w) (registered w)) = {}
      \<Longrightarrow> \<exists>C. stopping C w' \<and> signalled w' \<inter> set (remaining (cursor w') (registered w')) = {}"
    using st unfolding same by blast+
  then show ?thesis using p by (cases p) simp_all
qed

text \<open>A change of the handlers and of the pending signals that leaves the same threads signalled.\<close>

lemma phase_ok_signalled:
  assumes ok: "phase_ok p w" and sg: "signalled w' = signalled w" "signalled w \<noteq> {}"
    and wt: "{t. hpc w' t = H_waiting} = {t. hpc w t = H_waiting}" "\<forall>t \<in> pending w'. \<not> early (hpc w' t)"
    and same: "arrived w' = arrived w" "cursor w' = cursor w" "registered w' = registered w"
      "threads_stopped w' = threads_stopped w" "barrier_size w' = barrier_size w" "is_world_started w' = is_world_started w"
  shows "phase_ok p w'"
proof -
  obtain t where t: "early (hpc w t) \<or> t \<in> pending w" using sg(2) by (auto simp: signalled_def)
  have "stopping C w'" if "stopping C w" for C using that sg(1) wt same by (simp add: stopping_def counted_def)
  then show ?thesis by (rule phase_stopping [OF phase_pending [OF ok t] ok _ sg(1) same(2,3)])
qed

lemma handle_early:
  assumes "phase_ok p w" and "early (hpc w t)" "early q" and "hpc w t \<noteq> H_waiting" "q \<noteq> H_waiting"
  shows "phase_ok p (handle t q (w\<lparr>cached := c\<rparr>))"
proof (rule phase_ok_signalled [OF assms(1)])
  let ?w = "handle t q (w\<lparr>cached := c\<rparr>)"
  show "signalled w \<noteq> {}" using assms(2) by (auto simp: signalled_def)
  show "signalled ?w = signalled w" using assms(2,3) by (auto simp: signalled_def)
  show "{s. hpc ?w s = H_waiting} = {s. hpc w s = H_waiting}" using assms(4,5) by auto
  show "\<forall>s \<in> pending ?w. \<not> early (hpc ?w s)"
    using assms(1-3) phase_pending [OF assms(1), of t] by (auto simp: stopping_def)
qed simp_all

lemma handle_deliver:
  assumes "phase_ok p w" and "t \<in> pending w" and "hpc w t = H_none"
  shows "phase_ok p (handle t H_clear (w\<lparr>pending := pending w - {t}\<rparr>))"
proof (rule phase_ok_signalled [OF assms(1)])
  let ?w = "handle t H_clear (w\<lparr>pending := pending w - {t}\<rparr>)"
  show "signalled w \<noteq> {}" using assms(2) by (auto simp: signalled_def)
  show "signalled ?w = signalled w" using assms(2,3) by (auto simp: signalled_def)
  show "{s. hpc ?w s = H_waiting} = {s. hpc w s = H_waiting}" using assms(3) by auto
  show "\<forall>s \<in> pending ?w. \<not> early (hpc ?w s)"
    using assms(1,2) phase_pending [OF assms(1), of t] by (auto simp: stopping_def)
qed simp_all

lemma handle_late:
  assumes ok: "phase_ok p w" and e: "\<not> early (hpc w t)" "\<not> early q"
    and c: "hpc w t \<in> {H_check, H_cond} \<Longrightarrow> \<not> is_world_started w \<Longrightarrow> q \<in> {H_check, H_cond}"
  shows "phase_ok p (handle t q w)"
proof -
  let ?w = "handle t q w"
  have sg: "signalled ?w = signalled w" using e by (auto simp: signalled_def)
  have "{s. hpc ?w s = H_waiting} = {s. hpc w s = H_waiting}" using e by auto
  then have st: "stopping C ?w = stopping C w" for C
    using sg e by (auto simp: stopping_def counted_def)
  have "calm ?w = calm w" using e by (auto simp: calm_def)
  moreover have "stopped w \<Longrightarrow> stopped ?w" using c by (auto simp: stopped_def)
  moreover have "counted C ?w = counted C w" for C by (simp add: counted_def)
  ultimately show ?thesis
    using ok sg st by (cases p) (simp_all only: phase_ok.simps handle_frame simp_thms)
qed

text \<open>The barrier opens when all counted threads have come, and never before the service thread waits.\<close>

lemma barrier_opens:
  assumes st: "stopping C w" and ts: "distinct ts" "length ts = threads_stopped w" "set ts \<subseteq> {t. early (hpc w t)}"
  shows "calm (open_barrier ts w)" and "stopped (open_barrier ts w)"
proof -
  have C: "finite C" "card C = length ts" "set (registered w) \<subseteq> C" "signalled w \<subseteq> C"
    using st ts(2) by (simp_all add: stopping_def counted_def)
  have "set ts \<subseteq> C" using ts(3) C(4) by (auto simp: signalled_def)
  then have eq: "set ts = C" using C(1,2) distinct_card [OF ts(1)] by (simp add: card_subset_eq)
  have "pending w = {}" using st ts(3) eq C(4) by (auto simp: stopping_def signalled_def)
  moreover have "early (hpc w t) \<Longrightarrow> t \<in> set ts" for t using eq C(4) by (auto simp: signalled_def)
  ultimately show "calm (open_barrier ts w)" by (auto simp: calm_def open_barrier_def)
  show "stopped (open_barrier ts w)" using st eq C(3) by (auto simp: stopped_def open_barrier_def stopping_def)
qed

lemma come_elim:
  assumes ok: "phase_ok (phase_of (service w)) w" and t: "hpc w t = H_barrier"
  obtains (opens) C where "service w = Stop Waiting" "stopping C w" "distinct (t # arrived w)"
      "length (t # arrived w) = threads_stopped w" "set (t # arrived w) \<subseteq> {s. early (hpc w s)}"
      "come t w = open_barrier (t # arrived w) w"
  | (waits) "phase_of (service w) \<in> {Killing, Gathering}"
      "length (t # arrived w) + (if service w = Stop Waiting then 1 else 0) \<noteq> barrier_size w"
      "come t w = handle t H_waiting (w\<lparr>arrived := t # arrived w\<rparr>)"
proof -
  have p: "phase_of (service w) \<in> {Killing, Gathering}" using phase_pending [OF ok, of t] t by simp
  then obtain C where st: "stopping C w" using ok by auto
  let ?ts = "t # arrived w"
  have ts: "distinct ?ts" "set ?ts \<subseteq> {s. early (hpc w s)}" using st t by (auto simp: stopping_def)
  have C: "finite C" "card C = threads_stopped w" "{s. early (hpc w s)} \<subseteq> C" "barrier_size w = threads_stopped w + 1"
    using st by (auto simp: stopping_def counted_def signalled_def)
  have le: "length ?ts \<le> threads_stopped w"
    using card_mono [OF C(1) subset_trans [OF ts(2) C(3)]] distinct_card [OF ts(1)] C(2) by simp
  show ?thesis
  proof (cases "length ?ts + (if service w = Stop Waiting then 1 else 0) = barrier_size w")
    case True
    then have s: "service w = Stop Waiting" "length ?ts = threads_stopped w" using le C(4) by (auto split: if_splits)
    have "come t w = open_barrier ?ts w" using True unfolding come_def Let_def by (rule if_P)
    then show ?thesis by (rule opens [OF s(1) st ts(1) s(2) ts(2)])
  next
    case False
    then have "come t w = handle t H_waiting (w\<lparr>arrived := ?ts\<rparr>)" unfolding come_def Let_def by (rule if_not_P)
    then show ?thesis by (rule waits [OF p False])
  qed
qed

lemma come_stop:
  assumes ok: "phase_ok (phase_of (service w)) w" and t: "hpc w t = H_barrier"
  shows "phase_ok (phase_of (service (come t w))) (come t w)"
  using assms
proof (cases rule: come_elim)
  case (opens C)
  then show ?thesis using barrier_opens [OF opens(2-5)] by (simp add: open_barrier_def)
next
  case waits
  let ?w = "handle t H_waiting (w\<lparr>arrived := t # arrived w\<rparr>)"
  have sg: "signalled ?w = signalled w" using t by (auto simp: signalled_def)
  have "stopping D ?w" if "stopping D w" for D
    using that t sg by (auto simp: stopping_def counted_def)
  then have "phase_ok (phase_of (service w)) ?w" by (rule phase_stopping [OF waits(1) ok _ sg]) simp_all
  then show ?thesis unfolding waits(3) by simp
qed

lemma come_frame [simp]:
  "thr (come t w) = thr w" "registered (come t w) = registered w" "cached (come t w) = cached w"
  "at_signal_barrier (come t w) = at_signal_barrier w" "allocation_writer (come t w) = allocation_writer w"
  "creation_writer (come t w) = creation_writer w" "allocation_readers (come t w) = allocation_readers w"
  "creation_readers (come t w) = creation_readers w" "is_gc_called (come t w) = is_gc_called w"
  "kill_service_thread (come t w) = kill_service_thread w" "signal_delivery_lock (come t w) = signal_delivery_lock w"
  "service_thrd_call_lock (come t w) = service_thrd_call_lock w"
  by (simp_all add: come_def open_barrier_def Let_def)

lemma come_service: "service (come t w) = service w \<or> service w = Stop Waiting \<and> service (come t w) = Stop Destroy"
  by (simp add: come_def open_barrier_def Let_def)

lemma come_handlers: "hpc (come t w) s \<in> {H_none, H_clear} \<longleftrightarrow> hpc w s \<in> {H_none, H_clear}"
  if "hpc w t = H_barrier" and "\<forall>u \<in> set (arrived w). hpc w u = H_waiting"
  using that by (auto simp: come_def open_barrier_def Let_def)

text \<open>Nothing but the handlers, the signals and the barrier of the stop changes in these steps.\<close>

definition same_clients :: "world \<Rightarrow> world \<Rightarrow> bool" where
  "same_clients w w' \<longleftrightarrow> thr w' = thr w \<and> registered w' = registered w \<and> at_signal_barrier w' = at_signal_barrier w
     \<and> allocation_writer w' = allocation_writer w \<and> creation_writer w' = creation_writer w
     \<and> allocation_readers w' = allocation_readers w \<and> creation_readers w' = creation_readers w
     \<and> (service w' = service w \<or> service w = Stop Waiting \<and> service w' = Stop Destroy)"

lemma same_clients_ok:
  assumes "same_clients w w'" and "barrier_ok w" "locks_ok w" "registry_ok w"
  shows "barrier_ok w'" and "locks_ok w'" and "registry_ok w'"
  using assms by (auto simp: same_clients_def barrier_ok_def locks_ok_def)

lemma handler_ok:
  assumes ok: "world_ok w" and run: "handler t (hpc w t) w = Some w'"
  shows "world_ok w'"
proof -
  have b: "barrier_ok w" and l: "locks_ok w" and r: "registry_ok w" and c: "caches_ok w" and st: "phase_ok (phase_of (service w)) w"
    using ok by (simp_all add: world_ok_def)
  have "same_clients w w' \<and> caches_ok w' \<and> phase_ok (phase_of (service w')) w'"
  proof (cases "hpc w t")
    case H_clear
    then have "w' = handle t H_push (w\<lparr>cached := (cached w)(t := False)\<rparr>)" using run by simp
    then show ?thesis using c H_clear handle_early [OF st, of t H_push] by (auto simp: same_clients_def caches_ok_def)
  next
    case H_push
    then have "w' = handle t H_barrier w" using run by simp
    then show ?thesis using c H_push handle_early [OF st, of t H_barrier "cached w"] by (auto simp: same_clients_def caches_ok_def)
  next
    case H_barrier
    then have w': "w' = come t w" using run by simp
    have "\<forall>u \<in> set (arrived w). hpc w u = H_waiting"
      using st phase_pending [OF st, of t] H_barrier by (auto simp: stopping_def)
    then have "caches_ok w'" using c come_handlers [OF H_barrier, simplified] unfolding w' caches_ok_def come_frame by simp
    then show ?thesis using come_stop [OF st H_barrier] come_service [of t w] w' by (simp add: same_clients_def)
  next
    case H_check
    then have "w' = handle t (if is_world_started w then H_return else H_cond) w" using run by simp
    then show ?thesis
      using c H_check handle_late [OF st, of t "if is_world_started w then H_return else H_cond"]
      by (auto simp: same_clients_def caches_ok_def)
  next
    case H_return
    then have "w' = handle t H_none w" using run by simp
    then show ?thesis using c H_return handle_late [OF st, of t H_none] by (auto simp: same_clients_def caches_ok_def)
  qed (use run in simp_all)
  then show ?thesis using same_clients_ok [OF _ b l r] by (simp add: world_ok_def)
qed

lemma deliver_ok:
  assumes ok: "world_ok w" and "t \<in> pending w" and "hpc w t = H_none"
  shows "world_ok (handle t H_clear (w\<lparr>pending := pending w - {t}\<rparr>))"
proof -
  have "same_clients w (handle t H_clear (w\<lparr>pending := pending w - {t}\<rparr>))" by (simp add: same_clients_def)
  then show ?thesis
    using same_clients_ok [of w] ok handle_deliver [OF _ assms(2,3)] by (simp add: world_ok_def caches_ok_def)
qed


section \<open>Steps of the service thread\<close>

lemma goto_frame [simp]:
  "service (goto p w) = p" "thr (goto p w) = thr w" "hpc (goto p w) = hpc w"
  "pending (goto p w) = pending w" "arrived (goto p w) = arrived w" "registered (goto p w) = registered w"
  "cursor (goto p w) = cursor w" "cached (goto p w) = cached w" "wild (goto p w) = wild w"
  "is_gc_called (goto p w) = is_gc_called w" "kill_service_thread (goto p w) = kill_service_thread w"
  "is_world_started (goto p w) = is_world_started w" "threads_stopped (goto p w) = threads_stopped w"
  "barrier_size (goto p w) = barrier_size w" "at_signal_barrier (goto p w) = at_signal_barrier w"
  "signal_delivery_lock (goto p w) = signal_delivery_lock w" "service_thrd_call_lock (goto p w) = service_thrd_call_lock w"
  "allocation_readers (goto p w) = allocation_readers w" "allocation_writer (goto p w) = allocation_writer w"
  "creation_readers (goto p w) = creation_readers w" "creation_writer (goto p w) = creation_writer w"
  by (simp_all add: goto_def)

lemma meet_service:
  assumes ok: "barrier_ok w" and s: "service w = B_enter"
  obtains (wait) "at_signal_barrier w = None" "meet Service_thread (goto B_waiting) w = goto B_waiting (w\<lparr>at_signal_barrier := Some Service_thread\<rparr>)"
  | (client) t where "at_signal_barrier w = Some (Client t)" "waits (thr w t)"
      "meet Service_thread (goto B_waiting) w = goto K_test (move t (out (thr w t)) (w\<lparr>at_signal_barrier := None\<rparr>))"
proof (cases "at_signal_barrier w")
  case (Some q)
  show ?thesis
  proof (cases q)
    case Service_thread
    then show ?thesis using assms Some by (simp add: barrier_ok_def)
  next
    case (Client t)
    then have "t \<in> standing waits (thr w)" using ok Some by (simp add: barrier_ok_def)
    then have t: "waits (thr w t)" by simp
    then have "out (thr w t) = (case thr w t of C_waiting \<Rightarrow> C_spin_lock | C_barrier \<Rightarrow> C_spin_lock | _ \<Rightarrow> X_done)"
      by (cases "thr w t") auto
    then show ?thesis using Some Client t client [of t] by (simp add: meet_def)
  qed
qed (use wait in \<open>simp add: meet_def\<close>)

lemma remaining_next:
  assumes "distinct xs" and "t \<in> set xs"
  shows "set (remaining (Some t) xs) = insert t (set (remaining (next_after t xs) xs))" and "t \<notin> set (remaining (next_after t xs) xs)"
proof -
  have "set (remaining (Some t) xs) = insert t (set (remaining (next_after t xs) xs)) \<and> t \<notin> set (remaining (next_after t xs) xs)
      \<and> (\<forall>u. next_after t xs = Some u \<longrightarrow> u \<in> set xs)"
    using assms
  proof (induction xs)
    case (Cons x xs)
    show ?case
    proof (cases "x = t")
      case True
      then show ?thesis using Cons.prems(1) by (cases xs) (auto simp: remaining_def)
    next
      case False
      then have ih: "set (remaining (Some t) xs) = insert t (set (remaining (next_after t xs) xs))"
        "t \<notin> set (remaining (next_after t xs) xs)" "\<forall>u. next_after t xs = Some u \<longrightarrow> u \<in> set xs" using Cons by auto
      have "remaining (next_after t xs) (x # xs) = remaining (next_after t xs) xs"
        using ih(3) Cons.prems(1) by (auto simp: remaining_def split: option.split)
      moreover have "remaining (Some t) (x # xs) = remaining (Some t) xs" using False by (simp add: remaining_def)
      ultimately show ?thesis using ih False by auto
    qed
  qed simp
  then show "set (remaining (Some t) xs) = insert t (set (remaining (next_after t xs) xs))" "t \<notin> set (remaining (next_after t xs) xs)"
    by auto
qed

text \<open>The loop over the threads: each gets one signal.\<close>

lemma kill_step:
  assumes st: "phase_ok Killing w" and t: "cursor w = Some t" "t \<in> set (registered w)" and di: "distinct (registered w)"
  shows "phase_ok Killing (w\<lparr>cursor := next_after t (registered w), pending := insert t (pending w)\<rparr>)"
proof -
  let ?w = "w\<lparr>cursor := next_after t (registered w), pending := insert t (pending w)\<rparr>"
  obtain C where C: "stopping C w" "signalled w \<inter> set (remaining (Some t) (registered w)) = {}" using st t(1) by auto
  note r = remaining_next [OF di t(2)]
  have e: "\<not> early (hpc w t)" using C(2) r(1) by (auto simp: signalled_def)
  have sg: "signalled ?w = insert t (signalled w)" by (simp add: signalled_def)
  have "t \<in> C" using C(1) t(2) by (auto simp: stopping_def counted_def)
  then have "stopping C ?w" using C(1) sg e by (simp add: stopping_def counted_def)
  moreover have "signalled ?w \<inter> set (remaining (cursor ?w) (registered ?w)) = {}" using C(2) r sg by auto
  ultimately show ?thesis by auto
qed

lemma waiting_early: "hpc w t = H_waiting \<Longrightarrow> early (hpc w t)"
  by simp

lemma stopping_starts:
  assumes "calm w" and "counted C w" and "barrier_size w = threads_stopped w + 1" and "\<not> is_world_started w"
  shows "stopping C w"
  using assms waiting_early by (fastforce simp: stopping_def signalled_def calm_def)

lemma service_comes_ok:
  assumes "phase_ok Gathering w" and s: "service w = Stop Enter"
  shows "phase_ok (phase_of (service (service_comes w))) (service_comes w)"
proof -
  obtain C where st: "stopping C w" using assms(1) by auto
  have g: "stopping C (goto (Stop Waiting) w)" using st by (simp add: stopping_def counted_def signalled_def)
  show ?thesis
  proof (cases "length (arrived w) + 1 = barrier_size w")
    case True
    then have "calm (open_barrier (arrived w) (goto (Stop Waiting) w))" "stopped (open_barrier (arrived w) (goto (Stop Waiting) w))"
      using barrier_opens [OF g, of "arrived w"] st waiting_early by (auto simp: stopping_def)
    then show ?thesis using True by (simp add: service_comes_def open_barrier_def)
  qed (use g in \<open>auto simp: service_comes_def\<close>)
qed

lemma service_phase:
  assumes ok: "world_ok w" and run: "service_thread_routine (service w) w = Some w'"
  shows "phase_ok (phase_of (service w')) w'"
proof -
  have b: "barrier_ok w" and r: "distinct (registered w)" and st: "phase_ok (phase_of (service w)) w"
    using ok registryD(1) by (auto simp: world_ok_def)
  show ?thesis
  proof (cases "service w")
    case B_enter
    then have "w' = meet Service_thread (goto B_waiting) w" using run by simp
    then show ?thesis using st B_enter by (cases rule: meet_service [OF b B_enter]) (simp_all add: calm_def)
  next
    case (Stop p)
    show ?thesis
    proof (cases p)
      case Count
      then show ?thesis
        using run st Stop distinct_card [OF r] by (auto simp: calm_def counted_def intro!: exI [of _ "set (registered w)"])
    next
      case Traverse
      then have q: "calm w" "\<exists>C. counted C w" "barrier_size w = threads_stopped w + 1" "\<not> is_world_started w" using st Stop by simp_all
      then obtain C where "stopping C w" using stopping_starts by blast
      then have "stopping C w'" using run Stop Traverse by (auto simp: stopping_def counted_def signalled_def)
      moreover have "signalled w' = {}" using run Stop Traverse q(1) by (auto simp: signalled_def calm_def)
      ultimately show ?thesis using run Stop Traverse by auto
    next
      case Kill
      show ?thesis
      proof (cases "cursor w")
        case None
        then have w': "w' = goto (Stop Enter) w" using run Stop Kill by simp
        obtain C where "stopping C w" using st Stop Kill by auto
        then have "stopping C w'" using w' by (simp add: stopping_def counted_def signalled_def)
        then show ?thesis using w' by auto
      next
        case (Some t)
        show ?thesis
        proof (cases "t \<in> set (registered w)")
          case True
          then have "w' = w\<lparr>cursor := next_after t (registered w), pending := insert t (pending w)\<rparr>"
            using run Stop Kill Some by simp
          then show ?thesis using kill_step [OF _ Some True r] st Stop Kill by (simp del: phase_ok.simps)
        next
          case False
          then have w': "w' = w\<lparr>wild := True\<rparr>" using run Stop Kill Some by simp
          have "stopping C (w\<lparr>wild := True\<rparr>) = stopping C w" for C by (simp add: stopping_def counted_def signalled_def)
          then show ?thesis using w' st Stop Kill by (simp add: signalled_def)
        qed
      qed
    next
      case Enter
      then show ?thesis using run Stop service_comes_ok [of w] st by simp
    next
      case Destroy
      then show ?thesis using run Stop st by (auto simp: calm_def stopped_def)
    qed (use run st Stop in \<open>auto simp: calm_def counted_def stopped_def split: if_splits\<close>)
  next
    case (Start p)
    then show ?thesis using run st by (cases p) (auto simp: calm_def stopped_def)
  qed (use run st in \<open>auto simp: calm_def stopped_def split: if_splits\<close>)
qed

lemma service_frame:
  assumes run: "service_thread_routine (service w) w = Some w'" and p: "service w \<noteq> B_enter"
  shows "thr w' = thr w \<and> registered w' = registered w \<and> at_signal_barrier w' = at_signal_barrier w \<and> cached w' = cached w
      \<and> allocation_readers w' = allocation_readers w \<and> creation_readers w' = creation_readers w"
    and "service w \<noteq> B_waiting \<and> service w' \<noteq> B_waiting"
    and "allocation_writer w = holds_allocation (service w) \<Longrightarrow> allocation_writer w' = holds_allocation (service w')"
    and "creation_writer w = holds_creation (service w) \<Longrightarrow> creation_writer w' = holds_creation (service w')"
    and "allocation_writer w' \<Longrightarrow> allocation_writer w \<or> allocation_readers w = {}"
    and "creation_writer w' \<Longrightarrow> creation_writer w \<or> creation_readers w = {}"
proof -
  have "thr w' = thr w \<and> registered w' = registered w \<and> at_signal_barrier w' = at_signal_barrier w \<and> cached w' = cached w
      \<and> allocation_readers w' = allocation_readers w \<and> creation_readers w' = creation_readers w
      \<and> service w \<noteq> B_waiting \<and> service w' \<noteq> B_waiting
      \<and> (allocation_writer w = holds_allocation (service w) \<longrightarrow> allocation_writer w' = holds_allocation (service w'))
      \<and> (creation_writer w = holds_creation (service w) \<longrightarrow> creation_writer w' = holds_creation (service w'))
      \<and> (allocation_writer w' \<longrightarrow> allocation_writer w \<or> allocation_readers w = {})
      \<and> (creation_writer w' \<longrightarrow> creation_writer w \<or> creation_readers w = {})"
  proof (cases "service w")
    case (Stop q)
    then show ?thesis using run by (cases q) (auto simp: service_comes_def open_barrier_def split: if_splits option.splits)
  next
    case (Start q)
    then show ?thesis using run by (cases q) auto
  qed (use run p in \<open>auto split: if_splits\<close>)
  then show "thr w' = thr w \<and> registered w' = registered w \<and> at_signal_barrier w' = at_signal_barrier w \<and> cached w' = cached w
      \<and> allocation_readers w' = allocation_readers w \<and> creation_readers w' = creation_readers w"
    "service w \<noteq> B_waiting \<and> service w' \<noteq> B_waiting"
    "allocation_writer w = holds_allocation (service w) \<Longrightarrow> allocation_writer w' = holds_allocation (service w')"
    "creation_writer w = holds_creation (service w) \<Longrightarrow> creation_writer w' = holds_creation (service w')"
    "allocation_writer w' \<Longrightarrow> allocation_writer w \<or> allocation_readers w = {}"
    "creation_writer w' \<Longrightarrow> creation_writer w \<or> creation_readers w = {}" by blast+
qed

lemma service_clients:
  assumes ok: "world_ok w" and run: "service_thread_routine (service w) w = Some w'"
  shows "barrier_ok w' \<and> locks_ok w' \<and> registry_ok w'"
proof -
  have b: "barrier_ok w" and l: "locks_ok w" and r: "registry_ok w" using ok by (simp_all add: world_ok_def)
  show ?thesis
  proof (cases "service w = B_enter")
    case True
    then have "w' = meet Service_thread (goto B_waiting) w" using run by simp
    then show ?thesis
      using b l r True waits_neutral
      by (cases rule: meet_service [OF b True]) (simp_all add: barrier_ok_def locks_ok_def registry_upd)
  next
    case False
    note f = service_frame [OF run False]
    show ?thesis using b l r f unfolding barrier_ok_def locks_ok_def by simp blast
  qed
qed

lemma service_caches:
  assumes ok: "world_ok w" and run: "service_thread_routine (service w) w = Some w'"
  shows "caches_ok w'"
proof -
  have c: "caches_ok w" and b: "barrier_ok w" and st: "phase_ok (phase_of (service w)) w" using ok by (simp_all add: world_ok_def)
  show ?thesis
  proof (cases "service w")
    case B_enter
    then have "w' = meet Service_thread (goto B_waiting) w" using run by simp
    then show ?thesis using c by (cases rule: meet_service [OF b B_enter]) (simp_all add: caches_ok_def)
  next
    case (Stop p)
    show ?thesis
    proof (cases p)
      case Enter
      then have "\<forall>t \<in> set (arrived w). hpc w t = H_waiting" using st Stop by (auto simp: stopping_def)
      then show ?thesis using run c Stop Enter by (auto simp: caches_ok_def service_comes_def open_barrier_def split: if_splits)
    qed (use run c Stop in \<open>auto simp: caches_ok_def split: if_splits option.splits\<close>)
  next
    case (Start p)
    then show ?thesis using run c by (cases p) (auto simp: caches_ok_def split: if_splits)
  qed (use run c in \<open>auto simp: caches_ok_def split: if_splits\<close>)
qed

lemma fire_ok:
  assumes ok: "world_ok w" and run: "fire False e w = Some w'"
  shows "world_ok w'"
proof (cases e)
  case Service
  then have "service_thread_routine (service w) w = Some w'" using run by (simp split: if_splits)
  then show ?thesis using service_clients [OF ok] service_caches [OF ok] service_phase [OF ok] by (simp add: world_ok_def)
next
  case (Deliver t)
  then show ?thesis using run deliver_ok [OF ok] by (auto split: if_splits)
next
  case (Handler t)
  then show ?thesis using run handler_ok [OF ok] by (auto split: if_splits)
next
  case (Thread t c)
  then show ?thesis using run client_ok [OF ok] by (auto split: if_splits)
next
  case (Wake t)
  then show ?thesis using run by simp
qed

interpretation stop: step_invariant world_ok
  by unfold_locales (auto intro: start_ok fire_ok)

lemmas reachable_ok = stop.always

end
