(* ===== verification/Call_Service.thy ===== *)
theory Call_Service
  imports Stop_World
begin

text \<open>
  The handshake between \<^verbatim>\<open>call_service_thread\<close> and \<^verbatim>\<open>service_thread_routine\<close>: which positions of the two
  are possible together, as long as the process does not end.
\<close>

fun calling :: "client_pc \<Rightarrow> bool" where
  "calling C_check = True"
| "calling C_barrier = True"
| "calling C_waiting = True"
| "calling C_spin_lock = True"
| "calling C_spin_unlock = True"
| "calling C_unlock = True"
| "calling _ = False"

fun leaving :: "client_pc \<Rightarrow> bool" where
  "leaving X_barrier = True"
| "leaving X_waiting = True"
| "leaving X_done = True"
| "leaving _ = False"

fun spinning :: "client_pc \<Rightarrow> bool" where
  "spinning C_spin_unlock = True"
| "spinning _ = False"

fun holds_delivery :: "service_pc \<Rightarrow> bool" where
  "holds_delivery B_enter = True"
| "holds_delivery B_waiting = True"
| "holds_delivery K_test = True"
| "holds_delivery A_lock = True"
| "holds_delivery D_unlock = True"
| "holds_delivery Returned = True"
| "holds_delivery _ = False"

text \<open>The positions of the service thread between two collections, and in one.\<close>

fun idle :: "service_pc \<Rightarrow> bool" where
  "idle A_release = True"
| "idle D_lock = True"
| "idle B_enter = True"
| "idle B_waiting = True"
| "idle _ = False"

fun working :: "service_pc \<Rightarrow> bool" where
  "working (Stop _) = True"
| "working Mark = True"
| "working Sweep = True"
| "working (Start _) = True"
| "working L_lock = True"
| "working _ = False"

text \<open>The position of the thread that holds \<^verbatim>\<open>service_thrd_call_lock\<close>.\<close>

definition holder :: "world \<Rightarrow> client_pc" where
  "holder w = (case service_thrd_call_lock w of Some (Client t) \<Rightarrow> thr w t | _ \<Rightarrow> Running)"

fun together :: "bool \<Rightarrow> service_pc \<Rightarrow> client_pc \<Rightarrow> bool" where
  "together g p C_barrier = (g \<and> idle p)"
| "together g p C_waiting = (g \<and> idle p)"
| "together g p C_spin_lock = (g \<and> (p \<in> {K_test, A_lock, D_unlock} \<or> working p))"
| "together g p C_spin_unlock = (g \<and> working p)"
| "together g p C_unlock = (g \<and> working p)"
| "together g p _ = (if g then working p \<or> p = L_clear else idle p \<or> p = L_unlock)"

definition owners :: "owner option \<Rightarrow> nat set" where
  "owners l = (case l of Some (Client t) \<Rightarrow> {t} | _ \<Rightarrow> {})"

lemma owners_simps [simp]: "owners None = {}" "owners (Some Service_thread) = {}" "owners (Some (Client t)) = {t}"
  by (simp_all add: owners_def)

lemma in_owners [simp]: "t \<in> owners l \<longleftrightarrow> l = Some (Client t)"
  by (auto simp: owners_def split: option.splits owner.splits)

definition call_ok :: "world \<Rightarrow> bool" where
  "call_ok w \<longleftrightarrow> standing calling (thr w) = owners (service_thrd_call_lock w)
     \<and> (service_thrd_call_lock w = Some Service_thread \<longleftrightarrow> service w \<in> {L_clear, L_unlock})
     \<and> standing spinning (thr w) = owners (signal_delivery_lock w)
     \<and> (signal_delivery_lock w = Some Service_thread \<longleftrightarrow> holds_delivery (service w))
     \<and> (kill_service_thread w \<or> standing leaving (thr w) = {} \<and> together (is_gc_called w) (service w) (holder w))"

lemma start_call: "call_ok start_world"
  by (auto simp: call_ok_def start_world_def holder_def standing_def)

lemma calling_same:
  assumes "\<not> calling (f t)" "\<not> calling q"
  shows "standing calling (f(t := q)) = standing calling f" and "standing spinning (f(t := q)) = standing spinning f"
proof -
  have "spinning x \<Longrightarrow> calling x" for x by (cases x) auto
  then show "standing calling (f(t := q)) = standing calling f" "standing spinning (f(t := q)) = standing spinning f"
    using assms by (auto simp del: fun_upd_apply intro!: standing_upd)
qed

text \<open>A client that is not in \<^verbatim>\<open>call_service_thread\<close> before or after its step.\<close>

lemma call_outside:
  assumes ok: "call_ok w" and c: "\<not> calling (thr w t)" "\<not> calling q" and l: "leaving q \<longrightarrow> kill_service_thread w'"
    and w': "thr w' = (thr w)(t := q)" "service_thrd_call_lock w' = service_thrd_call_lock w"
      "signal_delivery_lock w' = signal_delivery_lock w" "service w' = service w" "is_gc_called w' = is_gc_called w"
      "kill_service_thread w \<longrightarrow> kill_service_thread w'"
  shows "call_ok w'"
proof -
  note s = calling_same [of "thr w", OF c]
  have h: "holder w' = holder w"
  proof (cases "service_thrd_call_lock w")
    case (Some x)
    show ?thesis
    proof (cases x)
      case (Client u)
      then have "u \<in> standing calling (thr w)" using ok Some by (simp add: call_ok_def)
      then have "u \<noteq> t" using c(1) by auto
      then show ?thesis using Some Client w' by (simp add: holder_def)
    qed (use Some w' in \<open>simp add: holder_def\<close>)
  qed (use w' in \<open>simp add: holder_def\<close>)
  have "standing leaving (thr w') = {}" if "standing leaving (thr w) = {}" "\<not> kill_service_thread w'"
    using that l w'(1) by (auto simp: standing_def)
  then show ?thesis using ok s h w' unfolding call_ok_def by auto
qed

lemma call_holder:
  assumes "call_ok w" and "calling (thr w t)"
  shows "service_thrd_call_lock w = Some (Client t)" and "holder w = thr w t" and "standing calling (thr w) = {t}"
proof -
  have "t \<in> owners (service_thrd_call_lock w)" using assms unfolding call_ok_def by (metis in_standing)
  then show l: "service_thrd_call_lock w = Some (Client t)" by simp
  show "holder w = thr w t" "standing calling (thr w) = {t}" using l assms(1) by (simp_all add: holder_def call_ok_def)
qed

lemma out_simps [simp]: "\<not> spinning (out p)" "calling (out p) \<longleftrightarrow> p \<in> {C_barrier, C_waiting}"
  by (cases p; simp)+

lemma call_kill: "call_ok w \<Longrightarrow> leaving (thr w t) \<Longrightarrow> kill_service_thread w"
  by (auto simp: call_ok_def standing_def)

lemma call_barrier:
  assumes b: "barrier_ok w" and ok: "call_ok w" and t: "thr w t = C_barrier"
  shows "call_ok (meet (Client t) (move t C_waiting) w)"
proof -
  have m: "thr w t \<in> {C_barrier, X_barrier}" using t by simp
  have l: "service_thrd_call_lock w = Some (Client t)" "holder w = thr w t" "standing calling (thr w) = {t}"
    using call_holder [OF ok, of t] t by simp_all
  have k: "kill_service_thread w \<or> standing leaving (thr w) = {} \<and> is_gc_called w \<and> idle (service w)" using ok l(2) t by (simp add: call_ok_def)
  from b m show ?thesis
  proof (cases rule: meet_elim [where p = C_waiting])
    case wait
    then show ?thesis using ok l t k by (auto simp: call_ok_def holder_def)
  next
    case service
    then show ?thesis using ok l t k by (auto simp: call_ok_def holder_def)
  next
    case (other s)
    have s: "\<not> calling (thr w s)" using l(3) other(2) by (metis in_standing singletonD)
    then have "thr w s = X_waiting" using other(3) by (cases "thr w s") auto
    then have "kill_service_thread w" "out (thr w s) = X_done" "\<not> spinning (thr w s)" using call_kill [OF ok, of s] by simp_all
    then show ?thesis using ok l t other s by (simp add: call_ok_def)
  qed
qed

lemma leave_barrier:
  assumes b: "barrier_ok w" and ok: "call_ok w" and t: "thr w t = X_barrier"
  shows "call_ok (meet (Client t) (move t X_waiting) w)"
proof -
  have m: "thr w t \<in> {C_barrier, X_barrier}" using t by simp
  have k: "kill_service_thread w" using call_kill [OF ok, of t] t by simp
  from b m show ?thesis
  proof (cases rule: meet_elim [where p = X_waiting])
    case (other s)
    then have "spinning (thr w s) = False" "calling (thr w s) = calling (out (thr w s))" by (cases "thr w s"; simp)+
    then show ?thesis using ok t k other by (simp add: call_ok_def)
  qed (use ok t k in \<open>auto simp: call_ok_def\<close>)
qed

lemma client_call:
  assumes b: "barrier_ok w" and r: "registry_ok w" and ok: "call_ok w" and run: "client t c w = Some w'"
  shows "call_ok w'"
  using run
proof (cases rule: client_elim)
  case c_lock
  then show ?thesis using ok by (auto simp: call_ok_def holder_def)
next
  case c_called
  then show ?thesis using ok call_holder [OF ok, of t] by (auto simp: call_ok_def holder_def)
next
  case c_call
  then show ?thesis using ok call_holder [OF ok, of t] by (auto simp: call_ok_def holder_def)
next
  case c_barrier
  then show ?thesis using call_barrier [OF b ok] by simp
next
  case c_spin_lock
  then show ?thesis using ok call_holder [OF ok, of t] by (auto simp: call_ok_def holder_def)
next
  case c_spin_unlock
  then have "t \<in> standing spinning (thr w)" by simp
  then have "signal_delivery_lock w = Some (Client t)" using ok unfolding call_ok_def by (metis in_owners)
  then show ?thesis using ok call_holder [OF ok, of t] c_spin_unlock by (auto simp: call_ok_def holder_def)
next
  case c_unlock
  then show ?thesis using ok call_holder [OF ok, of t] by (auto simp: call_ok_def holder_def)
next
  case (r_create u)
  have u: "thr w u = Unborn" "u \<noteq> t" using registryD(4) [OF r, of t u] r_create(1) by auto
  have "call_ok (move u Running w)" using u by (intro call_outside [OF ok, of u Running]) simp_all
  then show ?thesis unfolding r_create(2) by (rule call_outside [of _ t "R_set u"]) (use r_create(1) u in simp_all)
next
  case r_wild
  then show ?thesis using ok by (simp add: call_ok_def holder_def cong: option.case_cong owner.case_cong)
next
  case x_barrier
  then show ?thesis using leave_barrier [OF b ok] by simp
next
  case (a_unlock r p)
  then show ?thesis by (intro call_outside [OF ok, of t p]) auto
qed (auto intro!: call_outside [OF ok, of t])

text \<open>Steps that leave the clients and these locks alone, and keep the service thread in the same part.\<close>

lemma call_inside:
  assumes ok: "call_ok w"
    and same: "thr w' = thr w" "service_thrd_call_lock w' = service_thrd_call_lock w"
      "signal_delivery_lock w' = signal_delivery_lock w" "is_gc_called w' = is_gc_called w" "kill_service_thread w' = kill_service_thread w"
    and p: "service w' = service w \<or> working (service w) \<and> working (service w')"
  shows "call_ok w'"
proof -
  have h: "holder w' = holder w" unfolding holder_def same ..
  have n: "working q \<Longrightarrow> \<not> holds_delivery q \<and> q \<notin> {L_clear, L_unlock, K_test, A_lock, D_unlock} \<and> \<not> idle q" for q by (cases q) auto
  have t: "together g q c = together g q' c" if "working q" "working q'" for g q q' c
    using n [OF that(1)] n [OF that(2)] that by (cases c) auto
  from p show ?thesis
  proof
    assume "service w' = service w"
    then show ?thesis using ok h same unfolding call_ok_def by simp
  next
    assume "working (service w) \<and> working (service w')"
    then show ?thesis
      using ok h same n [of "service w"] n [of "service w'"] t [of "service w" "service w'"] unfolding call_ok_def by simp
  qed
qed

lemma together_idle: "idle p \<Longrightarrow> idle q \<Longrightarrow> together g p c = together g q c"
proof -
  have n: "idle p \<Longrightarrow> \<not> working p \<and> p \<notin> {L_clear, L_unlock, K_test, A_lock, D_unlock}" for p by (cases p) auto
  show "idle p \<Longrightarrow> idle q \<Longrightarrow> together g p c = together g q c" using n [of p] n [of q] by (cases c) auto
qed

lemma together_begins:
  "together g K_test c = together g A_lock c" "together g A_lock c = together g D_unlock c"
  "together g D_unlock c \<Longrightarrow> together g (Stop W_lock) c"
proof -
  show "together g K_test c = together g A_lock c" by (cases c) simp_all
  show "together g A_lock c = together g D_unlock c" by (cases c) simp_all
  show "together g D_unlock c \<Longrightarrow> together g (Stop W_lock) c" by (cases c) (simp_all split: if_splits)
qed

lemma holder_same: "thr w' = thr w \<Longrightarrow> service_thrd_call_lock w' = service_thrd_call_lock w \<Longrightarrow> holder w' = holder w"
  unfolding holder_def by metis

lemma holder_none: "service_thrd_call_lock w \<in> {None, Some Service_thread} \<Longrightarrow> holder w = Running"
  by (auto simp: holder_def)

text \<open>The steps of the service thread that take or give back one of these locks.\<close>

lemma service_own:
  assumes ok: "call_ok w" and run: "service_thread_routine (service w) w = Some w'"
    and p: "service w \<in> {D_lock, K_test, A_lock, D_unlock, L_lock, L_clear, L_unlock, A_release}"
  shows "call_ok w'"
proof -
  consider "service w = D_lock" | "service w = K_test" | "service w = A_lock" | "service w = D_unlock" | "service w = L_lock"
    | "service w = L_clear" | "service w = L_unlock" | "service w = A_release" using p by blast
  then show ?thesis
  proof cases
    case 1
    then have w': "signal_delivery_lock w = None" "w' = goto B_enter (w\<lparr>signal_delivery_lock := Some Service_thread\<rparr>)"
      using run by (simp_all split: if_splits)
    have "holder w' = holder w" by (rule holder_same) (simp_all add: w')
    then show ?thesis using ok 1 w' together_idle [of D_lock B_enter] by (simp add: call_ok_def)
  next
    case 2
    then have w': "w' = goto (if kill_service_thread w then Returned else A_lock) w" using run by simp
    have "holder w' = holder w" by (rule holder_same) (simp_all add: w')
    then show ?thesis using ok 2 w' together_begins(1) by (auto simp: call_ok_def)
  next
    case 3
    then have w': "w' = goto D_unlock (w\<lparr>allocation_writer := True\<rparr>)" using run by (simp split: if_splits)
    have "holder w' = holder w" by (rule holder_same) (simp_all add: w')
    then show ?thesis using ok 3 w' together_begins(2) by (simp add: call_ok_def)
  next
    case 4
    then have w': "w' = goto (Stop W_lock) (w\<lparr>signal_delivery_lock := None\<rparr>)" using run by simp
    have "holder w' = holder w" by (rule holder_same) (simp_all add: w')
    then show ?thesis using ok 4 w' together_begins(3) by (auto simp: call_ok_def)
  next
    case 5
    then have w': "service_thrd_call_lock w = None" "w' = goto L_clear (w\<lparr>service_thrd_call_lock := Some Service_thread\<rparr>)"
      using run by (simp_all split: if_splits)
    have "holder w = Running" "holder w' = Running" by (simp_all add: holder_none w')
    then show ?thesis using ok 5 w' by (simp add: call_ok_def split: if_splits)
  next
    case 6
    then have w': "w' = goto L_unlock (w\<lparr>is_gc_called := False\<rparr>)" using run by simp
    have l: "service_thrd_call_lock w = Some Service_thread" using ok 6 by (simp add: call_ok_def)
    have "holder w' = Running" by (rule holder_none) (simp add: w' l)
    then show ?thesis using ok 6 w' l by (auto simp: call_ok_def)
  next
    case 7
    then have w': "w' = goto A_release (w\<lparr>service_thrd_call_lock := None\<rparr>)" using run by simp
    have l: "service_thrd_call_lock w = Some Service_thread" using ok 7 by (simp add: call_ok_def)
    have "holder w = Running" "holder w' = Running" by (simp_all add: holder_none w' l)
    then show ?thesis using ok 7 w' l by (simp add: call_ok_def split: if_splits)
  next
    case 8
    then have w': "w' = goto D_lock (w\<lparr>allocation_writer := False\<rparr>)" using run by simp
    have "holder w' = holder w" by (rule holder_same) (simp_all add: w')
    then show ?thesis using ok 8 w' together_idle [of A_release D_lock] by (simp add: call_ok_def)
  qed
qed

lemma service_call:
  assumes b: "barrier_ok w" and ok: "call_ok w" and run: "service_thread_routine (service w) w = Some w'"
  shows "call_ok w'"
proof (cases "service w")
  case B_enter
  then have w': "w' = meet Service_thread (goto B_waiting) w" using run by simp
  from b B_enter show ?thesis
  proof (cases rule: meet_service)
    case wait
    have "holder w' = holder w" by (rule holder_same) (simp_all add: w' wait)
    then show ?thesis using ok B_enter w' wait together_idle [of B_enter B_waiting] by (simp add: call_ok_def)
  next
    case (client t)
    show ?thesis
    proof (cases "thr w t")
      case C_waiting
      note l = call_holder [OF ok, of t]
      have "holder w' = C_spin_lock" using C_waiting l(1) unfolding w' client by (simp add: holder_def)
      then show ?thesis using ok B_enter w' client C_waiting l by (auto simp: call_ok_def)
    next
      case X_waiting
      then show ?thesis using ok B_enter w' client call_kill [OF ok, of t] by (simp add: call_ok_def)
    qed (use client(2) in simp_all)
  qed
next
  case (Stop p)
  then show ?thesis using run
    by (cases p) (auto simp: service_comes_def open_barrier_def split: option.splits if_splits intro!: call_inside [OF ok])
next
  case (Start p)
  then show ?thesis using run by (cases p) (auto intro!: call_inside [OF ok])
next
  case Mark
  then show ?thesis using run by (auto intro!: call_inside [OF ok])
next
  case Sweep
  then show ?thesis using run by (auto intro!: call_inside [OF ok])
qed (use service_own [OF ok run] run in simp_all)

lemma fire_call:
  assumes b: "barrier_ok w" and r: "registry_ok w" and ok: "call_ok w" and run: "fire sp e w = Some w'"
  shows "call_ok w'"
proof (cases e)
  case Service
  then show ?thesis using run service_call [OF b ok] by (auto split: if_splits)
next
  case (Deliver t)
  then show ?thesis using run by (auto split: if_splits intro!: call_inside [OF ok])
next
  case (Handler t)
  then have "handler t (hpc w t) w = Some w'" using run by (simp split: if_splits)
  then show ?thesis using come_service [of t w] by (cases "hpc w t") (auto intro!: call_inside [OF ok])
next
  case (Thread t c)
  then show ?thesis using run client_call [OF b r ok] by (auto split: if_splits)
next
  case (Wake t)
  then show ?thesis using run by (auto split: if_splits intro!: call_inside [OF ok])
qed

lemma call_step: "world_ok w \<Longrightarrow> call_ok w \<Longrightarrow> fire False e w = Some w' \<Longrightarrow> world_ok w' \<and> call_ok w'"
  using fire_ok fire_call unfolding world_ok_def by blast

interpretation call: step_invariant "\<lambda>w. world_ok w \<and> call_ok w"
  by unfold_locales (use start_ok start_call call_step in blast)+

lemma reachable_call: "reachable False w \<Longrightarrow> call_ok w"
  using call.always by blast

end
