(* ===== verification/Stop_Ends.thy ===== *)
theory Stop_Ends
  imports Call_Service
begin

text \<open>
  A stop of the world ends: when no thread ends during it and every thread was outside the handler when
  it began, some thread of the stop can always step, and each such step does a part of a bounded work,
  whatever the clients do in between.
\<close>

section \<open>The course of a stop\<close>

text \<open>The steps left for the service thread, from the count of the threads to the start of the world.\<close>

fun steps_left :: "service_pc \<Rightarrow> nat" where
  "steps_left (Stop Count) = 13"
| "steps_left (Stop Init) = 12"
| "steps_left (Stop Unset) = 11"
| "steps_left (Stop Traverse) = 10"
| "steps_left (Stop Kill) = 9"
| "steps_left (Stop Enter) = 8"
| "steps_left (Stop Waiting) = 7"
| "steps_left (Stop Destroy) = 6"
| "steps_left Mark = 5"
| "steps_left Sweep = 4"
| "steps_left (Start Set_started) = 3"
| "steps_left (Start Broadcast) = 2"
| "steps_left (Start W_unlock) = 1"
| "steps_left _ = 0"

text \<open>Where a registered thread is in the handler, by the position of the service thread.\<close>

fun course :: "service_pc \<Rightarrow> world \<Rightarrow> nat \<Rightarrow> bool" where
  "course (Stop Kill) w t =
     (hpc w t = H_none \<and> (t \<in> pending w \<or> t \<in> set (remaining (cursor w) (registered w))) \<or> early (hpc w t))"
| "course (Stop Enter) w t = (hpc w t = H_none \<and> t \<in> pending w \<or> early (hpc w t))"
| "course (Stop Waiting) w t = (hpc w t = H_none \<and> t \<in> pending w \<or> early (hpc w t))"
| "course (Stop Destroy) w t = (hpc w t \<in> {H_check, H_cond})"
| "course Mark w t = (hpc w t \<in> {H_check, H_cond})"
| "course Sweep w t = (hpc w t \<in> {H_check, H_cond})"
| "course (Start Set_started) w t = (hpc w t \<in> {H_check, H_cond})"
| "course (Start Broadcast) w t = (\<not> early (hpc w t))"
| "course (Start W_unlock) w t = (hpc w t \<in> {H_none, H_check, H_return})"
| "course L_lock w t = (hpc w t \<in> {H_none, H_check, H_return})"
| "course _ w t = (hpc w t = H_none)"

fun service_course :: "service_pc \<Rightarrow> world \<Rightarrow> bool" where
  "service_course (Stop p) w = (p \<noteq> W_lock \<and> (p \<notin> {Count, Destroy} \<longrightarrow> threads_stopped w = length (registered w))
     \<and> (p = Kill \<longrightarrow> set_option (cursor w) \<subseteq> set (registered w))
     \<and> (p = Waiting \<longrightarrow> Suc (length (arrived w)) \<noteq> barrier_size w))"
| "service_course Mark w = True"
| "service_course Sweep w = True"
| "service_course (Start p) w = (p = Set_started \<or> is_world_started w)"
| "service_course L_lock w = is_world_started w"
| "service_course _ w = False"

text \<open>A thread that does not end.\<close>

fun steady :: "client_pc \<Rightarrow> bool" where
  "steady Unborn = False"
| "steady E_destroy = False"
| "steady E_free = False"
| "steady Exited = False"
| "steady _ = True"

definition threads_course :: "world \<Rightarrow> bool" where
  "threads_course w \<longleftrightarrow> (\<forall>t. if t \<in> set (registered w) then steady (thr w t) \<and> course (service w) w t else hpc w t = H_none)"

definition on_course :: "world \<Rightarrow> bool" where
  "on_course w \<longleftrightarrow> world_ok w \<and> \<not> wild w \<and> service_course (service w) w \<and> threads_course w"

lemma courseD:
  assumes "on_course w"
  shows "world_ok w" "\<not> wild w" "service_course (service w) w"
    and "t \<in> set (registered w) \<Longrightarrow> steady (thr w t)" and "t \<in> set (registered w) \<Longrightarrow> course (service w) w t"
    and "t \<notin> set (registered w) \<Longrightarrow> hpc w t = H_none"
  using assms by (auto simp: on_course_def threads_course_def dest: spec [of _ t])

lemma courseI:
  assumes "world_ok w" "\<not> wild w" "service_course (service w) w"
    and "\<And>t. t \<in> set (registered w) \<Longrightarrow> steady (thr w t)" and "\<And>t. t \<in> set (registered w) \<Longrightarrow> course (service w) w t"
    and "\<And>t. t \<notin> set (registered w) \<Longrightarrow> hpc w t = H_none"
  shows "on_course w"
  using assms by (simp add: on_course_def threads_course_def)

lemma course_registered: "on_course w \<Longrightarrow> hpc w t \<noteq> H_none \<Longrightarrow> t \<in> set (registered w)"
  using courseD(6) by blast

text \<open>The counted threads are the registered ones.\<close>

lemma counted_registered:
  assumes "on_course w" and "stopping C w" and "service w \<in> {Stop Kill, Stop Enter, Stop Waiting}"
  shows "C = set (registered w)"
proof -
  have "threads_stopped w = length (registered w)" using courseD(3) [OF assms(1)] assms(3) by auto
  moreover have "distinct (registered w)" using courseD(1) [OF assms(1)] registryD(1) by (auto simp: world_ok_def)
  ultimately show ?thesis
    using assms(2) card_subset_eq [of C "set (registered w)"] by (simp add: stopping_def counted_def distinct_card)
qed


section \<open>Steps of the service thread\<close>

lemma next_after_mem: "next_after t xs = Some u \<Longrightarrow> u \<in> set xs"
  by (induction xs) (auto split: if_splits list.splits)

lemma remaining_first: "set (remaining (case xs of [] \<Rightarrow> None | t # _ \<Rightarrow> Some t) xs) = set xs"
  by (cases xs) (simp_all add: remaining_def)

lemma remaining_None [simp]: "remaining None xs = []"
  by (simp add: remaining_def)

text \<open>The work left: that of the service thread, and for each registered thread its way through the handler.\<close>

definition thread_left :: "world \<Rightarrow> nat \<Rightarrow> nat" where
  "thread_left w t =
     (case hpc w t of
        H_none \<Rightarrow> if t \<in> pending w then 8 else if steps_left (service w) \<ge> steps_left (Stop Kill) then 9 else 0
      | H_clear \<Rightarrow> 7 | H_push \<Rightarrow> 6 | H_barrier \<Rightarrow> 5 | H_waiting \<Rightarrow> 4 | H_check \<Rightarrow> 3 | H_cond \<Rightarrow> 2 | H_return \<Rightarrow> 1)"

definition work_left :: "world \<Rightarrow> nat" where
  "work_left w = steps_left (service w) + (\<Sum>t \<in> set (registered w). thread_left w t)"

lemma work_less:
  assumes r: "registered w' = registered w" and t: "\<And>t. t \<in> set (registered w) \<Longrightarrow> thread_left w' t \<le> thread_left w t"
    and s: "steps_left (service w') \<le> steps_left (service w)"
    and l: "steps_left (service w') < steps_left (service w) \<or> (\<exists>t \<in> set (registered w). thread_left w' t < thread_left w t)"
  shows "work_left w' < work_left w"
proof -
  have "(\<Sum>t \<in> set (registered w). thread_left w' t) \<le> (\<Sum>t \<in> set (registered w). thread_left w t)"
    by (rule sum_mono) (rule t)
  moreover have "(\<Sum>t \<in> set (registered w). thread_left w' t) < (\<Sum>t \<in> set (registered w). thread_left w t)"
    if "\<exists>t \<in> set (registered w). thread_left w' t < thread_left w t"
    by (rule sum_strict_mono_ex1) (use that t in auto)
  ultimately show ?thesis using s l unfolding work_left_def r by linarith
qed

text \<open>A step of the service thread that leaves the handlers and the signals alone.\<close>

lemma service_moves:
  assumes c: "on_course w" and ok: "world_ok w'" and same: "thr w' = thr w" "registered w' = registered w" "hpc w' = hpc w"
      "pending w' = pending w" "wild w' = wild w"
    and next_course: "service_course (service w') w'" "\<And>t. t \<in> set (registered w) \<Longrightarrow> course (service w') w' t"
    and less: "steps_left (service w') < steps_left (service w)"
  shows "on_course w' \<and> registered w' = registered w \<and> work_left w' < work_left w"
proof -
  have "on_course w'"
    using courseD(2,4,6) [OF c] next_course same by (intro courseI [OF ok]) simp_all
  moreover have "work_left w' < work_left w"
    by (rule work_less) (use less same in \<open>auto simp: thread_left_def split: handler_pc.split\<close>)
  ultimately show ?thesis using same(2) by simp
qed

text \<open>The barrier opens: those who have come leave it.\<close>

lemma opened:
  assumes c: "on_course w" and ok: "world_ok (open_barrier ts w)" and s: "service w = Stop Waiting"
    and ts: "\<And>t. t \<in> set ts \<Longrightarrow> hpc w t \<in> {H_barrier, H_waiting}"
  shows "on_course (open_barrier ts w)" and "\<And>t. t \<in> set (registered w) \<Longrightarrow> thread_left (open_barrier ts w) t \<le> thread_left w t"
proof -
  let ?w = "open_barrier ts w"
  have h: "stopped ?w" using ok s by (simp add: world_ok_def open_barrier_def)
  have n: "hpc ?w t = H_none" if "t \<notin> set (registered w)" for t
    using courseD(6) [OF c that] ts [of t] by (auto simp: open_barrier_def)
  show "on_course ?w"
    using courseD(2,4) [OF c] n h s by (intro courseI [OF ok]) (simp_all add: open_barrier_def stopped_def)
  show "thread_left ?w t \<le> thread_left w t" if "t \<in> set (registered w)" for t
    using ts [of t] courseD(5) [OF c that] s by (auto simp: thread_left_def open_barrier_def split: handler_pc.splits)
qed


text \<open>The service thread signals the next thread.\<close>

lemma kill_course:
  assumes c: "on_course w" and s: "service w = Stop Kill" and t: "cursor w = Some t"
    and w': "w' = w\<lparr>cursor := next_after t (registered w), pending := insert t (pending w)\<rparr>" and ok: "world_ok w'"
  shows "on_course w' \<and> registered w' = registered w \<and> work_left w' < work_left w"
proof -
  have t_in: "t \<in> set (registered w)" using courseD(3) [OF c] s t by simp
  have di: "distinct (registered w)" using courseD(1) [OF c] registryD(1) by (auto simp: world_ok_def)
  note r = remaining_next [OF di t_in]
  obtain C where C: "signalled w \<inter> set (remaining (Some t) (registered w)) = {}"
    using courseD(1) [OF c] s t by (auto simp: world_ok_def)
  then have new: "t \<notin> pending w" "hpc w t = H_none"
    using r(1) courseD(5) [OF c t_in] s by (auto simp: signalled_def)
  have "course (service w') w' u" if "u \<in> set (registered w)" for u
    using courseD(5) [OF c that] s t r w' by auto
  then have "on_course w'"
    using courseD(2,3,4,6) [OF c] s w' next_after_mem by (intro courseI [OF ok]) (auto split: option.splits)
  moreover have "work_left w' < work_left w"
    by (rule work_less) (use w' s new t_in in \<open>auto simp: thread_left_def split: handler_pc.split\<close>)
  ultimately show ?thesis using w' by simp
qed

lemma enter_course:
  assumes c: "on_course w" and s: "service w = Stop Enter" and w': "w' = service_comes w" and ok: "world_ok w'"
  shows "on_course w' \<and> registered w' = registered w \<and> work_left w' < work_left w"
proof (cases "length (arrived w) + 1 = barrier_size w")
  case True
  let ?w = "goto (Stop Waiting) w"
  have w'_eq: "w' = open_barrier (arrived w) ?w" using w' True by (simp add: service_comes_def)
  have a: "hpc w t = H_waiting" if "t \<in> set (arrived w)" for t
    using courseD(1) [OF c] s that by (auto simp: world_ok_def stopping_def)
  have h: "stopped w'" "service w' = Stop Destroy" using ok by (simp_all add: world_ok_def w'_eq open_barrier_def)
  have "hpc w' t = H_none" if "t \<notin> set (registered w)" for t
    using courseD(6) [OF c that] a [of t] by (auto simp: w'_eq open_barrier_def)
  then have "on_course w'"
    using courseD(2,4) [OF c] h w'_eq by (intro courseI [OF ok]) (simp_all add: open_barrier_def stopped_def)
  moreover have "thread_left w' t \<le> thread_left w t" if "t \<in> set (registered w)" for t
    using a [of t] courseD(5) [OF c that] s by (auto simp: w'_eq thread_left_def open_barrier_def split: handler_pc.splits)
  then have "work_left w' < work_left w"
    by (intro work_less) (use w'_eq s h in \<open>simp_all add: open_barrier_def\<close>)
  ultimately show ?thesis using w'_eq by (simp add: open_barrier_def)
next
  case False
  then have "w' = goto (Stop Waiting) w" using w' by (simp add: service_comes_def)
  then show ?thesis
    using courseD(3,5) [OF c] s False by (intro service_moves [OF c ok]) simp_all
qed

lemma service_course_step:
  assumes c: "on_course w" and s: "service w \<noteq> L_lock" and run: "service_thread_routine (service w) w = Some w'" and ok: "world_ok w'"
  shows "on_course w' \<and> registered w' = registered w \<and> work_left w' < work_left w"
proof (cases "service w")
  case (Stop p)
  note sc = courseD(3) [OF c, unfolded Stop]
  note co = courseD(5) [OF c, unfolded Stop]
  show ?thesis
  proof (cases p)
    case W_lock
    then show ?thesis using sc by simp
  next
    case Traverse
    then have w': "w' = goto (Stop Kill) (w\<lparr>cursor := (case registered w of [] \<Rightarrow> None | t # _ \<Rightarrow> Some t)\<rparr>)" using run Stop by simp
    show ?thesis
      by (rule service_moves [OF c ok]) (use w' sc co Stop Traverse in \<open>simp_all add: remaining_first split: list.split\<close>)
  next
    case Kill
    show ?thesis
    proof (cases "cursor w")
      case None
      then have w': "w' = goto (Stop Enter) w" using run Stop Kill by simp
      show ?thesis by (rule service_moves [OF c ok]) (use w' sc co Stop Kill None in simp_all)
    next
      case (Some t)
      then have w': "w' = w\<lparr>cursor := next_after t (registered w), pending := insert t (pending w)\<rparr>" using run Stop Kill sc by simp
      show ?thesis by (rule kill_course [OF c _ Some w' ok]) (simp add: Stop Kill)
    qed
  next
    case Enter
    then show ?thesis using enter_course [OF c _ _ ok] run Stop by simp
  next
    case Waiting
    then show ?thesis using run Stop by simp
  next
    case Count
    then have w': "w' = goto (Stop Init) (w\<lparr>threads_stopped := length (registered w)\<rparr>)" using run Stop by simp
    show ?thesis by (rule service_moves [OF c ok]) (use w' sc co Stop Count in simp_all)
  next
    case Init
    then have w': "w' = goto (Stop Unset) (w\<lparr>barrier_size := threads_stopped w + 1, arrived := []\<rparr>)" using run Stop by simp
    show ?thesis by (rule service_moves [OF c ok]) (use w' sc co Stop Init in simp_all)
  next
    case Unset
    then have w': "w' = goto (Stop Traverse) (w\<lparr>is_world_started := False\<rparr>)" using run Stop by simp
    show ?thesis by (rule service_moves [OF c ok]) (use w' sc co Stop Unset in simp_all)
  next
    case Destroy
    then have w': "w' = goto Mark w" using run Stop by simp
    show ?thesis by (rule service_moves [OF c ok]) (use w' sc co Stop Destroy in simp_all)
  qed
next
  case (Start p)
  note co = courseD(5) [OF c, unfolded Start]
  show ?thesis
  proof (cases p)
    case Set_started
    then have w': "w' = goto (Start Broadcast) (w\<lparr>is_world_started := True\<rparr>)" using run Start by simp
    show ?thesis by (rule service_moves [OF c ok]) (use w' co Start Set_started in \<open>fastforce+\<close>)
  next
    case Broadcast
    then have w': "w' = goto (Start W_unlock) (w\<lparr>hpc := \<lambda>t. if hpc w t = H_cond then H_return else hpc w t\<rparr>)" using run Start by simp
    have "course (service w') w' t" if "t \<in> set (registered w)" for t
      using co [OF that] w' Broadcast by (cases "hpc w t") simp_all
    then have "on_course w'"
      using courseD(2,3,4,6) [OF c] Start Broadcast w' by (intro courseI [OF ok]) simp_all
    moreover have "work_left w' < work_left w"
      by (rule work_less) (use w' Start Broadcast in \<open>auto simp: thread_left_def split: handler_pc.split\<close>)
    ultimately show ?thesis using w' by simp
  next
    case W_unlock
    then have w': "w' = goto L_lock (w\<lparr>creation_writer := False\<rparr>)" using run Start by simp
    show ?thesis by (rule service_moves [OF c ok]) (use w' co courseD(3) [OF c] Start W_unlock in simp_all)
  qed
next
  case Mark
  then have w': "w' = goto Sweep w" using run by simp
  show ?thesis by (rule service_moves [OF c ok]) (use w' courseD(5) [OF c] Mark in simp_all)
next
  case Sweep
  then have w': "w' = goto (Start Set_started) w" using run by simp
  show ?thesis by (rule service_moves [OF c ok]) (use w' courseD(5) [OF c] Sweep in simp_all)
qed (use courseD(3) [OF c] s in simp_all)



section \<open>Steps of the handlers\<close>

lemma course_cong:
  "hpc w' t = hpc w t \<Longrightarrow> t \<in> pending w' \<longleftrightarrow> t \<in> pending w \<Longrightarrow> cursor w' = cursor w \<Longrightarrow> registered w' = registered w
    \<Longrightarrow> course p w' t = course p w t"
  by (cases "(p, w, t)" rule: course.cases) simp_all

lemma service_course_cong:
  "threads_stopped w' = threads_stopped w \<Longrightarrow> registered w' = registered w \<Longrightarrow> cursor w' = cursor w \<Longrightarrow> arrived w' = arrived w
    \<Longrightarrow> barrier_size w' = barrier_size w \<Longrightarrow> is_world_started w' = is_world_started w \<Longrightarrow> service_course p w' = service_course p w"
  by (cases "(p, w)" rule: service_course.cases) simp_all

lemma early_course: "early (hpc w t) \<Longrightarrow> course p w t \<Longrightarrow> p \<in> {Stop Kill, Stop Enter, Stop Waiting}"
  by (cases "(p, w, t)" rule: course.cases) auto

lemma check_course:
  "hpc w t = H_check \<Longrightarrow> course p w t
    \<Longrightarrow> p \<in> {Stop Destroy, Mark, Sweep, Start Set_started} \<or> p \<in> {Start Broadcast, Start W_unlock, L_lock}"
  by (cases "(p, w, t)" rule: course.cases) auto

lemma return_course: "hpc w t = H_return \<Longrightarrow> course p w t \<Longrightarrow> p \<in> {Start Broadcast, Start W_unlock, L_lock}"
  by (cases "(p, w, t)" rule: course.cases) auto

lemma handle_moves:
  assumes c: "on_course w" and ok: "world_ok w'" and t: "t \<in> set (registered w)"
    and same: "thr w' = thr w" "registered w' = registered w" "hpc w' = (hpc w)(t := q)" "service w' = service w" "wild w' = wild w"
      "cursor w' = cursor w" "\<And>u. u \<noteq> t \<Longrightarrow> u \<in> pending w' \<longleftrightarrow> u \<in> pending w"
    and next_course: "service_course (service w) w'" "course (service w) w' t"
    and less: "thread_left w' t < thread_left w t"
  shows "on_course w' \<and> registered w' = registered w \<and> work_left w' < work_left w"
proof -
  have other: "course (service w) w' u" if "u \<in> set (registered w)" "u \<noteq> t" for u
    using courseD(5) [OF c that(1)] that(2) same course_cong [of w' u w] by simp
  have "on_course w'"
    using courseD(2,4,6) [OF c] next_course other same t by (intro courseI [OF ok]) (auto split: if_splits)
  moreover have "work_left w' < work_left w"
  proof (rule work_less)
    show "thread_left w' u \<le> thread_left w u" if "u \<in> set (registered w)" for u
      using less same by (cases "u = t") (auto simp: thread_left_def split: handler_pc.split)
  qed (use same less t in auto)
  ultimately show ?thesis using same(2) by simp
qed

lemma handler_course:
  assumes c: "on_course w" and run: "handler t (hpc w t) w = Some w'" and ok: "world_ok w'"
  shows "on_course w' \<and> registered w' = registered w \<and> work_left w' < work_left w"
proof -
  have t: "t \<in> set (registered w)" using course_registered [OF c, of t] run by (cases "hpc w t") auto
  note co = courseD(5) [OF c t]
  note sc = courseD(3) [OF c]
  have p: "service w \<in> {Stop Kill, Stop Enter, Stop Waiting}" if "early (hpc w t)" by (rule early_course [OF that co])
  show ?thesis
  proof (cases "hpc w t")
    case H_clear
    then have w': "w' = handle t H_push (w\<lparr>cached := (cached w)(t := False)\<rparr>)" using run by simp
    show ?thesis
      by (rule handle_moves [OF c ok t, where q = H_push]) (use w' H_clear p sc in \<open>auto simp: thread_left_def\<close>)
  next
    case H_push
    then have w': "w' = handle t H_barrier w" using run by simp
    show ?thesis
      by (rule handle_moves [OF c ok t, where q = H_barrier]) (use w' H_push p sc in \<open>auto simp: thread_left_def\<close>)
  next
    case H_barrier
    then have w': "w' = come t w" using run by simp
    have ph: "phase_ok (phase_of (service w)) w" using courseD(1) [OF c] by (simp add: world_ok_def)
    from ph H_barrier show ?thesis
    proof (cases rule: come_elim)
      case (opens C)
      have a: "hpc w u \<in> {H_barrier, H_waiting}" if "u \<in> set (t # arrived w)" for u
        using that opens(2) H_barrier by (auto simp: stopping_def)
      note o = opened [OF c ok [unfolded w' opens(6)] opens(1) a]
      then have "work_left w' < work_left w"
        unfolding w' opens(6) by (intro work_less) (simp_all add: open_barrier_def opens(1))
      then show ?thesis using o(1) w' opens(6) by (simp add: open_barrier_def)
    next
      case waits
      have w'_eq: "w' = handle t H_waiting (w\<lparr>arrived := t # arrived w\<rparr>)" using w' waits(3) by simp
      show ?thesis
        by (rule handle_moves [OF c ok t, where q = H_waiting])
          (use w'_eq H_barrier p sc waits(2) in \<open>auto simp: thread_left_def\<close>)
    qed
  next
    case H_check
    let ?q = "if is_world_started w then H_return else H_cond"
    have w': "w' = handle t ?q w" using run H_check by simp
    from check_course [OF H_check co] have "course (service w) w' t"
    proof
      assume d: "service w \<in> {Stop Destroy, Mark, Sweep, Start Set_started}"
      then have "\<not> is_world_started w" using courseD(1) [OF c] by (auto simp: world_ok_def stopped_def)
      then show ?thesis using d w' by auto
    next
      assume "service w \<in> {Start Broadcast, Start W_unlock, L_lock}"
      then show ?thesis using sc w' by auto
    qed
    then show ?thesis
      by (intro handle_moves [OF c ok t, where q = ?q])
        (use w' H_check sc service_course_cong [of w' w "service w"] in \<open>auto simp: thread_left_def\<close>)
  next
    case H_return
    then have w': "w' = handle t H_none w" using run by simp
    have "course (service w) w' t" using return_course [OF H_return co] w' by auto
    moreover have "pending w = {}" using return_course [OF H_return co] courseD(1) [OF c] by (auto simp: world_ok_def calm_def)
    ultimately show ?thesis
      by (intro handle_moves [OF c ok t, where q = H_none])
        (use w' H_return sc return_course [OF H_return co] service_course_cong [of w' w "service w"] in \<open>auto simp: thread_left_def\<close>)
  qed (use run in simp_all)
qed


lemma deliver_course:
  assumes c: "on_course w" and t: "t \<in> pending w" "hpc w t = H_none"
    and w': "w' = handle t H_clear (w\<lparr>pending := pending w - {t}\<rparr>)" and ok: "world_ok w'"
  shows "on_course w' \<and> registered w' = registered w \<and> work_left w' < work_left w"
proof -
  have ph: "phase_ok (phase_of (service w)) w" using courseD(1) [OF c] by (simp add: world_ok_def)
  have "service w \<in> {Stop Kill, Stop Enter, Stop Waiting}"
    using phase_pending [OF ph, of t] t(1) by (cases "service w" rule: phase_of.cases) auto
  moreover from this ph obtain C where "stopping C w" by auto
  ultimately have "t \<in> set (registered w)" using counted_registered [OF c] t(1) by (auto simp: stopping_def signalled_def)
  moreover have "course (service w) w' t" using \<open>service w \<in> _\<close> w' by auto
  ultimately show ?thesis
    by (intro handle_moves [OF c ok, where q = H_clear])
      (use w' t courseD(3) [OF c] service_course_cong [of w' w "service w"] in \<open>auto simp: thread_left_def\<close>)
qed


section \<open>Steps of the clients\<close>

lemma course_holds: "on_course w \<Longrightarrow> service w \<noteq> L_lock \<Longrightarrow> \<not> creating (thr w t)"
  using courseD(1,3) [of w] in_standing [of t creating "thr w"]
  by (cases "(service w, w)" rule: service_course.cases) (auto simp: world_ok_def locks_ok_def)

lemma out_steady [simp]: "steady (out p)"
  by (cases p) simp_all

lemma steady_present: "steady p \<Longrightarrow> present p"
  by (cases p) simp_all

lemma move_eq: "move t p w = move t q w \<Longrightarrow> p = q"
  by (metis fun_upd_same move_frame(2))

lemma client_steady:
  assumes "barrier_ok w" and "client t c w = Some w'" and "c \<noteq> Finish" and "\<not> creating (thr w t)" and "thr w t \<noteq> E_destroy"
  shows "steady (thr w s) \<Longrightarrow> steady (thr w' s)" and "registered w' = registered w" and "wild w' = wild w"
proof -
  have "(steady (thr w s) \<longrightarrow> steady (thr w' s)) \<and> registered w' = registered w \<and> wild w' = wild w"
    using assms(2)
  proof (cases rule: client_elim)
    case c_barrier
    then show ?thesis by (cases rule: meet_elim [OF assms(1), of t C_waiting]) simp_all
  next
    case x_barrier
    then show ?thesis by (cases rule: meet_elim [OF assms(1), of t X_waiting]) simp_all
  next
    case (a_unlock r p)
    then show ?thesis by auto
  next
    case finish
    then show ?thesis using assms(2,3) by (cases c) (auto simp: client_defs dest: move_eq)
  qed (use assms in auto)
  then show "steady (thr w s) \<Longrightarrow> steady (thr w' s)" "registered w' = registered w" "wild w' = wild w" by blast+
qed

lemma client_course:
  assumes c: "on_course w" and s: "service w \<noteq> L_lock" and run: "client t a w = Some w'" and a: "a \<noteq> Finish" and ok: "world_ok w'"
  shows "on_course w' \<and> registered w' = registered w \<and> work_left w' = work_left w"
proof -
  have b: "barrier_ok w" and r: "registry_ok w" using courseD(1) [OF c] by (simp_all add: world_ok_def)
  note f = client_frame [OF b run]
  have e: "thr w t \<noteq> E_destroy" using courseD(4) [OF c, of t] registryD(2) [OF r, of t] by auto
  note st = client_steady [OF b run a course_holds [OF c s] e]
  have s': "service w' = service w" using f(9) courseD(3) [OF c] by auto
  have "course (service w) w' u = course (service w) w u" for u using f st(2) by (intro course_cong) simp_all
  moreover have "service_course (service w) w' = service_course (service w) w" using f st(2) by (intro service_course_cong) simp_all
  ultimately have "on_course w'"
    using courseD(2-6) [OF c] st f(1) s' by (intro courseI [OF ok]) simp_all
  moreover have "thread_left w' u = thread_left w u" for u
    using f(1,2) s' by (simp add: thread_left_def cong: handler_pc.case_cong if_cong)
  then have "work_left w' = work_left w" using st(2) s' by (simp add: work_left_def)
  ultimately show ?thesis using st(2) by blast
qed


section \<open>A stop, interleaved with the clients\<close>

text \<open>The steps of the stop, and those of the clients.\<close>

fun of_stop :: "event \<Rightarrow> bool" where
  "of_stop (Thread t c) = False"
| "of_stop (Wake t) = False"
| "of_stop _ = True"

text \<open>A run that ends when the service thread has started the world, and in which no thread ends.\<close>

fun stop_run :: "event list \<Rightarrow> world \<Rightarrow> world option" where
  "stop_run [] w = Some w"
| "stop_run (e # es) w =
     (if service w = L_lock \<or> (\<exists>t. e = Thread t Finish) then None
      else case fire False e w of None \<Rightarrow> None | Some w' \<Rightarrow> stop_run es w')"

lemma course_step:
  assumes c: "on_course w" and s: "service w \<noteq> L_lock" and run: "fire False e w = Some w'" and e: "\<nexists>t. e = Thread t Finish"
  shows "on_course w' \<and> registered w' = registered w \<and> (if of_stop e then work_left w' < work_left w else work_left w' = work_left w)"
proof -
  have ok: "world_ok w'" by (rule fire_ok [OF courseD(1) [OF c] run])
  show ?thesis
  proof (cases e)
    case Service
    then show ?thesis using service_course_step [OF c s _ ok] run courseD(2) [OF c] by simp
  next
    case (Deliver t)
    then show ?thesis using deliver_course [OF c _ _ _ ok, of t] run by (auto split: if_splits)
  next
    case (Handler t)
    then show ?thesis using handler_course [OF c _ ok, of t] run courseD(2) [OF c] by simp
  next
    case (Thread t a)
    then show ?thesis using client_course [OF c s _ _ ok, of t a] run e by (auto split: if_splits)
  next
    case (Wake t)
    then show ?thesis using run by simp
  qed
qed

lemma course_run:
  assumes "on_course w" and "stop_run es w = Some w'"
  shows "on_course w' \<and> registered w' = registered w \<and> length (filter of_stop es) + work_left w' \<le> work_left w"
  using assms
proof (induction es arbitrary: w)
  case (Cons e es)
  then obtain v where v: "fire False e w = Some v" "stop_run es v = Some w'" and s: "service w \<noteq> L_lock" "\<nexists>t. e = Thread t Finish"
    by (auto split: if_splits option.splits)
  note c = course_step [OF Cons.prems(1) s(1) v(1) s(2)]
  then have "on_course w' \<and> registered w' = registered v \<and> length (filter of_stop es) + work_left w' \<le> work_left v"
    using Cons.IH [OF _ v(2)] by blast
  then show ?case using c by (auto split: if_splits)
qed simp

text \<open>Until the world has been started, some step of the stop is possible.\<close>

lemma waiting_moves:
  assumes c: "on_course w" and s: "service w = Stop Waiting"
  shows "\<exists>e. of_stop e \<and> fire False e w \<noteq> None"
proof -
  obtain C where C: "stopping C w" using courseD(1) [OF c] s by (auto simp: world_ok_def)
  have "length (arrived w) \<noteq> length (registered w)"
    using courseD(3) [OF c] s C by (auto simp: stopping_def)
  moreover have "distinct (registered w)" using courseD(1) [OF c] registryD(1) by (auto simp: world_ok_def)
  moreover have "set (registered w) \<subseteq> set (arrived w) \<Longrightarrow> set (arrived w) = set (registered w)"
    using C course_registered [OF c] by (fastforce simp: stopping_def)
  ultimately have "\<not> set (registered w) \<subseteq> set (arrived w)"
    using C distinct_card [of "arrived w"] distinct_card [of "registered w"] by (auto simp: stopping_def)
  then obtain t where t: "t \<in> set (registered w)" "hpc w t \<noteq> H_waiting" using C by (auto simp: stopping_def)
  note co = courseD(5) [OF c t(1)]
  have n: "\<not> wild w" "thr w t \<notin> {Unborn, Exited}" using courseD(2) [OF c] courseD(4) [OF c t(1)] by auto
  show ?thesis
  proof (cases "hpc w t = H_none")
    case True
    then show ?thesis using co s n by (intro exI [of _ "Deliver t"]) simp
  next
    case False
    then have "early (hpc w t)" using co s by simp
    then show ?thesis using t(2) n by (intro exI [of _ "Handler t"]) (cases "hpc w t", simp_all)
  qed
qed

lemma stop_enabled: "p \<notin> {W_lock, Waiting} \<Longrightarrow> stop_the_world p w \<noteq> None"
  by (cases p) (auto split: option.split)

lemma start_enabled: "start_the_world p w \<noteq> None"
  by (cases p) simp_all

lemma course_moves:
  assumes c: "on_course w" and s: "service w \<noteq> L_lock"
  shows "\<exists>e. of_stop e \<and> fire False e w \<noteq> None"
proof (cases "service w = Stop Waiting")
  case False
  have "fire False Service w \<noteq> None"
  proof (cases "service w")
    case (Stop p)
    then show ?thesis using stop_enabled [of p w] False courseD(2,3) [OF c] by simp
  next
    case (Start p)
    then show ?thesis using start_enabled [of p w] courseD(2) [OF c] by simp
  qed (use courseD(2,3) [OF c] s in simp_all)
  then show ?thesis by (intro exI [of _ Service]) simp
qed (rule waiting_moves [OF c])

text \<open>The start of a stop.\<close>

lemma course_starts:
  assumes "reachable False w" and "\<not> wild w" and "service w = Stop Count"
    and "\<forall>t \<in> set (registered w). steady (thr w t)" and "\<forall>t. hpc w t = H_none"
  shows "on_course w" and "work_left w = 13 + 9 * length (registered w)"
proof -
  have ok: "world_ok w" by (rule reachable_ok [OF assms(1)])
  then have "pending w = {}" "distinct (registered w)"
    using assms(3) registryD(1) by (auto simp: world_ok_def calm_def)
  then show "work_left w = 13 + 9 * length (registered w)"
    using assms(3,5) by (simp add: work_left_def thread_left_def distinct_card)
  show "on_course w" using assms(2-5) by (intro courseI [OF ok]) simp_all
qed


text \<open>The stop can always be brought to its end.\<close>

lemma course_finishes:
  assumes "on_course w"
  shows "\<exists>es w'. list_all of_stop es \<and> stop_run es w = Some w' \<and> service w' = L_lock"
  using assms
proof (induction "work_left w" arbitrary: w rule: less_induct)
  case less
  show ?case
  proof (cases "service w = L_lock")
    case True
    then show ?thesis by (intro exI [of _ "[]"]) simp
  next
    case False
    obtain e v where e: "of_stop e" "fire False e w = Some v" using course_moves [OF less.prems False] by blast
    then have "\<nexists>t. e = Thread t Finish" by auto
    with course_step [OF less.prems False e(2)] e(1) have "on_course v" "work_left v < work_left w" by auto
    with less.hyps obtain es w' where "list_all of_stop es" "stop_run es v = Some w'" "service w' = L_lock" by blast
    then show ?thesis using e False \<open>\<nexists>t. e = Thread t Finish\<close> by (intro exI [of _ "e # es"]) simp
  qed
qed

end
