(* ===== verification/World_Properties.thy ===== *)
theory World_Properties
  imports Stop_Ends
begin

text \<open>
  What stopping the world guarantees, and where it can fail: a thread that wakes up spuriously, a
  thread that is late for the second stop, a thread that ends during a stop, a child that ends
  before its creator has stored its number.
\<close>

section \<open>Runs\<close>

text \<open>Thread 0 creates thread 1.\<close>

definition creation :: "event list" where
  "creation = [Thread 0 Create, Thread 0 Go, Thread 0 (Child 1), Thread 0 Go]"

definition creation_end :: "event list" where
  "creation_end = [Thread 0 Go, Thread 0 Go]"

text \<open>A request of thread 0 that fails, and the call of the service thread.\<close>

definition failing_request :: "event list" where
  "failing_request = [Thread 0 Malloc, Thread 0 Go, Thread 0 Go, Thread 0 Fails, Thread 0 Go, Thread 0 Go, Thread 0 Go]"

definition called :: "event list" where
  "called = [Service, Service, Service, Service, Service, Thread 0 Go, Thread 0 Go, Thread 0 Go]"

text \<open>The service thread stops \<open>n\<close> threads and comes to the barrier; thread \<open>t\<close> does the same.\<close>

definition stop_events :: "nat \<Rightarrow> event list" where
  "stop_events n = replicate (7 + n) Service"

definition stop_handler :: "nat \<Rightarrow> event list" where
  "stop_handler t = [Deliver t, Handler t, Handler t, Handler t]"

lemmas run_defs = client_defs meet_def come_def service_comes_def open_barrier_def Let_def move_def goto_def handle_def
  creation_def creation_end_def failing_request_def called_def stop_events_def stop_handler_def start_world_def numeral_eq_Suc

lemma runs_to:
  assumes "run sp es start_world = Some w"
  shows "reachable sp w"
  using run_reachable [OF reachable.start assms] .


section \<open>While the collector works\<close>

text \<open>C4: while the service thread marks or sweeps, every thread that can run code of the client stands in
  the handler behind the barrier, with an empty cache, and so does every registered thread; no
  thread is allocating or creating a thread. This is without spurious wake-ups, for any number of
  threads, requests and collections, and in every interleaving.\<close>

theorem world_stopped_while_collecting:
  assumes "reachable False w" and "service w \<in> {Mark, Sweep}"
  shows "(\<forall>t. present (thr w t) \<or> t \<in> set (registered w) \<longrightarrow> hpc w t \<in> {H_check, H_cond} \<and> \<not> cached w t)
    \<and> (\<forall>t. \<not> allocating (thr w t) \<and> \<not> creating (thr w t))"
proof -
  have ok: "locks_ok w" "registry_ok w" "caches_ok w" "phase_ok (phase_of (service w)) w"
    using reachable_ok [OF assms(1)] by (simp_all add: world_ok_def)
  have "hpc w t \<in> {H_check, H_cond}" if "t \<in> set (registered w)" for t using ok(4) assms(2) that by (auto simp: stopped_def)
  moreover have "t \<in> set (registered w)" if "present (thr w t)" for t using registryD(2) [OF ok(2) that] .
  moreover have "standing allocating (thr w) = {}" "standing creating (thr w) = {}" using ok(1) assms(2) by (auto simp: locks_ok_def)
  then have "\<not> allocating (thr w t) \<and> \<not> creating (thr w t)" for t by (metis empty_iff in_standing)
  ultimately show ?thesis using ok(3) by (fastforce simp: caches_ok_def)
qed

text \<open>One thread requests, and is stopped.\<close>

lemma one_stop:
  "\<exists>w. run False (failing_request @ called @ stop_events 1 @ stop_handler 0 @ [Service]) start_world = Some w
    \<and> service w = Mark \<and> present (thr w 0)"
  by (simp add: run_defs)

theorem world_stopped_while_collecting_witness:
  "\<exists>w. reachable False w \<and> service w = Mark \<and> present (thr w 0) \<and> hpc w 0 \<in> {H_check, H_cond} \<and> \<not> cached w 0"
proof -
  obtain w where w: "run False (failing_request @ called @ stop_events 1 @ stop_handler 0 @ [Service]) start_world = Some w"
    "service w = Mark" "present (thr w 0)" using one_stop by blast
  show ?thesis using world_stopped_while_collecting [OF runs_to [OF w(1)]] w runs_to [OF w(1)] by blast
qed

text \<open>C5: as long as the process is not ending and no wake-up is spurious, when \<^verbatim>\<open>call_service_thread\<close> is about to
  return, having started a collection or found one under way, the service thread holds the
  allocation lock: the second attempt of \<^verbatim>\<open>gc_malloc\<close> waits for the end of that collection.\<close>

theorem call_returns_during_collection:
  assumes "reachable False w" and "\<not> kill_service_thread w" and "thr w t = C_unlock"
  shows "allocation_writer w \<and> working (service w) \<and> is_gc_called w \<and> service_thrd_call_lock w = Some (Client t)"
proof -
  have c: "call_ok w" by (rule reachable_call [OF assms(1)])
  note h = call_holder [OF c, of t]
  have "working (service w)" "is_gc_called w" using c assms(2,3) h by (auto simp: call_ok_def)
  moreover from this have "holds_allocation (service w)" by (cases "service w") auto
  ultimately show ?thesis using reachable_ok [OF assms(1)] h(1) assms(3) by (simp add: world_ok_def locks_ok_def)
qed

lemma one_call:
  "\<exists>w. run False (failing_request @ butlast called) start_world = Some w \<and> \<not> kill_service_thread w \<and> thr w 0 = C_unlock"
  by (simp add: run_defs)

theorem call_returns_during_collection_witness:
  "\<exists>w. reachable False w \<and> thr w 0 = C_unlock \<and> allocation_writer w"
proof -
  obtain w where w: "run False (failing_request @ butlast called) start_world = Some w" "\<not> kill_service_thread w" "thr w 0 = C_unlock"
    using one_call by blast
  show ?thesis using call_returns_during_collection [OF runs_to [OF w(1)] w(2,3)] w runs_to [OF w(1)] by blast
qed

text \<open>C7: in every state that is reached without a spurious wake-up, each lock of the threads is held by exactly the
  threads whose position says so: a thread counts as
  a reader of a lock from its \<^verbatim>\<open>rdlock\<close> to its \<^verbatim>\<open>unlock\<close>, the service thread as its writer, no lock has
  readers and a writer at once, \<^verbatim>\<open>service_thrd_call_lock\<close> admits one thread to the handshake, and the list
  of registered threads has no duplicates and misses no thread that may run code of the client.\<close>

theorem locks_match_positions:
  assumes "reachable False w"
  shows "allocation_readers w = {t. allocating (thr w t)} \<and> creation_readers w = {t. creating (thr w t)}
    \<and> allocation_writer w = holds_allocation (service w) \<and> creation_writer w = holds_creation (service w)
    \<and> (allocation_writer w \<longrightarrow> allocation_readers w = {}) \<and> (creation_writer w \<longrightarrow> creation_readers w = {})
    \<and> {t. calling (thr w t)} = owners (service_thrd_call_lock w) \<and> {t. thr w t = C_spin_unlock} = owners (signal_delivery_lock w)
    \<and> (signal_delivery_lock w = Some Service_thread \<longleftrightarrow> holds_delivery (service w))
    \<and> distinct (registered w) \<and> {t. present (thr w t)} \<subseteq> set (registered w)"
proof -
  have ok: "locks_ok w" "registry_ok w" using reachable_ok [OF assms] by (simp_all add: world_ok_def)
  have c: "call_ok w" by (rule reachable_call [OF assms])
  have "spinning p \<longleftrightarrow> p = C_spin_unlock" for p by (cases p) simp_all
  then show ?thesis using ok c registryD(1,2) [OF ok(2)] unfolding locks_ok_def call_ok_def standing_def by auto
qed

theorem locks_match_positions_witness:
  "\<exists>w. reachable False w \<and> thr w 0 = C_unlock \<and> allocation_writer w \<and> allocation_readers w = {}"
proof -
  obtain w where w: "run False (failing_request @ butlast called) start_world = Some w" "thr w 0 = C_unlock" "holds_allocation (service w)"
    by (simp add: run_defs)
  show ?thesis using locks_match_positions [OF runs_to [OF w(1)]] w runs_to [OF w(1)] by blast
qed

text \<open>C6: a stop of the world in which no thread ends, and no wake-up is spurious, comes to its end. If at the count of
  the threads every registered thread is one that has not begun to end and none is still in the
  handler, then from the count on, as long as no thread ends, the service thread and the handlers take at most
  \<open>13 + 9 n\<close> steps for \<open>n\<close> threads, whatever else the clients do in between; at every moment these steps can be
  completed to the start of the world; and then no thread waits for the condition any more. The
  section on what can go wrong has stops outside these conditions that never end.\<close>

theorem stop_ends:
  assumes "reachable False w" and "\<not> wild w" and "service w = Stop Count"
    and "\<forall>t \<in> set (registered w). steady (thr w t)" and "\<forall>t. hpc w t = H_none" and "stop_run es w = Some w'"
  shows "length (filter of_stop es) \<le> 13 + 9 * length (registered w)
    \<and> (\<exists>fs v. list_all of_stop fs \<and> stop_run fs w' = Some v \<and> service v = L_lock)
    \<and> (service w' = L_lock \<longrightarrow> is_world_started w' \<and> (\<forall>t. hpc w' t \<in> {H_none, H_check, H_return}))"
proof -
  note c = course_starts [OF assms(1-5)]
  have c': "on_course w'" and b: "length (filter of_stop es) + work_left w' \<le> work_left w" using course_run [OF c(1) assms(6)] by blast+
  have "hpc w' t \<in> {H_none, H_check, H_return}" if "service w' = L_lock" for t
    using courseD(5,6) [OF c', of t] that by (cases "t \<in> set (registered w')") simp_all
  moreover have "service w' = L_lock \<longrightarrow> is_world_started w'" using courseD(3) [OF c'] by auto
  ultimately show ?thesis using c(2) b course_finishes [OF c'] by auto
qed

lemma one_count:
  "\<exists>w. run False (failing_request @ called @ [Service]) start_world = Some w \<and> \<not> wild w \<and> service w = Stop Count
    \<and> registered w = [0] \<and> thr w 0 = A_rdlock True \<and> (\<forall>t. hpc w t = H_none)"
  by (simp add: run_defs)

theorem stop_ends_witness:
  "\<exists>w fs v. reachable False w \<and> service w = Stop Count \<and> stop_run fs w = Some v \<and> service v = L_lock"
proof -
  obtain w where w: "run False (failing_request @ called @ [Service]) start_world = Some w" "\<not> wild w" "service w = Stop Count"
    "registered w = [0]" "thr w 0 = A_rdlock True" "\<forall>t. hpc w t = H_none" using one_count by blast
  show ?thesis using stop_ends [OF runs_to [OF w(1)] w(2,3) _ w(6), of "[]" w] w runs_to [OF w(1)] by auto
qed


section \<open>What can go wrong\<close>

text \<open>C37: the handler waits for the start of the world with \<^verbatim>\<open>if\<close>, not \<^verbatim>\<open>while\<close>: after a spurious wake-up of
  \<^verbatim>\<open>pthread_cond_wait\<close>, which POSIX allows, a registered thread runs code of the client while the
  service thread marks.\<close>

theorem spurious_wakeup_runs_client:
  "\<exists>w. reachable True w \<and> service w = Mark \<and> thr w 1 = Running \<and> hpc w 1 = H_none \<and> 1 \<in> set (registered w)"
proof -
  have "\<exists>w. run True (creation @ creation_end @ failing_request @ called @ stop_events 2 @ stop_handler 0 @ stop_handler 1
      @ [Service, Handler 1, Wake 1, Handler 1]) start_world = Some w
    \<and> service w = Mark \<and> thr w 1 = Running \<and> hpc w 1 = H_none \<and> 1 \<in> set (registered w)"
    by (simp add: run_defs)
  then show ?thesis using runs_to by blast
qed

text \<open>A state in which no thread can step, with all of them in the collector.\<close>

lemma stuck:
  assumes "service w = Stop Waiting" and "hpc w 0 = H_waiting" and "\<forall>t. t \<noteq> 0 \<longrightarrow> thr w t \<in> {Unborn, Exited} \<or> hpc w t = H_cond"
    and "\<forall>t. t \<noteq> 0 \<longrightarrow> hpc w t \<in> {H_none, H_cond}"
  shows "fire False e w = None"
proof (cases e)
  case (Deliver t)
  then show ?thesis using assms(2) assms(3,4) [rule_format, of t] by (cases "t = 0") auto
next
  case (Handler t)
  then show ?thesis using assms(2) assms(4) [rule_format, of t] by (cases "t = 0") auto
next
  case (Thread t c)
  then show ?thesis using assms(2) assms(3) [rule_format, of t] by (cases "t = 0") (auto simp: client_def)
qed (use assms(1) in auto)

definition collection_end :: "event list" where
  "collection_end = [Service, Service, Service, Service, Service, Handler 0, Handler 0, Service, Service, Service, Service, Service,
     Thread 0 Go, Thread 0 Go, Thread 0 Go]"

text \<open>C34: a thread that is slow between the barrier and the test of \<^verbatim>\<open>is_world_started\<close> misses the start of
  the world when a second stop resets the flag first: it then waits for the condition, with the
  stop signal blocked, while the service thread waits for it at the barrier. No thread can move.\<close>

theorem second_stop_deadlock:
  "\<exists>w. reachable False w \<and> (\<forall>e. fire False e w = None) \<and> service w = Stop Waiting \<and> thr w 0 = A_rdlock True
    \<and> thr w 1 = Running \<and> hpc w 1 = H_cond \<and> 1 \<in> pending w"
proof -
  have "\<exists>w. run False (creation @ creation_end @ failing_request @ called @ stop_events 2 @ stop_handler 0 @ stop_handler 1
      @ collection_end @ failing_request @ called @ stop_events 2 @ stop_handler 0 @ [Handler 1]) start_world = Some w
    \<and> service w = Stop Waiting \<and> thr w 0 = A_rdlock True \<and> thr w 1 = Running \<and> hpc w 0 = H_waiting \<and> hpc w 1 = H_cond \<and> 1 \<in> pending w
    \<and> (\<forall>t. t \<noteq> 0 \<longrightarrow> thr w t \<in> {Unborn, Exited} \<or> hpc w t = H_cond) \<and> (\<forall>t. t \<noteq> 0 \<longrightarrow> hpc w t \<in> {H_none, H_cond})"
    by (simp add: run_defs collection_end_def)
  then show ?thesis using runs_to stuck by blast
qed

text \<open>C35: a thread that ends after \<^verbatim>\<open>stop_the_world\<close> has counted the threads and before it has signalled
  them is waited for, but never comes. No thread can move.\<close>

theorem exit_during_stop_deadlock:
  "\<exists>w. reachable False w \<and> (\<forall>e. fire False e w = None) \<and> service w = Stop Waiting \<and> thr w 0 = A_rdlock True
    \<and> thr w 1 = Exited \<and> registered w = [0] \<and> barrier_size w = 3"
proof -
  have "\<exists>w. run False (creation @ creation_end @ failing_request @ called @ [Service, Service, Thread 1 Finish, Thread 1 Go, Thread 1 Go]
      @ replicate 6 Service @ stop_handler 0) start_world = Some w
    \<and> service w = Stop Waiting \<and> thr w 0 = A_rdlock True \<and> thr w 1 = Exited \<and> registered w = [0] \<and> barrier_size w = 3
    \<and> hpc w 0 = H_waiting \<and> (\<forall>t. t \<noteq> 0 \<longrightarrow> thr w t \<in> {Unborn, Exited} \<or> hpc w t = H_cond) \<and> (\<forall>t. t \<noteq> 0 \<longrightarrow> hpc w t \<in> {H_none, H_cond})"
    by (simp add: run_defs)
  then show ?thesis using runs_to stuck by blast
qed

text \<open>A child that ends before its creator stores its number: the creator writes to the freed cell.\<close>

lemma creator_writes_freed_cell: "\<exists>w. reachable False w \<and> wild w \<and> thr w 0 = R_set 1 \<and> 1 \<notin> set (registered w)"
proof -
  have "\<exists>w. run False (creation @ [Thread 1 Finish, Thread 1 Go, Thread 0 Go]) start_world = Some w
    \<and> wild w \<and> thr w 0 = R_set 1 \<and> 1 \<notin> set (registered w)"
    by (simp add: run_defs)
  then show ?thesis using runs_to by blast
qed


text \<open>C36: the service thread, told to end between the barrier and its test, returns without unlocking
  \<^verbatim>\<open>signal_delivery_lock\<close>: the thread that asked for a collection waits for that lock for ever, and
  \<^verbatim>\<open>__destroy_mt_safety\<close> waits at the barrier for a service thread that has gone. No thread can move,
  even with spurious wake-ups.\<close>

theorem exit_during_call_deadlock:
  "\<exists>w. reachable False w \<and> (\<forall>sp e. fire sp e w = None) \<and> service w = Returned \<and> thr w 0 = X_waiting
    \<and> thr w 1 = C_spin_lock \<and> signal_delivery_lock w = Some Service_thread"
proof -
  have "\<exists>w. run False (creation @ creation_end @ [Thread 1 Malloc, Thread 1 Go, Thread 1 Go, Thread 1 Fails, Thread 1 Go, Thread 1 Go,
      Service, Service, Thread 1 Go, Thread 0 Leave, Thread 0 Go, Thread 0 Go, Service]) start_world = Some w
    \<and> service w = Returned \<and> thr w 0 = X_waiting \<and> thr w 1 = C_spin_lock \<and> signal_delivery_lock w = Some Service_thread
    \<and> (\<forall>t. t \<noteq> 0 \<longrightarrow> t \<noteq> 1 \<longrightarrow> thr w t = Unborn) \<and> hpc w = (\<lambda>_. H_none) \<and> pending w = {}"
    by (simp add: run_defs)
  then obtain w where w: "reachable False w" "service w = Returned" "thr w 0 = X_waiting" "thr w 1 = C_spin_lock"
    "signal_delivery_lock w = Some Service_thread" "\<forall>t. t \<noteq> 0 \<longrightarrow> t \<noteq> 1 \<longrightarrow> thr w t = Unborn" "hpc w = (\<lambda>_. H_none)" "pending w = {}"
    using runs_to by blast
  have "client t c w = None" for t c
    using w(3-5) w(6) [rule_format, of t] by (cases "t = 0"; cases "t = 1") (simp_all add: client_defs)
  then have "fire sp e w = None" for sp e using w(2,7,8) by (cases e) simp_all
  then show ?thesis using w by blast
qed

end
