(* ===== verification/Log_Text.thy ===== *)
theory Log_Text
  imports Log
begin

text \<open>
  \<^verbatim>\<open>logging/log.c\<close> as a build with \<^verbatim>\<open>-DLOG\<close> compiles it: the same accounting as in \<^theory_text>\<open>Log\<close>, with the
  lines it writes into a buffer of two million characters and from there into the log file. \<open>fl\<close>
  says whether \<^verbatim>\<open>FL\<close> is defined. \<open>render t l\<close> is the text that \<^verbatim>\<open>sprintf\<close> makes of line \<open>l\<close> with the
  time of the \<open>t\<close>-th call of \<^verbatim>\<open>log_time\<close>. Writing beyond the buffer is \<open>None\<close>.
\<close>

section \<open>State\<close>

datatype log_line =
    Limit_line size_t
  | Start_line | No_large_heap_line | No_heap_line | Ready_line
  | Large_unmap_line | Unmap_line | Destroyed_line
  | Too_large_line | Large_full_line | Full_line
  | Objects_line (total_size: size_t) (how_many: "32 word") (one_size: size_t) size_t size_t size_t size_t
  | Object_line size_t size_t size_t size_t size_t
  | Mark_started_line "32 word"
  | Mark_done_line "32 word" size_t size_t size_t size_t
  | Sweep_started_line "32 word"
  | Sweep_done_line "32 word"
  | No_block_line | No_header_line
  | Denied_line size_t size_t

record text_log =
  log_file :: "string option"
  log_file_name :: string
  log_buffer :: string
  times :: nat
  prev_object_size :: size_t
  marked_objects :: size_t
  mark_stage_count :: "32 word"
  sweep_stage_count :: "32 word"
  new_objects_count :: "32 word"
  extra_log :: bool
  account :: log_state

definition BUFFER_SIZE :: nat where
  "BUFFER_SIZE = 2000000"

definition BUFFER_DEAD_NUMBER :: nat where
  "BUFFER_DEAD_NUMBER = 333"

type_synonym renderer = "nat \<Rightarrow> log_line \<Rightarrow> string"


section \<open>The buffer\<close>

definition log_time :: "text_log \<Rightarrow> nat \<times> text_log" where
  "log_time st = (times st, st\<lparr>times := times st + 1\<rparr>)"

text \<open>Without a file, the message goes to \<^verbatim>\<open>stderr\<close> and the buffer stays as it is.\<close>

definition printf_in_file :: "text_log \<Rightarrow> text_log" where
  "printf_in_file st =
     (case log_file st of
        Some f \<Rightarrow> st\<lparr>log_file := Some (f @ log_buffer st), log_buffer := []\<rparr>
      | None \<Rightarrow> st)"

text \<open>\<^verbatim>\<open>buf_pos += sprintf(buf_pos, ...)\<close>: the text and its final NUL must fit.\<close>

definition put_line :: "string \<Rightarrow> text_log \<Rightarrow> text_log option" where
  "put_line s st =
     (if length (log_buffer st) + length s < BUFFER_SIZE then Some (st\<lparr>log_buffer := log_buffer st @ s\<rparr>) else None)"

definition flush_full :: "text_log \<Rightarrow> text_log" where
  "flush_full st =
     (if BUFFER_SIZE - length (log_buffer st) \<le> BUFFER_DEAD_NUMBER then printf_in_file st else st)"

text \<open>The line for a batch of objects, from the globals as they are.\<close>

definition objects_line :: "text_log \<Rightarrow> log_line" where
  "objects_line st =
     (let g = account st in
      Objects_line (last_object_size g * scast (new_objects_count st)) (new_objects_count st) (last_object_size g)
        (memory_used g) (memory_limit g) (object_count g) (memory_limit g - memory_used g))"

definition add_log_line :: "renderer \<Rightarrow> nat \<Rightarrow> log_line \<Rightarrow> text_log \<Rightarrow> text_log option" where
  "add_log_line render t line st = do {
     st \<leftarrow> (if new_objects_count st \<noteq> 0 \<and> \<not> extra_log st then do {
              let l = objects_line st;
              let (t', st) = log_time st;
              st \<leftarrow> put_line (render t' l) st;
              let st = flush_full st;
              Some (st\<lparr>prev_object_size := -1, new_objects_count := 0\<rparr>)
            } else Some st);
     st \<leftarrow> put_line (render t line) st;
     let st = st\<lparr>extra_log := False\<rparr>;
     Some (flush_full st)
   }"

definition timed_line :: "renderer \<Rightarrow> (text_log \<Rightarrow> log_line) \<Rightarrow> text_log \<Rightarrow> text_log option" where
  "timed_line render line st =
     (let (t, st') = log_time st in add_log_line render t (line st) st')"

definition log_new_object :: "renderer \<Rightarrow> text_log \<Rightarrow> text_log option" where
  "log_new_object render st = do {
     st \<leftarrow> (if last_object_size (account st) \<noteq> prev_object_size st \<and> prev_object_size st \<noteq> -1 then do {
              st \<leftarrow> timed_line render objects_line (st\<lparr>extra_log := True\<rparr>);
              Some (st\<lparr>new_objects_count := 0\<rparr>)
            } else Some st);
     Some (st\<lparr>new_objects_count := new_objects_count st + 1, prev_object_size := last_object_size (account st)\<rparr>)
   }"


section \<open>The name of the log file\<close>

fun string_len :: "nat \<Rightarrow> nat" where
  "string_len n = (if n = 0 then 0 else Suc (string_len (n div 10)))"

declare string_len.simps [simp del]

fun fill_digits :: "nat \<Rightarrow> nat \<Rightarrow> nat \<Rightarrow> string \<Rightarrow> string" where
  "fill_digits len indx n name =
     (if n = 0 then name
      else fill_digits len (indx + 1) (n div 10) (name[len - 1 - indx := char_of (n mod 10 + 48)]))"

declare fill_digits.simps [simp del]

text \<open>\<open>build\<close> is the number in \<^verbatim>\<open>build_count.log\<close>, \<open>None\<close> for an empty file. The array has 25 characters; the
  name ends at the NUL written behind \<^verbatim>\<open>.log\<close>.\<close>

definition build_name :: "nat option \<Rightarrow> string" where
  "build_name build =
     (case build of
        None \<Rightarrow> ''1.log''
      | Some n \<Rightarrow>
          let len = string_len (n + 1); name = fill_digits len 0 (n + 1) (replicate 25 (char_of (0 :: nat)))
          in take len name @ ''.log'')"


section \<open>Events\<close>

definition log_text :: "bool \<Rightarrow> renderer \<Rightarrow> nat option \<Rightarrow> string option \<Rightarrow> log_type \<Rightarrow> log_result \<Rightarrow> text_log \<Rightarrow> text_log option" where
  "log_text fl render build file ty res st =
     (case ty of
        INIT_ALLOCATOR \<Rightarrow>
          (case res of
             START \<Rightarrow> add_log_line render 0 Start_line (st\<lparr>log_file_name := build_name build, log_file := file\<rparr>)
           | B_ERROR \<Rightarrow> timed_line render (\<lambda>_. No_large_heap_line) st
           | ERROR \<Rightarrow> timed_line render (\<lambda>_. No_heap_line) st
           | OK \<Rightarrow> timed_line render (\<lambda>_. Ready_line) st
           | _ \<Rightarrow> Some st)
      | DESTROY_ALLOCATOR \<Rightarrow>
          (case res of
             B_ERROR \<Rightarrow> timed_line render (\<lambda>_. Large_unmap_line) st
           | ERROR \<Rightarrow> timed_line render (\<lambda>_. Unmap_line) st
           | OK \<Rightarrow> map_option printf_in_file (timed_line render (\<lambda>_. Destroyed_line) st)
           | _ \<Rightarrow> Some st)
      | ALLOCATE_NEW_OBJECT \<Rightarrow>
          (case res of
             ERROR \<Rightarrow> timed_line render (\<lambda>_. Too_large_line) st
           | B_HEAP_ERROR \<Rightarrow> timed_line render (\<lambda>_. Large_full_line) st
           | HEAP_ERROR \<Rightarrow> timed_line render (\<lambda>_. Full_line) st
           | OK \<Rightarrow>
               (let g = account st;
                    g = g\<lparr>object_count := object_count g + 1, memory_used := memory_used g + last_object_size g\<rparr>;
                    st = st\<lparr>account := g\<rparr>
                in if fl then timed_line render (\<lambda>_. Object_line (last_object_size g) (memory_used g) (memory_limit g)
                       (object_count g) (memory_limit g - memory_used g)) st
                   else log_new_object render st)
           | _ \<Rightarrow> Some st)
      | MARK \<Rightarrow>
          (case res of
             START \<Rightarrow> do {
               let st = st\<lparr>mark_stage_count := mark_stage_count st + 1\<rparr>;
               st \<leftarrow> timed_line render (\<lambda>st. Mark_started_line (mark_stage_count st)) st;
               Some (st\<lparr>marked_objects := 0\<rparr>)
             }
           | ALIVE \<Rightarrow> Some (st\<lparr>marked_objects := marked_objects st + 1\<rparr>)
           | OK \<Rightarrow> do {
               st \<leftarrow> timed_line render (\<lambda>st. let g = account st in Mark_done_line (mark_stage_count st)
                  (object_count g - marked_objects st) (memory_used g - m_size g) (m_size g) (memory_limit g)) st;
               let g = account st;
               Some (st\<lparr>account := g\<lparr>object_count := marked_objects st, memory_used := m_size g, m_size := 0\<rparr>\<rparr>)
             }
           | _ \<Rightarrow> Some st)
      | SWEEP \<Rightarrow>
          (case res of
             START \<Rightarrow> do {
               let st = st\<lparr>sweep_stage_count := sweep_stage_count st + 1\<rparr>;
               timed_line render (\<lambda>st. Sweep_started_line (sweep_stage_count st)) st
             }
           | OK \<Rightarrow> timed_line render (\<lambda>st. Sweep_done_line (sweep_stage_count st)) st
           | _ \<Rightarrow> Some st)
      | OTHER \<Rightarrow>
          (case res of
             O_EMPTY_BLOCK \<Rightarrow> timed_line render (\<lambda>_. No_block_line) st
           | O_HEADER \<Rightarrow> timed_line render (\<lambda>_. No_header_line) st
           | _ \<Rightarrow> Some st))"

definition text_set_memory_limit :: "renderer \<Rightarrow> size_t \<Rightarrow> size_t \<Rightarrow> text_log \<Rightarrow> text_log option" where
  "text_set_memory_limit render heap_size percent st =
     (let st = st\<lparr>account := (account st)\<lparr>memory_limit := heap_size * percent div 100\<rparr>\<rparr>
      in timed_line render (\<lambda>st. Limit_line (memory_limit (account st))) st)"

definition text_check_the_space :: "renderer \<Rightarrow> size_t \<Rightarrow> text_log \<Rightarrow> (log_result \<times> text_log) option" where
  "text_check_the_space render object_size st =
     (let g = (account st)\<lparr>last_object_size := object_size\<rparr>; st = st\<lparr>account := g\<rparr>
      in if memory_used g + object_size > memory_limit g then do {
           st \<leftarrow> timed_line render (\<lambda>_. Denied_line (memory_limit g - memory_used g) (memory_limit g)) st;
           Some (ERROR, st)
         } else Some (OK, st))"

definition text_log_mark_alive :: "bool \<Rightarrow> renderer \<Rightarrow> size_t \<Rightarrow> text_log \<Rightarrow> text_log option" where
  "text_log_mark_alive fl render object_size st =
     log_text fl render None None MARK ALIVE (st\<lparr>account := (account st)\<lparr>m_size := m_size (account st) + object_size\<rparr>\<rparr>)"

text \<open>The calls that the rest of the collector makes, once the log is open.\<close>

datatype log_call = Log log_type log_result | Limit size_t size_t | Check size_t | Alive size_t

fun text_call :: "bool \<Rightarrow> renderer \<Rightarrow> log_call \<Rightarrow> text_log \<Rightarrow> text_log option" where
  "text_call fl render (Log ty res) st = log_text fl render None None ty res st"
| "text_call fl render (Limit h p) st = text_set_memory_limit render h p st"
| "text_call fl render (Check n) st = map_option snd (text_check_the_space render n st)"
| "text_call fl render (Alive n) st = text_log_mark_alive fl render n st"

fun text_calls :: "bool \<Rightarrow> renderer \<Rightarrow> log_call list \<Rightarrow> text_log \<Rightarrow> text_log option" where
  "text_calls fl render [] st = Some st"
| "text_calls fl render (c # cs) st = do { st \<leftarrow> text_call fl render c st; text_calls fl render cs st }"

end
