(* ===== verification/Log_Properties.thy ===== *)
theory Log_Properties
  imports Log_Text
begin

text \<open>
  Properties of the log of a build with \<^verbatim>\<open>-DLOG\<close>: the buffer never overflows and nothing written is
  lost once the file is open, and overflows if it could not be opened, the accounting after a marking, and the line for a batch of objects, which reports the size
  of the next object.
\<close>

section \<open>Nothing is lost\<close>

definition written :: "text_log \<Rightarrow> string" where
  "written st = (case log_file st of None \<Rightarrow> [] | Some f \<Rightarrow> f) @ log_buffer st"

lemma written_frame [simp]:
  "written (st\<lparr>times := n\<rparr>) = written st" "written (st\<lparr>prev_object_size := x\<rparr>) = written st"
  "written (st\<lparr>new_objects_count := c\<rparr>) = written st" "written (st\<lparr>extra_log := b\<rparr>) = written st"
  "written (st\<lparr>account := g\<rparr>) = written st" "written (st\<lparr>marked_objects := x\<rparr>) = written st"
  "written (st\<lparr>mark_stage_count := c\<rparr>) = written st" "written (st\<lparr>sweep_stage_count := c\<rparr>) = written st"
  by (simp_all add: written_def)

lemma written_put [simp]: "log_buffer st = b \<Longrightarrow> written (st\<lparr>log_buffer := b @ s\<rparr>) = written st @ s"
  by (auto simp: written_def)

text \<open>Between two events there is room for a line and its NUL.\<close>

definition room :: "text_log \<Rightarrow> bool" where
  "room st \<longleftrightarrow> log_file st \<noteq> None \<and> length (log_buffer st) + BUFFER_DEAD_NUMBER < BUFFER_SIZE"

lemma printf_in_file_frame [simp]:
  "written (printf_in_file st) = written st" "account (printf_in_file st) = account st"
  "new_objects_count (printf_in_file st) = new_objects_count st" "prev_object_size (printf_in_file st) = prev_object_size st"
  "extra_log (printf_in_file st) = extra_log st" "marked_objects (printf_in_file st) = marked_objects st"
  "mark_stage_count (printf_in_file st) = mark_stage_count st" "sweep_stage_count (printf_in_file st) = sweep_stage_count st"
  "log_file (printf_in_file st) = None \<longleftrightarrow> log_file st = None" "times (printf_in_file st) = times st"
  by (simp_all add: printf_in_file_def written_def split: option.split)

lemma flush_full_frame [simp]:
  "written (flush_full st) = written st" "account (flush_full st) = account st"
  "new_objects_count (flush_full st) = new_objects_count st" "prev_object_size (flush_full st) = prev_object_size st"
  "extra_log (flush_full st) = extra_log st" "marked_objects (flush_full st) = marked_objects st"
  "mark_stage_count (flush_full st) = mark_stage_count st" "sweep_stage_count (flush_full st) = sweep_stage_count st"
  "log_file (flush_full st) = None \<longleftrightarrow> log_file st = None" "times (flush_full st) = times st"
  by (simp_all add: flush_full_def)

lemma flush_full_room: "log_file st \<noteq> None \<Longrightarrow> room (flush_full st)"
  by (auto simp: flush_full_def room_def printf_in_file_def BUFFER_SIZE_def BUFFER_DEAD_NUMBER_def)

lemma put_line_room:
  assumes "room st" and "length s \<le> BUFFER_DEAD_NUMBER"
  shows "put_line s st = Some (st\<lparr>log_buffer := log_buffer st @ s\<rparr>)"
  using assms by (auto simp: put_line_def room_def)

text \<open>What one call of \<^verbatim>\<open>add_log_line\<close> writes: the batch that waits, then the line.\<close>

definition waiting :: "text_log \<Rightarrow> bool" where
  "waiting st \<longleftrightarrow> new_objects_count st \<noteq> 0 \<and> \<not> extra_log st"

lemma add_log_line_runs:
  assumes short: "\<And>t l. length (render t l) \<le> BUFFER_DEAD_NUMBER" and rm: "room st"
  shows "\<exists>st'. add_log_line render t line st = Some st' \<and> room st' \<and> account st' = account st
    \<and> written st' = written st @ (if waiting st then render (times st) (objects_line st) else []) @ render t line
    \<and> new_objects_count st' = (if waiting st then 0 else new_objects_count st)
    \<and> prev_object_size st' = (if waiting st then -1 else prev_object_size st) \<and> \<not> extra_log st'
    \<and> marked_objects st' = marked_objects st \<and> mark_stage_count st' = mark_stage_count st
    \<and> sweep_stage_count st' = sweep_stage_count st"
proof (cases "waiting st")
  case True
  let ?s = "render (times st) (objects_line st)"
  let ?st = "st\<lparr>times := times st + 1\<rparr>"
  have r1: "room ?st" using rm by (simp add: room_def)
  let ?st1 = "(flush_full (?st\<lparr>log_buffer := log_buffer ?st @ ?s\<rparr>))\<lparr>prev_object_size := -1, new_objects_count := 0\<rparr>"
  have "room (flush_full (?st\<lparr>log_buffer := log_buffer ?st @ ?s\<rparr>))" using rm by (intro flush_full_room) (simp add: room_def)
  then have r2: "room ?st1" by (simp add: room_def)
  note p1 = put_line_room [OF r1 short] and p2 = put_line_room [OF r2 short]
  let ?st2 = "flush_full ((?st1\<lparr>log_buffer := log_buffer ?st1 @ render t line\<rparr>)\<lparr>extra_log := False\<rparr>)"
  have "add_log_line render t line st = Some ?st2"
    using True p1 p2 by (simp add: add_log_line_def waiting_def log_time_def Let_def)
  moreover have "written ?st2 = written st @ ?s @ render t line" by simp
  moreover have "room ?st2" using r2 by (intro flush_full_room) (simp add: room_def)
  ultimately show ?thesis using True by (intro exI [of _ ?st2]) simp
next
  case False
  note p = put_line_room [OF rm short]
  let ?st2 = "flush_full ((st\<lparr>log_buffer := log_buffer st @ render t line\<rparr>)\<lparr>extra_log := False\<rparr>)"
  have "add_log_line render t line st = Some ?st2"
    using False p by (auto simp: add_log_line_def waiting_def Let_def)
  moreover have "written ?st2 = written st @ render t line" by simp
  moreover have "room ?st2" using rm by (intro flush_full_room) (simp add: room_def)
  ultimately show ?thesis using False by (intro exI [of _ ?st2]) simp
qed

lemma timed_line_runs:
  assumes short: "\<And>t l. length (render t l) \<le> BUFFER_DEAD_NUMBER" and rm: "room st"
  shows "\<exists>st'. timed_line render line st = Some st' \<and> room st' \<and> account st' = account st
    \<and> written st' = written st @ (if waiting st then render (times st + 1) (objects_line st) else []) @ render (times st) (line st)
    \<and> new_objects_count st' = (if waiting st then 0 else new_objects_count st)
    \<and> prev_object_size st' = (if waiting st then -1 else prev_object_size st) \<and> \<not> extra_log st'
    \<and> marked_objects st' = marked_objects st \<and> mark_stage_count st' = mark_stage_count st
    \<and> sweep_stage_count st' = sweep_stage_count st"
proof -
  let ?st = "st\<lparr>times := times st + 1\<rparr>"
  have "room ?st" "waiting ?st = waiting st" "objects_line ?st = objects_line st"
    using rm by (simp_all add: room_def waiting_def objects_line_def)
  then show ?thesis
    using add_log_line_runs [where render = render, OF short, of ?st "times st" "line st"]
    by (simp add: timed_line_def log_time_def cong: if_cong)
qed


section \<open>The accounting\<close>

text \<open>What the calls do to the accounts and to the number of marked objects, without the text.\<close>

fun tally :: "log_call \<Rightarrow> log_state \<times> size_t \<Rightarrow> log_state \<times> size_t" where
  "tally (Log ty res) (g, marked) =
     (if ty = ALLOCATE_NEW_OBJECT \<and> res = OK
      then (g\<lparr>object_count := object_count g + 1, memory_used := memory_used g + last_object_size g\<rparr>, marked)
      else if ty = MARK \<and> res = START then (g, 0)
      else if ty = MARK \<and> res = ALIVE then (g, marked + 1)
      else if ty = MARK \<and> res = OK then (g\<lparr>object_count := marked, memory_used := m_size g, m_size := 0\<rparr>, marked)
      else (g, marked))"
| "tally (Limit h p) (g, marked) = (g\<lparr>memory_limit := h * p div 100\<rparr>, marked)"
| "tally (Check n) (g, marked) = (g\<lparr>last_object_size := n\<rparr>, marked)"
| "tally (Alive n) (g, marked) = (g\<lparr>m_size := m_size g + n\<rparr>, marked + 1)"

definition accounts :: "text_log \<Rightarrow> log_state \<times> size_t" where
  "accounts st = (account st, marked_objects st)"

text \<open>One call: it returns, keeps the room, appends to what is written, and does its part of the accounts.\<close>

definition call_good :: "log_call \<Rightarrow> text_log \<Rightarrow> text_log option \<Rightarrow> bool" where
  "call_good c st r \<longleftrightarrow> (\<exists>st'. r = Some st' \<and> room st' \<and> (\<exists>s. written st' = written st @ s) \<and> accounts st' = tally c (accounts st))"

lemma room_frame [simp]:
  "room (st\<lparr>times := n\<rparr>) = room st" "room (st\<lparr>prev_object_size := x\<rparr>) = room st"
  "room (st\<lparr>new_objects_count := c\<rparr>) = room st" "room (st\<lparr>extra_log := b\<rparr>) = room st"
  "room (st\<lparr>account := g\<rparr>) = room st" "room (st\<lparr>marked_objects := x\<rparr>) = room st"
  "room (st\<lparr>mark_stage_count := c\<rparr>) = room st" "room (st\<lparr>sweep_stage_count := c\<rparr>) = room st"
  by (simp_all add: room_def)

lemma line_good:
  assumes short: "\<And>t l. length (render t l) \<le> BUFFER_DEAD_NUMBER" and rm: "room st0"
    and same: "written st0 = written st" "\<And>st'. accounts st' = accounts st0 \<Longrightarrow> accounts (f st') = tally c (accounts st)"
      "\<And>st'. room st' \<Longrightarrow> room (f st') \<and> written (f st') = written st'"
  shows "call_good c st (map_option f (timed_line render line st0))"
proof -
  obtain st' where "timed_line render line st0 = Some st'" "room st'" "account st' = account st0" "marked_objects st' = marked_objects st0"
    "\<exists>s. written st' = written st0 @ s" using timed_line_runs [where render = render, OF short rm, of line] by auto
  then show ?thesis using same(1) same(2) [of st'] same(3) [of st'] by (auto simp: call_good_def accounts_def)
qed

lemma new_object_runs:
  assumes short: "\<And>t l. length (render t l) \<le> BUFFER_DEAD_NUMBER" and rm: "room st"
  shows "\<exists>st'. log_new_object render st = Some st' \<and> room st' \<and> accounts st' = accounts st
    \<and> written st' = written st @ (if last_object_size (account st) \<noteq> prev_object_size st \<and> prev_object_size st \<noteq> -1
        then render (times st) (objects_line st) else [])
    \<and> new_objects_count st' = (if last_object_size (account st) \<noteq> prev_object_size st \<and> prev_object_size st \<noteq> -1
        then 1 else new_objects_count st + 1)
    \<and> prev_object_size st' = last_object_size (account st)"
proof (cases "last_object_size (account st) \<noteq> prev_object_size st \<and> prev_object_size st \<noteq> -1")
  case True
  let ?st = "st\<lparr>extra_log := True\<rparr>"
  have o: "objects_line ?st = objects_line st" "\<not> waiting ?st" "room ?st" using rm by (simp_all add: objects_line_def waiting_def)
  obtain st' where "timed_line render objects_line ?st = Some st'" "room st'" "accounts st' = accounts st"
    "written st' = written st @ render (times st) (objects_line st)" "account st' = account st"
    using timed_line_runs [where render = render, OF short o(3), of objects_line] o by (auto simp: accounts_def)
  then show ?thesis using True by (simp add: log_new_object_def accounts_def)
next
  case False
  then show ?thesis using rm by (auto simp: log_new_object_def accounts_def)
qed

lemma call_runs:
  assumes short: "\<And>t l. length (render t l) \<le> BUFFER_DEAD_NUMBER" and rm: "room st" and c: "c \<noteq> Log INIT_ALLOCATOR START"
  shows "call_good c st (text_call fl render c st)"
proof -
  note line = line_good [where render = render, OF short]
  have same: "call_good c st (timed_line render l st0)"
    if "room st0" "written st0 = written st" "accounts st0 = tally c (accounts st)" for l st0 c
    using line [OF that(1,2), of id c l] that(3) by (simp add: option.map_id)
  have stay: "call_good c st (Some st0)" if "room st0" "written st0 = written st" "accounts st0 = tally c (accounts st)" for st0 c
    using that by (auto simp: call_good_def)
  show ?thesis
  proof (cases c)
    case (Limit h p)
    then show ?thesis using rm by (auto simp: text_set_memory_limit_def Let_def accounts_def intro!: same)
  next
    case (Check n)
    let ?st = "st\<lparr>account := (account st)\<lparr>last_object_size := n\<rparr>\<rparr>"
    have "map_option snd (text_check_the_space render n st)
      = (if memory_used (account st) + n > memory_limit (account st)
         then timed_line render (\<lambda>_. Denied_line (memory_limit (account st) - memory_used (account st)) (memory_limit (account st))) ?st
         else Some ?st)"
      by (auto simp: text_check_the_space_def Let_def map_option_bind option.map_ident split: Option.bind_split)
    then show ?thesis using Check rm by (auto simp: accounts_def intro!: same stay)
  next
    case (Alive n)
    then show ?thesis using rm by (auto simp: text_log_mark_alive_def log_text_def accounts_def intro!: stay)
  next
    case (Log ty res)
    show ?thesis
    proof (cases "ty = ALLOCATE_NEW_OBJECT \<and> res = OK \<or> ty = MARK \<or> ty = DESTROY_ALLOCATOR \<and> res = OK")
      case False
      then show ?thesis
        using Log c rm by (cases ty; cases res) (auto simp: log_text_def Let_def accounts_def intro!: same stay)
    next
      case True
      then consider "ty = ALLOCATE_NEW_OBJECT" "res = OK" | "ty = MARK" | "ty = DESTROY_ALLOCATOR" "res = OK" by blast
      then show ?thesis
      proof cases
        case 1
        let ?g = "account st"
        let ?g' = "?g\<lparr>object_count := object_count ?g + 1, memory_used := memory_used ?g + last_object_size ?g\<rparr>"
        have "room (st\<lparr>account := ?g'\<rparr>)" using rm by simp
        from new_object_runs [where render = render, OF short this] have "call_good c st (log_new_object render (st\<lparr>account := ?g'\<rparr>))"
          using Log 1 by (auto simp: call_good_def accounts_def)
        then show ?thesis using Log 1 rm by (auto simp: log_text_def Let_def accounts_def intro!: same)
      next
        case 2
        have m: "x \<bind> (\<lambda>st. Some (f st)) = map_option f x" for x :: "text_log option" and f by (cases x) simp_all
        show ?thesis using Log 2 rm
          by (cases res) (auto simp: log_text_def Let_def accounts_def m intro!: line stay)
      next
        case 3
        have "room st' \<Longrightarrow> room (printf_in_file st')" for st'
          by (auto simp: room_def printf_in_file_def BUFFER_DEAD_NUMBER_def BUFFER_SIZE_def)
        then show ?thesis using Log 3 rm by (auto simp: log_text_def accounts_def intro!: line)
      qed
    qed
  qed
qed

lemma calls_run:
  assumes short: "\<And>t l. length (render t l) \<le> BUFFER_DEAD_NUMBER" and "room st" and "Log INIT_ALLOCATOR START \<notin> set cs"
  shows "\<exists>st'. text_calls fl render cs st = Some st' \<and> room st' \<and> (\<exists>s. written st' = written st @ s)
    \<and> accounts st' = fold tally cs (accounts st)"
  using assms(2,3)
proof (induction cs arbitrary: st)
  case (Cons c cs)
  obtain st1 where s1: "text_call fl render c st = Some st1" "room st1" "\<exists>s. written st1 = written st @ s" "accounts st1 = tally c (accounts st)"
    using call_runs [where render = render and fl = fl, OF short Cons.prems(1), of c] Cons.prems(2) by (auto simp: call_good_def)
  obtain st2 where "text_calls fl render cs st1 = Some st2" "room st2" "\<exists>s. written st2 = written st1 @ s" "accounts st2 = fold tally cs (accounts st1)"
    using Cons.IH [OF s1(2)] Cons.prems(2) by auto
  then show ?case using s1 by auto
qed auto


section \<open>Properties\<close>

text \<open>The first call opens the file.\<close>

lemma opening_runs:
  assumes short: "\<And>t l. length (render t l) \<le> BUFFER_DEAD_NUMBER" and "log_buffer st = []" and "new_objects_count st = 0"
  shows "\<exists>st'. log_text fl render build (Some f) INIT_ALLOCATOR START st = Some st' \<and> room st'
    \<and> written st' = f @ render 0 Start_line \<and> accounts st' = accounts st"
proof -
  have "length (render 0 Start_line) \<le> 333" using short [of 0 Start_line] by (simp add: BUFFER_DEAD_NUMBER_def)
  moreover from this have "\<not> 2000000 - length (render 0 Start_line) \<le> 333" by arith
  ultimately show ?thesis using assms(2,3)
    by (simp add: log_text_def add_log_line_def put_line_def flush_full_def room_def accounts_def written_def Let_def
        BUFFER_SIZE_def BUFFER_DEAD_NUMBER_def)
qed

text \<open>Without a file the buffer is never emptied.\<close>

lemma timed_line_unopened:
  assumes "timed_line render l st = Some st'" and "log_file st = None" and full: "\<And>t l. render t l \<noteq> []"
  shows "log_file st' = None \<and> length (log_buffer st) < length (log_buffer st') \<and> length (log_buffer st') < BUFFER_SIZE"
proof -
  have "0 < length (render t k)" for t k using full by simp
  moreover have "flush_full st0 = st0" if "log_file st0 = None" for st0
    using that by (simp add: flush_full_def printf_in_file_def)
  ultimately show ?thesis using assms(1,2)
    by (auto simp: timed_line_def add_log_line_def log_time_def put_line_def Let_def bind_eq_Some_conv trans_less_add1 split: if_splits)
qed

lemma unopened_calls:
  assumes full: "\<And>t l. render t l \<noteq> []"
  shows "text_calls fl render (replicate n (Log SWEEP OK)) st = Some st' \<Longrightarrow> log_file st = None
    \<Longrightarrow> length (log_buffer st) + n \<le> length (log_buffer st') \<and> (0 < n \<longrightarrow> length (log_buffer st') < BUFFER_SIZE)"
proof (induction n arbitrary: st)
  case (Suc n)
  obtain st1 where s1: "timed_line render (\<lambda>st. Sweep_done_line (sweep_stage_count st)) st = Some st1"
    and r: "text_calls fl render (replicate n (Log SWEEP OK)) st1 = Some st'"
    using Suc.prems(1) by (auto simp: log_text_def bind_eq_Some_conv)
  note one = timed_line_unopened [OF s1 Suc.prems(2) full]
  show ?case using Suc.IH [OF r] one r by (cases n) auto
qed simp

lemma unopened_overflows:
  assumes "\<And>t l. render t l \<noteq> []" and "log_file st = None"
  shows "text_calls fl render (replicate BUFFER_SIZE (Log SWEEP OK)) st = None"
proof (rule ccontr)
  assume "text_calls fl render (replicate BUFFER_SIZE (Log SWEEP OK)) st \<noteq> None"
  then obtain st' where "text_calls fl render (replicate BUFFER_SIZE (Log SWEEP OK)) st = Some st'" by auto
  from unopened_calls [OF assms(1) this assms(2)] have "length (log_buffer st') < BUFFER_SIZE" "BUFFER_SIZE \<le> length (log_buffer st')"
    by (auto simp: BUFFER_SIZE_def)
  then show False using leD by blast
qed

text \<open>C38: in a build with \<^verbatim>\<open>LOG\<close> in which no line is longer than 333 characters: once the log file is open, no
  sequence of calls that does not open it again writes beyond the buffer; what is written, in file and buffer
  together, only grows at its end, and the accounts are those of the calls, whether or not the
  buffer was flushed on the way. The first call of the program, if the file could be opened, leads
  into such a state. If the file could not be opened, the buffer is never emptied, and a sequence of
  two million lines, if none is empty, writes beyond it.\<close>

theorem log_calls_correct:
  assumes "\<And>t l. length (render t l) \<le> BUFFER_DEAD_NUMBER" and "room st" and "Log INIT_ALLOCATOR START \<notin> set cs"
  shows "(\<exists>st'. text_calls fl render cs st = Some st' \<and> room st' \<and> (\<exists>s. written st' = written st @ s)
      \<and> accounts st' = fold tally cs (accounts st))
    \<and> (\<forall>st0 build f. log_buffer st0 = [] \<and> new_objects_count st0 = 0 \<longrightarrow>
        (\<exists>st1. log_text fl render build (Some f) INIT_ALLOCATOR START st0 = Some st1 \<and> room st1
          \<and> written st1 = f @ render 0 Start_line \<and> accounts st1 = accounts st0))
    \<and> (\<forall>st0. log_file st0 = None \<and> (\<forall>t l. render t l \<noteq> []) \<longrightarrow>
        text_calls fl render (replicate BUFFER_SIZE (Log SWEEP OK)) st0 = None)"
proof (intro conjI allI impI; (elim conjE)?)
  show "\<exists>st'. text_calls fl render cs st = Some st' \<and> room st' \<and> (\<exists>s. written st' = written st @ s)
      \<and> accounts st' = fold tally cs (accounts st)"
    by (rule calls_run [where render = render, OF assms])
  show "\<exists>st1. log_text fl render build (Some f) INIT_ALLOCATOR START st0 = Some st1 \<and> room st1
      \<and> written st1 = f @ render 0 Start_line \<and> accounts st1 = accounts st0"
    if "log_buffer st0 = []" "new_objects_count st0 = 0" for st0 build f
    by (rule opening_runs [where render = render, OF assms(1) that])
  show "text_calls fl render (replicate BUFFER_SIZE (Log SWEEP OK)) st0 = None"
    if "log_file st0 = None" "\<forall>t l. render t l \<noteq> []" for st0
    by (rule unopened_overflows) (use that in simp_all)
qed

definition ex_text :: text_log where
  "ex_text = \<lparr>log_file = Some [], log_file_name = build_name None, log_buffer = [], times = 0, prev_object_size = -1, marked_objects = 0,
     mark_stage_count = 0, sweep_stage_count = 0, new_objects_count = 0, extra_log = False,
     account = \<lparr>last_object_size = 0, memory_limit = 0, memory_used = 0, object_count = 0, m_size = 0\<rparr>\<rparr>"

lemma ex_text_room: "room ex_text"
  by (simp add: room_def ex_text_def BUFFER_SIZE_def BUFFER_DEAD_NUMBER_def)

theorem log_calls_correct_witness:
  "\<exists>st'. text_calls False (\<lambda>t l. ''line'') [Limit 8192 100, Check 8, Log ALLOCATE_NEW_OBJECT OK, Check 16, Log ALLOCATE_NEW_OBJECT OK] ex_text
      = Some st' \<and> memory_limit (account st') = 8192 \<and> memory_used (account st') = 24 \<and> object_count (account st') = 2"
proof -
  have "length ((\<lambda>t l. ''line'') t l) \<le> BUFFER_DEAD_NUMBER" for t :: nat and l :: log_line by (simp add: BUFFER_DEAD_NUMBER_def)
  from conjunct1 [OF log_calls_correct [OF this ex_text_room, of "[Limit 8192 100, Check 8, Log ALLOCATE_NEW_OBJECT OK, Check 16, Log ALLOCATE_NEW_OBJECT OK]" False]]
  show ?thesis by (auto simp: ex_text_def accounts_def)
qed

text \<open>After a marking that announces the sizes of the marked objects, the accounts hold the number of
  these objects and the sum of their sizes.\<close>

theorem log_after_marking:
  assumes "\<And>t l. length (render t l) \<le> BUFFER_DEAD_NUMBER" and "room st"
  shows "\<exists>st'. text_calls fl render (Log MARK START # map Alive ns @ [Log MARK OK]) st = Some st'
    \<and> account st' = (account st)\<lparr>object_count := of_nat (length ns), memory_used := m_size (account st) + sum_list ns, m_size := 0\<rparr>"
proof -
  have al: "fold tally (map Alive ns) (g, k) = (g\<lparr>m_size := m_size g + sum_list ns\<rparr>, k + of_nat (length ns))" for g k
    by (induction ns arbitrary: g k) (simp_all add: algebra_simps)
  from calls_run [where render = render and fl = fl, OF assms, of "Log MARK START # map Alive ns @ [Log MARK OK]"]
  obtain st' where r: "text_calls fl render (Log MARK START # map Alive ns @ [Log MARK OK]) st = Some st'"
    "accounts st' = fold tally (Log MARK START # map Alive ns @ [Log MARK OK]) (accounts st)" by auto
  have "account st' = fst (accounts st')" by (simp add: accounts_def)
  then show ?thesis using r(1) unfolding r(2) by (simp add: accounts_def al)
qed

theorem log_after_marking_witness:
  "\<exists>st'. text_calls False (\<lambda>t l. ''line'') [Log MARK START, Alive 8, Alive 2008, Log MARK OK] ex_text = Some st'
    \<and> memory_used (account st') = 2016 \<and> object_count (account st') = 2"
proof -
  have "length ((\<lambda>t l. ''line'') t l) \<le> BUFFER_DEAD_NUMBER" for t :: nat and l :: log_line by (simp add: BUFFER_DEAD_NUMBER_def)
  from log_after_marking [OF this ex_text_room, of False "[8, 2008]"] show ?thesis by (auto simp: ex_text_def)
qed

text \<open>When the size of objects changes, the line that closes the batch is written after
  \<^verbatim>\<open>check_the_space\<close> has stored the size of the next object: it reports that size, and the product of it
  and the number of objects in the batch, not the size of the objects of the batch.\<close>

theorem batch_reports_next_size:
  assumes "\<And>t l. length (render t l) \<le> BUFFER_DEAD_NUMBER" and "room st"
    and "prev_object_size st \<noteq> -1" and "last_object_size (account st) \<noteq> prev_object_size st"
  shows "\<exists>st' l. log_text False render build file ALLOCATE_NEW_OBJECT OK st = Some st' \<and> written st' = written st @ render (times st) l
    \<and> how_many l = new_objects_count st \<and> one_size l = last_object_size (account st)
    \<and> total_size l = last_object_size (account st) * scast (new_objects_count st)"
proof -
  let ?g = "account st"
  let ?st = "st\<lparr>account := ?g\<lparr>object_count := object_count ?g + 1, memory_used := memory_used ?g + last_object_size ?g\<rparr>\<rparr>"
  have "room ?st" using assms(2) by simp
  from new_object_runs [where render = render, OF assms(1) this] obtain st' where
    "log_new_object render ?st = Some st'" "written st' = written st @ render (times st) (objects_line ?st)"
    using assms(3,4) by auto
  then show ?thesis
    by (intro exI [of _ st'] exI [of _ "objects_line ?st"]) (simp add: log_text_def Let_def objects_line_def)
qed

text \<open>Two objects of 8 bytes, then one of 16: the line says two objects of 16 bytes, 32 in all.\<close>

lemma ex_batch:
  "\<exists>st. text_calls False (\<lambda>t l. ''line'') [Limit 8192 100, Check 8, Log ALLOCATE_NEW_OBJECT OK, Check 8, Log ALLOCATE_NEW_OBJECT OK, Check 16] ex_text
      = Some st \<and> room st \<and> prev_object_size st = 8 \<and> last_object_size (account st) = 16 \<and> new_objects_count st = 2"
  by (simp add: ex_text_def text_set_memory_limit_def text_check_the_space_def log_text_def timed_line_def add_log_line_def log_time_def
      put_line_def flush_full_def log_new_object_def room_def BUFFER_SIZE_def BUFFER_DEAD_NUMBER_def Let_def)

theorem batch_reports_next_size_witness:
  "\<exists>st st' l. text_calls False (\<lambda>t l. ''line'')
        [Limit 8192 100, Check 8, Log ALLOCATE_NEW_OBJECT OK, Check 8, Log ALLOCATE_NEW_OBJECT OK, Check 16] ex_text = Some st
    \<and> log_text False (\<lambda>t l. ''line'') None None ALLOCATE_NEW_OBJECT OK st = Some st' \<and> written st' = written st @ ''line''
    \<and> how_many l = 2 \<and> one_size l = 16 \<and> total_size l = 32"
proof -
  obtain st where st: "text_calls False (\<lambda>t l. ''line'')
        [Limit 8192 100, Check 8, Log ALLOCATE_NEW_OBJECT OK, Check 8, Log ALLOCATE_NEW_OBJECT OK, Check 16] ex_text = Some st"
    "room st" "prev_object_size st = 8" "last_object_size (account st) = 16" "new_objects_count st = 2" using ex_batch by blast
  have "length ((\<lambda>t l. ''line'') t l) \<le> BUFFER_DEAD_NUMBER" for t :: nat and l :: log_line by (simp add: BUFFER_DEAD_NUMBER_def)
  from batch_reports_next_size [OF this st(2), of None None] obtain st' l where
    "log_text False (\<lambda>t l. ''line'') None None ALLOCATE_NEW_OBJECT OK st = Some st'" "written st' = written st @ ''line''"
    "how_many l = 2" "one_size l = 16" "total_size l = 16 * scast (2 :: 32 word)" using st(3-5) by auto
  moreover have "16 * scast (2 :: 32 word) = (32 :: size_t)" by simp
  ultimately show ?thesis using st(1) by metis
qed


section \<open>The name of the log file\<close>

fun decimal :: "nat \<Rightarrow> string" where
  "decimal n = (if n = 0 then [] else decimal (n div 10) @ [char_of (n mod 10 + 48)])"

declare decimal.simps [simp del]

lemma fill_digits_decimal:
  "string_len n + i = len \<Longrightarrow> len \<le> length name \<Longrightarrow> fill_digits len i n name = decimal n @ drop (string_len n) name"
proof (induction len i n name rule: fill_digits.induct)
  case (1 len i n name)
  show ?case
  proof (cases "n = 0")
    case True
    then show ?thesis by (simp add: fill_digits.simps [of _ _ 0] string_len.simps [of 0] decimal.simps [of 0])
  next
    case False
    let ?k = "string_len (n div 10)" and ?c = "char_of (n mod 10 + 48) :: char"
    have s: "string_len n = Suc ?k" using False by (simp add: string_len.simps [of n])
    have k: "len - 1 - i = ?k" "?k < length name" using s 1(2,3) by simp_all
    have "fill_digits len i n name = fill_digits len (i + 1) (n div 10) (name[?k := ?c])"
      using False k(1) by (simp add: fill_digits.simps [of len i n])
    also have "\<dots> = decimal (n div 10) @ drop ?k (name[?k := ?c])" using 1(1) [OF False] 1(2,3) s k(1) by simp
    also have "drop ?k (name[?k := ?c]) = ?c # drop (Suc ?k) name"
      using k(2) by (metis Cons_nth_drop_Suc drop_update_cancel length_list_update lessI nth_list_update_eq)
    finally show ?thesis using False s by (simp add: decimal.simps [of n])
  qed
qed

lemma build_name_decimal: "string_len (n + 1) \<le> 25 \<Longrightarrow> build_name (Some n) = decimal (n + 1) @ ''.log''"
proof -
  have "length (decimal m) = string_len m" for m
    by (induction m rule: decimal.induct) (simp add: decimal.simps string_len.simps)
  then show "string_len (n + 1) \<le> 25 \<Longrightarrow> build_name (Some n) = decimal (n + 1) @ ''.log''"
    using fill_digits_decimal [of "n + 1" 0 "string_len (n + 1)" "replicate 25 (char_of (0 :: nat))"]
    by (simp add: build_name_def Let_def)
qed

end
