(* ===== verification/Small_Threads.thy ===== *)
theory Small_Threads
  imports Small_Properties
begin

text \<open>
  \<^verbatim>\<open>allocate_small_object\<close> as several threads run it at once: the two spin locks are taken and released,
  and what a thread does between them interleaves with the others. A step of a thread is one access to
  a list or a lock, one turn of the inner loop, or one piece of work on the header of the block in hand.
  The accounts of the log are left out: nothing the allocator returns depends on them.
\<close>

section \<open>State\<close>

text \<open>
  Where a thread is, with its local variables: the size \<open>k\<close> it requests, \<^verbatim>\<open>curr_entry\<close>,
  \<^verbatim>\<open>slider_position\<close>, and in \<open>Slide\<close> the flag \<^verbatim>\<open>is_checking_cache\<close>.
\<close>

datatype request_pc = Idle
  | Slide bool nat nat size_t
  | Segreg_lock nat | Segreg_read nat | Segreg_write nat nat | Segreg_unlock nat "nat option"
  | Empty_lock nat | Empty_read nat | Empty_write nat nat | Empty_clear nat nat | Empty_unlock nat "nat option"
  | Fill nat nat "nat option"
  | Init nat nat
  | Take nat nat

text \<open>\<open>answers\<close> records, last first, which thread got which address for which size (0 is \<^verbatim>\<open>NULL\<close>), and
  \<open>refused\<close> whether some thread has found no block; both are only for the statements.\<close>

record requests =
  shared :: small_state
  memory :: mem
  at :: "nat \<Rightarrow> request_pc"
  empty_list_lock :: "nat option"
  segreg_lists_locks :: "nat \<Rightarrow> nat option"
  answers :: "(nat \<times> nat \<times> size_t) list"
  refused :: bool

definition goes :: "nat \<Rightarrow> request_pc \<Rightarrow> requests \<Rightarrow> requests" where
  "goes t p w = w\<lparr>at := (at w)(t := p)\<rparr>"


section \<open>Steps\<close>

text \<open>\<^verbatim>\<open>lock_segreg_list\<close>, \<^verbatim>\<open>lock_empty_list\<close> and their counterparts; \<open>None\<close> is a lock that is held.\<close>

definition lock_segreg_list :: "nat \<Rightarrow> nat \<Rightarrow> requests \<Rightarrow> requests option" where
  "lock_segreg_list t k w =
     (if segreg_lists_locks w k = None then Some (w\<lparr>segreg_lists_locks := (segreg_lists_locks w)(k := Some t)\<rparr>) else None)"

definition unlock_segreg_list :: "nat \<Rightarrow> requests \<Rightarrow> requests" where
  "unlock_segreg_list k w = w\<lparr>segreg_lists_locks := (segreg_lists_locks w)(k := None)\<rparr>"

definition lock_empty_list :: "nat \<Rightarrow> requests \<Rightarrow> requests option" where
  "lock_empty_list t w = (if empty_list_lock w = None then Some (w\<lparr>empty_list_lock := Some t\<rparr>) else None)"

definition unlock_empty_list :: "requests \<Rightarrow> requests" where
  "unlock_empty_list w = w\<lparr>empty_list_lock := None\<rparr>"

text \<open>The block in hand is searched from its slider on.\<close>

definition start_slide :: "nat \<Rightarrow> bool \<Rightarrow> nat \<Rightarrow> nat \<Rightarrow> requests \<Rightarrow> requests" where
  "start_slide t is_checking_cache k c w =
     goes t (Slide is_checking_cache k c
       (load64 (memory w) (GET_SLIDER_POSITION_ADDR (block_addr (NODES_LIST (shared w) c))))) w"

text \<open>The call, up to the first turn of the outer loop, with the guard of \<^verbatim>\<open>allocate_new_object\<close>.\<close>

definition request_call :: "nat \<Rightarrow> nat \<Rightarrow> requests \<Rightarrow> requests option" where
  "request_call t k w =
     (if at w t = Idle \<and> 1 \<le> k \<and> k \<le> unat MAX_OBJECT_SIZE
      then Some (case nodes_cache (shared w) t k of
          Some c \<Rightarrow> start_slide t True k c w
        | None \<Rightarrow> goes t (Segreg_lock k) w)
      else None)"

text \<open>One turn of the inner loop, and what follows it in the outer loop.\<close>

definition slide_step :: "nat \<Rightarrow> bool \<Rightarrow> nat \<Rightarrow> nat \<Rightarrow> size_t \<Rightarrow> requests \<Rightarrow> requests option" where
  "slide_step t is_checking_cache k c slider_position w =
     (let s = shared w; b = block_addr (NODES_LIST s c); n = GET_SIZE_WITH_ALIGNMENT (of_nat k)
      in if slider_position + n \<le> b + BLOCK_SIZE then do {
           v \<leftarrow> get_bit_by_address (START_ALLOCATOR_HEAP s) (memory w) slider_position;
           if v = 0 then
             Some (goes t (Take k c) (w\<lparr>memory := store64 (memory w) (GET_SLIDER_POSITION_ADDR b) slider_position\<rparr>))
           else do {
             m \<leftarrow> set_bit_by_address (START_ALLOCATOR_HEAP s) slider_position 0 (memory w);
             Some (goes t (Slide is_checking_cache k c (slider_position + n)) (w\<lparr>memory := m\<rparr>))
           }
         } else
           Some (goes t (Segreg_lock k) (if is_checking_cache then w\<lparr>shared := set_cache t k None s\<rparr> else w)))"

text \<open>\<^verbatim>\<open>get_block_from_segreg_list\<close> and \<^verbatim>\<open>allocate_new_block\<close>, access by access. After the clearing of all
  bitmaps the request is refused.\<close>

definition segreg_step :: "nat \<Rightarrow> request_pc \<Rightarrow> requests \<Rightarrow> requests option" where
  "segreg_step t pc w =
     (case pc of
        Segreg_lock k \<Rightarrow> map_option (goes t (Segreg_read k)) (lock_segreg_list t k w)
      | Segreg_read k \<Rightarrow>
          Some (goes t (case SEGREG_LIST (shared w) k of Some c \<Rightarrow> Segreg_write k c | None \<Rightarrow> Segreg_unlock k None) w)
      | Segreg_write k c \<Rightarrow>
          Some (goes t (Segreg_unlock k (Some c))
            (w\<lparr>shared := (shared w)\<lparr>SEGREG_LIST := (SEGREG_LIST (shared w))(k := next_node (NODES_LIST (shared w) c))\<rparr>\<rparr>))
      | Segreg_unlock k r \<Rightarrow>
          Some (case r of
              Some c \<Rightarrow> start_slide t False k c (unlock_segreg_list k w)
            | None \<Rightarrow> goes t (Empty_lock k) (unlock_segreg_list k w))
      | _ \<Rightarrow> None)"

definition empty_step :: "nat \<Rightarrow> request_pc \<Rightarrow> requests \<Rightarrow> requests option" where
  "empty_step t pc w =
     (case pc of
        Empty_lock k \<Rightarrow> map_option (goes t (Empty_read k)) (lock_empty_list t w)
      | Empty_read k \<Rightarrow>
          Some (goes t (case EMPTY_LIST_HEAD (shared w) of Some c \<Rightarrow> Empty_write k c | None \<Rightarrow> Empty_unlock k None) w)
      | Empty_write k c \<Rightarrow>
          Some (goes t (Empty_clear k c) (w\<lparr>shared := (shared w)\<lparr>EMPTY_LIST_HEAD := next_node (NODES_LIST (shared w) c)\<rparr>\<rparr>))
      | Empty_clear k c \<Rightarrow>
          Some (goes t (Empty_unlock k (Some c))
            (w\<lparr>shared := (shared w)\<lparr>NODES_LIST := (NODES_LIST (shared w))(c := (NODES_LIST (shared w) c)\<lparr>next_node := None\<rparr>)\<rparr>\<rparr>))
      | Empty_unlock k r \<Rightarrow>
          Some (case r of
              Some c \<Rightarrow> goes t (Init k c) (unlock_empty_list w)
            | None \<Rightarrow> goes t (Fill k 1 (SEGREG_LIST (shared w) 1)) ((unlock_empty_list w)\<lparr>refused := True\<rparr>))
      | _ \<Rightarrow> None)"

text \<open>One block of \<^verbatim>\<open>fill_all_bitmaps_with_zeros\<close>, which takes no lock; size \<open>i\<close>, next block \<open>cur\<close>.\<close>

definition fill_step :: "nat \<Rightarrow> nat \<Rightarrow> nat \<Rightarrow> nat option \<Rightarrow> requests \<Rightarrow> requests" where
  "fill_step t k i cur w =
     (case cur of
        Some c \<Rightarrow> goes t (Fill k i (next_node (NODES_LIST (shared w) c)))
          (w\<lparr>memory := clear_bitmap_words (BITMAP_BYTES_COUNT div 8) (GET_BITMAP_ADDR (block_addr (NODES_LIST (shared w) c))) (memory w)\<rparr>)
      | None \<Rightarrow>
          if i + 1 < OBJECT_SIZE_UPPER_BOUND then goes t (Fill k (i + 1) (SEGREG_LIST (shared w) (i + 1))) w
          else goes t Idle (w\<lparr>answers := (t, k, 0) # answers w\<rparr>))"

text \<open>The end of the function: the slot at the slider is returned.\<close>

definition take_step :: "nat \<Rightarrow> nat \<Rightarrow> nat \<Rightarrow> requests \<Rightarrow> requests" where
  "take_step t k c w =
     (let b = block_addr (NODES_LIST (shared w) c);
          slider_position = load64 (memory w) (GET_SLIDER_POSITION_ADDR b);
          new_slider_position = slider_position + GET_SIZE_WITH_ALIGNMENT (of_nat k)
      in goes t Idle (w\<lparr>shared := set_cache t k (if new_slider_position \<ge> b + BLOCK_SIZE then None else Some c) (shared w),
           memory := store64 (memory w) (GET_SLIDER_POSITION_ADDR b) new_slider_position,
           answers := (t, k, slider_position) # answers w\<rparr>))"

definition request_step :: "nat \<Rightarrow> requests \<Rightarrow> requests option" where
  "request_step t w =
     (case at w t of
        Idle \<Rightarrow> None
      | Slide is_checking_cache k c p \<Rightarrow> slide_step t is_checking_cache k c p w
      | Fill k i cur \<Rightarrow> Some (fill_step t k i cur w)
      | Init k c \<Rightarrow> Some (goes t (Take k c)
          (w\<lparr>memory := init_header (NODES_LIST (shared w) c) (of_nat k) (memory w)\<rparr>))
      | Take k c \<Rightarrow> Some (take_step t k c w)
      | Segreg_lock k \<Rightarrow> segreg_step t (Segreg_lock k) w
      | Segreg_read k \<Rightarrow> segreg_step t (Segreg_read k) w
      | Segreg_write k c \<Rightarrow> segreg_step t (Segreg_write k c) w
      | Segreg_unlock k r \<Rightarrow> segreg_step t (Segreg_unlock k r) w
      | pc \<Rightarrow> empty_step t pc w)"

text \<open>An event is a call, or a step of a thread that is in the function.\<close>

datatype request_event = Call nat nat | Go nat

fun request_fire :: "request_event \<Rightarrow> requests \<Rightarrow> requests option" where
  "request_fire (Call t k) w = request_call t k w"
| "request_fire (Go t) w = request_step t w"

fun request_run :: "request_event list \<Rightarrow> requests \<Rightarrow> requests option" where
  "request_run [] w = Some w"
| "request_run (e # es) w = (case request_fire e w of None \<Rightarrow> None | Some w' \<Rightarrow> request_run es w')"

text \<open>Nobody is in the function.\<close>

definition quiet :: "small_state \<Rightarrow> mem \<Rightarrow> requests" where
  "quiet s m = \<lparr>shared = s, memory = m, at = \<lambda>_. Idle, empty_list_lock = None, segreg_lists_locks = \<lambda>_. None,
     answers = [], refused = False\<rparr>"

lemma goes_simps [simp]:
  "shared (goes t p w) = shared w" "memory (goes t p w) = memory w" "at (goes t p w) = (at w)(t := p)"
  "empty_list_lock (goes t p w) = empty_list_lock w" "segreg_lists_locks (goes t p w) = segreg_lists_locks w"
  "answers (goes t p w) = answers w" "refused (goes t p w) = refused w"
  by (simp_all add: goes_def)

end
