(* ===== verification/Small_Interleaving.thy ===== *)
theory Small_Interleaving
  imports Small_Threads
begin

text \<open>
  The invariant of concurrent requests: which thread has which block in hand, what it may rely on
  there, and the space that is still to be handed out. A step keeps the invariant and the space only
  shrinks.
\<close>

section \<open>Blocks in hand\<close>

fun hold :: "request_pc \<Rightarrow> nat option" where
  "hold (Slide _ _ c _) = Some c"
| "hold (Segreg_unlock _ r) = r"
| "hold (Empty_clear _ c) = Some c"
| "hold (Empty_unlock _ r) = r"
| "hold (Init _ c) = Some c"
| "hold (Take _ c) = Some c"
| "hold _ = None"

fun asks :: "request_pc \<Rightarrow> nat" where
  "asks Idle = 1"
| "asks (Slide _ k _ _) = k"
| "asks (Segreg_lock k) = k"
| "asks (Segreg_read k) = k"
| "asks (Segreg_write k _) = k"
| "asks (Segreg_unlock k _) = k"
| "asks (Empty_lock k) = k"
| "asks (Empty_read k) = k"
| "asks (Empty_write k _) = k"
| "asks (Empty_clear k _) = k"
| "asks (Empty_unlock k _) = k"
| "asks (Fill k _ _) = k"
| "asks (Init k _) = k"
| "asks (Take k _) = k"

text \<open>What the thread at \<open>pc\<close> knows of the header of the block \<open>b\<close> in its hand.\<close>

fun header_ok :: "mem \<Rightarrow> size_t \<Rightarrow> request_pc \<Rightarrow> bool" where
  "header_ok m b (Slide _ k _ p) \<longleftrightarrow> sized m b k \<and> (\<exists>j \<le> slots (al k). p = slot b (al k) j)"
| "header_ok m b (Segreg_unlock k _) \<longleftrightarrow> opened m b k"
| "header_ok m b (Take k _) \<longleftrightarrow> sized m b k \<and> (\<exists>j < slots (al k). load64 m b = slot b (al k) j \<and> \<not> slot_marked m b j)"
| "header_ok m b _ \<longleftrightarrow> True"

text \<open>What it knows of its cache, and of the list whose lock it holds.\<close>

fun cache_ok :: "(nat \<Rightarrow> nat option) \<Rightarrow> request_pc \<Rightarrow> bool" where
  "cache_ok f Idle \<longleftrightarrow> True"
| "cache_ok f (Slide h k c _) \<longleftrightarrow> f k = (if h then Some c else None)"
| "cache_ok f (Take k c) \<longleftrightarrow> f k \<in> {None, Some c}"
| "cache_ok f pc \<longleftrightarrow> f (asks pc) = None"

fun read_ok :: "nat \<Rightarrow> small_state \<Rightarrow> request_pc \<Rightarrow> bool" where
  "read_ok N s (Segreg_write k c) \<longleftrightarrow> SEGREG_LIST s k = Some c"
| "read_ok N s (Empty_write k c) \<longleftrightarrow> EMPTY_LIST_HEAD s = Some c"
| "read_ok N s (Fill k i cur) \<longleftrightarrow> set_option cur \<subseteq> {..<N} \<and> 1 \<le> i \<and> i < OBJECT_SIZE_UPPER_BOUND"
| "read_ok N s _ \<longleftrightarrow> True"

fun holds_segreg :: "request_pc \<Rightarrow> nat option" where
  "holds_segreg (Segreg_read k) = Some k"
| "holds_segreg (Segreg_write k _) = Some k"
| "holds_segreg (Segreg_unlock k _) = Some k"
| "holds_segreg _ = None"

fun holds_empty :: "request_pc \<Rightarrow> bool" where
  "holds_empty (Empty_read _) = True"
| "holds_empty (Empty_write _ _) = True"
| "holds_empty (Empty_clear _ _) = True"
| "holds_empty (Empty_unlock _ _) = True"
| "holds_empty _ = False"

fun filling :: "request_pc \<Rightarrow> bool" where
  "filling (Fill _ _ _) = True"
| "filling _ = False"

definition spin_ok :: "requests \<Rightarrow> bool" where
  "spin_ok w \<longleftrightarrow> (\<forall>t k. segreg_lists_locks w k = Some t \<longleftrightarrow> holds_segreg (at w t) = Some k)
     \<and> (\<forall>t. empty_list_lock w = Some t \<longleftrightarrow> holds_empty (at w t))"

text \<open>The geometry of the heap, and that the links lead to nodes of the heap.\<close>

definition heap_shape :: "size_t \<Rightarrow> small_state \<Rightarrow> bool" where
  "heap_shape H s \<longleftrightarrow> small_room H (START_ALLOCATOR_HEAP s) \<and> END_ALLOCATOR_HEAP s = START_ALLOCATOR_HEAP s + H
     \<and> (\<forall>i < BLOCKS_COUNT H. block_addr (NODES_LIST s i) = blk (START_ALLOCATOR_HEAP s) i)"

definition links_ok :: "nat \<Rightarrow> small_state \<Rightarrow> bool" where
  "links_ok N s \<longleftrightarrow> (\<forall>i < N. set_option (next_node (NODES_LIST s i)) \<subseteq> {..<N})"

abbreviation base :: "requests \<Rightarrow> nat \<Rightarrow> size_t" where
  "base w i \<equiv> blk (START_ALLOCATOR_HEAP (shared w)) i"

definition thread_ok :: "nat \<Rightarrow> requests \<Rightarrow> nat \<Rightarrow> bool" where
  "thread_ok N w t \<longleftrightarrow> size_ok (asks (at w t)) \<and> cache_ok (nodes_cache (shared w) t) (at w t) \<and> read_ok N (shared w) (at w t)
     \<and> (filling (at w t) \<longrightarrow> refused w)"

definition hand_ok :: "size_t \<Rightarrow> requests \<Rightarrow> (nat \<Rightarrow> place) \<Rightarrow> nat \<Rightarrow> nat \<Rightarrow> bool" where
  "hand_ok H w pl i t \<longleftrightarrow> i < BLOCKS_COUNT H \<and> pl i \<in> {Detached, In_cache t (asks (at w t))}
     \<and> header_ok (memory w) (base w i) (at w t)"

text \<open>\<open>who\<close> says which thread has a block in hand.\<close>

definition requests_ok ::
  "size_t \<Rightarrow> requests \<Rightarrow> (nat \<Rightarrow> place) \<Rightarrow> nat list \<Rightarrow> (nat \<Rightarrow> nat list) \<Rightarrow> (nat \<Rightarrow> nat option) \<Rightarrow> bool" where
  "requests_ok H w pl es ss who \<longleftrightarrow>
     heap_shape H (shared w) \<and> links_ok (BLOCKS_COUNT H) (shared w) \<and> lists_ok (BLOCKS_COUNT H) (shared w) pl es ss
     \<and> (\<forall>i t. who i = Some t \<longleftrightarrow> hold (at w t) = Some i) \<and> (\<forall>i t. who i = Some t \<longrightarrow> hand_ok H w pl i t)
     \<and> (\<forall>i < BLOCKS_COUNT H. who i = None \<longrightarrow> placed (memory w) (base w i) (pl i))
     \<and> (\<forall>t. thread_ok (BLOCKS_COUNT H) w t) \<and> spin_ok w"


section \<open>Room\<close>

text \<open>The slots from address \<open>p\<close> on; with \<open>ign\<close> the marked ones too.\<close>

definition avail :: "bool \<Rightarrow> mem \<Rightarrow> size_t \<Rightarrow> nat \<Rightarrow> size_t \<Rightarrow> nat set" where
  "avail ign m b k p = (\<Union>j \<in> {j. j < slots (al k) \<and> unat (p - b) \<le> 80 + al k * j \<and> (ign \<or> \<not> slot_marked m b j)}. slot_range b k j)"

definition whole :: "size_t \<Rightarrow> nat set" where
  "whole b = {unat b + 80 ..< unat b + 4096}"

fun idle_room :: "bool \<Rightarrow> mem \<Rightarrow> size_t \<Rightarrow> place \<Rightarrow> nat set" where
  "idle_room ign m b In_empty = whole b"
| "idle_room ign m b (In_segreg k) = avail ign m b k (load64 m b)"
| "idle_room ign m b (In_cache t k) = avail ign m b k (load64 m b)"
| "idle_room ign m b Detached = {}"

fun hand_room :: "bool \<Rightarrow> mem \<Rightarrow> size_t \<Rightarrow> request_pc \<Rightarrow> nat set" where
  "hand_room ign m b (Slide _ k _ p) = avail ign m b k p"
| "hand_room ign m b (Segreg_unlock k _) = avail ign m b k (load64 m b)"
| "hand_room ign m b (Take k _) = avail ign m b k (load64 m b)"
| "hand_room ign m b _ = whole b"

definition space :: "bool \<Rightarrow> requests \<Rightarrow> (nat \<Rightarrow> place) \<Rightarrow> (nat \<Rightarrow> nat option) \<Rightarrow> nat \<Rightarrow> nat set" where
  "space ign w pl who i =
     (case who i of None \<Rightarrow> idle_room ign (memory w) (base w i) (pl i) | Some t \<Rightarrow> hand_room ign (memory w) (base w i) (at w t))"

definition rooms :: "bool \<Rightarrow> size_t \<Rightarrow> requests \<Rightarrow> (nat \<Rightarrow> place) \<Rightarrow> (nat \<Rightarrow> nat option) \<Rightarrow> nat set" where
  "rooms ign H w pl who = (\<Union>i < BLOCKS_COUNT H. space ign w pl who i)"

lemma avail_free: "avail False m b k (load64 m b) = free_slots m b k"
  by (simp add: avail_def free_slots_def free_slot_def)

lemma avail_mono: "avail False m b k p \<subseteq> avail True m b k p"
  by (auto simp: avail_def)

text \<open>At a slot.\<close>

lemma slot_before:
  assumes "size_ok k" and "j0 \<le> slots (al k)"
  shows "unat (slot b (al k) j0 - b) \<le> 80 + al k * j \<longleftrightarrow> j0 \<le> j"
proof -
  have "80 + al k * j0 \<le> 4096" by (rule slot_end [OF assms])
  then have "unat (of_nat (80 + al k * j0) :: size_t) = 80 + al k * j0" by (intro unat_of_nat_small) simp
  then have "unat (slot b (al k) j0 - b) = 80 + al k * j0" by (simp add: slot_def)
  then show ?thesis using al_bounds(1) [OF assms(1)] by simp
qed

lemma avail_slot:
  assumes "size_ok k" and "j0 \<le> slots (al k)"
  shows "avail ign m b k (slot b (al k) j0)
    = (\<Union>j \<in> {j. j0 \<le> j \<and> j < slots (al k) \<and> (ign \<or> \<not> slot_marked m b j)}. slot_range b k j)"
  unfolding avail_def slot_before [OF assms] by auto

lemma slot_ranges_apart: "i \<noteq> j \<Longrightarrow> slot_range b k i \<inter> slot_range b k j = {}"
proof -
  have "slot_range b k i \<inter> slot_range b k j = {}" if "i < j" for i j
  proof -
    have "al k * (i + 1) \<le> al k * j" using that by (intro mult_le_mono2) simp
    then show ?thesis by (auto simp: slot_range_def)
  qed
  then show "i \<noteq> j \<Longrightarrow> slot_range b k i \<inter> slot_range b k j = {}" by (metis Int_commute linorder_neqE_nat)
qed

lemma avail_advance:
  assumes k: "size_ok k" and j: "j < slots (al k)"
    and mk: "\<And>n. n < 512 \<Longrightarrow> n \<noteq> j \<Longrightarrow> slot_marked m' b n = slot_marked m b n"
  shows "avail ign m' b k (slot b (al k) (j + 1)) \<subseteq> avail ign m b k (slot b (al k) j) - slot_range b k j"
proof
  fix x assume "x \<in> avail ign m' b k (slot b (al k) (j + 1))"
  then obtain i where i: "j + 1 \<le> i" "i < slots (al k)" "ign \<or> \<not> slot_marked m' b i" "x \<in> slot_range b k i"
    using j by (subst (asm) avail_slot [OF k]) auto
  have "slot_marked m' b i = slot_marked m b i" using mk [of i] i(1,2) slots_ok(2) [OF k] by simp
  then have "i \<in> {i. j \<le> i \<and> i < slots (al k) \<and> (ign \<or> \<not> slot_marked m b i)}" using i by auto
  then have "x \<in> avail ign m b k (slot b (al k) j)"
    unfolding avail_slot [OF k less_imp_le [OF j]] using i(4) by (rule UN_I)
  moreover have "x \<notin> slot_range b k j" using slot_ranges_apart [of i j b k] i(1,4) by auto
  ultimately show "x \<in> avail ign m b k (slot b (al k) j) - slot_range b k j" by blast
qed

lemma avail_whole: assumes "size_ok k" shows "avail ign m b k p \<subseteq> whole b"
proof -
  have "80 + al k * j + al k \<le> 4096" if "j < slots (al k)" for j
    using that slot_fits [of "al k" j] al_bounds(1) [OF assms] by simp
  then show ?thesis by (fastforce simp: avail_def slot_range_def whole_def)
qed

text \<open>A block whose header is not touched.\<close>

lemma avail_cong:
  assumes "size_ok k" and "\<And>n. n < 512 \<Longrightarrow> slot_marked m' b n = slot_marked m b n"
  shows "avail ign m' b k p = avail ign m b k p"
  using assms(2) slots_ok(2) [OF assms(1)] by (auto simp: avail_def)

lemma other_header:
  assumes "small_room H B" and "c < BLOCKS_COUNT H" and "i < BLOCKS_COUNT H" and "i \<noteq> c" and "agree_off (blk B c) m m'"
  shows "load64 m' (blk B i) = load64 m (blk B i)" and "load64 m' (blk B i + 8) = load64 m (blk B i + 8)"
    and "n < 512 \<Longrightarrow> slot_marked m' (blk B i) n = slot_marked m (blk B i) n"
proof -
  have "m' (blk B i + of_nat j) = m (blk B i + of_nat j)" if "j < 80" for j
    using assms(5) blk_apart [OF assms(1-3) assms(4) [symmetric], of j] that by (simp add: agree_off_def)
  note same = same_block [of m' "blk B i" m, OF this]
  show "load64 m' (blk B i) = load64 m (blk B i)" "load64 m' (blk B i + 8) = load64 m (blk B i + 8)"
    "n < 512 \<Longrightarrow> slot_marked m' (blk B i) n = slot_marked m (blk B i) n" using same by blast+
qed

lemma sized_cong: "load64 m' (b + 8) = load64 m (b + 8) \<Longrightarrow> sized m' b = sized m b"
  by (simp add: sized_def fun_eq_iff)

lemma header_cong:
  assumes "load64 m' b = load64 m b" and "load64 m' (b + 8) = load64 m (b + 8)"
    and "\<And>n. n < 512 \<Longrightarrow> slot_marked m' b n = slot_marked m b n"
  shows "header_ok m' b pc = header_ok m b pc" and "placed m' b p = placed m b p"
    and "size_ok (asks pc) \<Longrightarrow> hand_room ign m' b pc = hand_room ign m b pc"
    and "placed m b p \<Longrightarrow> idle_room ign m' b p = idle_room ign m b p"
proof -
  note sz = sized_cong [OF assms(2)]
  have mk: "sized m b k \<Longrightarrow> j < slots (al k) \<Longrightarrow> slot_marked m' b j = slot_marked m b j" for k j
    using assms(3) slots_ok(2) by (fastforce simp: sized_def)
  show "header_ok m' b pc = header_ok m b pc"
    using mk assms(1) by (cases pc) (auto simp: sz opened_def)
  show "placed m' b p = placed m b p" using assms(1,2) by (cases p) (simp_all add: sz opened_def)
  show "size_ok (asks pc) \<Longrightarrow> hand_room ign m' b pc = hand_room ign m b pc"
    using assms(1) avail_cong [OF _ assms(3)] by (cases pc) simp_all
  show "placed m b p \<Longrightarrow> idle_room ign m' b p = idle_room ign m b p"
    using assms(1) avail_cong [OF _ assms(3)] by (cases p) (simp_all add: opened_def sized_def)
qed


lemma other_cong:
  assumes "small_room H B" and "c < BLOCKS_COUNT H" and "agree_off (blk B c) m m'" and "i < BLOCKS_COUNT H" and "i \<noteq> c"
  shows "header_ok m' (blk B i) pc = header_ok m (blk B i) pc" and "placed m' (blk B i) p = placed m (blk B i) p"
    and "size_ok (asks pc) \<Longrightarrow> hand_room ign m' (blk B i) pc = hand_room ign m (blk B i) pc"
    and "placed m (blk B i) p \<Longrightarrow> idle_room ign m' (blk B i) p = idle_room ign m (blk B i) p"
  using header_cong [where m = m and m' = m' and b = "blk B i", OF other_header(1,2) [OF assms(1,2,4,5,3)]]
    other_header(3) [OF assms(1,2,4,5,3)] by blast+


section \<open>Facts of the invariant\<close>

lemma requestsD:
  assumes "requests_ok H w pl es ss who"
  shows "heap_shape H (shared w)" "links_ok (BLOCKS_COUNT H) (shared w)" "lists_ok (BLOCKS_COUNT H) (shared w) pl es ss" "spin_ok w"
    and "who i = Some t \<longleftrightarrow> hold (at w t) = Some i" and "who i = Some t \<Longrightarrow> hand_ok H w pl i t"
    and "i < BLOCKS_COUNT H \<Longrightarrow> who i = None \<Longrightarrow> placed (memory w) (base w i) (pl i)"
    and "size_ok (asks (at w t))" "cache_ok (nodes_cache (shared w) t) (at w t)" "read_ok (BLOCKS_COUNT H) (shared w) (at w t)"
    and "filling (at w t) \<Longrightarrow> refused w"
  using assms by (auto simp: requests_ok_def thread_ok_def)

lemma in_hand:
  assumes "requests_ok H w pl es ss who" and "hold (at w t) = Some i"
  shows "who i = Some t" "i < BLOCKS_COUNT H" "pl i \<in> {Detached, In_cache t (asks (at w t))}"
    "header_ok (memory w) (base w i) (at w t)"
  using assms requestsD(5,6) [OF assms(1), of i t] by (auto simp: hand_ok_def)

lemma heap_base:
  assumes "heap_shape H s" and "i < BLOCKS_COUNT H"
  shows "block_addr (NODES_LIST s i) = blk (START_ALLOCATOR_HEAP s) i" "small_room H (START_ALLOCATOR_HEAP s)"
    and "block_at (START_ALLOCATOR_HEAP s) (blk (START_ALLOCATOR_HEAP s) i)" "unat (blk (START_ALLOCATOR_HEAP s) i) + 8192 < 2 ^ 64"
  using assms blk_block [of H] blk_end [of H] by (auto simp: heap_shape_def)

text \<open>Fields that no step changes.\<close>

definition same_heap :: "small_state \<Rightarrow> small_state \<Rightarrow> bool" where
  "same_heap s s' \<longleftrightarrow> START_ALLOCATOR_HEAP s' = START_ALLOCATOR_HEAP s \<and> END_ALLOCATOR_HEAP s' = END_ALLOCATOR_HEAP s
     \<and> (\<forall>i. block_addr (NODES_LIST s' i) = block_addr (NODES_LIST s i))"

lemma same_heap_ok: "same_heap s s' \<Longrightarrow> heap_shape H s' = heap_shape H s"
  by (simp add: same_heap_def heap_shape_def)

text \<open>What the step of a thread does to the facts of the others.\<close>

definition spares :: "nat \<Rightarrow> nat \<Rightarrow> requests \<Rightarrow> requests \<Rightarrow> bool" where
  "spares N t w w' \<longleftrightarrow> (refused w \<longrightarrow> refused w') \<and> (\<forall>u. u \<noteq> t \<longrightarrow> at w' u = at w u \<and> nodes_cache (shared w') u = nodes_cache (shared w) u
     \<and> read_ok N (shared w') (at w u))"

lemma spares_thread:
  assumes "spares N t w w'" and "u \<noteq> t" and "thread_ok N w u"
  shows "thread_ok N w' u"
  using assms by (simp add: spares_def thread_ok_def)

text \<open>A step with no block in hand, before or after.\<close>

lemma step_without:
  assumes ok: "requests_ok H w pl es ss who"
    and same: "shared w' = shared w" "memory w' = memory w" "at w' = (at w)(t := q)"
    and hands: "hold (at w t) = None" "hold q = None"
    and self: "size_ok (asks q)" "cache_ok (nodes_cache (shared w) t) q" "read_ok (BLOCKS_COUNT H) (shared w) q"
      "filling q \<longrightarrow> refused w'" "refused w \<longrightarrow> refused w'"
    and spin: "spin_ok w'"
  shows "requests_ok H w' pl es ss who" and "rooms ign H w' pl who = rooms ign H w pl who"
proof -
  have not_t: "who i \<noteq> Some t" for i using requestsD(5) [OF ok, of i t] hands(1) by simp
  have hw: "who i = Some u \<longleftrightarrow> hold (at w' u) = Some i" for i u
    using requestsD(5) [OF ok, of i u] hands same(3) by (cases "u = t") auto
  have hand: "hand_ok H w' pl i u" if "who i = Some u" for i u
  proof -
    have "u \<noteq> t" using that not_t by blast
    then show ?thesis using requestsD(6) [OF ok that] same by (simp add: hand_ok_def)
  qed
  have "\<forall>u. thread_ok (BLOCKS_COUNT H) w' u"
    using requestsD(8-11) [OF ok] self same by (simp add: thread_ok_def)
  then show "requests_ok H w' pl es ss who"
    unfolding requests_ok_def using requestsD(1-3,7) [OF ok] hw hand spin same(1,2) by simp
  have "space ign w' pl who i = space ign w pl who i" for i
    using not_t [of i] same by (auto simp: space_def split: option.split)
  then show "rooms ign H w' pl who = rooms ign H w pl who" by (simp add: rooms_def)
qed

text \<open>A step of a thread on one block, in its hand before or after or both.\<close>

lemma step_on_block:
  assumes ok: "requests_ok H w pl es ss who"
    and c: "c < BLOCKS_COUNT H" "who c = None \<or> who c = Some t" "hold (at w t) = None \<or> hold (at w t) = Some c"
    and q: "at w' = (at w)(t := q)" "hold q = None \<or> hold q = Some c"
    and frame: "same_heap (shared w) (shared w')" "links_ok (BLOCKS_COUNT H) (shared w')"
    and lists: "lists_ok (BLOCKS_COUNT H) (shared w') (pl(c := p)) es' ss'"
    and off: "agree_off (base w c) (memory w) (memory w')"
    and hand: "hold q = Some c \<Longrightarrow> p \<in> {Detached, In_cache t (asks q)} \<and> header_ok (memory w') (base w c) q"
    and put: "hold q = None \<Longrightarrow> placed (memory w') (base w c) p"
    and self: "size_ok (asks q)" "cache_ok (nodes_cache (shared w') t) q" "read_ok (BLOCKS_COUNT H) (shared w') q" "\<not> filling q"
    and others: "spares (BLOCKS_COUNT H) t w w'" and spin: "spin_ok w'"
    and who': "who' = who(c := if hold q = None then None else Some t)"
  shows "requests_ok H w' (pl(c := p)) es' ss' who'"
    and "i < BLOCKS_COUNT H \<Longrightarrow> i \<noteq> c \<Longrightarrow> space ign w' (pl(c := p)) who' i = space ign w pl who i"
proof -
  have h: "heap_shape H (shared w)" and base: "base w' i = base w i" for i
    using requestsD(1) [OF ok] frame(1) by (simp_all add: same_heap_def)
  have sr: "small_room H (START_ALLOCATOR_HEAP (shared w))" using h by (simp add: heap_shape_def)
  have not_t: "who i \<noteq> Some t" if "i \<noteq> c" for i using requestsD(5) [OF ok, of i t] c(3) that by auto
  have hw: "who' i = Some u \<longleftrightarrow> hold (at w' u) = Some i" for i u
    using requestsD(5) [OF ok, of i u] not_t [of i] c(2,3) q who' requestsD(5) [OF ok, of c u] by (cases "u = t"; cases "i = c") auto
  note cong = other_cong [OF sr c(1) off]
  have other: "who i = Some u \<Longrightarrow> hand_ok H w' (pl(c := p)) i u"
    "who i = None \<Longrightarrow> placed (memory w') (base w i) (pl i)"
    "space ign w' (pl(c := p)) who' i = space ign w pl who i" if i: "i < BLOCKS_COUNT H" "i \<noteq> c" for i u
  proof -
    have at_u: "at w' v = at w v" if "who i = Some v" for v using that not_t [OF i(2)] q(1) by auto
    show "hand_ok H w' (pl(c := p)) i u" if "who i = Some u"
      using requestsD(6) [OF ok that] at_u [OF that] i(2) base cong(1) [OF i] by (simp add: hand_ok_def)
    show "placed (memory w') (base w i) (pl i)" if "who i = None"
      using requestsD(7) [OF ok i(1) that] cong(2) [OF i] by simp
    show "space ign w' (pl(c := p)) who' i = space ign w pl who i"
    proof (cases "who i")
      case None
      then show ?thesis using cong(4) [OF i requestsD(7) [OF ok i(1) None]] i(2) who' base by (simp add: space_def)
    next
      case (Some u)
      then show ?thesis using cong(3) [OF i requestsD(8) [OF ok, of u]] i(2) who' base at_u [OF Some] by (simp add: space_def)
    qed
  qed
  have hand': "hand_ok H w' (pl(c := p)) i u" if "who' i = Some u" for i u
  proof (cases "i = c")
    case True
    then show ?thesis using that who' c(1) q hand base by (auto simp: hand_ok_def split: if_splits)
  next
    case False
    then have "who i = Some u" using that who' by simp
    then show ?thesis using other(1) [OF _ False] requestsD(6) [OF ok, of i u] by (simp add: hand_ok_def)
  qed
  have put': "placed (memory w') (base w' i) ((pl(c := p)) i)" if "i < BLOCKS_COUNT H" "who' i = None" for i
    using that other(2) [OF that(1)] put q(2) who' base by (cases "i = c") (auto split: if_splits)
  have "\<forall>u. thread_ok (BLOCKS_COUNT H) w' u"
  proof
    show "thread_ok (BLOCKS_COUNT H) w' u" for u
      using spares_thread [OF others, of u] requestsD(8-11) [OF ok, of u] self q(1) by (cases "u = t") (simp_all add: thread_ok_def)
  qed
  then show "requests_ok H w' (pl(c := p)) es' ss' who'"
    unfolding requests_ok_def using same_heap_ok [OF frame(1)] h frame(2) lists hw hand' put' spin by simp
  show "i < BLOCKS_COUNT H \<Longrightarrow> i \<noteq> c \<Longrightarrow> space ign w' (pl(c := p)) who' i = space ign w pl who i" by (rule other(3))
qed

end
