(* ===== verification/Small_Steps.thy ===== *)
theory Small_Steps
  imports Small_Interleaving
begin

text \<open>Every step of a thread keeps the invariant of \<^theory_text>\<open>Small_Interleaving\<close>, case by case.\<close>

section \<open>What a step may do\<close>

definition step_fine ::
  "size_t \<Rightarrow> requests \<Rightarrow> (nat \<Rightarrow> place) \<Rightarrow> (nat \<Rightarrow> nat option) \<Rightarrow> requests \<Rightarrow> (nat \<Rightarrow> place) \<Rightarrow> (nat \<Rightarrow> nat option) \<Rightarrow> bool" where
  "step_fine H w pl who w' pl' who' \<longleftrightarrow>
     (\<forall>ign. ign \<or> \<not> refused w' \<longrightarrow> rooms ign H w' pl' who' \<subseteq> rooms ign H w pl who)
     \<and> (refused w \<longrightarrow> refused w') \<and> headers_only H (START_ALLOCATOR_HEAP (shared w)) (memory w) (memory w')
     \<and> START_ALLOCATOR_HEAP (shared w') = START_ALLOCATOR_HEAP (shared w)
     \<and> (answers w' = answers w \<or> (\<exists>t k. answers w' = (t, k, 0) # answers w)
       \<or> (\<exists>t k a. answers w' = (t, k, a) # answers w \<and> a \<noteq> 0 \<and> size_ok k \<and> 8 dvd unat (a - START_ALLOCATOR_HEAP (shared w))
           \<and> (\<forall>ign. obj_range (a, of_nat k) \<subseteq> rooms ign H w pl who)
           \<and> rooms True H w' pl' who' \<inter> obj_range (a, of_nat k) = {}))"

abbreviation step_ok :: "size_t \<Rightarrow> requests \<Rightarrow> (nat \<Rightarrow> place) \<Rightarrow> (nat \<Rightarrow> nat option) \<Rightarrow> requests \<Rightarrow> bool" where
  "step_ok H w pl who w' \<equiv> \<exists>pl' es' ss' who'. requests_ok H w' pl' es' ss' who' \<and> step_fine H w pl who w' pl' who'"

text \<open>A step with no block in hand.\<close>

lemma fine_without:
  assumes ok: "requests_ok H w pl es ss who"
    and same: "shared w' = shared w" "memory w' = memory w" "at w' = (at w)(t := q)"
    and hands: "hold (at w t) = None" "hold q = None"
    and self: "size_ok (asks q)" "cache_ok (nodes_cache (shared w) t) q" "read_ok (BLOCKS_COUNT H) (shared w) q"
      "filling q \<longrightarrow> refused w'" "refused w \<longrightarrow> refused w'"
    and spin: "spin_ok w'" and ans: "answers w' = answers w \<or> (\<exists>t k. answers w' = (t, k, 0) # answers w)"
  shows "step_ok H w pl who w'"
proof -
  note s = step_without [OF ok same hands self spin]
  have "step_fine H w pl who w' pl who" using s(2) self(5) ans same(1,2) by (simp add: step_fine_def) blast
  then show ?thesis using s(1) by blast
qed

text \<open>A step on one block that gives no answer.\<close>

lemma rooms_change:
  assumes "c < BLOCKS_COUNT H" and "\<And>i. i < BLOCKS_COUNT H \<Longrightarrow> i \<noteq> c \<Longrightarrow> space ign w' pl' who' i = space ign w pl who i"
    and "space ign w' pl' who' c \<subseteq> space ign w pl who c"
  shows "rooms ign H w' pl' who' \<subseteq> rooms ign H w pl who"
proof -
  have "space ign w' pl' who' i \<subseteq> space ign w pl who i" if "i < BLOCKS_COUNT H" for i
    using assms(2) [OF that] assms(3) by (cases "i = c") auto
  then show ?thesis unfolding rooms_def by fastforce
qed

lemma fine_on_block:
  assumes ok: "requests_ok H w pl es ss who"
    and c: "c < BLOCKS_COUNT H" "who c = None \<or> who c = Some t" "hold (at w t) = None \<or> hold (at w t) = Some c"
    and q: "at w' = (at w)(t := q)" "hold q = None \<or> hold q = Some c"
    and frame: "same_heap (shared w) (shared w')" "links_ok (BLOCKS_COUNT H) (shared w')"
    and lists: "lists_ok (BLOCKS_COUNT H) (shared w') (pl(c := p)) es' ss'"
    and off: "agree_off (base w c) (memory w) (memory w')"
    and hand: "hold q = Some c \<Longrightarrow> p \<in> {Detached, In_cache t (asks q)} \<and> header_ok (memory w') (base w c) q"
    and put: "hold q = None \<Longrightarrow> placed (memory w') (base w c) p"
    and self: "size_ok (asks q)" "cache_ok (nodes_cache (shared w') t) q" "read_ok (BLOCKS_COUNT H) (shared w') q" "\<not> filling q"
    and others: "spares (BLOCKS_COUNT H) t w w'" and spin: "spin_ok w'"
    and ans: "answers w' = answers w" "refused w' = refused w"
    and less: "\<And>ign. space ign w' (pl(c := p)) (who(c := if hold q = None then None else Some t)) c \<subseteq> space ign w pl who c"
  shows "step_ok H w pl who w'"
proof -
  let ?who = "who(c := if hold q = None then None else Some t)"
  note s = step_on_block [OF ok c q frame lists off hand put self others spin refl]
  have "rooms ign H w' (pl(c := p)) ?who \<subseteq> rooms ign H w pl who" for ign
    by (rule rooms_change [OF c(1) s(2) less])
  moreover have "START_ALLOCATOR_HEAP (shared w') = START_ALLOCATOR_HEAP (shared w)" using frame(1) by (simp add: same_heap_def)
  ultimately have "step_fine H w pl who w' (pl(c := p)) ?who"
    using headers_only_block [OF c(1) off] ans by (simp add: step_fine_def)
  then show ?thesis using s(1) by blast
qed

text \<open>Steps that leave the locks alone, take one or release one.\<close>

lemma spin_same:
  assumes "spin_ok w" and "segreg_lists_locks w' = segreg_lists_locks w" "empty_list_lock w' = empty_list_lock w"
    and "at w' = (at w)(t := q)" and "holds_segreg q = holds_segreg (at w t)" "holds_empty q = holds_empty (at w t)"
  shows "spin_ok w'"
  using assms by (auto simp: spin_ok_def)

lemma spin_segreg:
  assumes ok: "spin_ok w" and w': "at w' = (at w)(t := q)" "empty_list_lock w' = empty_list_lock w"
      "holds_empty q = holds_empty (at w t)"
    and take: "segreg_lists_locks w k = None \<and> segreg_lists_locks w' = (segreg_lists_locks w)(k := Some t)
        \<and> holds_segreg (at w t) = None \<and> holds_segreg q = Some k
      \<or> segreg_lists_locks w' = (segreg_lists_locks w)(k := None) \<and> holds_segreg (at w t) = Some k \<and> holds_segreg q = None"
  shows "spin_ok w'"
  unfolding spin_ok_def
proof (intro conjI allI)
  have s: "segreg_lists_locks w j = Some u \<longleftrightarrow> holds_segreg (at w u) = Some j" for j u using ok by (simp add: spin_ok_def)
  show "segreg_lists_locks w' j = Some u \<longleftrightarrow> holds_segreg (at w' u) = Some j" for j u
    using s [of j u] s [of k u] s [of k t] s [of j t] take w'(1) by (cases "u = t"; cases "j = k") auto
  show "empty_list_lock w' = Some u \<longleftrightarrow> holds_empty (at w' u)" for u
    using ok w' by (auto simp: spin_ok_def)
qed

lemma spin_empty:
  assumes ok: "spin_ok w" and w': "at w' = (at w)(t := q)" "segreg_lists_locks w' = segreg_lists_locks w"
      "holds_segreg q = holds_segreg (at w t)"
    and take: "empty_list_lock w = None \<and> empty_list_lock w' = Some t \<and> \<not> holds_empty (at w t) \<and> holds_empty q
      \<or> empty_list_lock w' = None \<and> holds_empty (at w t) \<and> \<not> holds_empty q"
  shows "spin_ok w'"
  unfolding spin_ok_def
proof (intro conjI allI)
  have s: "empty_list_lock w = Some u \<longleftrightarrow> holds_empty (at w u)" for u using ok by (simp add: spin_ok_def)
  show "empty_list_lock w' = Some u \<longleftrightarrow> holds_empty (at w' u)" for u
    using s [of u] s [of t] take w'(1) by (cases "u = t") auto
  show "segreg_lists_locks w' j = Some u \<longleftrightarrow> holds_segreg (at w' u) = Some j" for j u
    using ok w' by (auto simp: spin_ok_def)
qed

text \<open>Steps that change no list, the list of one size, the list of empty blocks.\<close>

lemma spares_same:
  assumes ok: "requests_ok H w pl es ss who" and w': "at w' = (at w)(t := q)"
    and s: "SEGREG_LIST (shared w') = SEGREG_LIST (shared w)" "EMPTY_LIST_HEAD (shared w') = EMPTY_LIST_HEAD (shared w)"
      "\<And>u. u \<noteq> t \<Longrightarrow> nodes_cache (shared w') u = nodes_cache (shared w) u"
    and r: "refused w' = refused w"
  shows "spares (BLOCKS_COUNT H) t w w'"
proof -
  have "read_ok N (shared w') pc = read_ok N (shared w) pc" for N pc using s by (cases pc) simp_all
  then show ?thesis using w' s(3) r requestsD(10) [OF ok] by (simp add: spares_def)
qed

lemma spares_segreg:
  assumes ok: "requests_ok H w pl es ss who" and w': "at w' = (at w)(t := q)"
    and t: "holds_segreg (at w t) = Some k"
    and s: "\<And>j. j \<noteq> k \<Longrightarrow> SEGREG_LIST (shared w') j = SEGREG_LIST (shared w) j"
      "EMPTY_LIST_HEAD (shared w') = EMPTY_LIST_HEAD (shared w)" "nodes_cache (shared w') = nodes_cache (shared w)"
    and r: "refused w' = refused w"
  shows "spares (BLOCKS_COUNT H) t w w'"
  unfolding spares_def
proof (intro conjI allI impI)
  fix u assume u: "u \<noteq> t"
  have l: "segreg_lists_locks w j = Some v \<longleftrightarrow> holds_segreg (at w v) = Some j" for j v
    using requestsD(4) [OF ok] by (simp add: spin_ok_def)
  have "holds_segreg (at w u) \<noteq> Some k" using l [of k u] l [of k t] t u by auto
  then show "read_ok (BLOCKS_COUNT H) (shared w') (at w u)"
    using requestsD(10) [OF ok, of u] s by (cases "at w u") auto
  show "at w' u = at w u" using w' u by simp
qed (use s r in simp_all)

lemma spares_empty:
  assumes ok: "requests_ok H w pl es ss who" and w': "at w' = (at w)(t := q)"
    and t: "holds_empty (at w t)"
    and s: "SEGREG_LIST (shared w') = SEGREG_LIST (shared w)" "nodes_cache (shared w') = nodes_cache (shared w)"
    and r: "refused w' = refused w"
  shows "spares (BLOCKS_COUNT H) t w w'"
  unfolding spares_def
proof (intro conjI allI impI)
  fix u assume u: "u \<noteq> t"
  have l: "empty_list_lock w = Some v \<longleftrightarrow> holds_empty (at w v)" for v
    using requestsD(4) [OF ok] by (simp add: spin_ok_def)
  have "\<not> holds_empty (at w u)" using l [of u] l [of t] t u by auto
  then show "read_ok (BLOCKS_COUNT H) (shared w') (at w u)"
    using requestsD(10) [OF ok, of u] s by (cases "at w u") auto
  show "at w' u = at w u" using w' u by simp
qed (use s r in simp_all)



section \<open>The call and the inner loop\<close>

text \<open>A block in a list or in the cache of a thread that is not in the function is in no hand.\<close>

lemma no_hand:
  assumes ok: "requests_ok H w pl es ss who" and c: "pl c \<noteq> Detached" "\<And>t. pl c = In_cache t k \<Longrightarrow> hold (at w t) = None"
    and k: "\<And>t j. pl c = In_cache t j \<Longrightarrow> j = k"
  shows "who c = None"
proof (rule ccontr)
  assume "who c \<noteq> None"
  then obtain u where u: "who c = Some u" by auto
  then have "pl c = In_cache u (asks (at w u))" using requestsD(6) [OF ok u] c(1) by (auto simp: hand_ok_def)
  moreover have "hold (at w u) = Some c" using u requestsD(5) [OF ok] by simp
  ultimately show False using c(2) k by fastforce
qed

lemma request_call_ok:
  assumes ok: "requests_ok H w pl es ss who" and run: "request_call t k w = Some w'"
  shows "step_ok H w pl who w'"
proof -
  have idle: "at w t = Idle" and k: "size_ok k"
    using run by (auto simp: request_call_def size_ok_def OBJECT_SIZE_UPPER_BOUND_def split: if_splits)
  have guard: "1 \<le> k \<and> k \<le> unat MAX_OBJECT_SIZE" using run by (simp add: request_call_def split: if_splits)
  show ?thesis
  proof (cases "nodes_cache (shared w) t k")
    case None
    then have w': "w' = goes t (Segreg_lock k) w" using run idle guard by (simp add: request_call_def)
    show ?thesis
      by (rule fine_without [OF ok, where t = t and q = "Segreg_lock k"])
        (use w' idle k None spin_same [OF requestsD(4) [OF ok], of w' t "Segreg_lock k"] in simp_all)
  next
    case (Some c)
    have c: "c < BLOCKS_COUNT H" "pl c = In_cache t k" using lists_cache [OF requestsD(3) [OF ok] k] Some by auto
    have free: "who c = None" by (rule no_hand [OF ok]) (use c idle in auto)
    have op: "opened (memory w) (base w c) k" using requestsD(7) [OF ok c(1) free] c(2) by simp
    let ?q = "Slide True k c (load64 (memory w) (base w c))"
    have w': "w' = goes t ?q w"
      using run idle guard Some heap_base(1) [OF requestsD(1) [OF ok] c(1)]
      by (simp add: request_call_def start_slide_def GET_SLIDER_POSITION_ADDR_def)
    have "pl(c := In_cache t k) = pl" using c(2) by auto
    then show ?thesis
      by (intro fine_on_block [OF ok c(1), where t = t and q = ?q and p = "pl c" and es' = es and ss' = ss])
        (use w' idle k c free op Some requestsD(2,3) [OF ok] spin_same [OF requestsD(4) [OF ok], of w' t ?q]
          spares_same [OF ok, of w' t ?q] in \<open>auto simp: same_heap_def space_def opened_def\<close>)
  qed
qed

lemma slide_ok:
  assumes ok: "requests_ok H w pl es ss who" and t: "at w t = Slide h k c p" and run: "slide_step t h k c p w = Some w'"
  shows "step_ok H w pl who w'"
proof -
  let ?m = "memory w" and ?b = "base w c" and ?s = "shared w"
  have hd: "hold (at w t) = Some c" by (simp add: t)
  note hand = in_hand [OF ok hd]
  note b = heap_base [OF requestsD(1) [OF ok] hand(2)]
  have k: "size_ok k" and ca: "nodes_cache ?s t k = (if h then Some c else None)" using requestsD(8,9) [OF ok, of t] t by simp_all
  have sz: "sized ?m ?b k" using hand(4) t by simp
  obtain j where j: "j \<le> slots (al k)" "p = slot ?b (al k) j" using hand(4) t by auto
  have ld: "load64 ?m (?b + 8) = of_nat k" using sz by (simp add: sized_def)
  have al: "unat (GET_SIZE_WITH_ALIGNMENT (load64 ?m (?b + 8))) = al k" by (simp add: ld align_size_ok [OF k])
  note guard = slot_guard [OF b(4) k j(1)]
  have same: "who(c := Some t) = who" using hand(1) by auto
  show ?thesis
  proof (cases "j < slots (al k)")
    case True
    have j512: "j < 512" using True slots_ok(2) [OF k] by simp
    note get = get_bit_slot [OF b(3) al al_bounds(1) [OF k] True]
    note put = set_bit_slot [OF b(3) al al_bounds(1) [OF k] True, of False, simplified]
    show ?thesis
    proof (cases "slot_marked ?m ?b j")
      case False
      let ?m' = "store64 ?m (?b + of_nat 0) (slot ?b (al k) j)" and ?q = "Take k c"
      have w': "w' = goes t ?q (w\<lparr>memory := ?m'\<rparr>)"
        using run True guard get False j(2) b(1) align_word [OF k]
        by (simp add: slide_step_def Let_def GET_SLIDER_POSITION_ADDR_def)
      have h': "load64 ?m' ?b = slot ?b (al k) j" "load64 ?m' (?b + 8) = load64 ?m (?b + 8)"
        using load64_store64 [of ?m ?b] load64_store64_apart [OF slider_sep(2), of ?m] by simp_all
      have mk: "n < 512 \<Longrightarrow> slot_marked ?m' ?b n = slot_marked ?m ?b n" for n using store_header_marked [of 0 n ?m ?b] by simp
      have "header_ok ?m' ?b ?q" using sz sized_cong [OF h'(2)] h'(1) True False mk [OF j512] by auto
      moreover have "avail ign ?m' ?b k (slot ?b (al k) j) = avail ign ?m ?b k p" for ign
        using avail_cong [OF k mk] j(2) by simp
      ultimately show ?thesis
        by (intro fine_on_block [OF ok hand(2), where t = t and q = ?q and p = "pl c" and es' = es and ss' = ss])
          (use w' t k hand(1,3) ca h' store_header_off [of 0 ?b ?m] requestsD(2,3) [OF ok] spin_same [OF requestsD(4) [OF ok], of w' t ?q]
            spares_same [OF ok, of w' t ?q] in \<open>auto simp: same_heap_def space_def\<close>)
    next
      case True: True
      let ?m' = "put_mark ?b j False ?m" and ?q = "Slide h k c (slot ?b (al k) (j + 1))"
      have w': "w' = goes t ?q (w\<lparr>memory := ?m'\<rparr>)"
        using run \<open>j < slots (al k)\<close> guard get True put j(2) b(1) align_word [OF k]
        by (simp add: slide_step_def Let_def slot_step [of ?b "al k" j, simplified, symmetric])
      have mk: "n < 512 \<Longrightarrow> n \<noteq> j \<Longrightarrow> slot_marked ?m' ?b n = slot_marked ?m ?b n" for n
        using slot_marked_put [OF j512, of n ?b False ?m] by simp
      have "header_ok ?m' ?b ?q"
        using sz sized_cong [OF put_mark_header(2) [OF j512]] \<open>j < slots (al k)\<close> by (auto intro!: exI [of _ "j + 1"])
      moreover have "avail ign ?m' ?b k (slot ?b (al k) (j + 1)) \<subseteq> avail ign ?m ?b k p" for ign
        using avail_advance [OF k \<open>j < slots (al k)\<close> mk] j(2) by blast
      ultimately show ?thesis
        by (intro fine_on_block [OF ok hand(2), where t = t and q = ?q and p = "pl c" and es' = es and ss' = ss])
          (use w' t k hand(1,3) ca put_mark_off [OF j512] requestsD(2,3) [OF ok] spin_same [OF requestsD(4) [OF ok], of w' t ?q]
            spares_same [OF ok, of w' t ?q] in \<open>auto simp: same_heap_def space_def\<close>)
    qed
  next
    case False
    let ?q = "Segreg_lock k"
    let ?s' = "if h then set_cache t k None ?s else ?s"
    have w': "w' = goes t ?q (w\<lparr>shared := ?s'\<rparr>)"
      using run False guard j(2) b(1) align_word [OF k] by (cases h) (simp_all add: slide_step_def Let_def)
    have "h \<Longrightarrow> lists_ok (BLOCKS_COUNT H) (set_cache t k None ?s) (pl(c := Detached)) es ss"
      using lists_uncache(3) [OF requestsD(3) [OF ok] k] ca by simp
    moreover have "\<not> h \<Longrightarrow> pl c = Detached"
      using hand(2,3) ca lists_cache [OF requestsD(3) [OF ok] k, of t c] t by auto
    then have "\<not> h \<Longrightarrow> pl(c := Detached) = pl" by auto
    ultimately have "lists_ok (BLOCKS_COUNT H) ?s' (pl(c := Detached)) es ss" using requestsD(3) [OF ok] by simp
    then show ?thesis
      by (intro fine_on_block [OF ok hand(2), where t = t and q = ?q and p = Detached and es' = es and ss' = ss])
        (use w' t k hand(1) ca sz requestsD(2) [OF ok] spin_same [OF requestsD(4) [OF ok], of w' t ?q]
          spares_same [OF ok, of w' t ?q] in \<open>auto simp: same_heap_def space_def links_ok_def set_cache_def\<close>)
  qed
qed



section \<open>The lists\<close>

lemma segreg_ok:
  assumes ok: "requests_ok H w pl es ss who" and run: "segreg_step t (at w t) w = Some w'"
  shows "step_ok H w pl who w'"
proof (cases "at w t")
  case (Segreg_lock k)
  let ?q = "Segreg_read k"
  have w': "w' = goes t ?q (w\<lparr>segreg_lists_locks := (segreg_lists_locks w)(k := Some t)\<rparr>)" "segreg_lists_locks w k = None"
    using run Segreg_lock by (auto simp: segreg_step_def lock_segreg_list_def split: if_splits)
  have spin: "spin_ok w'" using spin_segreg [OF requestsD(4) [OF ok], of w' t ?q k] w' Segreg_lock by simp
  show ?thesis
    by (rule fine_without [OF ok, where t = t and q = ?q])
      (use w' Segreg_lock requestsD(8,9) [OF ok, of t] spin in simp_all)
next
  case (Segreg_read k)
  let ?q = "case SEGREG_LIST (shared w) k of Some c \<Rightarrow> Segreg_write k c | None \<Rightarrow> Segreg_unlock k None"
  have w': "w' = goes t ?q w" using run Segreg_read by (simp add: segreg_step_def)
  have spin: "spin_ok w'"
    using spin_same [OF requestsD(4) [OF ok], of w' t ?q] w' Segreg_read by (simp split: option.split)
  show ?thesis
    by (rule fine_without [OF ok, where t = t and q = ?q])
      (use w' Segreg_read requestsD(8,9) [OF ok, of t] spin in \<open>simp_all split: option.split\<close>)
next
  case (Segreg_write k c)
  let ?s = "(shared w)\<lparr>SEGREG_LIST := (SEGREG_LIST (shared w))(k := next_node (NODES_LIST (shared w) c))\<rparr>"
  let ?q = "Segreg_unlock k (Some c)"
  have w': "w' = goes t ?q (w\<lparr>shared := ?s\<rparr>)" using run Segreg_write by (simp add: segreg_step_def)
  have k: "size_ok k" and rd: "SEGREG_LIST (shared w) k = Some c" and ca: "nodes_cache (shared w) t k = None"
    using requestsD(8-10) [OF ok, of t] Segreg_write by simp_all
  obtain cs where c: "c < BLOCKS_COUNT H" "pl c = In_segreg k"
    and li: "lists_ok (BLOCKS_COUNT H) ?s (pl(c := Detached)) es (ss(k := cs))"
    using lists_take_segreg [OF requestsD(3) [OF ok] k rd] by blast
  have free: "who c = None" by (rule no_hand [OF ok]) (use c in auto)
  have op: "opened (memory w) (base w c) k" using requestsD(7) [OF ok c(1) free] c(2) by simp
  have sp: "spares (BLOCKS_COUNT H) t w w'"
    by (rule spares_segreg [OF ok, where k = k and q = ?q]) (use w' Segreg_write in simp_all)
  show ?thesis
    by (rule fine_on_block [OF ok c(1), where t = t and q = ?q and p = Detached and es' = es and ss' = "ss(k := cs)"])
      (use w' Segreg_write k c free op ca li sp requestsD(2) [OF ok] spin_same [OF requestsD(4) [OF ok], of w' t ?q]
        in \<open>auto simp: same_heap_def space_def links_ok_def\<close>)
next
  case (Segreg_unlock k r)
  have k: "size_ok k" and ca: "nodes_cache (shared w) t k = None" using requestsD(8,9) [OF ok, of t] Segreg_unlock by simp_all
  show ?thesis
  proof (cases r)
    case None
    let ?q = "Empty_lock k"
    have w': "w' = goes t ?q (unlock_segreg_list k w)" using run Segreg_unlock None by (simp add: segreg_step_def)
    have spin: "spin_ok w'"
      using spin_segreg [OF requestsD(4) [OF ok], of w' t ?q k] w' Segreg_unlock by (simp add: unlock_segreg_list_def)
    show ?thesis
      by (rule fine_without [OF ok, where t = t and q = ?q])
        (use w' Segreg_unlock None k ca spin in \<open>simp_all add: unlock_segreg_list_def\<close>)
  next
    case (Some c)
    have hd: "hold (at w t) = Some c" by (simp add: Segreg_unlock Some)
    note hand = in_hand [OF ok hd]
    let ?q = "Slide False k c (load64 (memory w) (base w c))"
    have w': "w' = goes t ?q (unlock_segreg_list k w)"
      using run Segreg_unlock Some heap_base(1) [OF requestsD(1) [OF ok] hand(2)]
      by (simp add: segreg_step_def start_slide_def unlock_segreg_list_def GET_SLIDER_POSITION_ADDR_def)
    have spin: "spin_ok w'"
      using spin_segreg [OF requestsD(4) [OF ok], of w' t ?q k] w' Segreg_unlock by (simp add: unlock_segreg_list_def)
    have sp: "spares (BLOCKS_COUNT H) t w w'"
      by (rule spares_same [OF ok, where q = ?q]) (use w' in \<open>simp_all add: unlock_segreg_list_def\<close>)
    show ?thesis
      by (rule fine_on_block [OF ok hand(2), where t = t and q = ?q and p = "pl c" and es' = es and ss' = ss])
        (use w' Segreg_unlock Some k ca hand hd requestsD(2,3) [OF ok] spin sp
          in \<open>auto simp: same_heap_def space_def opened_def unlock_segreg_list_def\<close>)
  qed
qed (use run in \<open>simp_all add: segreg_step_def\<close>)

lemma empty_ok:
  assumes ok: "requests_ok H w pl es ss who" and run: "empty_step t (at w t) w = Some w'"
  shows "step_ok H w pl who w'"
proof (cases "at w t")
  case (Empty_lock k)
  let ?q = "Empty_read k"
  have w': "w' = goes t ?q (w\<lparr>empty_list_lock := Some t\<rparr>)" "empty_list_lock w = None"
    using run Empty_lock by (auto simp: empty_step_def lock_empty_list_def split: if_splits)
  have spin: "spin_ok w'" using spin_empty [OF requestsD(4) [OF ok], of w' t ?q] w' Empty_lock by simp
  show ?thesis
    by (rule fine_without [OF ok, where t = t and q = ?q])
      (use w' Empty_lock requestsD(8,9) [OF ok, of t] spin in simp_all)
next
  case (Empty_read k)
  let ?q = "case EMPTY_LIST_HEAD (shared w) of Some c \<Rightarrow> Empty_write k c | None \<Rightarrow> Empty_unlock k None"
  have w': "w' = goes t ?q w" using run Empty_read by (simp add: empty_step_def)
  have spin: "spin_ok w'"
    using spin_same [OF requestsD(4) [OF ok], of w' t ?q] w' Empty_read by (simp split: option.split)
  show ?thesis
    by (rule fine_without [OF ok, where t = t and q = ?q])
      (use w' Empty_read requestsD(8,9) [OF ok, of t] spin in \<open>simp_all split: option.split\<close>)
next
  case (Empty_write k c)
  let ?s = "(shared w)\<lparr>EMPTY_LIST_HEAD := next_node (NODES_LIST (shared w) c)\<rparr>" and ?q = "Empty_clear k c"
  have w': "w' = goes t ?q (w\<lparr>shared := ?s\<rparr>)" using run Empty_write by (simp add: empty_step_def)
  have k: "size_ok k" and rd: "EMPTY_LIST_HEAD (shared w) = Some c" and ca: "nodes_cache (shared w) t k = None"
    using requestsD(8-10) [OF ok, of t] Empty_write by simp_all
  obtain es' where c: "c < BLOCKS_COUNT H" "pl c = In_empty"
    and li: "lists_ok (BLOCKS_COUNT H) ?s (pl(c := Detached)) es' ss"
    using lists_take_empty [OF requestsD(3) [OF ok] rd] by blast
  have free: "who c = None" by (rule no_hand [OF ok]) (use c in auto)
  have sp: "spares (BLOCKS_COUNT H) t w w'"
    by (rule spares_empty [OF ok, where q = ?q]) (use w' Empty_write in simp_all)
  show ?thesis
    by (rule fine_on_block [OF ok c(1), where t = t and q = ?q and p = Detached and es' = es' and ss' = ss])
      (use w' Empty_write k c free ca li sp requestsD(2) [OF ok] spin_same [OF requestsD(4) [OF ok], of w' t ?q]
        in \<open>auto simp: same_heap_def space_def links_ok_def\<close>)
next
  case (Empty_clear k c)
  let ?s = "(shared w)\<lparr>NODES_LIST := (NODES_LIST (shared w))(c := (NODES_LIST (shared w) c)\<lparr>next_node := None\<rparr>)\<rparr>"
  let ?q = "Empty_unlock k (Some c)"
  have w': "w' = goes t ?q (w\<lparr>shared := ?s\<rparr>)" using run Empty_clear by (simp add: empty_step_def)
  have hd: "hold (at w t) = Some c" by (simp add: Empty_clear)
  note hand = in_hand [OF ok hd]
  have k: "size_ok k" and ca: "nodes_cache (shared w) t k = None" using requestsD(8,9) [OF ok, of t] Empty_clear by simp_all
  have det: "pl c = Detached" using hand(2,3) ca lists_cache [OF requestsD(3) [OF ok] k, of t c] Empty_clear by auto
  then have upd: "pl(c := Detached) = pl" by auto
  have sp: "spares (BLOCKS_COUNT H) t w w'"
    by (rule spares_empty [OF ok, where q = ?q]) (use w' Empty_clear in simp_all)
  have lk: "links_ok (BLOCKS_COUNT H) ?s" using requestsD(2) [OF ok] by (simp add: links_ok_def)
  show ?thesis
    by (rule fine_on_block [OF ok hand(2), where t = t and q = ?q and p = Detached and es' = es and ss' = ss])
      (use w' Empty_clear k hand(1) ca upd lists_relink [OF requestsD(3) [OF ok] det, of None] sp lk
          spin_same [OF requestsD(4) [OF ok], of w' t ?q] in \<open>auto simp: same_heap_def space_def\<close>)
next
  case (Empty_unlock k r)
  have k: "size_ok k" and ca: "nodes_cache (shared w) t k = None" using requestsD(8,9) [OF ok, of t] Empty_unlock by simp_all
  show ?thesis
  proof (cases r)
    case None
    let ?q = "Fill k 1 (SEGREG_LIST (shared w) 1)"
    have w': "w' = goes t ?q ((unlock_empty_list w)\<lparr>refused := True\<rparr>)" using run Empty_unlock None by (simp add: empty_step_def)
    have spin: "spin_ok w'"
      using spin_empty [OF requestsD(4) [OF ok], of w' t ?q] w' Empty_unlock by (simp add: unlock_empty_list_def)
    have one: "size_ok 1" by (simp add: size_ok_iff)
    have "set_option (SEGREG_LIST (shared w) 1) \<subseteq> {..<BLOCKS_COUNT H}"
      using lists_segreg [OF requestsD(3) [OF ok] one] by (cases "ss 1") auto
    moreover have "1 < OBJECT_SIZE_UPPER_BOUND" by (simp add: OBJECT_SIZE_UPPER_BOUND_def MAX_OBJECT_SIZE_def)
    ultimately show ?thesis
      by (intro fine_without [OF ok, where t = t and q = ?q])
        (use w' Empty_unlock None k ca spin in \<open>simp_all add: unlock_empty_list_def\<close>)
  next
    case (Some c)
    have hd: "hold (at w t) = Some c" by (simp add: Empty_unlock Some)
    note hand = in_hand [OF ok hd]
    let ?q = "Init k c"
    have w': "w' = goes t ?q (unlock_empty_list w)" using run Empty_unlock Some by (simp add: empty_step_def)
    have spin: "spin_ok w'"
      using spin_empty [OF requestsD(4) [OF ok], of w' t ?q] w' Empty_unlock by (simp add: unlock_empty_list_def)
    have sp: "spares (BLOCKS_COUNT H) t w w'"
      by (rule spares_same [OF ok, where q = ?q]) (use w' in \<open>simp_all add: unlock_empty_list_def\<close>)
    show ?thesis
      by (rule fine_on_block [OF ok hand(2), where t = t and q = ?q and p = "pl c" and es' = es and ss' = ss])
        (use w' Empty_unlock Some k ca hand hd requestsD(2,3) [OF ok] spin sp
          in \<open>auto simp: same_heap_def space_def unlock_empty_list_def\<close>)
  qed
qed (use run in \<open>simp_all add: empty_step_def\<close>)



section \<open>Headers\<close>

lemma init_ok:
  assumes ok: "requests_ok H w pl es ss who" and t: "at w t = Init k c"
    and w': "w' = goes t (Take k c) (w\<lparr>memory := init_header (NODES_LIST (shared w) c) (of_nat k) (memory w)\<rparr>)"
  shows "step_ok H w pl who w'"
proof -
  let ?q = "Take k c" and ?b = "base w c"
  have hd: "hold (at w t) = Some c" by (simp add: t)
  note hand = in_hand [OF ok hd]
  have b: "block_addr (NODES_LIST (shared w) c) = ?b" by (rule heap_base(1) [OF requestsD(1) [OF ok] hand(2)])
  have k: "size_ok k" and ca: "nodes_cache (shared w) t k = None" using requestsD(8,9) [OF ok, of t] t by simp_all
  note h = init_header_opens [OF k refl b [symmetric], of "memory w"]
  have "header_ok (memory w') ?b ?q" using h slots_ok [OF k] w' by (auto intro!: exI [of _ 0])
  moreover have "avail ign (memory w') ?b k p \<subseteq> whole ?b" for ign p by (rule avail_whole [OF k])
  moreover have "spares (BLOCKS_COUNT H) t w w'" by (rule spares_same [OF ok, where q = ?q]) (use w' in simp_all)
  ultimately show ?thesis
    by (intro fine_on_block [OF ok hand(2), where t = t and q = ?q and p = "pl c" and es' = es and ss' = ss])
      (use w' t k ca hand(1,3) h(3) requestsD(2,3) [OF ok] spin_same [OF requestsD(4) [OF ok], of w' t ?q]
        in \<open>auto simp: same_heap_def space_def\<close>)
qed

lemma space_whole:
  assumes "requests_ok H w pl es ss who" and "i < BLOCKS_COUNT H"
  shows "space ign w pl who i \<subseteq> whole (base w i)"
proof (cases "who i")
  case None
  then show ?thesis
    using requestsD(7) [OF assms None] avail_whole by (cases "pl i") (auto simp: space_def opened_def sized_def)
next
  case (Some t)
  then show ?thesis using requestsD(8) [OF assms(1), of t] avail_whole by (cases "at w t") (auto simp: space_def)
qed

lemma whole_apart:
  assumes "small_room H B" and "i < BLOCKS_COUNT H" and "j < BLOCKS_COUNT H" and "i \<noteq> j"
  shows "whole (blk B i) \<inter> whole (blk B j) = {}"
  using assms(4) unfolding whole_def unat_blk [OF assms(1,2)] unat_blk [OF assms(1,3)] by (cases i j rule: linorder_cases) auto

lemma set_cache_id: "nodes_cache s t k = c \<Longrightarrow> set_cache t k c s = s"
  by (simp add: set_cache_def fun_upd_idem)

text \<open>The lists after the cache of the thread was set at the end of a request.\<close>

lemma lists_set_cache:
  assumes li: "lists_ok N s pl es ss" and k: "size_ok k" and c: "c < N" "pl c \<in> {Detached, In_cache t k}"
    and ca: "nodes_cache s t k \<in> {None, Some c}"
  shows "lists_ok N (set_cache t k None s) (pl(c := Detached)) es ss"
    and "lists_ok N (set_cache t k (Some c) s) (pl(c := In_cache t k)) es ss"
proof -
  have eq: "nodes_cache s t k = Some c \<longleftrightarrow> pl c = In_cache t k" using lists_cache [OF li k] c(1) by simp
  show "lists_ok N (set_cache t k None s) (pl(c := Detached)) es ss"
  proof (cases "nodes_cache s t k = Some c")
    case False
    then have none: "nodes_cache s t k = None" using ca by simp
    have "pl(c := Detached) = pl" using False eq c(2) by auto
    with set_cache_id [OF none] have "pl(c := Detached) = pl" "set_cache t k None s = s" by simp_all
    then show ?thesis using li by simp
  qed (rule lists_uncache(3) [OF li k])
  show "lists_ok N (set_cache t k (Some c) s) (pl(c := In_cache t k)) es ss"
  proof (cases "nodes_cache s t k = Some c")
    case True
    then have "pl(c := In_cache t k) = pl" using eq by auto
    then show ?thesis using li set_cache_id [OF True] by simp
  next
    case False
    then show ?thesis using eq c ca by (intro lists_recache [OF li k]) auto
  qed
qed

lemma take_ok:
  assumes ok: "requests_ok H w pl es ss who" and t: "at w t = Take k c"
  shows "step_ok H w pl who (take_step t k c w)"
proof -
  let ?B = "START_ALLOCATOR_HEAP (shared w)" and ?b = "base w c" and ?m = "memory w"
  have hd: "hold (at w t) = Some c" by (simp add: t)
  note hand = in_hand [OF ok hd]
  note b = heap_base [OF requestsD(1) [OF ok] hand(2)]
  have k: "size_ok k" and ca: "nodes_cache (shared w) t k \<in> {None, Some c}" using requestsD(8,9) [OF ok, of t] t by simp_all
  obtain j where sz: "sized ?m ?b k" and j: "j < slots (al k)" "load64 ?m ?b = slot ?b (al k) j" "\<not> slot_marked ?m ?b j"
    using hand(4) t by auto
  let ?a = "slot ?b (al k) j" and ?m' = "store64 ?m ?b (slot ?b (al k) (j + 1))"
  define full where "full \<longleftrightarrow> slot ?b (al k) (j + 1) \<ge> ?b + BLOCK_SIZE"
  define p where "p = (if full then Detached else In_cache t k)"
  let ?s' = "set_cache t k (if full then None else Some c) (shared w)"
  let ?w = "take_step t k c w" and ?who = "who(c := None)"
  have step: "slot ?b (al k) (Suc j) = ?a + of_nat (al k)" using slot_step [of ?b "al k" j] by simp
  have w': "?w = goes t Idle (w\<lparr>shared := ?s', memory := ?m', answers := (t, k, ?a) # answers w\<rparr>)"
    using b(1) align_word [OF k] j(2) by (simp add: take_step_def Let_def full_def GET_SLIDER_POSITION_ADDR_def step)
  note adv = advance_slider [OF sz j(2,1) refl]
  have li: "lists_ok (BLOCKS_COUNT H) ?s' (pl(c := p)) es ss"
    using lists_set_cache [OF requestsD(3) [OF ok] k hand(2) _ ca] hand(3) t by (auto simp: p_def)
  have put: "placed ?m' ?b p" using adv(1) by (auto simp: p_def opened_def)
  have spin: "spin_ok ?w" using spin_same [OF requestsD(4) [OF ok], of ?w t Idle] w' t by simp
  have sp: "spares (BLOCKS_COUNT H) t w ?w"
    by (rule spares_same [OF ok, where q = Idle]) (simp_all add: w' set_cache_def)
  have lk: "links_ok (BLOCKS_COUNT H) ?s'" using requestsD(2) [OF ok] by (simp add: links_ok_def)
  have fr: "same_heap (shared w) ?s'" by (simp add: same_heap_def)
  have one: "size_ok 1" by (simp add: size_ok_iff)
  note s = step_on_block [OF ok hand(2) disjI2 [OF hand(1)] disjI2 [OF hd], where w' = ?w and q = Idle and p = p
      and es' = es and ss' = ss and who' = ?who]
  have inv: "requests_ok H ?w (pl(c := p)) es ss ?who"
    by (rule s(1)) (use fr lk li adv(2) put sp spin one in \<open>simp_all add: w'\<close>)
  have other: "space ign ?w (pl(c := p)) ?who i = space ign w pl who i" if "i < BLOCKS_COUNT H" "i \<noteq> c" for ign i
    by (rule s(2)) (use fr lk li adv(2) put sp spin one that in \<open>simp_all add: w'\<close>)
  have ld': "load64 ?m' ?b = slot ?b (al k) (j + 1)" by (simp add: load64_store64)
  have old: "space ign w pl who c = avail ign ?m ?b k ?a" for ign using hand(1) t j(2) by (simp add: space_def)
  have new: "space ign ?w (pl(c := p)) ?who c \<subseteq> avail ign ?m ?b k ?a - slot_range ?b k j" for ign
  proof -
    have "space ign ?w (pl(c := p)) ?who c \<subseteq> avail ign ?m' ?b k (slot ?b (al k) (j + 1))"
      using ld' by (simp add: space_def p_def w')
    then show ?thesis using avail_advance [OF k j(1), of ?m' ?b ?m ign] adv(4) by auto
  qed
  have range: "obj_range (?a, of_nat k) = slot_range ?b k j" by (rule obj_range_slot(1) [OF b(2) hand(2) k j(1)])
  have "rooms ign H ?w (pl(c := p)) ?who \<subseteq> rooms ign H w pl who" for ign
    by (rule rooms_change [OF hand(2) other]) (use new old in auto)
  moreover have "obj_range (?a, of_nat k) \<subseteq> rooms ign H w pl who" for ign
  proof -
    have "slot_range ?b k j \<subseteq> space ign w pl who c"
      unfolding old range avail_slot [OF k less_imp_le [OF j(1)]] using j(1,3) by auto
    then show ?thesis using hand(2) range unfolding rooms_def by blast
  qed
  moreover have "rooms True H ?w (pl(c := p)) ?who \<inter> obj_range (?a, of_nat k) = {}"
  proof -
    have "slot_range ?b k j \<subseteq> whole ?b"
      using avail_whole [OF k, of True ?m ?b ?a] unfolding avail_slot [OF k less_imp_le [OF j(1)]] using j(1) by auto
    then have "space True ?w (pl(c := p)) ?who i \<inter> slot_range ?b k j = {}" if "i < BLOCKS_COUNT H" for i
      using other [OF that, of True] space_whole [OF ok that, of True] whole_apart [OF b(2) that hand(2)] new [of True]
      by (cases "i = c") blast+
    then show ?thesis unfolding rooms_def range by blast
  qed
  moreover have "?a \<noteq> 0" and "8 dvd unat (?a - ?B)" using obj_range_slot(2,3) [OF b(2) hand(2) k j(1)] by simp_all
  ultimately have "step_fine H w pl who ?w (pl(c := p)) ?who"
    using headers_only_block [OF hand(2) adv(2)] k by (auto simp: step_fine_def w')
  then show ?thesis using inv by blast
qed



section \<open>Clearing the bitmaps\<close>

lemma cleared_sized: "sized (cleared b m) b = sized m b"
  by (rule sized_cong) (rule cleared_header(2))

lemma cleared_ok:
  shows "header_ok m b pc \<Longrightarrow> header_ok (cleared b m) b pc" and "placed m b p \<Longrightarrow> placed (cleared b m) b p"
    and "hand_room True (cleared b m) b pc = hand_room True m b pc" and "idle_room True (cleared b m) b p = idle_room True m b p"
proof -
  have "sized m b k \<Longrightarrow> j < slots (al k) \<Longrightarrow> \<not> slot_marked (cleared b m) b j" for k j
    using cleared_marks slots_ok(2) by (fastforce simp: sized_def)
  then show "header_ok m b pc \<Longrightarrow> header_ok (cleared b m) b pc"
    by (cases pc) (auto simp: cleared_sized opened_def cleared_header)
  show "placed m b p \<Longrightarrow> placed (cleared b m) b p" by (cases p) (simp_all add: cleared_sized opened_def cleared_header)
  have "avail True (cleared b m) b k q = avail True m b k q" for k q by (simp add: avail_def)
  then show "hand_room True (cleared b m) b pc = hand_room True m b pc" "idle_room True (cleared b m) b p = idle_room True m b p"
    by (cases pc, simp_all add: cleared_header) (cases p, simp_all add: cleared_header)
qed

lemma clear_ok:
  assumes ok: "requests_ok H w pl es ss who" and t: "at w t = Fill k i (Some c)"
    and w': "w' = goes t (Fill k i (next_node (NODES_LIST (shared w) c))) (w\<lparr>memory := cleared (base w c) (memory w)\<rparr>)"
  shows "step_ok H w pl who w'"
proof -
  let ?m' = "cleared (base w c) (memory w)"
  have c: "c < BLOCKS_COUNT H" and i: "1 \<le> i" "i < OBJECT_SIZE_UPPER_BOUND" using requestsD(10) [OF ok, of t] t by simp_all
  have sr: "small_room H (START_ALLOCATOR_HEAP (shared w))" using requestsD(1) [OF ok] by (simp add: heap_shape_def)
  note other = other_cong [OF sr c cleared_off]
  have hd: "header_ok ?m' (base w j) pc" if "j < BLOCKS_COUNT H" "header_ok (memory w) (base w j) pc" for j pc
    using that other(1) [OF that(1)] cleared_ok(1) by (cases "j = c") simp_all
  have put: "placed ?m' (base w j) p" if "j < BLOCKS_COUNT H" "placed (memory w) (base w j) p" for j p
    using that other(2) [OF that(1)] cleared_ok(2) by (cases "j = c") simp_all
  have idle: "hold (at w t) = None" by (simp add: t)
  have not_t: "who j \<noteq> Some t" for j using requestsD(5) [OF ok, of j t] idle by simp
  have hand: "hand_ok H w' pl j u" if "who j = Some u" for j u
  proof -
    have "u \<noteq> t" using that not_t by blast
    then show ?thesis using requestsD(6) [OF ok that] hd w' by (simp add: hand_ok_def)
  qed
  have hw: "who j = Some u \<longleftrightarrow> hold (at w' u) = Some j" for j u
    using requestsD(5) [OF ok, of j u] idle w' by (cases "u = t") auto
  have next_ok: "set_option (next_node (NODES_LIST (shared w) c)) \<subseteq> {..<BLOCKS_COUNT H}"
    using requestsD(2) [OF ok] c by (simp add: links_ok_def)
  have thr: "\<forall>u. thread_ok (BLOCKS_COUNT H) w' u"
    using requestsD(8-11) [OF ok] requestsD(8,9,11) [OF ok, of t] next_ok i t w' by (simp add: thread_ok_def)
  have spin: "spin_ok w'" using spin_same [OF requestsD(4) [OF ok], of w' t "at w' t"] w' t by simp
  have inv: "requests_ok H w' pl es ss who"
    unfolding requests_ok_def using requestsD(1-3,7) [OF ok] put hw hand thr spin w' by simp
  have "space True w' pl who j = space True w pl who j" if j: "j < BLOCKS_COUNT H" for j
  proof (cases "who j")
    case None
    then show ?thesis
      using cleared_ok(4) other(4) [OF j _ requestsD(7) [OF ok j None]] w' by (cases "j = c") (simp_all add: space_def)
  next
    case (Some u)
    then have "u \<noteq> t" using not_t by blast
    then show ?thesis
      using Some cleared_ok(3) other(3) [OF j _ requestsD(8) [OF ok, of u]] w' by (cases "j = c") (simp_all add: space_def)
  qed
  then have "rooms True H w' pl who \<subseteq> rooms True H w pl who" by (simp add: rooms_def)
  moreover have "refused w'" using requestsD(11) [OF ok, of t] t w' by simp
  ultimately have "step_fine H w pl who w' pl who"
    using headers_only_block [OF c cleared_off] w' by (auto simp: step_fine_def)
  then show ?thesis using inv by blast
qed

lemma fill_ok:
  assumes ok: "requests_ok H w pl es ss who" and t: "at w t = Fill k i cur"
  shows "step_ok H w pl who (fill_step t k i cur w)"
proof (cases cur)
  case (Some c)
  then have c: "c < BLOCKS_COUNT H" using requestsD(10) [OF ok, of t] t by simp
  show ?thesis
    by (rule clear_ok [OF ok t [unfolded Some]])
      (use heap_base(1) [OF requestsD(1) [OF ok] c] Some
        in \<open>simp add: fill_step_def cleared_def BITMAP_BYTES_COUNT_def GET_BITMAP_ADDR_def\<close>)
next
  case None
  have i: "1 \<le> i" "i < OBJECT_SIZE_UPPER_BOUND" and k: "size_ok k" and rf: "refused w"
    using requestsD(8,10,11) [OF ok, of t] t None by simp_all
  show ?thesis
  proof (cases "i + 1 < OBJECT_SIZE_UPPER_BOUND")
    case True
    let ?q = "Fill k (i + 1) (SEGREG_LIST (shared w) (i + 1))"
    have w': "fill_step t k i cur w = goes t ?q w" using None True by (simp add: fill_step_def)
    have s: "size_ok (i + 1)" using True by (simp add: size_ok_def)
    have "set_option (SEGREG_LIST (shared w) (i + 1)) \<subseteq> {..<BLOCKS_COUNT H}"
      using lists_segreg [OF requestsD(3) [OF ok] s] by (cases "ss (i + 1)") auto
    then show ?thesis
      by (intro fine_without [OF ok, where t = t and q = ?q])
        (use w' t k rf True requestsD(9) [OF ok, of t] spin_same [OF requestsD(4) [OF ok], of "fill_step t k i cur w" t ?q] in simp_all)
  next
    case False
    have w': "fill_step t k i cur w = goes t Idle (w\<lparr>answers := (t, k, 0) # answers w\<rparr>)" using None False by (simp add: fill_step_def)
    have one: "size_ok 1" by (simp add: size_ok_iff)
    show ?thesis
      by (rule fine_without [OF ok, where t = t and q = Idle])
        (use w' t one spin_same [OF requestsD(4) [OF ok], of "fill_step t k i cur w" t Idle] in simp_all)
  qed
qed


section \<open>All steps\<close>

theorem request_step_ok:
  assumes ok: "requests_ok H w pl es ss who" and run: "request_fire e w = Some w'"
  shows "step_ok H w pl who w'"
proof (cases e)
  case (Call t k)
  then show ?thesis using request_call_ok [OF ok] run by simp
next
  case (Go t)
  then have run: "request_step t w = Some w'" using run by simp
  show ?thesis
  proof (cases "at w t")
    case (Slide h k c p)
    then show ?thesis using slide_ok [OF ok Slide] run by (simp add: request_step_def)
  next
    case (Fill k i cur)
    then show ?thesis using fill_ok [OF ok Fill] run by (simp add: request_step_def)
  next
    case (Init k c)
    then show ?thesis using init_ok [OF ok Init] run by (simp add: request_step_def)
  next
    case (Take k c)
    then show ?thesis using take_ok [OF ok Take] run by (simp add: request_step_def)
  qed (use segreg_ok [OF ok, of t] empty_ok [OF ok, of t] run in \<open>simp_all add: request_step_def\<close>)
qed

end
