(* ===== verification/Small_Alone.thy ===== *)
theory Small_Alone
  imports Small_Threads
begin

text \<open>
  The atomic \<open>allocate_small_object\<close> is one schedule of the step model: a thread that runs alone, with
  the locks free, reaches the state and the answer of the atomic function.
\<close>

section \<open>Steps of one thread\<close>

definition alone :: "nat \<Rightarrow> requests \<Rightarrow> requests \<Rightarrow> bool" where
  "alone t w w' \<longleftrightarrow> (\<exists>n. request_run (replicate n (Go t)) w = Some w')"

lemma request_run_append:
  "request_run (xs @ ys) w = (case request_run xs w of None \<Rightarrow> None | Some w' \<Rightarrow> request_run ys w')"
  by (induction xs arbitrary: w) (auto split: option.split)

lemma alone_refl: "alone t w w"
  unfolding alone_def by (intro exI [of _ 0]) simp

lemma alone_trans: "alone t w v \<Longrightarrow> alone t v w' \<Longrightarrow> alone t w w'"
  unfolding alone_def by (metis (no_types, lifting) option.simps(5) replicate_add request_run_append)

lemma alone_step: "request_step t w = Some v \<Longrightarrow> alone t v w' \<Longrightarrow> alone t w w'"
proof (rule alone_trans)
  show "request_step t w = Some v \<Longrightarrow> alone t w v" unfolding alone_def by (intro exI [of _ 1]) simp
qed

lemma goes_goes [simp]: "goes t p (goes t q w) = goes t p w"
  by (simp add: goes_def)

lemma goes_memory [simp]: "(goes t p w)\<lparr>memory := m\<rparr> = goes t p (w\<lparr>memory := m\<rparr>)"
  by (simp add: goes_def)

lemma goes_shared [simp]: "(goes t p w)\<lparr>shared := s\<rparr> = goes t p (w\<lparr>shared := s\<rparr>)"
  by (simp add: goes_def)

text \<open>The inner loop.\<close>

lemma slide_alone:
  assumes "slide B b n p m = Some r"
  shows "\<forall>w :: requests. B = START_ALLOCATOR_HEAP (shared w) \<longrightarrow> b = block_addr (NODES_LIST (shared w) c) \<longrightarrow>
   n = GET_SIZE_WITH_ALIGNMENT (of_nat k) \<longrightarrow>
   alone t (goes t (Slide h k c p) (w\<lparr>memory := m\<rparr>))
      (if fst r then goes t (Take k c) (w\<lparr>memory := snd (snd r)\<rparr>)
       else goes t (Segreg_lock k) (w\<lparr>memory := snd (snd r), shared := if h then set_cache t k None (shared w) else shared w\<rparr>))
    \<and> (fst r \<longleftrightarrow> fst (snd r) + n \<le> b + BLOCK_SIZE)"
  using assms
proof (rule slide.raw_induct [where P = "\<lambda>B b n p m r. \<forall>w :: requests. B = START_ALLOCATOR_HEAP (shared w) \<longrightarrow> b = block_addr (NODES_LIST (shared w) c) \<longrightarrow>
   n = GET_SIZE_WITH_ALIGNMENT (of_nat k) \<longrightarrow>
   alone t (goes t (Slide h k c p) (w\<lparr>memory := m\<rparr>))
      (if fst r then goes t (Take k c) (w\<lparr>memory := snd (snd r)\<rparr>)
       else goes t (Segreg_lock k) (w\<lparr>memory := snd (snd r), shared := if h then set_cache t k None (shared w) else shared w\<rparr>))
    \<and> (fst r \<longleftrightarrow> fst (snd r) + n \<le> b + BLOCK_SIZE)", rotated])
  fix sl B b n p m r
  assume ih: "\<And>B b n p m r. sl B b n p m = Some r \<Longrightarrow> \<forall>w :: requests. B = START_ALLOCATOR_HEAP (shared w) \<longrightarrow> b = block_addr (NODES_LIST (shared w) c) \<longrightarrow>
   n = GET_SIZE_WITH_ALIGNMENT (of_nat k) \<longrightarrow>
   alone t (goes t (Slide h k c p) (w\<lparr>memory := m\<rparr>))
      (if fst r then goes t (Take k c) (w\<lparr>memory := snd (snd r)\<rparr>)
       else goes t (Segreg_lock k) (w\<lparr>memory := snd (snd r), shared := if h then set_cache t k None (shared w) else shared w\<rparr>))
    \<and> (fst r \<longleftrightarrow> fst (snd r) + n \<le> b + BLOCK_SIZE)"
    and run: "(if p + n \<le> b + BLOCK_SIZE then do {
        v \<leftarrow> get_bit_by_address B m p;
        if v = 0 then
          Some (True, p, store64 m (GET_SLIDER_POSITION_ADDR b) p)
        else do {
          m \<leftarrow> set_bit_by_address B p 0 m;
          sl B b n (p + n) m
        }
      } else Some (False, p, m)) = Some r"
  show "\<forall>w :: requests. B = START_ALLOCATOR_HEAP (shared w) \<longrightarrow> b = block_addr (NODES_LIST (shared w) c) \<longrightarrow>
   n = GET_SIZE_WITH_ALIGNMENT (of_nat k) \<longrightarrow>
   alone t (goes t (Slide h k c p) (w\<lparr>memory := m\<rparr>))
      (if fst r then goes t (Take k c) (w\<lparr>memory := snd (snd r)\<rparr>)
       else goes t (Segreg_lock k) (w\<lparr>memory := snd (snd r), shared := if h then set_cache t k None (shared w) else shared w\<rparr>))
    \<and> (fst r \<longleftrightarrow> fst (snd r) + n \<le> b + BLOCK_SIZE)"
  proof (intro allI impI)
    fix w :: requests assume w: "B = START_ALLOCATOR_HEAP (shared w)" "b = block_addr (NODES_LIST (shared w) c)" "n = GET_SIZE_WITH_ALIGNMENT (of_nat k)"
    let ?w = "goes t (Slide h k c p) (w\<lparr>memory := m\<rparr>)"
    let ?goal = "\<lambda>v. alone t v
      (if fst r then goes t (Take k c) (w\<lparr>memory := snd (snd r)\<rparr>)
       else goes t (Segreg_lock k) (w\<lparr>memory := snd (snd r), shared := if h then set_cache t k None (shared w) else shared w\<rparr>))"
    consider (out) "\<not> p + n \<le> b + BLOCK_SIZE" "r = (False, p, m)"
      | (found) "p + n \<le> b + BLOCK_SIZE" "get_bit_by_address B m p = Some 0" "r = (True, p, store64 m (GET_SLIDER_POSITION_ADDR b) p)"
      | (marked) v m1 where "p + n \<le> b + BLOCK_SIZE" "get_bit_by_address B m p = Some v" "v \<noteq> 0"
          "set_bit_by_address B p 0 m = Some m1" "sl B b n (p + n) m1 = Some r"
      using run by (auto simp: bind_eq_Some_conv split: if_splits)
    then show "?goal ?w \<and> (fst r \<longleftrightarrow> fst (snd r) + n \<le> b + BLOCK_SIZE)"
    proof cases
      case out
      have "request_step t ?w = Some (goes t (Segreg_lock k) (w\<lparr>memory := m, shared := if h then set_cache t k None (shared w) else shared w\<rparr>))"
        using out w by (cases h) (simp_all add: request_step_def slide_step_def Let_def)
      then show ?thesis using out alone_step [OF _ alone_refl] by simp
    next
      case found
      have "request_step t ?w = Some (goes t (Take k c) (w\<lparr>memory := store64 m (GET_SLIDER_POSITION_ADDR b) p\<rparr>))"
        using found w by (simp add: request_step_def slide_step_def Let_def)
      then show ?thesis using found alone_step [OF _ alone_refl] by simp
    next
      case (marked v m1)
      have "request_step t ?w = Some (goes t (Slide h k c (p + n)) (w\<lparr>memory := m1\<rparr>))"
        using marked w by (simp add: request_step_def slide_step_def Let_def)
      then show ?thesis using ih [OF marked(5)] w alone_step by blast
    qed
  qed
qed

text \<open>Taking a block from the list of the size, and from the list of empty blocks.\<close>

lemma goes_locks [simp]:
  "(goes t p w)\<lparr>segreg_lists_locks := l\<rparr> = goes t p (w\<lparr>segreg_lists_locks := l\<rparr>)"
  "(goes t p w)\<lparr>empty_list_lock := e\<rparr> = goes t p (w\<lparr>empty_list_lock := e\<rparr>)"
  "(goes t p w)\<lparr>refused := r\<rparr> = goes t p (w\<lparr>refused := r\<rparr>)"
  by (simp_all add: goes_def)

lemma requests_idem:
  "shared w = s \<Longrightarrow> w\<lparr>shared := s\<rparr> = (w :: requests)"
  "segreg_lists_locks w = l \<Longrightarrow> w\<lparr>segreg_lists_locks := l\<rparr> = (w :: requests)"
  "empty_list_lock w = e \<Longrightarrow> w\<lparr>empty_list_lock := e\<rparr> = (w :: requests)"
  by auto

lemma segreg_alone:
  fixes w :: requests
  assumes free: "segreg_lists_locks w k = None" and get: "get_block_from_segreg_list k (shared w) = (r, s)"
  shows "alone t (goes t (Segreg_lock k) w)
    (case r of Some c \<Rightarrow> start_slide t False k c (w\<lparr>shared := s\<rparr>) | None \<Rightarrow> goes t (Empty_lock k) (w\<lparr>shared := s\<rparr>))"
proof -
  let ?l = "w\<lparr>segreg_lists_locks := (segreg_lists_locks w)(k := Some t)\<rparr>"
  have restored: "(segreg_lists_locks w)(k := None) = segreg_lists_locks w" using free by auto
  have 1: "request_step t (goes t (Segreg_lock k) w) = Some (goes t (Segreg_read k) ?l)"
    using free by (simp add: request_step_def segreg_step_def lock_segreg_list_def)
  have 3: "request_step t (goes t (Segreg_unlock k r) (?l\<lparr>shared := s\<rparr>)) = Some
      (case r of Some c \<Rightarrow> start_slide t False k c (w\<lparr>shared := s\<rparr>) | None \<Rightarrow> goes t (Empty_lock k) (w\<lparr>shared := s\<rparr>))"
    using restored by (cases r) (simp_all add: request_step_def segreg_step_def unlock_segreg_list_def start_slide_def requests_idem)
  have 2: "alone t (goes t (Segreg_read k) ?l) (goes t (Segreg_unlock k r) (?l\<lparr>shared := s\<rparr>))"
  proof (cases "SEGREG_LIST (shared w) k")
    case None
    have "request_step t (goes t (Segreg_read k) ?l) = Some (goes t (Segreg_unlock k r) (?l\<lparr>shared := s\<rparr>))"
      using None get by (auto simp: request_step_def segreg_step_def get_block_from_segreg_list_def)
    then show ?thesis by (rule alone_step [OF _ alone_refl])
  next
    case (Some c)
    have "request_step t (goes t (Segreg_read k) ?l) = Some (goes t (Segreg_write k c) ?l)"
      using Some by (simp add: request_step_def segreg_step_def)
    moreover have "request_step t (goes t (Segreg_write k c) ?l) = Some (goes t (Segreg_unlock k r) (?l\<lparr>shared := s\<rparr>))"
      using Some get by (auto simp: request_step_def segreg_step_def get_block_from_segreg_list_def)
    ultimately show ?thesis by (blast intro: alone_step alone_refl)
  qed
  show ?thesis by (rule alone_step [OF 1 alone_trans [OF 2 alone_step [OF 3 alone_refl]]])
qed

lemma empty_alone:
  fixes w :: requests
  assumes free: "empty_list_lock w = None" and get: "allocate_new_block (shared w, g) = (r, s, g')"
  shows "alone t (goes t (Empty_lock k) w)
    (case r of Some c \<Rightarrow> goes t (Init k c) (w\<lparr>shared := s\<rparr>)
      | None \<Rightarrow> goes t (Fill k 1 (SEGREG_LIST s 1)) (w\<lparr>shared := s, refused := True\<rparr>))"
proof -
  let ?l = "w\<lparr>empty_list_lock := Some t\<rparr>"
  have 1: "request_step t (goes t (Empty_lock k) w) = Some (goes t (Empty_read k) ?l)"
    using free by (simp add: request_step_def empty_step_def lock_empty_list_def)
  have 3: "request_step t (goes t (Empty_unlock k r) (?l\<lparr>shared := s\<rparr>)) = Some
      (case r of Some c \<Rightarrow> goes t (Init k c) (w\<lparr>shared := s\<rparr>)
        | None \<Rightarrow> goes t (Fill k 1 (SEGREG_LIST s 1)) (w\<lparr>shared := s, refused := True\<rparr>))"
    using free by (cases r) (simp_all add: request_step_def empty_step_def unlock_empty_list_def requests_idem)
  have 2: "alone t (goes t (Empty_read k) ?l) (goes t (Empty_unlock k r) (?l\<lparr>shared := s\<rparr>))"
  proof (cases "EMPTY_LIST_HEAD (shared w)")
    case None
    have "request_step t (goes t (Empty_read k) ?l) = Some (goes t (Empty_unlock k r) (?l\<lparr>shared := s\<rparr>))"
      using None get by (auto simp: request_step_def empty_step_def allocate_new_block_def)
    then show ?thesis by (rule alone_step [OF _ alone_refl])
  next
    case (Some c)
    let ?h = "(shared w)\<lparr>EMPTY_LIST_HEAD := next_node (NODES_LIST (shared w) c)\<rparr>"
    have "request_step t (goes t (Empty_read k) ?l) = Some (goes t (Empty_write k c) ?l)"
      using Some by (simp add: request_step_def empty_step_def)
    moreover have "request_step t (goes t (Empty_write k c) ?l) = Some (goes t (Empty_clear k c) (?l\<lparr>shared := ?h\<rparr>))"
      by (simp add: request_step_def empty_step_def)
    moreover have "request_step t (goes t (Empty_clear k c) (?l\<lparr>shared := ?h\<rparr>)) = Some (goes t (Empty_unlock k r) (?l\<lparr>shared := s\<rparr>))"
      using Some get by (auto simp: request_step_def empty_step_def allocate_new_block_def)
    ultimately show ?thesis by (blast intro: alone_step alone_refl)
  qed
  show ?thesis by (rule alone_step [OF 1 alone_trans [OF 2 alone_step [OF 3 alone_refl]]])
qed

text \<open>The clearing of all bitmaps.\<close>

lemma clear_list_alone:
  assumes "clear_list ns cur m = Some m'"
  shows "\<forall>w :: requests. ns = NODES_LIST (shared w) \<longrightarrow>
    alone t (goes t (Fill k i cur) (w\<lparr>memory := m\<rparr>)) (goes t (Fill k i None) (w\<lparr>memory := m'\<rparr>))"
  using assms
proof (rule clear_list.raw_induct [where P = "\<lambda>ns cur m m'. \<forall>w :: requests. ns = NODES_LIST (shared w) \<longrightarrow>
    alone t (goes t (Fill k i cur) (w\<lparr>memory := m\<rparr>)) (goes t (Fill k i None) (w\<lparr>memory := m'\<rparr>))", rotated])
  fix cl ns cur m m'
  assume ih: "\<And>ns cur m m'. cl ns cur m = Some m' \<Longrightarrow> \<forall>w :: requests. ns = NODES_LIST (shared w) \<longrightarrow>
      alone t (goes t (Fill k i cur) (w\<lparr>memory := m\<rparr>)) (goes t (Fill k i None) (w\<lparr>memory := m'\<rparr>))"
    and run: "(case cur of None \<Rightarrow> Some m | Some c \<Rightarrow> cl ns (next_node (ns c))
        (clear_bitmap_words (BITMAP_BYTES_COUNT div 8) (GET_BITMAP_ADDR (block_addr (ns c))) m)) = Some m'"
  show "\<forall>w :: requests. ns = NODES_LIST (shared w) \<longrightarrow>
    alone t (goes t (Fill k i cur) (w\<lparr>memory := m\<rparr>)) (goes t (Fill k i None) (w\<lparr>memory := m'\<rparr>))"
  proof (intro allI impI)
    fix w :: requests assume w: "ns = NODES_LIST (shared w)"
    show "alone t (goes t (Fill k i cur) (w\<lparr>memory := m\<rparr>)) (goes t (Fill k i None) (w\<lparr>memory := m'\<rparr>))"
    proof (cases cur)
      case None
      then show ?thesis using run by (simp add: alone_refl)
    next
      case (Some c)
      let ?m = "clear_bitmap_words (BITMAP_BYTES_COUNT div 8) (GET_BITMAP_ADDR (block_addr (ns c))) m"
      have "request_step t (goes t (Fill k i cur) (w\<lparr>memory := m\<rparr>)) = Some (goes t (Fill k i (next_node (ns c))) (w\<lparr>memory := ?m\<rparr>))"
        using Some w by (simp add: request_step_def fill_step_def)
      moreover have "cl ns (next_node (ns c)) ?m = Some m'" using run Some by simp
      ultimately show ?thesis using ih w alone_step by blast
    qed
  qed
qed

lemma clear_lists_alone:
  fixes w :: requests
  assumes "clear_lists j i (shared w) m = Some m'" and "0 < j" and "i + j = OBJECT_SIZE_UPPER_BOUND"
  shows "alone t (goes t (Fill k i (SEGREG_LIST (shared w) i)) (w\<lparr>memory := m\<rparr>))
    (goes t Idle (w\<lparr>memory := m', answers := (t, k, 0) # answers w\<rparr>))"
  using assms
proof (induction j arbitrary: i m)
  case (Suc j)
  then obtain m1 where m1: "clear_list (NODES_LIST (shared w)) (SEGREG_LIST (shared w) i) m = Some m1"
    "clear_lists j (i + 1) (shared w) m1 = Some m'" by (auto simp: bind_eq_Some_conv)
  have first: "alone t (goes t (Fill k i (SEGREG_LIST (shared w) i)) (w\<lparr>memory := m\<rparr>)) (goes t (Fill k i None) (w\<lparr>memory := m1\<rparr>))"
    using clear_list_alone [OF m1(1)] by blast
  show ?case
  proof (cases "j = 0")
    case True
    have "request_step t (goes t (Fill k i None) (w\<lparr>memory := m1\<rparr>)) = Some (goes t Idle (w\<lparr>memory := m', answers := (t, k, 0) # answers w\<rparr>))"
      using True m1(2) Suc.prems(3) by (simp add: request_step_def fill_step_def goes_def)
    then show ?thesis using first alone_trans alone_step alone_refl by blast
  next
    case False
    have "request_step t (goes t (Fill k i None) (w\<lparr>memory := m1\<rparr>)) = Some (goes t (Fill k (i + 1) (SEGREG_LIST (shared w) (i + 1))) (w\<lparr>memory := m1\<rparr>))"
      using False Suc.prems(3) by (simp add: request_step_def fill_step_def)
    moreover have "alone t (goes t (Fill k (i + 1) (SEGREG_LIST (shared w) (i + 1))) (w\<lparr>memory := m1\<rparr>))
        (goes t Idle (w\<lparr>memory := m', answers := (t, k, 0) # answers w\<rparr>))"
      using False Suc.prems(3) by (intro Suc.IH [OF m1(2)]) simp_all
    ultimately show ?thesis using first alone_trans alone_step by blast
  qed
qed simp


section \<open>The request\<close>

lemma slide_block_alone:
  fixes w :: requests
  assumes "slide_block (shared w) c n (memory w) = Some (f, p, m)" and "n = GET_SIZE_WITH_ALIGNMENT (of_nat k)"
  shows "alone t (start_slide t h k c w)
      (if f then goes t (Take k c) (w\<lparr>memory := m\<rparr>)
       else goes t (Segreg_lock k) (w\<lparr>memory := m, shared := if h then set_cache t k None (shared w) else shared w\<rparr>))"
    and "f \<longleftrightarrow> p + n \<le> block_addr (NODES_LIST (shared w) c) + BLOCK_SIZE"
proof -
  note loop = slide_alone [OF assms(1) [unfolded slide_block_def Let_def], of c k, THEN spec, of w, rule_format, OF refl refl assms(2)]
  show "alone t (start_slide t h k c w)
      (if f then goes t (Take k c) (w\<lparr>memory := m\<rparr>)
       else goes t (Segreg_lock k) (w\<lparr>memory := m, shared := if h then set_cache t k None (shared w) else shared w\<rparr>))"
    using conjunct1 [OF loop, of t h] by (cases f; cases h) (simp_all add: start_slide_def)
  show "f \<longleftrightarrow> p + n \<le> block_addr (NODES_LIST (shared w) c) + BLOCK_SIZE" using conjunct2 [OF loop] by simp
qed

text \<open>Where the search for a block leaves the thread.\<close>

definition found :: "nat \<Rightarrow> nat \<Rightarrow> nat option \<times> small_state \<times> mem \<times> log_state \<Rightarrow> requests \<Rightarrow> requests" where
  "found t k = (\<lambda>(r, s, m, g) w. case r of
     Some c \<Rightarrow> goes t (Take k c) (w\<lparr>shared := s, memory := m\<rparr>)
   | None \<Rightarrow> goes t Idle (w\<lparr>shared := s, memory := m, answers := (t, k, 0) # answers w, refused := True\<rparr>))"

definition finds_alone ::
  "nat \<Rightarrow> size_t \<Rightarrow> size_t \<Rightarrow> nat option \<Rightarrow> small_state \<Rightarrow> mem \<Rightarrow> nat option \<times> small_state \<times> mem \<times> log_state \<Rightarrow> bool" where
  "finds_alone t object_size n cached s m r \<longleftrightarrow> (\<forall>w. shared w = s \<longrightarrow> memory w = m \<longrightarrow> n = GET_SIZE_WITH_ALIGNMENT object_size
     \<longrightarrow> segreg_lists_locks w (unat object_size) = None \<longrightarrow> empty_list_lock w = None
     \<longrightarrow> alone t (case cached of Some c \<Rightarrow> start_slide t True (unat object_size) c w | None \<Rightarrow> goes t (Segreg_lock (unat object_size)) w)
       (found t (unat object_size) r w))"

lemma finds_aloneI:
  assumes "\<And>w. shared w = s \<Longrightarrow> memory w = m \<Longrightarrow> n = GET_SIZE_WITH_ALIGNMENT sz \<Longrightarrow> segreg_lists_locks w (unat sz) = None
    \<Longrightarrow> empty_list_lock w = None
    \<Longrightarrow> alone t (case cached of Some c \<Rightarrow> start_slide t True (unat sz) c w | None \<Rightarrow> goes t (Segreg_lock (unat sz)) w) (found t (unat sz) r w)"
  shows "finds_alone t sz n cached s m r"
  using assms by (simp add: finds_alone_def)

text \<open>The turn that continues in the lists.\<close>

lemma finds_again:
  assumes "finds_alone t sz n None s' m' r" and "n = GET_SIZE_WITH_ALIGNMENT sz"
    and "segreg_lists_locks w (unat sz) = None" and "empty_list_lock w = None"
    and "alone t v (goes t (Segreg_lock (unat sz)) (w\<lparr>memory := m', shared := s'\<rparr>))"
  shows "alone t v (found t (unat sz) r w)"
proof -
  have "alone t (goes t (Segreg_lock (unat sz)) (w\<lparr>memory := m', shared := s'\<rparr>)) (found t (unat sz) r (w\<lparr>memory := m', shared := s'\<rparr>))"
    using assms(1-4) by (auto simp: finds_alone_def)
  moreover have "found t (unat sz) r (w\<lparr>memory := m', shared := s'\<rparr>) = found t (unat sz) r w"
    by (auto simp: found_def split: prod.split option.split)
  ultimately show ?thesis using assms(5) alone_trans by simp
qed

lemma finds_new:
  fixes w :: requests
  assumes new: "allocate_new_block (shared w, g) = (r, s, g')" and free: "empty_list_lock w = None"
    and run: "(case r of None \<Rightarrow> do { m \<leftarrow> fill_all_bitmaps_with_zeros s (memory w); Some (None, s, m, g') }
      | Some c \<Rightarrow> Some (Some c, s, init_header (NODES_LIST s c) (of_nat k) (memory w), g')) = Some x"
  shows "alone t (goes t (Empty_lock k) w) (found t k x w)"
proof (cases r)
  case (Some c)
  have "request_step t (goes t (Init k c) (w\<lparr>shared := s\<rparr>)) = Some (found t k x w)"
    using run Some by (auto simp: request_step_def found_def)
  then show ?thesis using empty_alone [OF free new, of t k] Some alone_trans alone_step alone_refl by fastforce
next
  case None
  then obtain m where m: "fill_all_bitmaps_with_zeros s (memory w) = Some m" "x = (None, s, m, g')"
    using run by (auto simp: bind_eq_Some_conv)
  let ?w = "w\<lparr>shared := s, refused := True\<rparr>"
  have "alone t (goes t (Fill k 1 (SEGREG_LIST (shared ?w) 1)) (?w\<lparr>memory := memory w\<rparr>))
      (goes t Idle (?w\<lparr>memory := m, answers := (t, k, 0) # answers ?w\<rparr>))"
    using m(1) by (intro clear_lists_alone) (simp_all add: fill_all_bitmaps_with_zeros_def OBJECT_SIZE_UPPER_BOUND_def MAX_OBJECT_SIZE_def)
  moreover have "goes t Idle (?w\<lparr>memory := m, answers := (t, k, 0) # answers ?w\<rparr>) = found t k x w"
    using m(2) by (simp add: found_def)
  ultimately show ?thesis using empty_alone [OF free new, of t k] None alone_trans by fastforce
qed

lemma find_alone:
  assumes "find_block t sz n cached s m g = Some r"
  shows "finds_alone t sz n cached s m r"
  using assms
proof (rule find_block.raw_induct [where P = "\<lambda>t sz n cached s m g r. finds_alone t sz n cached s m r", rotated])
  fix fb t sz n cached s m g r
  assume ih: "\<And>t sz n cached s m g r. fb t sz n cached s m g = Some r \<Longrightarrow> finds_alone t sz n cached s m r"
    and run: "(case cached of
        Some c \<Rightarrow> do {
          (is_block_found, slider_position, m) \<leftarrow> slide_block s c n m;
          let s = (if slider_position + n > block_addr (NODES_LIST s c) + BLOCK_SIZE
                   then set_cache t (unat sz) None s else s);
          if is_block_found then Some (Some c, s, m, g)
          else fb t sz n None s m g
        }
      | None \<Rightarrow>
          (case get_block_from_segreg_list (unat sz) s of
             (Some c, s) \<Rightarrow> do {
               (is_block_found, slider_position, m) \<leftarrow> slide_block s c n m;
               if is_block_found then Some (Some c, s, m, g)
               else fb t sz n None s m g
             }
           | (None, s) \<Rightarrow>
               (case allocate_new_block (s, g) of
                  (None, s, g) \<Rightarrow> do {
                    m \<leftarrow> fill_all_bitmaps_with_zeros s m;
                    Some (None, s, m, g)
                  }
                | (Some c, s, g) \<Rightarrow> Some (Some c, s, init_header (NODES_LIST s c) sz m, g)))) = Some r"
  let ?k = "unat sz"
  show "finds_alone t sz n cached s m r"
  proof (rule finds_aloneI)
    fix w :: requests
    assume w: "shared w = s" "memory w = m" and n: "n = GET_SIZE_WITH_ALIGNMENT sz"
      and free: "segreg_lists_locks w ?k = None" "empty_list_lock w = None"
    show "alone t (case cached of Some c \<Rightarrow> start_slide t True ?k c w | None \<Rightarrow> goes t (Segreg_lock ?k) w) (found t ?k r w)"
    proof (cases cached)
      case (Some c)
      obtain f p m1 where sl: "slide_block s c n m = Some (f, p, m1)" using run Some by (cases "slide_block s c n m") auto
      have alone: "alone t (start_slide t True ?k c w)
            (if f then goes t (Take ?k c) (w\<lparr>memory := m1\<rparr>)
             else goes t (Segreg_lock ?k) (w\<lparr>memory := m1, shared := set_cache t ?k None s\<rparr>))"
          "f \<longleftrightarrow> p + n \<le> block_addr (NODES_LIST s c) + BLOCK_SIZE"
        using slide_block_alone(1) [of w c n f p m1 ?k t True] slide_block_alone(2) [of w c n f p m1 ?k] sl w n
        by (cases f; simp)+
      have run': "(if f then Some (Some c, s, m1, g) else fb t sz n None (set_cache t ?k None s) m1 g) = Some r"
        using run Some sl alone(2) n by (auto simp: Let_def not_le not_less split: if_splits)
      show ?thesis
      proof (cases f)
        case True
        then have "r = (Some c, s, m1, g)" using run' by simp
        then show ?thesis using alone(1) True Some w(1) by (simp add: found_def requests_idem)
      next
        case False
        then have "fb t sz n None (set_cache t ?k None s) m1 g = Some r" using run' by simp
        then show ?thesis using finds_again [OF ih n free] alone(1) False Some by simp
      qed
    next
      case None
      obtain x s1 where get: "get_block_from_segreg_list ?k s = (x, s1)" by (cases "get_block_from_segreg_list ?k s")
      note first = segreg_alone [OF free(1) get [folded w(1)], of t]
      show ?thesis
      proof (cases x)
        case (Some c)
        obtain f p m1 where sl: "slide_block s1 c n m = Some (f, p, m1)" using run None get Some by (cases "slide_block s1 c n m") auto
        have run': "(if f then Some (Some c, s1, m1, g) else fb t sz n None s1 m1 g) = Some r"
          using run None get Some sl by simp
        have next_: "alone t (goes t (Segreg_lock ?k) w)
            (if f then goes t (Take ?k c) (w\<lparr>shared := s1, memory := m1\<rparr>) else goes t (Segreg_lock ?k) (w\<lparr>memory := m1, shared := s1\<rparr>))"
          using alone_trans [OF first] Some slide_block_alone(1) [of "w\<lparr>shared := s1\<rparr>" c n f p m1 ?k t False] sl w n
          by (cases f) simp_all
        show ?thesis
        proof (cases f)
          case True
          then show ?thesis using next_ run' None by (auto simp: found_def)
        next
          case False
          then have "fb t sz n None s1 m1 g = Some r" using run' by simp
          then show ?thesis using finds_again [OF ih n free] next_ False None by simp
        qed
      next
        case none: None
        obtain y s2 g2 where new: "allocate_new_block (s1, g) = (y, s2, g2)" by (metis prod_cases3)
        have "alone t (goes t (Empty_lock ?k) (w\<lparr>shared := s1\<rparr>)) (found t ?k r (w\<lparr>shared := s1\<rparr>))"
          by (rule finds_new [of _ g y s2 g2]) (use new free run None get none w in \<open>simp_all split: option.splits\<close>)
        moreover have "found t ?k r (w\<lparr>shared := s1\<rparr>) = found t ?k r w"
          by (auto simp: found_def split: prod.split option.split)
        ultimately show ?thesis using first none None alone_trans by fastforce
      qed
    qed
  qed
qed

text \<open>The whole call.\<close>

lemma request_alone:
  assumes run: "allocate_small_object t sz (shared w, memory w, g) = Some (a, s', m', g')"
    and sz: "1 \<le> sz" "sz \<le> MAX_OBJECT_SIZE" and idle: "at w t = Idle"
    and free: "segreg_lists_locks w (unat sz) = None" "empty_list_lock w = None"
  shows "\<exists>n r. (r \<longrightarrow> refused w \<or> a = 0) \<and> request_run (Call t (unat sz) # replicate n (Go t)) w
    = Some (w\<lparr>shared := s', memory := m', answers := (t, unat sz, a) # answers w, refused := r\<rparr>)"
proof -
  let ?k = "unat sz"
  obtain r s1 m1 g1 where find: "find_block t sz (GET_SIZE_WITH_ALIGNMENT sz) (nodes_cache (shared w) t ?k) (shared w) (memory w)
      (snd (check_the_space (GET_SIZE_WITH_ALIGNMENT sz) g)) = Some (r, s1, m1, g1)"
    and rest: "(case r of None \<Rightarrow> Some (0, s1, m1, g1)
     | Some c \<Rightarrow>
         let b = block_addr (NODES_LIST s1 c);
             slider_position = load64 m1 (GET_SLIDER_POSITION_ADDR b);
             new_slider_position = slider_position + GET_SIZE_WITH_ALIGNMENT sz;
             s2 = set_cache t ?k (if new_slider_position \<ge> b + BLOCK_SIZE then None else Some c) s1;
             m2 = store64 m1 (GET_SLIDER_POSITION_ADDR b) new_slider_position
         in Some (slider_position, s2, m2, log ALLOCATE_NEW_OBJECT OK g1)) = Some (a, s', m', g')"
    using run by (auto simp: allocate_small_object_def Let_def bind_eq_Some_conv split: prod.splits)
  have k: "1 \<le> ?k" "?k \<le> unat MAX_OBJECT_SIZE" using sz by (simp_all add: word_le_nat_alt)
  let ?v = "case nodes_cache (shared w) t ?k of Some c \<Rightarrow> start_slide t True ?k c w | None \<Rightarrow> goes t (Segreg_lock ?k) w"
  let ?done = "\<lambda>r. w\<lparr>shared := s', memory := m', answers := (t, ?k, a) # answers w, refused := r\<rparr>"
  have call: "request_call t ?k w = Some ?v" using idle k by (simp add: request_call_def)
  have search: "alone t ?v (found t ?k (r, s1, m1, g1) w)"
    using find_alone [OF find] free by (simp add: finds_alone_def)
  have stay: "goes t Idle w' = w'" if "at w' = at w" for w' using that idle by (simp add: goes_def fun_upd_idem)
  have "\<exists>r. (r \<longrightarrow> refused w \<or> a = 0) \<and> alone t ?v (?done r)"
  proof (cases r)
    case None
    then have "found t ?k (r, s1, m1, g1) w = ?done True" using rest by (simp add: found_def stay)
    moreover have "a = 0" using rest None by simp
    ultimately show ?thesis using search by auto
  next
    case (Some c)
    have "request_step t (found t ?k (r, s1, m1, g1) w) = Some (goes t Idle (?done (refused w)))"
      using rest Some by (auto simp: request_step_def found_def take_step_def Let_def goes_def)
    then have "request_step t (found t ?k (r, s1, m1, g1) w) = Some (?done (refused w))" by (simp add: stay)
    then have "alone t ?v (?done (refused w))" using search alone_trans alone_step alone_refl by blast
    then show ?thesis by blast
  qed
  then show ?thesis using call by (auto simp: alone_def)
qed

end
