(* ===== verification/Small_Concurrent.thy ===== *)
theory Small_Concurrent
  imports Small_Steps Small_Alone
begin

text \<open>
  What concurrent requests guarantee: their objects do not overlap and leave the survivors of a
  collection alone, some thread can always step, and a thread that runs alone does what the atomic
  \<open>allocate_small_object\<close> does.
\<close>

section \<open>Runs\<close>

definition answer_range :: "nat \<times> nat \<times> size_t \<Rightarrow> nat set" where
  "answer_range = (\<lambda>(t, k, a). if a = 0 then {} else obj_range (a, of_nat k))"

definition run_ok :: "size_t \<Rightarrow> (bool \<Rightarrow> nat set) \<Rightarrow> size_t \<Rightarrow> mem \<Rightarrow> requests \<Rightarrow> (nat \<Rightarrow> place) \<Rightarrow> (nat \<Rightarrow> nat option) \<Rightarrow> bool" where
  "run_ok H F B m w pl who \<longleftrightarrow> START_ALLOCATOR_HEAP (shared w) = B \<and> headers_only H B m (memory w)
     \<and> (\<forall>ign. ign \<or> \<not> refused w \<longrightarrow> rooms ign H w pl who \<subseteq> F ign)
     \<and> (\<forall>x \<in> set (answers w). answer_range x \<inter> rooms True H w pl who = {}
         \<and> (snd (snd x) \<noteq> 0 \<longrightarrow> size_ok (fst (snd x)) \<and> 8 dvd unat (snd (snd x) - B))
         \<and> (\<forall>ign. ign \<or> \<not> refused w \<longrightarrow> answer_range x \<subseteq> F ign))
     \<and> sorted_wrt (\<lambda>x y. answer_range x \<inter> answer_range y = {}) (answers w)"

lemma run_okD:
  assumes "run_ok H F B m w pl who"
  shows "START_ALLOCATOR_HEAP (shared w) = B" "headers_only H B m (memory w)"
    and "ign \<or> \<not> refused w \<Longrightarrow> rooms ign H w pl who \<subseteq> F ign"
    and "x \<in> set (answers w) \<Longrightarrow> answer_range x \<inter> rooms True H w pl who = {}"
    and "x \<in> set (answers w) \<Longrightarrow> snd (snd x) \<noteq> 0 \<longrightarrow> size_ok (fst (snd x)) \<and> 8 dvd unat (snd (snd x) - B)"
    and "x \<in> set (answers w) \<Longrightarrow> ign \<or> \<not> refused w \<Longrightarrow> answer_range x \<subseteq> F ign"
    and "sorted_wrt (\<lambda>x y. answer_range x \<inter> answer_range y = {}) (answers w)"
proof -
  note d = assms [unfolded run_ok_def]
  note e = conjunct2 [OF conjunct2 [OF d]]
  note f = conjunct1 [OF conjunct2 [OF e]]
  show "START_ALLOCATOR_HEAP (shared w) = B" "headers_only H B m (memory w)"
    by (rule conjunct1 [OF d], rule conjunct1 [OF conjunct2 [OF d]])
  show "ign \<or> \<not> refused w \<Longrightarrow> rooms ign H w pl who \<subseteq> F ign"
    by (rule conjunct1 [OF e, rule_format])
  show "sorted_wrt (\<lambda>x y. answer_range x \<inter> answer_range y = {}) (answers w)"
    by (rule conjunct2 [OF conjunct2 [OF e]])
  assume x: "x \<in> set (answers w)"
  note g = bspec [OF f x]
  show "answer_range x \<inter> rooms True H w pl who = {}" by (rule conjunct1 [OF g])
  show "snd (snd x) \<noteq> 0 \<longrightarrow> size_ok (fst (snd x)) \<and> 8 dvd unat (snd (snd x) - B)" by (rule conjunct1 [OF conjunct2 [OF g]])
  show "ign \<or> \<not> refused w \<Longrightarrow> answer_range x \<subseteq> F ign" by (rule conjunct2 [OF conjunct2 [OF g], rule_format])
qed

lemma run_okI:
  assumes "START_ALLOCATOR_HEAP (shared w) = B" "headers_only H B m (memory w)"
    and "\<And>ign. ign \<or> \<not> refused w \<Longrightarrow> rooms ign H w pl who \<subseteq> F ign"
    and "\<And>x. x \<in> set (answers w) \<Longrightarrow> answer_range x \<inter> rooms True H w pl who = {}"
    and "\<And>x. x \<in> set (answers w) \<Longrightarrow> snd (snd x) \<noteq> 0 \<longrightarrow> size_ok (fst (snd x)) \<and> 8 dvd unat (snd (snd x) - B)"
    and "\<And>x ign. x \<in> set (answers w) \<Longrightarrow> ign \<or> \<not> refused w \<Longrightarrow> answer_range x \<subseteq> F ign"
    and "sorted_wrt (\<lambda>x y. answer_range x \<inter> answer_range y = {}) (answers w)"
  shows "run_ok H F B m w pl who"
  unfolding run_ok_def
proof (intro conjI ballI)
  show "\<forall>ign. ign \<or> \<not> refused w \<longrightarrow> rooms ign H w pl who \<subseteq> F ign" using assms(3) by simp
  show "\<forall>ign. ign \<or> \<not> refused w \<longrightarrow> answer_range x \<subseteq> F ign" if "x \<in> set (answers w)" for x
    using assms(6) [OF that] by simp
qed (rule assms(1,2,4,5,7), assumption?)+

text \<open>One more answer.\<close>

lemma run_ok_step:
  assumes run: "run_ok H F B m w pl who" and fine: "step_fine H w pl who w' pl' who'"
  shows "run_ok H F B m w' pl' who'"
proof -
  note old = run_okD [OF run]
  have sub: "ign \<or> \<not> refused w' \<Longrightarrow> rooms ign H w' pl' who' \<subseteq> rooms ign H w pl who" and rf: "refused w \<Longrightarrow> refused w'"
    and frame: "headers_only H (START_ALLOCATOR_HEAP (shared w)) (memory w) (memory w')"
      "START_ALLOCATOR_HEAP (shared w') = START_ALLOCATOR_HEAP (shared w)" for ign
    using fine unfolding step_fine_def by blast+
  have F: "ign \<or> \<not> refused w' \<Longrightarrow> rooms ign H w pl who \<subseteq> F ign" for ign using old(3) rf by blast
  have frame': "START_ALLOCATOR_HEAP (shared w') = B" "headers_only H B m (memory w')"
    using old(1,2) frame headers_only_trans by auto
  have F': "ign \<or> \<not> refused w' \<Longrightarrow> rooms ign H w' pl' who' \<subseteq> F ign" for ign using sub F by blast
  have in_F: "x \<in> set (answers w) \<Longrightarrow> ign \<or> \<not> refused w' \<Longrightarrow> answer_range x \<subseteq> F ign" for x ign using old(6) rf by blast
  consider (same) "answers w' = answers w" | (new) x where "answers w' = x # answers w" "answer_range x \<inter> rooms True H w' pl' who' = {}"
      "snd (snd x) \<noteq> 0 \<longrightarrow> size_ok (fst (snd x)) \<and> 8 dvd unat (snd (snd x) - B)" "\<And>ign. answer_range x \<subseteq> rooms ign H w pl who"
  proof -
    consider "answers w' = answers w" | t k where "answers w' = (t, k, 0) # answers w"
      | t k a where "answers w' = (t, k, a) # answers w" "a \<noteq> 0" "size_ok k" "8 dvd unat (a - START_ALLOCATOR_HEAP (shared w))"
        "\<And>ign. obj_range (a, of_nat k) \<subseteq> rooms ign H w pl who" "rooms True H w' pl' who' \<inter> obj_range (a, of_nat k) = {}"
      using fine unfolding step_fine_def by blast
    then show thesis
    proof cases
      case 1
      then show thesis by (rule same)
    next
      case (2 t k)
      then show thesis by (rule new) (simp_all add: answer_range_def)
    next
      case (3 t k a)
      then show thesis using old(1) by (intro new [OF 3(1)]) (auto simp: answer_range_def)
    qed
  qed
  then show ?thesis
  proof cases
    case same
    have "answer_range x \<inter> rooms True H w' pl' who' = {}" if "x \<in> set (answers w)" for x
      using old(4) [OF that] sub [of True] by blast
    then show ?thesis using old(5,7) same in_F by (intro run_okI frame' F') simp_all
  next
    case (new x)
    have apart: "answer_range x \<inter> answer_range y = {}" if "y \<in> set (answers w)" for y using old(4) [OF that] new(4) [of True] by blast
    have "answer_range y \<inter> rooms True H w' pl' who' = {}" if "y \<in> set (answers w')" for y
      using that old(4) [of y] sub [of True] new(2) unfolding new(1) by auto
    moreover have "sorted_wrt (\<lambda>x y. answer_range x \<inter> answer_range y = {}) (answers w')"
      unfolding new(1) using apart old(7) by simp
    moreover have "answer_range y \<subseteq> F ign" if "y \<in> set (answers w')" "ign \<or> \<not> refused w'" for y ign
      using that(1) in_F [OF _ that(2), of y] F [OF that(2)] new(4) [of ign] unfolding new(1) by auto
    moreover have "snd (snd y) \<noteq> 0 \<longrightarrow> size_ok (fst (snd y)) \<and> 8 dvd unat (snd (snd y) - B)" if "y \<in> set (answers w')" for y
      using that old(5) [of y] new(3) unfolding new(1) by auto
    ultimately show ?thesis by (intro run_okI frame' F')
  qed
qed

lemma run_steps:
  assumes "requests_ok H w pl es ss who" and "run_ok H F B m w pl who" and "request_run evs w = Some w'"
  shows "\<exists>pl' es' ss' who'. requests_ok H w' pl' es' ss' who' \<and> run_ok H F B m w' pl' who'"
  using assms
proof (induction evs arbitrary: w pl es ss who)
  case (Cons e evs)
  then obtain v where v: "request_fire e w = Some v" "request_run evs v = Some w'" by (auto split: option.splits)
  then obtain pl1 es1 ss1 who1 where "requests_ok H v pl1 es1 ss1 who1" "step_fine H w pl who v pl1 who1"
    using request_step_ok [OF Cons.prems(1)] by blast
  then show ?case using Cons.IH [OF _ run_ok_step [OF Cons.prems(2)] v(2)] by blast
qed auto

lemma quiet_ok:
  assumes inv: "small_inv H s m pl es ss" and links: "links_ok (BLOCKS_COUNT H) s"
  shows "requests_ok H (quiet s m) pl es ss (\<lambda>_. None)"
    and "rooms ign H (quiet s m) pl (\<lambda>_. None) = (\<Union>i < BLOCKS_COUNT H. idle_room ign m (blk (START_ALLOCATOR_HEAP s) i) (pl i))"
proof -
  have one: "size_ok 1" by (simp add: size_ok_iff)
  then show "requests_ok H (quiet s m) pl es ss (\<lambda>_. None)"
    using inv links by (simp add: requests_ok_def quiet_def heap_shape_def small_inv_def thread_ok_def spin_ok_def)
  show "rooms ign H (quiet s m) pl (\<lambda>_. None) = (\<Union>i < BLOCKS_COUNT H. idle_room ign m (blk (START_ALLOCATOR_HEAP s) i) (pl i))"
    by (simp add: rooms_def space_def quiet_def)
qed

lemma idle_free: "idle_room False m b p = free_at m b p"
  by (cases p) (simp_all add: avail_free whole_def)

lemma concurrent_run:
  assumes inv: "small_inv H s m pl es ss" and links: "links_ok (BLOCKS_COUNT H) s" and run: "request_run evs (quiet s m) = Some w"
  obtains pl' es' ss' who' where "requests_ok H w pl' es' ss' who'" and "headers_only H (START_ALLOCATOR_HEAP s) m (memory w)"
    and "sorted_wrt (\<lambda>x y. answer_range x \<inter> answer_range y = {}) (answers w)"
    and "\<And>t k a. (t, k, a) \<in> set (answers w) \<Longrightarrow> a \<noteq> 0 \<Longrightarrow> size_ok k \<and> 8 dvd unat (a - START_ALLOCATOR_HEAP s)"
    and "\<And>x. \<not> refused w \<Longrightarrow> x \<in> set (answers w) \<Longrightarrow> answer_range x \<subseteq> free_bytes H s m pl"
proof -
  let ?F = "\<lambda>ign. rooms ign H (quiet s m) pl (\<lambda>_. None)"
  have "run_ok H ?F (START_ALLOCATOR_HEAP s) m (quiet s m) pl (\<lambda>_. None)" by (simp add: run_ok_def quiet_def)
  then obtain pl' es' ss' who' where w: "requests_ok H w pl' es' ss' who'" "run_ok H ?F (START_ALLOCATOR_HEAP s) m w pl' who'"
    using run_steps [OF quiet_ok(1) [OF inv links] _ run] by blast
  have F: "?F False = free_bytes H s m pl" unfolding quiet_ok(2) [OF inv links] idle_free free_bytes_def by simp
  show thesis
    by (rule that [OF w(1)]) (use w(2) F in \<open>fastforce simp: run_ok_def\<close>)+
qed



section \<open>Progress\<close>

lemma slide_enabled:
  assumes ok: "requests_ok H w pl es ss who" and t: "at w t = Slide h k c p"
  shows "slide_step t h k c p w \<noteq> None"
proof -
  have hd: "hold (at w t) = Some c" by (simp add: t)
  note hand = in_hand [OF ok hd]
  note b = heap_base [OF requestsD(1) [OF ok] hand(2)]
  have k: "size_ok k" using requestsD(8) [OF ok, of t] t by simp
  have sz: "sized (memory w) (base w c) k" using hand(4) t by simp
  obtain j where j: "j \<le> slots (al k)" "p = slot (base w c) (al k) j" using hand(4) t by auto
  have al: "unat (GET_SIZE_WITH_ALIGNMENT (load64 (memory w) (base w c + 8))) = al k"
    using sz by (simp add: sized_def align_size_ok [OF k])
  show ?thesis
  proof (cases "j < slots (al k)")
    case True
    show ?thesis
      using get_bit_slot [OF b(3) al al_bounds(1) [OF k] True] set_bit_slot [OF b(3) al al_bounds(1) [OF k] True, of False, simplified]
      by (simp add: slide_step_def Let_def j(2))
  next
    case False
    then show ?thesis
      using slot_guard [OF b(4) k j(1)] b(1) align_word [OF k] by (simp add: slide_step_def Let_def j(2))
  qed
qed

text \<open>Only a thread at a lock may have to wait, and then the holder of the lock can step.\<close>

lemma enabled:
  assumes ok: "requests_ok H w pl es ss who" and t: "at w t \<noteq> Idle"
    and seg: "\<And>k. at w t = Segreg_lock k \<Longrightarrow> segreg_lists_locks w k = None"
    and emp: "\<And>k. at w t = Empty_lock k \<Longrightarrow> empty_list_lock w = None"
  shows "request_step t w \<noteq> None"
proof (cases "at w t")
  case (Slide h k c p)
  then show ?thesis using slide_enabled [OF ok Slide] by (simp add: request_step_def)
qed (use t seg emp in \<open>simp_all add: request_step_def segreg_step_def empty_step_def lock_segreg_list_def lock_empty_list_def\<close>)

lemma waits_for_holder:
  assumes ok: "requests_ok H w pl es ss who" and t: "at w t \<noteq> Idle"
  shows "request_step t w \<noteq> None \<or> (\<exists>u. request_step u w \<noteq> None \<and>
      ((\<exists>k. at w t = Segreg_lock k \<and> segreg_lists_locks w k = Some u) \<or> (\<exists>k. at w t = Empty_lock k \<and> empty_list_lock w = Some u)))"
proof -
  have l: "segreg_lists_locks w k = Some u \<longleftrightarrow> holds_segreg (at w u) = Some k" "empty_list_lock w = Some u \<longleftrightarrow> holds_empty (at w u)" for k u
    using requestsD(4) [OF ok] by (simp_all add: spin_ok_def)
  have holder: "request_step u w \<noteq> None" if "holds_segreg (at w u) = Some k \<or> holds_empty (at w u)" for u k
    by (rule enabled [OF ok]) (use that in auto)
  consider k u where "at w t = Segreg_lock k" "segreg_lists_locks w k = Some u"
    | k u where "at w t = Empty_lock k" "empty_list_lock w = Some u"
    | "request_step t w \<noteq> None"
    using enabled [OF ok t] by fastforce
  then show ?thesis
  proof cases
    case 1
    then show ?thesis using holder [of u k] l(1) by blast
  next
    case 2
    then show ?thesis using holder [of u k] l(2) by blast
  qed (use t in blast)
qed

section \<open>Properties\<close>

text \<open>C12: threads that allocate at once, whatever their interleaving, get objects that do not overlap, at aligned
  addresses, and only headers of blocks are written. As long as no request was refused, all objects
  lie in bytes that were free at the start.\<close>

theorem concurrent_requests_disjoint:
  assumes "small_ok H s m pl" and "links_ok (BLOCKS_COUNT H) s" and "request_run evs (quiet s m) = Some w"
  shows "sorted_wrt (\<lambda>x y. answer_range x \<inter> answer_range y = {}) (answers w)
    \<and> (\<forall>t k a. (t, k, a) \<in> set (answers w) \<longrightarrow> a \<noteq> 0 \<longrightarrow> size_ok k \<and> 8 dvd unat (a - START_ALLOCATOR_HEAP s))
    \<and> headers_only H (START_ALLOCATOR_HEAP s) m (memory w)
    \<and> (\<not> refused w \<longrightarrow> (\<forall>x \<in> set (answers w). answer_range x \<subseteq> free_bytes H s m pl))"
proof -
  obtain es ss where "small_inv H s m pl es ss" using assms(1) by (auto simp: small_ok_def)
  from concurrent_run [OF this assms(2,3)]
  have d: "sorted_wrt (\<lambda>x y. answer_range x \<inter> answer_range y = {}) (answers w)" "headers_only H (START_ALLOCATOR_HEAP s) m (memory w)"
    and a: "\<And>t k a. (t, k, a) \<in> set (answers w) \<Longrightarrow> a \<noteq> 0 \<Longrightarrow> size_ok k \<and> 8 dvd unat (a - START_ALLOCATOR_HEAP s)"
    and f: "\<And>x. \<not> refused w \<Longrightarrow> x \<in> set (answers w) \<Longrightarrow> answer_range x \<subseteq> free_bytes H s m pl"
    by metis+
  show ?thesis using d a f by (intro conjI) simp_all
qed

text \<open>C14: nobody is stuck in the allocator: a thread in \<^verbatim>\<open>allocate_small_object\<close> can step, or it waits for a
  spin lock whose holder can.\<close>

theorem concurrent_requests_progress:
  assumes "small_ok H s m pl" and "links_ok (BLOCKS_COUNT H) s" and "request_run evs (quiet s m) = Some w"
  shows "\<forall>t. at w t \<noteq> Idle \<longrightarrow> request_step t w \<noteq> None
    \<or> (\<exists>u. request_step u w \<noteq> None \<and>
        ((\<exists>k. at w t = Segreg_lock k \<and> segreg_lists_locks w k = Some u) \<or> (\<exists>k. at w t = Empty_lock k \<and> empty_list_lock w = Some u)))"
proof -
  obtain es ss where "small_inv H s m pl es ss" using assms(1) by (auto simp: small_ok_def)
  then obtain pl' es' ss' who' where ok: "requests_ok H w pl' es' ss' who'" by (rule concurrent_run [OF _ assms(2,3)])
  show ?thesis by (intro allI impI waits_for_holder [OF ok])
qed

text \<open>After a sweep every block is in a list, so the links lead to blocks.\<close>

lemma chain_next: "chain f p xs \<Longrightarrow> x \<in> set xs \<Longrightarrow> f x = Some y \<Longrightarrow> y \<in> set xs"
  by (induction f p xs rule: chain.induct) (auto simp: chain_Some)

lemma links_listed:
  assumes inv: "small_inv H s m pl es ss" and all: "\<And>i. i < BLOCKS_COUNT H \<Longrightarrow> pl i = In_empty \<or> (\<exists>k. pl i = In_segreg k)"
  shows "links_ok (BLOCKS_COUNT H) s"
proof -
  let ?N = "BLOCKS_COUNT H"
  have li: "lists_ok ?N s pl es ss" and pl: "\<And>i. i < ?N \<Longrightarrow> placed m (blk (START_ALLOCATOR_HEAP s) i) (pl i)"
    using inv by (simp_all add: small_inv_def)
  have step: "set_option (nx s i) \<subseteq> {..<?N}" if "chain (nx s) h xs" "set xs = {i. i < ?N \<and> P i}" "i \<in> set xs" for h xs P i
    using chain_next [OF that(1,3)] that(2) by (cases "nx s i") auto
  have "set_option (nx s i) \<subseteq> {..<?N}" if i: "i < ?N" for i
  proof (cases "pl i = In_empty")
    case True
    then show ?thesis using step [OF lists_empty [OF li]] lists_empty(2) [OF li] i by blast
  next
    case False
    then obtain k where k: "pl i = In_segreg k" using all [OF i] by blast
    then have "size_ok k" using pl [OF i] by (auto simp: opened_def sized_def)
    note l = lists_segreg [OF li this]
    then show ?thesis using step [OF l] l(2) i k by blast
  qed
  then show ?thesis by (simp add: links_ok_def nx_def)
qed

text \<open>C11: the survivors of a collection are safe from threads that allocate at once: whatever the interleaving
  after a sweep, no address handed out overlaps an object that was marked, and none of its bytes
  changes, as long as no request was refused.\<close>

theorem concurrent_survivors_kept:
  assumes "sweep_ready H s m" and "sweep_small_heap H (s, m) = Some (s1, m1)"
    and "request_run evs (quiet s1 m1) = Some w" and "\<not> refused w"
    and "i < BLOCKS_COUNT H" and "sized m (blk (START_ALLOCATOR_HEAP s) i) k"
    and "j < slots (al k)" and "slot_marked m (blk (START_ALLOCATOR_HEAP s) i) j"
  shows "(\<forall>x \<in> set (answers w). answer_range x \<inter> slot_range (blk (START_ALLOCATOR_HEAP s) i) k j = {})
    \<and> (\<forall>n < al k. memory w (slot (blk (START_ALLOCATOR_HEAP s) i) (al k) j + of_nat n)
         = m (slot (blk (START_ALLOCATOR_HEAP s) i) (al k) j + of_nat n))"
proof -
  let ?B = "START_ALLOCATOR_HEAP s" and ?d = "\<lambda>i. destination m (blk (START_ALLOCATOR_HEAP s) i)"
  obtain es ss where inv: "small_inv H s1 m1 ?d es ss"
    and fr: "free_bytes H s1 m1 ?d = (\<Union>c < BLOCKS_COUNT H. unmarked_bytes m (blk ?B c))"
    and ho: "headers_only H ?B m m1" and sb: "same_frame s s1"
    using sweep_ready_runs [OF assms(1)] assms(2) by auto
  have B: "START_ALLOCATOR_HEAP s1 = ?B" using sb by (simp add: same_frame_def)
  have room: "small_room H ?B" using inv B by (simp add: small_inv_def)
  have links: "links_ok (BLOCKS_COUNT H) s1"
    by (rule links_listed [OF inv]) (simp add: destination_def)
  from concurrent_run [OF inv links assms(3)] have ho': "headers_only H ?B m1 (memory w)"
    and range: "\<And>x. x \<in> set (answers w) \<Longrightarrow> answer_range x \<subseteq> (\<Union>c < BLOCKS_COUNT H. unmarked_bytes m (blk ?B c))"
    using assms(4) unfolding fr B by metis+
  have "slot_range (blk ?B i) k j \<inter> (\<Union>c < BLOCKS_COUNT H. unmarked_bytes m (blk ?B c)) = {}"
    by (rule marked_not_free [OF room assms(5-8)])
  then have "\<forall>x \<in> set (answers w). answer_range x \<inter> slot_range (blk ?B i) k j = {}" using range by blast
  moreover note slot_kept [OF headers_only_trans [OF ho ho'] room assms(5-7)]
  ultimately show ?thesis by blast
qed

text \<open>C13: the sequential function is one of the schedules: whenever \<open>allocate_small_object\<close> returns, a thread that
  calls it with the locks free and steps alone, whatever the other threads are about, reaches the same
  lists, memory and answer, and gives both locks back.\<close>

theorem allocate_small_object_schedule:
  assumes "allocate_small_object t sz (shared w, memory w, g) = Some (a, s', m', g')"
    and "1 \<le> sz" and "sz \<le> MAX_OBJECT_SIZE" and "at w t = Idle"
    and "segreg_lists_locks w (unat sz) = None" and "empty_list_lock w = None"
  shows "\<exists>n r. (r \<longrightarrow> refused w \<or> a = 0) \<and> request_run (Call t (unat sz) # replicate n (Go t)) w
    = Some (w\<lparr>shared := s', memory := m', answers := (t, unat sz, a) # answers w, refused := r\<rparr>)"
  by (rule request_alone [OF assms])


section \<open>Examples\<close>

lemma ex_small_links: "links_ok (BLOCKS_COUNT 4096) ex_small"
  by (simp add: links_ok_def ex_small_def)

text \<open>Thread 1 has called and not yet taken the lock, thread 0 runs through.\<close>

lemma overtaking:
  assumes run: "allocate_small_object 0 1000 (s, m, g) = Some (a, s', m', g')" and c: "nodes_cache s 1 1000 = None"
  shows "\<exists>evs w. request_run evs (quiet s m) = Some w \<and> answers w = [(0, 1000, a)] \<and> at w 1 = Segreg_lock 1000
    \<and> (refused w \<longrightarrow> a = 0)"
proof -
  let ?w = "goes 1 (Segreg_lock 1000) (quiet s m)"
  have call: "request_run [Call 1 1000] (quiet s m) = Some ?w"
    using c by (simp add: request_call_def quiet_def MAX_OBJECT_SIZE_def)
  obtain n r where r: "r \<longrightarrow> refused ?w \<or> a = 0" and "request_run (Call 0 (unat (1000 :: size_t)) # replicate n (Go 0)) ?w
      = Some (?w\<lparr>shared := s', memory := m', answers := (0, unat (1000 :: size_t), a) # answers ?w, refused := r\<rparr>)"
    using request_alone [of 0 1000 ?w g a s' m' g'] run by (auto simp: quiet_def MAX_OBJECT_SIZE_def)
  then have "request_run ([Call 1 1000] @ Call 0 (unat (1000 :: size_t)) # replicate n (Go 0)) (quiet s m)
      = Some (?w\<lparr>shared := s', memory := m', answers := (0, unat (1000 :: size_t), a) # answers ?w, refused := r\<rparr>)"
    unfolding request_run_append call by simp
  moreover have "refused ?w = False" "answers ?w = []" "at ?w 1 = Segreg_lock 1000" by (simp_all add: quiet_def)
  ultimately show ?thesis using r
    by (intro exI [of _ "[Call 1 1000] @ Call 0 (unat (1000 :: size_t)) # replicate n (Go 0)"] exI conjI) (assumption, simp_all)
qed

theorem concurrent_requests_disjoint_witness:
  "\<exists>evs w a. request_run evs (quiet ex_small ex_small_mem) = Some w \<and> answers w = [(0, 1000, a)] \<and> a \<noteq> 0
    \<and> at w 1 = Segreg_lock 1000 \<and> answer_range (0, 1000, a) \<subseteq> free_bytes 4096 ex_small ex_small_mem (\<lambda>_. In_segreg 1000)"
proof -
  obtain a evs w where "request_run evs (quiet ex_small ex_small_mem) = Some w" "answers w = [(0, 1000, a)]" "a \<noteq> 0"
    "at w 1 = Segreg_lock 1000" "\<not> refused w"
    using ex_small_call overtaking [of ex_small ex_small_mem ex_small_log] by (fastforce simp: ex_small_def)
  then show ?thesis using concurrent_requests_disjoint [OF ex_small_ok ex_small_links, of evs w] by auto
qed

theorem concurrent_requests_progress_witness:
  "\<exists>w. request_run [Call 0 1000, Call 1 1000, Go 0] (quiet ex_small ex_small_mem) = Some w
    \<and> at w 1 = Segreg_lock 1000 \<and> request_step 1 w = None
    \<and> (\<exists>u. request_step u w \<noteq> None \<and> segreg_lists_locks w 1000 = Some u)"
proof -
  obtain w where w: "request_run [Call 0 1000, Call 1 1000, Go 0] (quiet ex_small ex_small_mem) = Some w"
    "at w 1 = Segreg_lock 1000" "request_step 1 w = None"
    by (simp add: request_call_def quiet_def ex_small_def MAX_OBJECT_SIZE_def goes_def request_step_def segreg_step_def lock_segreg_list_def)
  then show ?thesis using concurrent_requests_progress [OF ex_small_ok ex_small_links w(1), rule_format, of 1] by auto
qed

theorem concurrent_survivors_kept_witness:
  "\<exists>s1 m1 evs w a. sweep_small_heap 4096 (ex_small, ex_small_mem) = Some (s1, m1)
    \<and> request_run evs (quiet s1 m1) = Some w \<and> answers w = [(0, 1000, a)] \<and> a \<noteq> 0
    \<and> answer_range (0, 1000, a) \<inter> slot_range 4096 1000 0 = {}"
proof -
  have st: "START_ALLOCATOR_HEAP ex_small = 4096" by (simp add: ex_small_def)
  obtain s1 m1 a s2 m2 g2 where sw: "sweep_small_heap 4096 (ex_small, ex_small_mem) = Some (s1, m1)"
    "allocate_small_object 0 1000 (s1, m1, ex_small_log) = Some (a, s2, m2, g2)" "a \<noteq> 0" "nodes_cache s1 1 1000 = None"
    using ex_small_swept by auto
  then obtain evs w where w: "request_run evs (quiet s1 m1) = Some w" "answers w = [(0, 1000, a)]" "\<not> refused w"
    using overtaking [OF sw(2,4)] by auto
  show ?thesis
    using concurrent_survivors_kept [OF ex_small_ready sw(1) w(1,3), of 0 1000 0] ex_small_slot w sw by (auto simp: st)
qed

theorem allocate_small_object_schedule_witness:
  "\<exists>evs w a s' m' g'. allocate_small_object 0 1000 (ex_small, ex_small_mem, ex_small_log) = Some (a, s', m', g')
    \<and> request_run evs (quiet ex_small ex_small_mem) = Some w \<and> shared w = s' \<and> memory w = m' \<and> answers w = [(0, 1000, a)]"
proof -
  obtain a s' m' g' where run: "allocate_small_object 0 1000 (ex_small, ex_small_mem, ex_small_log) = Some (a, s', m', g')"
    using ex_small_call by blast
  let ?q = "quiet ex_small ex_small_mem"
  have "\<exists>n r. (r \<longrightarrow> refused ?q \<or> a = 0) \<and> request_run (Call 0 (unat (1000 :: size_t)) # replicate n (Go 0)) ?q
    = Some (?q\<lparr>shared := s', memory := m', answers := (0, unat (1000 :: size_t), a) # answers ?q, refused := r\<rparr>)"
    using run by (intro allocate_small_object_schedule) (simp_all add: quiet_def MAX_OBJECT_SIZE_def)
  then obtain n r where "request_run (Call 0 (unat (1000 :: size_t)) # replicate n (Go 0)) ?q
    = Some (?q\<lparr>shared := s', memory := m', answers := (0, unat (1000 :: size_t), a) # answers ?q, refused := r\<rparr>)" by blast
  moreover have "answers ?q = []" by (simp add: quiet_def)
  ultimately show ?thesis using run by (intro exI conjI) (assumption+, simp_all)
qed

end
