(* ===== verification/Lifetime.thy ===== *)
theory Lifetime
  imports Gc_Properties
begin

text \<open>
  What the allocators take from the system and give back: \<^verbatim>\<open>__destroy_small_allocator\<close>,
  \<^verbatim>\<open>__destroy_large_allocator\<close> and \<^verbatim>\<open>__destroy_allocator\<close> against the initialisation. The heap of
  \<^theory_text>\<open>Gc\<close> is put beside the mapped pages, the memory obtained by \<^verbatim>\<open>malloc\<close> and the initialised
  locks of the process. \<open>None\<close> is what the system leaves undefined: to destroy a lock that is not
  initialised, to free memory twice, to read a cell that was never written.
\<close>

section \<open>Resources\<close>

datatype cell = Node_array | Start_cell | End_cell

datatype lock = Empty_list_lock | Segreg_list_lock nat | Global_lock | Allocation_lock

record process =
  heap :: gc_heap
  pages :: "size_t set"
  malloced :: "cell set"
  locks :: "lock set"

text \<open>The pages, of 4096 bytes, that \<open>n\<close> bytes from \<open>a\<close> on reach.\<close>

definition page_set :: "size_t \<Rightarrow> size_t \<Rightarrow> size_t set" where
  "page_set a n = (\<lambda>i. a + 4096 * of_nat i) ` {..<(unat n + 4095) div 4096}"

text \<open>\<open>a\<close> is the answer of \<^verbatim>\<open>mmap\<close>.\<close>

definition mmap :: "size_t \<Rightarrow> size_t \<Rightarrow> process \<Rightarrow> process" where
  "mmap a n p = (if a = -1 then p else p\<lparr>pages := pages p \<union> page_set a n\<rparr>)"

text \<open>\<^verbatim>\<open>munmap\<close> refuses (\<open>False\<close> is the answer -1) what does not start at a page, and an empty range.\<close>

definition munmap :: "size_t \<Rightarrow> size_t \<Rightarrow> process \<Rightarrow> bool \<times> process" where
  "munmap a n p = (if a mod 4096 \<noteq> 0 \<or> n = 0 then (False, p) else (True, p\<lparr>pages := pages p - page_set a n\<rparr>))"

definition free_cell :: "cell \<Rightarrow> process \<Rightarrow> process option" where
  "free_cell c p = (if c \<in> malloced p then Some (p\<lparr>malloced := malloced p - {c}\<rparr>) else None)"

definition destroy_lock :: "lock \<Rightarrow> process \<Rightarrow> process option" where
  "destroy_lock l p = (if l \<in> locks p then Some (p\<lparr>locks := locks p - {l}\<rparr>) else None)"

definition write_log :: "log_type \<Rightarrow> log_result \<Rightarrow> process \<Rightarrow> process" where
  "write_log ty r p = p\<lparr>heap := (heap p)\<lparr>logs := log ty r (logs (heap p))\<rparr>\<rparr>"


section \<open>Initialisation\<close>

text \<open>What \<^verbatim>\<open>__init_small_allocator\<close> takes: the mapping, and then the locks.\<close>

definition small_takes :: "size_t \<Rightarrow> size_t \<Rightarrow> process \<Rightarrow> process" where
  "small_takes H B p =
     (if B = -1 then p
      else (mmap B H p)\<lparr>locks := locks p \<union> {Empty_list_lock} \<union> Segreg_list_lock ` {..<OBJECT_SIZE_UPPER_BOUND}\<rparr>)"

text \<open>What \<^verbatim>\<open>__init_large_allocator\<close> takes, up to the first failure.\<close>

definition large_takes :: "size_t \<Rightarrow> tstore option \<Rightarrow> bool \<Rightarrow> bool \<Rightarrow> size_t \<Rightarrow> process \<Rightarrow> process" where
  "large_takes H nodes start_cell end_cell M p =
     (if nodes = None then p
      else let p = p\<lparr>malloced := insert Node_array (malloced p)\<rparr> in
      if \<not> start_cell then p
      else let p = p\<lparr>malloced := insert Start_cell (malloced p)\<rparr> in
      if \<not> end_cell then p
      else mmap M H (p\<lparr>malloced := insert End_cell (malloced p)\<rparr>))"

definition boot :: "size_t \<Rightarrow> size_t \<Rightarrow> tstore option \<Rightarrow> bool \<Rightarrow> bool \<Rightarrow> size_t \<Rightarrow> process \<Rightarrow> process option" where
  "boot H B nodes start_cell end_cell M p = do {
     hp \<leftarrow> init_allocator H B nodes start_cell end_cell M (heap p);
     Some ((large_takes H nodes start_cell end_cell M (small_takes H B p))\<lparr>heap := hp\<rparr>)
   }"


section \<open>Destruction\<close>

text \<open>The loop over the locks of the lists, \<open>k\<close> left.\<close>

fun destroy_segreg_locks :: "nat \<Rightarrow> nat \<Rightarrow> process \<Rightarrow> process option" where
  "destroy_segreg_locks 0 i p = Some p"
| "destroy_segreg_locks (Suc k) i p = do { p \<leftarrow> destroy_lock (Segreg_list_lock i) p; destroy_segreg_locks k (i + 1) p }"

definition destroy_small_allocator :: "size_t \<Rightarrow> process \<Rightarrow> process option" where
  "destroy_small_allocator H p = do {
     let (ok, p) = munmap (START_ALLOCATOR_HEAP (small (heap p))) H p;
     let p = (if ok then p else write_log DESTROY_ALLOCATOR ERROR p);
     p \<leftarrow> destroy_lock Empty_list_lock p;
     destroy_segreg_locks OBJECT_SIZE_UPPER_BOUND 0 p
   }"

definition destroy_large_allocator :: "size_t \<Rightarrow> process \<Rightarrow> process option" where
  "destroy_large_allocator H p = do {
     a \<leftarrow> START_BIG_ALLOCATOR_HEAP (large (heap p));
     let (ok, p) = munmap a H p;
     let p = (if ok then p else write_log DESTROY_ALLOCATOR B_ERROR p);
     p \<leftarrow> free_cell Node_array p;
     p \<leftarrow> free_cell Start_cell p;
     p \<leftarrow> free_cell End_cell p;
     destroy_lock Global_lock p
   }"

definition destroy_allocator :: "size_t \<Rightarrow> process \<Rightarrow> process option" where
  "destroy_allocator H p = do {
     p \<leftarrow> destroy_small_allocator H p;
     p \<leftarrow> destroy_large_allocator H p;
     p \<leftarrow> destroy_lock Allocation_lock p;
     Some (write_log DESTROY_ALLOCATOR OK p)
   }"


section \<open>Runs\<close>

text \<open>A process before the constructors run: the two locks with static initialisers.\<close>

definition unbooted :: "process \<Rightarrow> bool" where
  "unbooted p \<longleftrightarrow> malloced p = {} \<and> locks p = {Global_lock, Allocation_lock}
     \<and> START_BIG_ALLOCATOR_HEAP (large (heap p)) = None"

text \<open>While the process runs, the heap changes, but the two heaps stay where they are.\<close>

definition same_heaps :: "gc_heap \<Rightarrow> gc_heap \<Rightarrow> bool" where
  "same_heaps hp hp' \<longleftrightarrow> START_ALLOCATOR_HEAP (small hp') = START_ALLOCATOR_HEAP (small hp)
     \<and> START_BIG_ALLOCATOR_HEAP (large hp') = START_BIG_ALLOCATOR_HEAP (large hp)"

lemma write_log_simps [simp]:
  "pages (write_log ty r p) = pages p" "malloced (write_log ty r p) = malloced p" "locks (write_log ty r p) = locks p"
  "small (heap (write_log ty r p)) = small (heap p)" "large (heap (write_log ty r p)) = large (heap p)"
  by (simp_all add: write_log_def)

lemma mmap_simps [simp]:
  "malloced (mmap a n p) = malloced p" "locks (mmap a n p) = locks p" "heap (mmap a n p) = heap p"
  "pages (mmap a n p) = (if a = -1 then pages p else pages p \<union> page_set a n)"
  by (simp_all add: mmap_def)

lemma takes_simps:
  "pages (large_takes H nodes st en M (small_takes H B p)) = pages p \<union> (if B = -1 then {} else page_set B H)
     \<union> (if nodes = None \<or> \<not> st \<or> \<not> en \<or> M = -1 then {} else page_set M H)"
  "locks (large_takes H nodes st en M (small_takes H B p)) = locks p
     \<union> (if B = -1 then {} else {Empty_list_lock} \<union> Segreg_list_lock ` {..<OBJECT_SIZE_UPPER_BOUND})"
  "malloced (large_takes H nodes st en M (small_takes H B p)) = malloced p
     \<union> (if nodes = None then {} else {Node_array} \<union> (if st then {Start_cell} \<union> (if en then {End_cell} else {}) else {}))"
  by (auto simp: large_takes_def small_takes_def Let_def)

lemma destroy_segreg_locks_runs:
  "Segreg_list_lock ` {i..<i + k} \<subseteq> locks p
    \<Longrightarrow> destroy_segreg_locks k i p = Some (p\<lparr>locks := locks p - Segreg_list_lock ` {i..<i + k}\<rparr>)"
proof (induction k arbitrary: i p)
  case (Suc k)
  have e: "{i..<i + Suc k} = insert i {i + 1..<i + 1 + k}" by auto
  let ?p = "p\<lparr>locks := locks p - {Segreg_list_lock i}\<rparr>"
  have d: "locks p - {Segreg_list_lock i} - Segreg_list_lock ` {i + 1..<i + 1 + k} = locks p - Segreg_list_lock ` {i..<i + Suc k}"
    unfolding e by blast
  have first: "destroy_lock (Segreg_list_lock i) p = Some ?p" using Suc.prems unfolding e by (auto simp: destroy_lock_def)
  have "Segreg_list_lock ` {i + 1..<i + 1 + k} \<subseteq> locks ?p" using Suc.prems unfolding e by auto
  from Suc.IH [OF this] show ?case by (simp add: first) (simp only: d [simplified])
qed simp

lemma destroy_small_runs:
  assumes "Empty_list_lock \<in> locks p" and "Segreg_list_lock ` {..<OBJECT_SIZE_UPPER_BOUND} \<subseteq> locks p"
  shows "\<exists>q. destroy_small_allocator H p = Some q
    \<and> pages q = pages (snd (munmap (START_ALLOCATOR_HEAP (small (heap p))) H p)) \<and> malloced q = malloced p
    \<and> locks q = locks p - ({Empty_list_lock} \<union> Segreg_list_lock ` {..<OBJECT_SIZE_UPPER_BOUND}) \<and> large (heap q) = large (heap p)"
proof -
  have m: "locks (snd (munmap a H p)) = locks p" "malloced (snd (munmap a H p)) = malloced p" "heap (snd (munmap a H p)) = heap p" for a
    by (simp_all add: munmap_def)
  obtain ok p1 where p1: "munmap (START_ALLOCATOR_HEAP (small (heap p))) H p = (ok, p1)" by fastforce
  let ?p2 = "if ok then p1 else write_log DESTROY_ALLOCATOR ERROR p1"
  have p2: "locks ?p2 = locks p" "malloced ?p2 = malloced p" "large (heap ?p2) = large (heap p)" "pages ?p2 = pages p1"
    using m [of "START_ALLOCATOR_HEAP (small (heap p))"] p1 by auto
  let ?p3 = "?p2\<lparr>locks := locks p - {Empty_list_lock}\<rparr>"
  have "destroy_segreg_locks OBJECT_SIZE_UPPER_BOUND 0 ?p3
      = Some (?p3\<lparr>locks := locks ?p3 - Segreg_list_lock ` {0..<0 + OBJECT_SIZE_UPPER_BOUND}\<rparr>)"
    using assms(2) by (intro destroy_segreg_locks_runs) (auto simp: atLeast0LessThan)
  moreover have "destroy_lock Empty_list_lock ?p2 = Some ?p3" using assms(1) p2(1) by (simp add: destroy_lock_def)
  ultimately have "destroy_small_allocator H p = Some (?p3\<lparr>locks := locks ?p3 - Segreg_list_lock ` {..<OBJECT_SIZE_UPPER_BOUND}\<rparr>)"
    unfolding destroy_small_allocator_def p1 by (simp add: atLeast0LessThan Let_def)
  then show ?thesis using p1 p2
    by (intro exI [of _ "?p3\<lparr>locks := locks ?p3 - Segreg_list_lock ` {..<OBJECT_SIZE_UPPER_BOUND}\<rparr>"]) (auto simp del: split_paired_All)
qed

lemma destroy_small_fails: "Empty_list_lock \<notin> locks p \<Longrightarrow> destroy_small_allocator H p = None"
  by (simp add: destroy_small_allocator_def destroy_lock_def munmap_def Let_def)

lemma destroy_large_runs:
  assumes "START_BIG_ALLOCATOR_HEAP (large (heap p)) = Some a" and "malloced p = {Node_array, Start_cell, End_cell}" and "Global_lock \<in> locks p"
  shows "\<exists>q. destroy_large_allocator H p = Some q \<and> pages q = pages (snd (munmap a H p)) \<and> malloced q = {}
    \<and> locks q = locks p - {Global_lock}"
  using assms by (auto simp: destroy_large_allocator_def munmap_def free_cell_def destroy_lock_def Let_def write_log_def)

lemma destroy_large_fails: "START_BIG_ALLOCATOR_HEAP (large (heap p)) = None \<Longrightarrow> destroy_large_allocator H p = None"
  by (simp add: destroy_large_allocator_def)


lemma boot_runs:
  assumes "unbooted p" and "boot H B nodes st en M p = Some p'"
  shows "START_ALLOCATOR_HEAP (small (heap p')) = B"
    and "START_BIG_ALLOCATOR_HEAP (large (heap p')) = (if nodes \<noteq> None \<and> st \<and> en then Some M else None)"
    and "pages p' = pages p \<union> (if B = -1 then {} else page_set B H) \<union> (if nodes = None \<or> \<not> st \<or> \<not> en \<or> M = -1 then {} else page_set M H)"
    and "locks p' = {Global_lock, Allocation_lock} \<union> (if B = -1 then {} else {Empty_list_lock} \<union> Segreg_list_lock ` {..<OBJECT_SIZE_UPPER_BOUND})"
    and "malloced p' = (if nodes = None then {} else {Node_array} \<union> (if st then {Start_cell} \<union> (if en then {End_cell} else {}) else {}))"
proof -
  obtain hp where i: "init_allocator H B nodes st en M (heap p) = Some hp"
    and p': "p' = (large_takes H nodes st en M (small_takes H B p))\<lparr>heap := hp\<rparr>"
    using assms(2) by (auto simp: boot_def bind_eq_Some_conv)
  show "pages p' = pages p \<union> (if B = -1 then {} else page_set B H) \<union> (if nodes = None \<or> \<not> st \<or> \<not> en \<or> M = -1 then {} else page_set M H)"
    "locks p' = {Global_lock, Allocation_lock} \<union> (if B = -1 then {} else {Empty_list_lock} \<union> Segreg_list_lock ` {..<OBJECT_SIZE_UPPER_BOUND})"
    "malloced p' = (if nodes = None then {} else {Node_array} \<union> (if st then {Start_cell} \<union> (if en then {End_cell} else {}) else {}))"
    using assms(1) unfolding p' by (simp_all add: takes_simps unbooted_def)
  obtain s m g l g' where s: "init_small_allocator H B (small (heap p), bytes (heap p), logs (heap p)) = (s, m, g)"
    and l: "init_large_allocator H nodes st en M (large (heap p), g) = Some (l, g')" and hp: "small hp = s" "large hp = l"
    using i by (auto simp: init_allocator_def Let_def bind_eq_Some_conv split: prod.splits)
  show "START_ALLOCATOR_HEAP (small (heap p')) = B"
    using s unfolding p' by (auto simp: hp init_small_allocator_def Let_def split: if_splits prod.splits)
  show "START_BIG_ALLOCATOR_HEAP (large (heap p')) = (if nodes \<noteq> None \<and> st \<and> en then Some M else None)"
    using l assms(1) unfolding p'
    by (auto simp: hp init_large_allocator_def unbooted_def Let_def get_new_tree_node_def split: if_splits prod.splits option.splits)
qed

lemma boot_returns: "\<exists>p'. boot H B nodes st en M p = Some p'"
proof -
  obtain s m g where s: "init_small_allocator H B (small (heap p), bytes (heap p), logs (heap p)) = (s, m, g)" by (metis prod_cases3)
  have "init_large_allocator H nodes st en M (large (heap p), g) \<noteq> None"
    by (auto simp: init_large_allocator_def Let_def get_new_tree_node_def split: option.split)
  then obtain l g' where l: "init_large_allocator H nodes st en M (large (heap p), g) = Some (l, g')" by auto
  show ?thesis using s l by (simp add: boot_def init_allocator_def)
qed

text \<open>What POSIX promises of an answer of \<^verbatim>\<open>mmap\<close>: it failed, or it starts at a page and the pages were not in use.\<close>

definition mmap_answer :: "size_t \<Rightarrow> size_t \<Rightarrow> size_t set \<Rightarrow> bool" where
  "mmap_answer a n P \<longleftrightarrow> a = -1 \<or> a mod 4096 = 0 \<and> page_set a n \<inter> P = {}"

lemma munmap_pages:
  assumes "mmap_answer a n P" and "0 < n"
  shows "pages (snd (munmap a n p)) = (if a = -1 then pages p else pages p - page_set a n)"
proof (cases "a = -1")
  case True
  have "(-1 :: size_t) mod 4096 \<noteq> 0" by simp
  then show ?thesis using True by (simp only: munmap_def) simp
next
  case False
  then have "a mod 4096 = 0" using assms(1) by (simp only: mmap_answer_def) blast
  then show ?thesis using assms(2) False by (simp only: munmap_def) auto
qed

lemma destroy_runs:
  assumes p: "unbooted p" and run: "boot H B nodes st en M p = Some p'" and heaps: "same_heaps (heap p') hp"
    and all: "B \<noteq> -1" "nodes \<noteq> None" "st" "en"
    and B: "mmap_answer B H (pages p)" and M: "mmap_answer M H (pages p)" and H: "0 < H"
  shows "\<exists>q. destroy_allocator H (p'\<lparr>heap := hp\<rparr>) = Some q \<and> pages q = pages p \<and> malloced q = {} \<and> locks q = {}"
proof -
  note b = boot_runs [OF p run]
  let ?p = "p'\<lparr>heap := hp\<rparr>"
  have start: "START_ALLOCATOR_HEAP (small (heap ?p)) = B" "START_BIG_ALLOCATOR_HEAP (large (heap ?p)) = Some M"
    using heaps b(1,2) all by (simp_all add: same_heaps_def)
  obtain q where q: "destroy_small_allocator H ?p = Some q" "pages q = pages (snd (munmap B H ?p))" "malloced q = malloced p'"
    "locks q = {Global_lock, Allocation_lock}" "large (heap q) = large hp"
  proof -
    have "Empty_list_lock \<in> locks ?p" "Segreg_list_lock ` {..<OBJECT_SIZE_UPPER_BOUND} \<subseteq> locks ?p"
      and left: "locks ?p - ({Empty_list_lock} \<union> Segreg_list_lock ` {..<OBJECT_SIZE_UPPER_BOUND}) = {Global_lock, Allocation_lock}"
      using b(4) all(1) by auto
    from destroy_small_runs [OF this(1,2), of H] show thesis unfolding left start(1) using that by auto
  qed
  obtain r where r: "destroy_large_allocator H q = Some r" "pages r = pages (snd (munmap M H q))" "malloced r = {}" "locks r = {Allocation_lock}"
    using destroy_large_runs [of q M H] q b(5) all start(2) by auto
  have "pages q = pages p \<union> (if M = -1 then {} else page_set M H) - page_set B H"
    using q(2) b(3) all munmap_pages [OF B H] by auto
  then have "pages r = pages p"
    using r(2) munmap_pages [OF M H] B M all(1) by (auto simp: mmap_answer_def)
  then show ?thesis using q(1) r by (simp add: destroy_allocator_def destroy_lock_def)
qed

text \<open>C31: the destructor of the allocators undoes their initialisation. Whatever happened to the heap in between,
  \<^verbatim>\<open>__destroy_allocator\<close> gives back every page, every piece of memory and every lock, once, and touches
  no page of anybody else; also when the large mapping had failed. But it runs into undefined behaviour
  exactly when the small mapping or one of the three \<^verbatim>\<open>malloc\<close> calls had failed, which the
  initialisation only logs, and when it runs twice.\<close>

theorem destroy_allocator_correct:
  assumes "unbooted p" and "mmap_answer B H (pages p)" and "mmap_answer M H (pages p)" and "0 < H"
  shows "\<exists>p'. boot H B nodes st en M p = Some p' \<and> (\<forall>hp. same_heaps (heap p') hp \<longrightarrow>
    (destroy_allocator H (p'\<lparr>heap := hp\<rparr>) = None \<longleftrightarrow> B = -1 \<or> nodes = None \<or> \<not> st \<or> \<not> en)
    \<and> (\<forall>q. destroy_allocator H (p'\<lparr>heap := hp\<rparr>) = Some q \<longrightarrow>
         pages q = pages p \<and> malloced q = {} \<and> locks q = {} \<and> destroy_allocator H q = None))"
proof -
  obtain p' where run: "boot H B nodes st en M p = Some p'" using boot_returns by blast
  note b = boot_runs [OF assms(1) run]
  have fails: "destroy_allocator H (p'\<lparr>heap := hp\<rparr>) = None" if "B = -1" for hp
    using that b(4) by (simp add: destroy_allocator_def destroy_small_fails)
  have fails': "destroy_allocator H (p'\<lparr>heap := hp\<rparr>) = None" if "nodes = None \<or> \<not> st \<or> \<not> en" "same_heaps (heap p') hp" for hp
  proof (cases "B = -1")
    case False
    then have "Empty_list_lock \<in> locks p'" "Segreg_list_lock ` {..<OBJECT_SIZE_UPPER_BOUND} \<subseteq> locks p'" using b(4) by auto
    then obtain q where q: "destroy_small_allocator H (p'\<lparr>heap := hp\<rparr>) = Some q" "large (heap q) = large hp"
      using destroy_small_runs [of "p'\<lparr>heap := hp\<rparr>" H] by auto
    moreover have "destroy_large_allocator H q = None"
      using destroy_large_fails [of q H] q(2) b(2) that by (auto simp: same_heaps_def)
    ultimately show ?thesis by (simp add: destroy_allocator_def)
  qed (rule fails)
  have twice: "destroy_allocator H q = None" if "locks q = {}" for q
    using that by (simp add: destroy_allocator_def destroy_small_fails)
  show ?thesis using run fails fails' twice destroy_runs [OF assms(1) run] assms(2-4) by (intro exI conjI allI impI) (assumption | fastforce)+
qed

text \<open>A process that maps the two heaps of the example of \<^theory_text>\<open>Gc_Properties\<close>, once with success and once
  with the small mapping refused.\<close>

definition ex_process :: process where
  "ex_process = \<lparr>heap = ex_start, pages = {}, malloced = {}, locks = {Global_lock, Allocation_lock}\<rparr>"

theorem destroy_allocator_correct_witness:
  "\<exists>p' q. boot 8192 4096 (Some (\<lambda>_. leaf_node 0 0)) True True 12288 ex_process = Some p'
    \<and> destroy_allocator 8192 p' = Some q \<and> pages q = {} \<and> destroy_allocator 8192 q = None"
proof -
  have "unbooted ex_process" by (simp add: unbooted_def ex_process_def ex_start_def ex_blank_def)
  moreover have "mmap_answer 4096 8192 (pages ex_process)" "mmap_answer 12288 8192 (pages ex_process)"
    by (simp_all add: mmap_answer_def ex_process_def)
  ultimately obtain p' where p': "boot 8192 4096 (Some (\<lambda>_. leaf_node 0 0)) True True 12288 ex_process = Some p'"
    and d: "\<forall>hp. same_heaps (heap p') hp \<longrightarrow>
      (destroy_allocator 8192 (p'\<lparr>heap := hp\<rparr>) = None \<longleftrightarrow> (4096 :: size_t) = -1 \<or> Some (\<lambda>_. leaf_node 0 0) = None \<or> \<not> True \<or> \<not> True)
      \<and> (\<forall>q. destroy_allocator 8192 (p'\<lparr>heap := hp\<rparr>) = Some q \<longrightarrow>
         pages q = pages ex_process \<and> malloced q = {} \<and> locks q = {} \<and> destroy_allocator 8192 q = None)"
    using destroy_allocator_correct [of ex_process 4096 8192 12288 "Some (\<lambda>_. leaf_node 0 0)" True True] by auto
  have "same_heaps (heap p') (heap p')" "p'\<lparr>heap := heap p'\<rparr> = p'" by (simp_all add: same_heaps_def)
  then have "destroy_allocator 8192 p' \<noteq> None" "\<forall>q. destroy_allocator 8192 p' = Some q \<longrightarrow> pages q = {} \<and> destroy_allocator 8192 q = None"
    using d by (auto simp: ex_process_def)
  then show ?thesis using p' by auto
qed

end
