(* ===== verification/Registers.thy ===== *)
theory Registers
  imports Object_Properties
begin

text \<open>
  The inline assembly of \<^verbatim>\<open>marker/marking.c\<close>: \<^verbatim>\<open>push_registers_to_stack\<close>, by which the stop handler means
  to make the registers visible to the marker, its counterpart, and \<^verbatim>\<open>before_main\<close>. A machine is its
  general registers, the stack pointer and the memory; the stack grows downwards. The operand of an
  \<^verbatim>\<open>asm\<close> statement with constraint \<open>r\<close> is put in a register \<open>tmp\<close> of the compiler's choice. The
  address of the array \<^verbatim>\<open>REGISTERS\<close> of the names, 10 bytes each, is the argument \<open>names\<close>.
\<close>

record machine =
  register :: "nat \<Rightarrow> size_t"
  rsp :: size_t
  ram :: mem

definition REGISTER_NAME_SIZE :: size_t where
  "REGISTER_NAME_SIZE = 10"

definition REGISTER_AMOUNT :: nat where
  "REGISTER_AMOUNT = 13"

definition set_register :: "nat \<Rightarrow> size_t \<Rightarrow> machine \<Rightarrow> machine" where
  "set_register r v c = c\<lparr>register := (register c)(r := v)\<rparr>"

definition push_register :: "nat \<Rightarrow> machine \<Rightarrow> machine" where
  "push_register r c = c\<lparr>rsp := rsp c - 8, ram := store64 (ram c) (rsp c - 8) (register c r)\<rparr>"

definition pop_register :: "nat \<Rightarrow> machine \<Rightarrow> machine" where
  "pop_register r c = (set_register r (load64 (ram c) (rsp c)) c)\<lparr>rsp := rsp c + 8\<rparr>"

text \<open>The loops: \<open>k\<close> turns are left; upwards from \<open>i\<close>, and downwards from \<open>k - 1\<close>.\<close>

fun push_names :: "nat \<Rightarrow> size_t \<Rightarrow> nat \<Rightarrow> nat \<Rightarrow> machine \<Rightarrow> machine" where
  "push_names tmp names 0 i c = c"
| "push_names tmp names (Suc k) i c =
     push_names tmp names k (i + 1) (push_register tmp (set_register tmp (names + REGISTER_NAME_SIZE * of_nat i) c))"

definition push_registers_to_stack :: "nat \<Rightarrow> size_t \<Rightarrow> machine \<Rightarrow> machine" where
  "push_registers_to_stack tmp names c = push_names tmp names REGISTER_AMOUNT 0 c"

fun pop_names :: "nat \<Rightarrow> size_t \<Rightarrow> nat \<Rightarrow> machine \<Rightarrow> machine" where
  "pop_names tmp names 0 c = c"
| "pop_names tmp names (Suc i) c =
     pop_names tmp names i (pop_register tmp (set_register tmp (names + REGISTER_NAME_SIZE * of_nat i) c))"

definition pop_registers_from_stack :: "nat \<Rightarrow> size_t \<Rightarrow> machine \<Rightarrow> machine" where
  "pop_registers_from_stack tmp names c = pop_names tmp names REGISTER_AMOUNT c"

text \<open>The constructor: \<open>new\<close> is the memory of the new stack; the result is \<^verbatim>\<open>stack\<close> and \<^verbatim>\<open>start_rsp_value\<close>.\<close>

definition before_main :: "(int \<Rightarrow> size_t) \<Rightarrow> machine \<Rightarrow> mark_stack \<times> size_t" where
  "before_main new c = (create_stack new, rsp c)"


section \<open>What is on the stack\<close>

lemma push_names_rsp: "rsp (push_names tmp names k i c) = rsp c - 8 * of_nat k"
proof (induction k arbitrary: i c)
  case (Suc k)
  show ?case using Suc.IH [of "i + 1"] by (simp add: push_register_def set_register_def algebra_simps)
qed simp

lemma push_names_register: "r \<noteq> tmp \<Longrightarrow> register (push_names tmp names k i c) r = register c r"
  by (induction k arbitrary: i c) (simp_all add: push_register_def set_register_def)

text \<open>The memory does not depend on the registers.\<close>

lemma push_names_blind:
  "rsp c' = rsp c \<Longrightarrow> ram c' = ram c \<Longrightarrow> ram (push_names tmp' names k i c') = ram (push_names tmp names k i c)"
  by (induction k arbitrary: i c c') (simp_all add: push_register_def set_register_def)

lemma words_apart:
  assumes "j < k" and "k < 2 ^ 60"
  shows "apart (p - 8 - 8 * of_nat k) (p - 8 - 8 * of_nat j)" "apart (p - 8 - 8 * of_nat j) (p - 8 - 8 * of_nat k)"
proof -
  have d: "p - 8 - 8 * of_nat j - (p - 8 - 8 * of_nat k) = (of_nat (8 * (k - j)) :: size_t)"
    using assms(1) by (simp add: of_nat_diff algebra_simps)
  have e: "p - 8 - 8 * of_nat k - (p - 8 - 8 * of_nat j) = - (of_nat (8 * (k - j)) :: size_t)"
    using d by (metis minus_diff_eq)
  have u: "unat (of_nat (8 * (k - j)) :: size_t) = 8 * (k - j)" using assms by (intro unat_of_nat_small) simp
  have "8 \<le> (of_nat (8 * (k - j)) :: size_t)" unfolding word_le_nat_alt u using assms(1) by simp
  moreover have "8 \<le> - (of_nat (8 * (k - j)) :: size_t)"
    using u assms unat_sub_if_size [of 0 "of_nat (8 * (k - j)) :: size_t"] by (simp add: word_le_nat_alt size_word.rep_eq)
  ultimately show "apart (p - 8 - 8 * of_nat k) (p - 8 - 8 * of_nat j)" "apart (p - 8 - 8 * of_nat j) (p - 8 - 8 * of_nat k)"
    unfolding apart_def d e by simp_all
qed

lemma push_names_snoc:
  "push_names tmp names (Suc k) i c
    = push_register tmp (set_register tmp (names + REGISTER_NAME_SIZE * of_nat (i + k)) (push_names tmp names k i c))"
proof (induction k arbitrary: i c)
  case (Suc k)
  show ?case by (subst push_names.simps(2), subst Suc.IH) simp
qed simp

lemma push_names_ram:
  "ram (push_names tmp names (Suc k) i c)
    = store64 (ram (push_names tmp names k i c)) (rsp c - 8 - 8 * of_nat k) (names + REGISTER_NAME_SIZE * of_nat (i + k))"
  unfolding push_names_snoc by (simp add: push_register_def set_register_def push_names_rsp algebra_simps)

lemma push_names_words:
  "j < k \<Longrightarrow> k < 2 ^ 60 \<Longrightarrow> load64 (ram (push_names tmp names k i c)) (rsp c - 8 - 8 * of_nat j) = names + REGISTER_NAME_SIZE * of_nat (i + j)"
proof (induction k)
  case (Suc k)
  show ?case
  proof (cases "j = k")
    case True
    then show ?thesis unfolding push_names_ram by (simp only: load64_store64)
  next
    case False
    then have "apart (rsp c - 8 - 8 * of_nat k) (rsp c - 8 - 8 * of_nat j)" using Suc.prems by (intro words_apart(1)) simp_all
    then show ?thesis using Suc False unfolding push_names_ram by (simp add: load64_store64_apart del: of_nat_add)
  qed
qed simp

lemma push_names_off:
  "k < 2 ^ 60 \<Longrightarrow> 8 * k \<le> unat (a - (rsp c - 8 * of_nat k)) \<Longrightarrow> ram (push_names tmp names k i c) a = ram c a"
proof (induction k)
  case (Suc k)
  let ?x = "a - (rsp c - 8 - 8 * of_nat k)"
  have x: "8 * k + 8 \<le> unat ?x" using Suc.prems(2) by (simp add: algebra_simps)
  have "a - (rsp c - 8 * of_nat k) = ?x - 8" by simp
  then have "unat (a - (rsp c - 8 * of_nat k)) = unat ?x - 8" using x by (simp only: unat_sub_if_size) simp
  then have "ram (push_names tmp names k i c) a = ram c a" using Suc x by simp
  moreover have "\<not> ?x < 8" using x by (simp add: word_less_nat_alt)
  ultimately show ?case unfolding push_names_ram by (simp add: store64_def)
qed simp

lemma pop_names_simps:
  "rsp (pop_names tmp names k c) = rsp c + 8 * of_nat k" "ram (pop_names tmp names k c) = ram c"
  "r \<noteq> tmp \<Longrightarrow> register (pop_names tmp names k c) r = register c r"
proof (induction k arbitrary: c)
  case (Suc k)
  { case 1 show ?case using Suc.IH(1) by (simp add: pop_register_def set_register_def algebra_simps) }
  { case 2 show ?case using Suc.IH(2) by (simp add: pop_register_def set_register_def) }
  { case 3 then show ?case using Suc.IH(3) by (simp add: pop_register_def set_register_def) }
qed simp_all


section \<open>What the marker makes of it\<close>

text \<open>Words that mean no object leave the heap and the mark stack as they are.\<close>

lemma mark_words_none:
  "\<lbrakk>\<And>j. j < k \<Longrightarrow> get_object hp (load64 (bytes hp) (cur + 8 * of_nat j)) = Some None; unat cur + 8 * k < 2 ^ 64\<rbrakk>
    \<Longrightarrow> mark_words R cur (cur + 8 * of_nat k) hp st = Some (hp, st)"
proof (induction k arbitrary: cur)
  case 0
  then show ?case by (subst mark_words.simps) simp
next
  case (Suc k)
  have u: "unat (of_nat (8 * Suc k) :: size_t) = 8 * Suc k" using Suc.prems(2) by (intro unat_of_nat_small) simp
  then have e: "unat (cur + of_nat (8 * Suc k)) = unat cur + 8 * Suc k" using Suc.prems(2) by (subst unat_add_no_wrap) simp_all
  have lt: "cur < cur + 8 * of_nat (Suc k)" using e by (simp add: word_less_nat_alt)
  have g: "get_object hp (load64 (bytes hp) cur) = Some None" using Suc.prems(1) [of 0] by simp
  have c8: "unat (cur + 8) = unat cur + 8" using Suc.prems(2) by (subst unat_add_no_wrap) simp_all
  have "mark_words R (cur + 8) (cur + 8 + 8 * of_nat k) hp st = Some (hp, st)"
    using Suc.prems(1) [of "Suc _"] Suc.prems(2) c8 by (intro Suc.IH) (simp_all add: algebra_simps)
  then show ?case using lt g by (subst mark_words.simps) (simp add: algebra_simps)
qed

lemma get_object_outside: "in_large_heap hp a = Some False \<Longrightarrow> \<not> in_small_heap hp a \<Longrightarrow> get_object hp a = Some None"
  by (simp add: get_object_def)

text \<open>C28: the registers are not made visible to the marker. What \<^verbatim>\<open>push_registers_to_stack\<close> leaves on the stack is
  the same whatever the registers hold, namely the addresses of their names, and nothing else is changed; if
  the names lie outside both heaps, traversing these words marks nothing. \<^verbatim>\<open>pop_registers_from_stack\<close> puts the
  stack pointer back.\<close>

theorem registers_not_marked:
  assumes "104 \<le> unat (rsp c)" and "bytes hp = ram (push_registers_to_stack tmp names c)"
    and "\<And>i. i < 13 \<Longrightarrow> in_large_heap hp (names + 10 * of_nat i) = Some False \<and> \<not> in_small_heap hp (names + 10 * of_nat i)"
  shows "mark_words R (rsp c - 104) (rsp c) hp st = Some (hp, st)
    \<and> (\<forall>c' tmp'. rsp c' = rsp c \<longrightarrow> ram c' = ram c \<longrightarrow> ram (push_registers_to_stack tmp' names c') = bytes hp)
    \<and> (\<forall>i < 13. load64 (bytes hp) (rsp c - 8 - 8 * of_nat i) = names + 10 * of_nat i)
    \<and> (\<forall>a. 104 \<le> unat (a - (rsp c - 104)) \<longrightarrow> bytes hp a = ram c a)
    \<and> rsp (pop_registers_from_stack tmp names (push_registers_to_stack tmp names c)) = rsp c
    \<and> ram (pop_registers_from_stack tmp names (push_registers_to_stack tmp names c)) = bytes hp"
proof -
  have w: "load64 (bytes hp) (rsp c - 8 - 8 * of_nat i) = names + 10 * of_nat i" if "i < 13" for i
    using push_names_words [of i 13 tmp names 0 c] that
    by (simp add: assms(2) push_registers_to_stack_def REGISTER_AMOUNT_def REGISTER_NAME_SIZE_def)
  have "mark_words R (rsp c - 104) (rsp c - 104 + 8 * of_nat 13) hp st = Some (hp, st)"
  proof (rule mark_words_none)
    show "unat (rsp c - 104) + 8 * 13 < 2 ^ 64"
      using assms(1) unat_size_t [of "rsp c"] by (simp add: unat_sub_if_size)
    fix j :: nat assume j: "j < 13"
    have e: "rsp c - 104 + 8 * of_nat j = rsp c - 8 - 8 * of_nat (12 - j)" using j by (simp add: of_nat_diff algebra_simps)
    have l: "12 - j < 13" using j by simp
    have "get_object hp (names + 10 * of_nat (12 - j)) = Some None" using assms(3) [OF l] get_object_outside by blast
    then show "get_object hp (load64 (bytes hp) (rsp c - 104 + 8 * of_nat j)) = Some None"
      using w [OF l] unfolding e by (simp only:)
  qed
  moreover have "rsp c - 104 + 8 * of_nat 13 = rsp c" by simp
  moreover have "\<forall>c' tmp'. rsp c' = rsp c \<longrightarrow> ram c' = ram c \<longrightarrow> ram (push_registers_to_stack tmp' names c') = bytes hp"
    using push_names_blind by (simp add: assms(2) push_registers_to_stack_def)
  moreover have "bytes hp a = ram c a" if "104 \<le> unat (a - (rsp c - 104))" for a
    using that push_names_off [of 13 a c tmp names 0] by (simp add: assms(2) push_registers_to_stack_def REGISTER_AMOUNT_def)
  moreover have "rsp (pop_registers_from_stack tmp names (push_registers_to_stack tmp names c)) = rsp c"
    by (simp add: pop_registers_from_stack_def push_registers_to_stack_def pop_names_simps push_names_rsp)
  moreover have "ram (pop_registers_from_stack tmp names (push_registers_to_stack tmp names c)) = bytes hp"
    by (simp add: pop_registers_from_stack_def assms(2) pop_names_simps)
  ultimately show ?thesis using w by simp
qed

text \<open>A register holds the address 4176 of the small object of \<open>ex_gc\<close>; the names are at 65536, and the stack
  pointer at 131072.\<close>

definition ex_machine :: machine where
  "ex_machine = \<lparr>register = (\<lambda>_. 0)(3 := 4176), rsp = 131072, ram = ex_gc_mem False\<rparr>"

theorem registers_not_marked_witness:
  "\<exists>hp. small hp = ex_gc_small \<and> large hp = ex_gc_large \<and> bytes hp = ram (push_registers_to_stack 0 65536 ex_machine)
    \<and> mark_words (\<lambda>_. True) (131072 - 104) 131072 hp (create_stack (\<lambda>_. 0)) = Some (hp, create_stack (\<lambda>_. 0)) \<and> load64 (bytes hp) (131072 - 32) = 65566"
proof -
  let ?hp = "(ex_gc False)\<lparr>bytes := ram (push_registers_to_stack 0 65536 ex_machine)\<rparr>"
  let ?st = "create_stack (\<lambda>_. 0)"
  have out: "in_large_heap ?hp (65536 + 10 * of_nat i) = Some False \<and> \<not> in_small_heap ?hp (65536 + 10 * of_nat i)" if "i < 13" for i
  proof -
    have "65536 + 10 * of_nat i = (of_nat (65536 + 10 * i) :: size_t)" by simp
    moreover have "unat (of_nat (65536 + 10 * i) :: size_t) = 65536 + 10 * i" using that by (intro unat_of_nat_small) simp
    ultimately show ?thesis
      by (simp add: in_large_heap_def in_small_heap_def word_le_nat_alt word_less_nat_alt ex_gc_large_def del: of_nat_add of_nat_mult)
  qed
  have rsp: "rsp ex_machine = 131072" by (simp add: ex_machine_def)
  have room: "104 \<le> unat (rsp ex_machine)" unfolding rsp by simp
  have ram: "bytes ?hp = ram (push_registers_to_stack 0 65536 ex_machine)" by simp
  note r = registers_not_marked [OF room ram out, of "\<lambda>_. True" ?st]
  have "mark_words (\<lambda>_. True) (131072 - 104) 131072 ?hp ?st = Some (?hp, ?st)" using conjunct1 [OF r] unfolding rsp .
  moreover have "\<forall>i < 13. load64 (bytes ?hp) (rsp ex_machine - 8 - 8 * of_nat i) = 65536 + 10 * of_nat i"
    by (rule conjunct1 [OF conjunct2 [OF conjunct2 [OF r]]])
  from this [rule_format, of 3] have "load64 (bytes ?hp) (131072 - 32) = 65566" unfolding rsp by simp
  ultimately show ?thesis by (intro exI [of _ ?hp] conjI) simp_all
qed

end
