(* ===== verification/Show_Bitmap.thy ===== *)
theory Show_Bitmap
  imports Small_Properties
begin

text \<open>
  \<^verbatim>\<open>show_bitmap\<close> of \<^verbatim>\<open>allocator/utils.c\<close>, a debugging aid, as the text it prints, and that this text is the
  mark of every slot of the block, one byte of the bitmap per line.
\<close>

definition digit :: "nat \<Rightarrow> char" where
  "digit d = ''0123456789'' ! d"

text \<open>\<^verbatim>\<open>%2d\<close> for the indices of the bitmap, which are below 100.\<close>

definition two_digits :: "nat \<Rightarrow> string" where
  "two_digits i = [if i < 10 then CHR '' '' else digit (i div 10), digit (i mod 10)]"

definition newline :: char where
  "newline = CHR 0x0A"

text \<open>The loop over the bits of \<^verbatim>\<open>curr_byte\<close>, from bit \<open>j\<close> on, \<open>k\<close> bits left.\<close>

fun show_bits :: "byte \<Rightarrow> nat \<Rightarrow> nat \<Rightarrow> string" where
  "show_bits curr_byte 0 j = ''''"
| "show_bits curr_byte (Suc k) j = (if drop_bit j curr_byte AND 1 = 1 then CHR ''1'' else CHR ''0'') # show_bits curr_byte k (j + 1)"

text \<open>The loop over the bytes of the bitmap.\<close>

fun show_bytes :: "mem \<Rightarrow> size_t \<Rightarrow> nat \<Rightarrow> nat \<Rightarrow> string" where
  "show_bytes m bitmap_addr 0 i = ''''"
| "show_bytes m bitmap_addr (Suc k) i =
     ''byte'' @ [CHR 0x27] @ ''s index = '' @ two_digits i @ ''. bits: ''
       @ show_bits (m (bitmap_addr + of_nat i)) 8 0 @ [newline] @ show_bytes m bitmap_addr k (i + 1)"

definition show_bitmap :: "small_state \<Rightarrow> mem \<Rightarrow> size_t \<Rightarrow> string" where
  "show_bitmap s m object_addr =
     (let relative_object_addr = object_addr - START_ALLOCATOR_HEAP s;
          block_addr = object_addr - relative_object_addr mod BLOCK_SIZE;
          bitmap_addr = GET_BITMAP_ADDR block_addr
      in show_bytes m bitmap_addr BITMAP_BYTES_COUNT 0)"


section \<open>The text\<close>

definition mark_char :: "mem \<Rightarrow> size_t \<Rightarrow> nat \<Rightarrow> char" where
  "mark_char m b n = (if slot_marked m b n then CHR ''1'' else CHR ''0'')"

definition bitmap_line :: "mem \<Rightarrow> size_t \<Rightarrow> nat \<Rightarrow> string" where
  "bitmap_line m b i = ''byte'' @ [CHR 0x27] @ ''s index = '' @ two_digits i @ ''. bits: '' @ map (mark_char m b) [8 * i..<8 * i + 8] @ [newline]"

lemma show_bits_marks:
  "j + k \<le> 8 \<Longrightarrow> show_bits (m (GET_BITMAP_ADDR b + of_nat i)) k j = map (mark_char m b) [8 * i + j..<8 * i + j + k]"
proof (induction k arbitrary: j)
  case (Suc k)
  have d: "(8 * i + j) div 8 = i" "(8 * i + j) mod 8 = j" "j mod 8 = j" using Suc.prems by simp_all
  have "mark_char m b (8 * i + j) = (if drop_bit j (m (GET_BITMAP_ADDR b + of_nat i)) AND 1 = 1 then CHR ''1'' else CHR ''0'')"
    by (simp add: mark_char_def slot_marked_def d GET_BITMAP_ADDR_def drop_bit_and_1)
  moreover have "[8 * i + j..<8 * i + j + Suc k] = (8 * i + j) # [8 * i + (j + 1)..<8 * i + (j + 1) + k]"
    by (simp add: upt_conv_Cons)
  ultimately show ?case using Suc.IH [of "j + 1"] Suc.prems by simp
qed simp

lemma show_bytes_lines: "show_bytes m (GET_BITMAP_ADDR b) k i = concat (map (bitmap_line m b) [i..<i + k])"
proof (induction k arbitrary: i)
  case (Suc k)
  have "show_bits (m (GET_BITMAP_ADDR b + of_nat i)) 8 0 = map (mark_char m b) [8 * i..<8 * i + 8]"
    using show_bits_marks [of 0 8 m b i] by simp
  moreover have "[i..<i + Suc k] = i # [i + 1..<i + 1 + k]" by (simp add: upt_conv_Cons)
  ultimately show ?case using Suc.IH [of "i + 1"] by (simp add: bitmap_line_def)
qed simp

text \<open>For every address of a block, \<^verbatim>\<open>show_bitmap\<close> prints 64 lines, and the digits of line \<open>i\<close> are the marks of the
  slots \<open>8 i\<close> to \<open>8 i + 7\<close> of that block, in this order.\<close>

theorem show_bitmap_correct:
  assumes "small_room H (START_ALLOCATOR_HEAP s)" and "i < BLOCKS_COUNT H" and "off < 4096"
  shows "show_bitmap s m (blk (START_ALLOCATOR_HEAP s) i + of_nat off)
    = concat (map (bitmap_line m (blk (START_ALLOCATOR_HEAP s) i)) [0..<64])"
  using block_offset [OF blk_block [OF assms(1,2)] assms(3)] show_bytes_lines [of m _ 64 0]
  by (simp add: show_bitmap_def Let_def BITMAP_BYTES_COUNT_def)

theorem show_bitmap_correct_witness:
  "show_bitmap ex_small ex_small_mem 4176 = concat (map (bitmap_line ex_small_mem 4096) [0..<64])
    \<and> bitmap_line ex_small_mem 4096 0 = ''byte'' @ [CHR 0x27] @ ''s index =  0. bits: 10000000'' @ [newline]"
proof -
  have "small_room 4096 (START_ALLOCATOR_HEAP ex_small)" using ex_small_inv by (simp add: small_inv_def)
  then have "show_bitmap ex_small ex_small_mem 4176 = concat (map (bitmap_line ex_small_mem 4096) [0..<64])"
    using show_bitmap_correct [of 4096 ex_small 0 80 ex_small_mem] by (simp add: ex_small_def)
  moreover have "map (mark_char ex_small_mem 4096) [0..<8] = ''10000000''"
    using ex_small_header(3) by (simp add: upt_rec mark_char_def)
  then have "bitmap_line ex_small_mem 4096 0 = ''byte'' @ [CHR 0x27] @ ''s index =  0. bits: 10000000'' @ [newline]"
    by (simp add: bitmap_line_def two_digits_def digit_def)
  ultimately show ?thesis by blast
qed

end
