(* ===== verification/Fresh_Heap.thy ===== *)
theory Fresh_Heap
  imports Sweep_Large Memory
begin

text \<open>
  The large heap before anything was freed: the free tree is one region, and every request cuts its
  object from the front of it. So objects lie one behind the other in the order of the requests.
\<close>

section \<open>The layout\<close>

fun layout :: "nat \<Rightarrow> nat list \<Rightarrow> Header list" where
  "layout a [] = []"
| "layout a (n # ns) = new_object (of_nat a) (of_nat n) # layout (a + n) ns"

definition fresh_inv :: "size_t \<Rightarrow> size_t \<Rightarrow> large_state \<Rightarrow> nat tree \<Rightarrow> nat list \<Rightarrow> nat list \<Rightarrow> bool" where
  "fresh_inv H m s ot pool ns \<longleftrightarrow> (\<exists>f. run_inv H m s (Node Leaf f Leaf) ot pool
     \<and> block (TREENODES_LIST s f) = \<lparr>addr = m + of_nat (sum_list ns), bsize = H - of_nat (sum_list ns), isMarked = False\<rparr>
     \<and> blocks (TREENODES_LIST s) ot = layout (unat m) ns)"

lemma layout_append: "layout a (ns @ ks) = layout a ns @ layout (a + sum_list ns) ks"
  by (induction ns arbitrary: a) (simp_all add: add.assoc)

lemma length_layout [simp]: "length (layout a ns) = length ns"
  by (induction ns arbitrary: a) simp_all

lemma insort_key_last: "\<forall>x \<in> set xs. f x < f y \<Longrightarrow> insort_key f y xs = xs @ [y]"
  by (induction xs) auto

lemma fresh_start:
  assumes "occupied_root s = None" and "heap_ok H m"
  shows "\<exists>s'. init_large_allocator H (Some h) True True m (s, g) = Some (s', g)
    \<and> fresh_inv H m s' Leaf [1..<unat (TREENODE_COUNT H)] []"
proof -
  have H: "0 < unat (TREENODE_COUNT H)" "0 < H"
    using assms(2) by (simp_all add: heap_ok_def TREENODE_COUNT_def GET_SIZE_WITH_ALIGNMENT_def
        MAX_OBJECT_SIZE_def unat_div div_greater_zero_iff word_greater_zero_iff unat_gt_0 [symmetric])
  obtain s' where s': "init_large_allocator H (Some h) True True m (s, g) = Some (s', g)"
    "large_inv s' (Node Leaf 0 Leaf) Leaf [1..<unat (TREENODE_COUNT H)]"
    "block (TREENODES_LIST s' 0) = \<lparr>addr = m, bsize = H, isMarked = False\<rparr>"
    "START_BIG_ALLOCATOR_HEAP s' = Some m" "END_BIG_ALLOCATOR_HEAP s' = Some (m + H)"
    using init_large_allocator_inv [OF assms(1) H(1) _ H(2), of m h g] assms(2) by (auto simp: heap_ok_def)
  then have "run_inv H m s' (Node Leaf 0 Leaf) Leaf [1..<unat (TREENODE_COUNT H)]"
    using H(1) by (simp add: run_inv_def spine_below_def)
  then show ?thesis using s' by (auto simp: fresh_inv_def)
qed

text \<open>The next request, as long as room for one more object is left behind it.\<close>

lemma fresh_request:
  assumes fr: "fresh_inv H m s ot pool ns" and ok: "heap_ok H m" and sz: "MAX_OBJECT_SIZE < sz" "sz \<le> H"
    and n: "n = unat (GET_SIZE_WITH_ALIGNMENT sz)" and room: "sum_list ns + n + 2016 \<le> unat H"
  shows "\<exists>s' ot' pool' g'. allocate_large_object sz (s, g) = Some (m + of_nat (sum_list ns), s', g')
    \<and> fresh_inv H m s' ot' pool' (ns @ [n])"
proof -
  let ?n = "GET_SIZE_WITH_ALIGNMENT sz" and ?h = "TREENODES_LIST s" and ?k = "sum_list ns"
  obtain f where inv: "run_inv H m s (Node Leaf f Leaf) ot pool"
    and b: "block (?h f) = \<lparr>addr = m + of_nat ?k, bsize = H - of_nat ?k, isMarked = False\<rparr>"
    and bl: "blocks ?h ot = layout (unat m) ns"
    using fr by (auto simp: fresh_inv_def)
  note q = large_request [OF ok sz]
  have H: "unat m + unat H < 2 ^ 64" using ok by (simp add: heap_ok_def)
  have uk: "unat (of_nat ?k :: size_t) = ?k" using room unat_size_t [of H] by (intro unat_of_nat_small) simp
  then have "of_nat ?k \<le> H" using room by (simp add: word_le_nat_alt)
  then have p: "unat (prio ?h f) = unat H - ?k" and a: "unat (key ?h f) = unat m + ?k"
    using uk room H by (simp_all add: b unat_sub_no_wrap unat_add_no_wrap)
  have li: "large_inv s (Node Leaf f Leaf) ot pool" and cnt: "1 + size ot + length pool = unat (TREENODE_COUNT H)"
    and big: "\<forall>b \<in> set (blocks ?h ot). 2016 \<le> unat (bsize b)"
    and lim: "START_BIG_ALLOCATOR_HEAP s = Some m" "END_BIG_ALLOCATOR_HEAP s = Some (m + H)" and sp: "spine_below s f ot"
    using inv by (simp_all add: run_inv_def)
  have e: "unat (m + H) = unat m + unat H" using H by (simp add: unat_add_no_wrap)
  have "pool \<noteq> []" by (rule pool_suffices [OF li cnt big lim e q(1)]) (use p n room in simp)
  then obtain k pool' where pool: "pool = k # pool'" by (cases pool) auto
  have lt: "?n < prio ?h f" using p n room by (simp add: word_less_nat_alt)
  have pos: "0 < unat ?n" using q(1) by simp
  obtain s' ot' g' where run: "allocate_large_object sz (s, g) = Some (key ?h f, s', g')"
    and li': "large_inv s' (Node Leaf k Leaf) ot' pool'"
    and bl': "blocks (TREENODES_LIST s') ot' = insort_key addr ((block (?h f))\<lparr>bsize := ?n\<rparr>) (blocks ?h ot)"
    and bk: "block (TREENODES_LIST s' k) = \<lparr>addr = key ?h f + ?n, bsize = prio ?h f - ?n, isMarked = False\<rparr>"
    using allocate_large_object_cut [OF li [unfolded pool] refl lt pos q(2), of g] by blast
  obtain ft'' ot'' pool'' where inv': "run_inv H m s' ft'' ot'' pool''"
    using run_step [OF inv ok sz, of g] run by auto
  have "ft'' = Node Leaf k Leaf" "ot'' = ot'" "pool'' = pool'"
    using inv' li' tree_at_unique pool_at_unique unfolding run_inv_def large_inv_def by blast+
  then have inv': "run_inv H m s' (Node Leaf k Leaf) ot' pool'" using inv' by simp
  have "(block (?h f))\<lparr>bsize := ?n\<rparr> = new_object (of_nat (unat m + ?k)) (of_nat n)"
    by (simp add: b new_object_def n)
  moreover have "\<forall>x \<in> set (blocks ?h ot). addr x < addr ((block (?h f))\<lparr>bsize := ?n\<rparr>)"
    using sp by (simp add: spine_below_def)
  ultimately have "blocks (TREENODES_LIST s') ot' = layout (unat m) (ns @ [n])"
    unfolding bl' by (simp add: insort_key_last bl layout_append)
  moreover have "block (TREENODES_LIST s' k) = \<lparr>addr = m + of_nat (sum_list (ns @ [n])), bsize = H - of_nat (sum_list (ns @ [n])), isMarked = False\<rparr>"
    by (simp add: bk b n algebra_simps)
  ultimately have "fresh_inv H m s' ot' pool' (ns @ [n])" using inv' by (auto simp: fresh_inv_def)
  then show ?thesis using run by (auto simp: b)
qed

text \<open>A sequence of requests; the addresses in order.\<close>

fun large_requests :: "size_t list \<Rightarrow> large_state \<times> log_state \<Rightarrow> (size_t list \<times> large_state \<times> log_state) option" where
  "large_requests [] sg = Some ([], sg)"
| "large_requests (sz # szs) sg = do {
     (a, s, g) \<leftarrow> allocate_large_object sz sg;
     (as, sg) \<leftarrow> large_requests szs (s, g);
     Some (a # as, sg)
   }"

definition aligned :: "size_t \<Rightarrow> nat" where
  "aligned sz = unat (GET_SIZE_WITH_ALIGNMENT sz)"

lemma fresh_requests:
  assumes "fresh_inv H m s ot pool ns" and "heap_ok H m" and "\<forall>sz \<in> set szs. MAX_OBJECT_SIZE < sz \<and> sz \<le> H"
    and "sum_list ns + sum_list (map aligned szs) + 2016 \<le> unat H"
  shows "\<exists>s' ot' pool' g'. large_requests szs (s, g)
      = Some (map addr (layout (unat m + sum_list ns) (map aligned szs)), s', g')
    \<and> fresh_inv H m s' ot' pool' (ns @ map aligned szs)"
  using assms
proof (induction szs arbitrary: s ot pool ns g)
  case (Cons sz szs)
  have "sum_list ns + aligned sz + 2016 \<le> unat H" using Cons.prems(4) by simp
  then obtain s1 ot1 pool1 g1 where r: "allocate_large_object sz (s, g) = Some (m + of_nat (sum_list ns), s1, g1)"
    and f: "fresh_inv H m s1 ot1 pool1 (ns @ [aligned sz])"
    using fresh_request [OF Cons.prems(1,2), of sz "aligned sz" g] Cons.prems(3) by (auto simp: aligned_def)
  obtain s' ot' pool' g' where rest: "large_requests szs (s1, g1)
      = Some (map addr (layout (unat m + sum_list (ns @ [aligned sz])) (map aligned szs)), s', g')"
    and f': "fresh_inv H m s' ot' pool' ((ns @ [aligned sz]) @ map aligned szs)"
    using Cons.IH [OF f Cons.prems(2), of g1] Cons.prems(3,4) by auto
  have "large_requests (sz # szs) (s, g) = Some (map addr (layout (unat m + sum_list ns) (map aligned (sz # szs))), s', g')"
    using r rest by (simp add: add.assoc)
  moreover have "fresh_inv H m s' ot' pool' (ns @ map aligned (sz # szs))" using f' by simp
  ultimately show ?case by blast
qed auto

end
