(* ===== verification/Test_Programs.thy ===== *)
theory Test_Programs
  imports Gc_Properties Fresh_Heap
begin

text \<open>
  Two programs of \<^verbatim>\<open>testing_system/\<close>, clients that look into the large heap, as definitions over the model,
  and that their assertions hold in every process whose heap was just set up. \<open>None\<close> is a failed
  assertion or the dereference of a null pointer; the printing of nodes is left out.
\<close>

definition assertion :: "bool \<Rightarrow> unit option" where
  "assertion b = (if b then Some () else None)"

lemma assertion_simps [simp]: "assertion True = Some ()" "assertion b = Some u \<longleftrightarrow> b"
  by (simp_all add: assertion_def)

section \<open>The getters of \<^verbatim>\<open>large-allocator.c\<close>\<close>

definition get_large_heap_start :: "gc_heap \<Rightarrow> size_t option" where
  "get_large_heap_start hp = START_BIG_ALLOCATOR_HEAP (large hp)"

definition get_free_root :: "gc_heap \<Rightarrow> tptr" where
  "get_free_root hp = free_root (large hp)"

definition get_occupied_root :: "gc_heap \<Rightarrow> tptr" where
  "get_occupied_root hp = occupied_root (large hp)"

text \<open>A node of the heap, and \<^verbatim>\<open>node->block.isMarked = v\<close>.\<close>

definition node_of :: "gc_heap \<Rightarrow> nat \<Rightarrow> TreeNode" where
  "node_of hp n = TREENODES_LIST (large hp) n"

definition set_isMarked :: "nat \<Rightarrow> bool \<Rightarrow> gc_heap \<Rightarrow> gc_heap" where
  "set_isMarked n v hp = hp\<lparr>large := (large hp)\<lparr>TREENODES_LIST :=
     set_block n ((block (node_of hp n))\<lparr>isMarked := v\<rparr>) (TREENODES_LIST (large hp))\<rparr>\<rparr>"


section \<open>\<^verbatim>\<open>allocation_big_obj.c\<close>\<close>

definition allocation_big_obj_main :: "size_t \<Rightarrow> nat \<Rightarrow> (gc_heap \<Rightarrow> gc_heap option) \<Rightarrow> gc_heap \<Rightarrow> gc_heap option" where
  "allocation_big_obj_main H t service hp = do {
     (p1, hp) \<leftarrow> gc_malloc H t service 2400 hp;
     (p2, hp) \<leftarrow> gc_malloc H t service 2400 hp;
     (p3, hp) \<leftarrow> gc_malloc H t service 3000 hp;
     (p4, hp) \<leftarrow> gc_malloc H t service 3000 hp;
     (p5, hp) \<leftarrow> gc_malloc H t service 10000 hp;
     (p6, hp) \<leftarrow> gc_malloc H t service 9999 hp;
     (p7, hp) \<leftarrow> gc_malloc H t service 100001 hp;
     (p8, hp) \<leftarrow> gc_malloc H t service 2009 hp;
     start \<leftarrow> get_large_heap_start hp;
     _ \<leftarrow> assertion (p1 = start);
     _ \<leftarrow> assertion (p2 = p1 + 2400);
     _ \<leftarrow> assertion (p3 = p2 + 2400);
     _ \<leftarrow> assertion (p4 = p3 + 3000);
     _ \<leftarrow> assertion (p5 = p4 + 3000);
     _ \<leftarrow> assertion (p6 = p5 + 10000);
     _ \<leftarrow> assertion (p7 = p6 + 10000);
     _ \<leftarrow> assertion (p8 = p7 + 100008);
     Some hp
   }"


section \<open>\<^verbatim>\<open>tree-search-and-insert.c\<close>\<close>

text \<open>The loop over the right children of the occupied tree; the answer is the final \<open>i\<close>.\<close>

partial_function (option) walk_right :: "gc_heap \<Rightarrow> tptr \<Rightarrow> size_t \<Rightarrow> size_t option" where
  "walk_right hp node i =
     (case node of
        None \<Rightarrow> Some i
      | Some n \<Rightarrow> do {
          start \<leftarrow> get_large_heap_start hp;
          _ \<leftarrow> assertion (addr (block (node_of hp n)) = start + 0x1000 * i);
          walk_right hp (right (node_of hp n)) (i + 1)
        })"

text \<open>The three parts of \<^verbatim>\<open>main\<close>, which the sweeps separate.\<close>

definition tree_search_fill :: "size_t \<Rightarrow> nat \<Rightarrow> (gc_heap \<Rightarrow> gc_heap option) \<Rightarrow> gc_heap \<Rightarrow> gc_heap option" where
  "tree_search_fill H t service hp = do {
     (_, hp) \<leftarrow> gc_malloc H t service 4096 hp;
     (_, hp) \<leftarrow> gc_malloc H t service 4096 hp;
     (_, hp) \<leftarrow> gc_malloc H t service 4096 hp;
     i \<leftarrow> walk_right hp (get_occupied_root hp) 0;
     f \<leftarrow> get_free_root hp;
     start \<leftarrow> get_large_heap_start hp;
     _ \<leftarrow> assertion (addr (block (node_of hp f)) = start + 0x1000 * i);
     r \<leftarrow> get_occupied_root hp;
     let hp = set_isMarked r True hp;
     r2 \<leftarrow> right (node_of hp r);
     let hp = set_isMarked r2 False hp;
     r3 \<leftarrow> right (node_of hp r2);
     Some (set_isMarked r3 True hp)
   }"

definition tree_search_first :: "gc_heap \<Rightarrow> gc_heap option" where
  "tree_search_first hp = do {
     start \<leftarrow> get_large_heap_start hp;
     r \<leftarrow> get_occupied_root hp;
     _ \<leftarrow> assertion (addr (block (node_of hp r)) = start);
     r2 \<leftarrow> right (node_of hp r);
     _ \<leftarrow> assertion (addr (block (node_of hp r2)) = start + 0x2000);
     f \<leftarrow> get_free_root hp;
     _ \<leftarrow> assertion (addr (block (node_of hp f)) = start + 0x3000);
     f2 \<leftarrow> left (node_of hp f);
     _ \<leftarrow> assertion (addr (block (node_of hp f2)) = start + 0x1000);
     let hp = set_isMarked r True hp;
     r2 \<leftarrow> right (node_of hp r);
     Some (set_isMarked r2 False hp)
   }"

definition tree_search_second :: "size_t \<Rightarrow> gc_heap \<Rightarrow> gc_heap option" where
  "tree_search_second H hp = do {
     start \<leftarrow> get_large_heap_start hp;
     r \<leftarrow> get_occupied_root hp;
     _ \<leftarrow> assertion (left (node_of hp r) = None \<and> right (node_of hp r) = None
       \<and> addr (block (node_of hp r)) = start \<and> bsize (block (node_of hp r)) = 0x1000);
     _ \<leftarrow> assertion (get_free_root hp \<noteq> None);
     f \<leftarrow> get_free_root hp;
     _ \<leftarrow> assertion (left (node_of hp f) = None \<and> right (node_of hp f) = None
       \<and> addr (block (node_of hp f)) = start + 0x1000 \<and> bsize (block (node_of hp f)) = H - 0x1000);
     Some hp
   }"

definition tree_search_main :: "size_t \<Rightarrow> nat \<Rightarrow> (gc_heap \<Rightarrow> gc_heap option) \<Rightarrow> gc_heap \<Rightarrow> gc_heap option" where
  "tree_search_main H t service hp = do {
     hp \<leftarrow> tree_search_fill H t service hp;
     hp \<leftarrow> sweep H hp;
     hp \<leftarrow> tree_search_first hp;
     hp \<leftarrow> sweep H hp;
     tree_search_second H hp
   }"


section \<open>Allocation on a fresh heap\<close>

lemma malloc_fresh:
  assumes fr: "fresh_inv H M (large hp) ot pool ns" and ok: "heap_ok H M" and ne: "M \<noteq> 0"
    and sz: "MAX_OBJECT_SIZE < sz" and szH: "sz \<le> H" and n: "n = aligned sz" and room: "sum_list ns + n + 2016 \<le> unat H"
  shows "\<exists>hp' ot' pool'. gc_malloc H t service sz hp = Some (M + of_nat (sum_list ns), hp')
    \<and> fresh_inv H M (large hp') ot' pool' (ns @ [n]) \<and> small hp' = small hp \<and> bytes hp' = bytes hp"
proof -
  obtain s' ot' pool' g' where run: "allocate_large_object sz (large hp, logs hp) = Some (M + of_nat (sum_list ns), s', g')"
    and f: "fresh_inv H M s' ot' pool' (ns @ [n])"
    using fresh_request [OF fr ok sz szH, of n "logs hp"] n room by (auto simp: aligned_def)
  have "unat (of_nat (sum_list ns) :: size_t) = sum_list ns" using room unat_size_t [of H] by (intro unat_of_nat_small) simp
  then have "unat (M + of_nat (sum_list ns)) = unat M + sum_list ns"
    using ok room by (subst unat_add_no_wrap) (simp_all add: heap_ok_def)
  then have nz: "M + of_nat (sum_list ns) \<noteq> 0" using ne by (metis add_is_0 unat_0 unat_eq_zero)
  have one: "\<not> sz < 1" "\<not> sz > H" "\<not> sz \<le> MAX_OBJECT_SIZE" using sz szH by (auto simp: MAX_OBJECT_SIZE_def)
  have "gc_malloc H t service sz hp = Some (M + of_nat (sum_list ns), hp\<lparr>large := s', logs := g'\<rparr>)"
    using run nz one sz szH by (simp add: gc_malloc_def allocate_new_object_def)
  then show ?thesis using f by auto
qed

text \<open>A sequence of requests.\<close>

fun gc_mallocs :: "size_t \<Rightarrow> nat \<Rightarrow> (gc_heap \<Rightarrow> gc_heap option) \<Rightarrow> size_t list \<Rightarrow> gc_heap \<Rightarrow> (size_t list \<times> gc_heap) option" where
  "gc_mallocs H t service [] hp = Some ([], hp)"
| "gc_mallocs H t service (sz # szs) hp = do {
     (a, hp) \<leftarrow> gc_malloc H t service sz hp;
     (as, hp) \<leftarrow> gc_mallocs H t service szs hp;
     Some (a # as, hp)
   }"

lemma gc_mallocs_fresh:
  assumes "fresh_inv H M (large hp) ot pool ns" and "heap_ok H M" and "M \<noteq> 0"
    and "\<forall>sz \<in> set szs. MAX_OBJECT_SIZE < sz \<and> sz \<le> H" and "sum_list ns + sum_list (map aligned szs) + 2016 \<le> unat H"
  shows "\<exists>hp' ot' pool'. gc_mallocs H t service szs hp = Some (map addr (layout (unat M + sum_list ns) (map aligned szs)), hp')
    \<and> fresh_inv H M (large hp') ot' pool' (ns @ map aligned szs) \<and> small hp' = small hp \<and> bytes hp' = bytes hp"
  using assms
proof (induction szs arbitrary: hp ot pool ns)
  case (Cons sz szs)
  have "sum_list ns + aligned sz + 2016 \<le> unat H" using Cons.prems(5) by simp
  then obtain h1 ot1 pool1 where r: "gc_malloc H t service sz hp = Some (M + of_nat (sum_list ns), h1)" "small h1 = small hp" "bytes h1 = bytes hp"
    and f: "fresh_inv H M (large h1) ot1 pool1 (ns @ [aligned sz])"
    using malloc_fresh [OF Cons.prems(1-3), of sz "aligned sz" t service] Cons.prems(4) by auto
  obtain h2 ot2 pool2 where rest: "gc_mallocs H t service szs h1
      = Some (map addr (layout (unat M + sum_list (ns @ [aligned sz])) (map aligned szs)), h2)" "small h2 = small h1" "bytes h2 = bytes h1"
    and f2: "fresh_inv H M (large h2) ot2 pool2 ((ns @ [aligned sz]) @ map aligned szs)"
    using Cons.IH [OF f Cons.prems(2,3)] Cons.prems(4,5) by auto
  have "gc_mallocs H t service (sz # szs) hp = Some (map addr (layout (unat M + sum_list ns) (map aligned (sz # szs))), h2)"
    using r rest by (simp add: add.assoc)
  moreover have "fresh_inv H M (large h2) ot2 pool2 (ns @ map aligned (sz # szs))" using f2 by simp
  ultimately show ?case using r(2,3) rest(2,3) by metis
qed auto

text \<open>What the constructor leaves.\<close>

lemma init_fresh:
  assumes occ: "occupied_root (large hp) = None" and ok: "heap_ok H M"
    and run: "init_allocator H B (Some nodes) True True M hp = Some hp'"
  shows "\<exists>pool. fresh_inv H M (large hp') Leaf pool []"
proof -
  obtain s m g where si: "init_small_allocator H B (small hp, bytes hp, log INIT_ALLOCATOR START (logs hp)) = (s, m, g)" by (metis prod_cases3)
  obtain l where l: "init_large_allocator H (Some nodes) True True M (large hp, g) = Some (l, g)"
    "fresh_inv H M l Leaf [1..<unat (TREENODE_COUNT H)] []"
    using fresh_start [OF occ ok, of nodes g] by blast
  have "large hp' = l" using run si l(1) by (auto simp: init_allocator_def Let_def)
  then show ?thesis using l(2) by blast
qed

lemma aligned_sizes:
  "aligned 2400 = 2400" "aligned 3000 = 3000" "aligned 10000 = 10000" "aligned 9999 = 10000" "aligned 100001 = 100008"
  "aligned 2009 = 2016" "aligned 4096 = 4096"
  by (simp_all add: aligned_def GET_SIZE_WITH_ALIGNMENT_def)

lemma fresh_heap_start: "fresh_inv H M s ot pool ns \<Longrightarrow> START_BIG_ALLOCATOR_HEAP s = Some M"
  by (auto simp: fresh_inv_def run_inv_def)

text \<open>The test \<^verbatim>\<open>allocation_big_obj.c\<close> passes: in a process whose heap of at least 137000 bytes was just
  set up, eight requests for large objects of various sizes lie one behind the other, each at the
  aligned end of the one before, and no assertion fails.\<close>

theorem allocation_big_obj_passes:
  assumes "occupied_root (large hp) = None" and "heap_ok H M" and "M \<noteq> 0"
    and "init_allocator H B (Some nodes) True True M hp = Some hp'" and "137000 \<le> unat H"
  shows "\<exists>hp''. allocation_big_obj_main H t service hp' = Some hp''"
proof -
  let ?szs = "[2400, 2400, 3000, 3000, 10000, 9999, 100001, 2009] :: size_t list"
  obtain pool where f: "fresh_inv H M (large hp') Leaf pool []" using init_fresh [OF assms(1,2,4)] by blast
  have "x \<le> H" if "unat x \<le> 137000" for x using that assms(5) by (simp add: word_le_nat_alt)
  then have "\<forall>sz \<in> set ?szs. MAX_OBJECT_SIZE < sz \<and> sz \<le> H" by (simp add: MAX_OBJECT_SIZE_def)
  then obtain hp'' ot pool' where "gc_mallocs H t service ?szs hp' = Some (map addr (layout (unat M) (map aligned ?szs)), hp'')"
    and "fresh_inv H M (large hp'') ot pool' (map aligned ?szs)"
    using gc_mallocs_fresh [OF f assms(2,3), of ?szs t service] assms(5) by (auto simp: aligned_sizes)
  then show ?thesis
    using fresh_heap_start by (auto simp: allocation_big_obj_main_def get_large_heap_start_def bind_eq_Some_conv aligned_sizes)
qed


section \<open>The trees\<close>

fun spine :: "'a list \<Rightarrow> 'a tree" where
  "spine [] = Leaf"
| "spine (x # xs) = Node Leaf x (spine xs)"

lemma right_spine_spine: "right_spine t \<Longrightarrow> t = spine (inorder t)"
  by (induction t) auto

lemma spine_simps [simp]: "inorder (spine xs) = xs" "right_spine (spine xs)" "set_tree (spine xs) = set xs"
  by (induction xs) auto

lemma one_node: "inorder t = [z] \<Longrightarrow> t = Node Leaf z Leaf"
  by (cases t) (auto simp: append_eq_Cons_conv)

text \<open>Two free regions: the larger one is the root.\<close>

lemma two_nodes:
  assumes "inorder t = [x, y]" and "maxheap p t" and "p x < p y"
  shows "t = Node (Node Leaf x Leaf) y Leaf"
proof (cases t)
  case (Node l i r)
  have "inorder l = [] \<and> i = x \<and> inorder r = [y] \<or> inorder l = [x] \<and> i = y \<and> inorder r = []"
    using assms(1) Node by (cases "inorder l") (auto simp: append_eq_Cons_conv Cons_eq_append_conv)
  then show ?thesis using assms(2,3) Node by (auto dest!: one_node)
qed (use assms in simp)

text \<open>Offsets in the heap.\<close>

lemma heap_offset:
  assumes "heap_ok H M" and "j < k" and "k \<le> unat H"
  shows "M + of_nat j < M + of_nat k"
proof -
  have l: "unat M + unat H < 2 ^ 64" using assms(1) by (simp add: heap_ok_def)
  then have "unat (of_nat j :: size_t) = j" "unat (of_nat k :: size_t) = k" using assms by (auto intro!: unat_of_nat_small)
  then have "unat (M + of_nat j) = unat M + j" "unat (M + of_nat k) = unat M + k"
    using l assms by (simp_all add: unat_add_no_wrap)
  then show ?thesis using assms(2) by (simp add: word_less_nat_alt)
qed

lemma heap_offsets:
  assumes "heap_ok H M" and "20480 \<le> unat H"
  shows "M < M + 4096" "M + 4096 < M + 8192" "M + 4096 < M + 12288" "M + 8192 < M + 12288"
  using assms heap_offset [OF assms(1), of 0 4096] heap_offset [OF assms(1), of 4096 8192]
    heap_offset [OF assms(1), of 4096 12288] heap_offset [OF assms(1), of 8192 12288] by simp_all

text \<open>The first sweep, of three objects of which the outer ones are marked.\<close>

lemma sweep_three:
  assumes inv: "large_inv s (Node Leaf f Leaf) (spine [a, b, c]) pool" and ok: "heap_ok H M" and H: "20480 \<le> unat H"
    and bl: "blocks (TREENODES_LIST s) (spine [a, b, c]) = [new_object M 4096, new_object (M + 4096) 4096, new_object (M + 8192) 4096]"
    and bf: "block (TREENODES_LIST s f) = new_object (M + 12288) (H - 12288)"
  shows "\<exists>s' x y a' c' pool'. sweep_large_heap (mark_nodes {a, c} s) = Some s'
    \<and> large_inv s' (Node (Node Leaf x Leaf) y Leaf) (spine [a', c']) pool' \<and> same_limits s s'
    \<and> blocks (TREENODES_LIST s') (spine [a', c']) = [new_object M 4096, new_object (M + 8192) 4096]
    \<and> blocks (TREENODES_LIST s') (Node (Node Leaf x Leaf) y Leaf) = [new_object (M + 4096) 4096, new_object (M + 12288) (H - 12288)]"
proof -
  let ?m = "mark_nodes {a, c} s"
  have d: "distinct [a, b, c]" "f \<notin> {a, b, c}" using inv by (auto simp: large_inv_def)
  have b3: "block (TREENODES_LIST s a) = new_object M 4096" "block (TREENODES_LIST s b) = new_object (M + 4096) 4096"
    "block (TREENODES_LIST s c) = new_object (M + 8192) 4096"
    using bl by simp_all
  have "large_inv ?m (Node Leaf f Leaf) (spine [a, b, c]) pool" and ft: "blocks (TREENODES_LIST ?m) (Node Leaf f Leaf) = [new_object (M + 12288) (H - 12288)]"
    using mark_nodes_inv [OF inv, of "{a, c}"] bf by simp_all
  from sweep_large_heap_refines [OF this(1) right_spine_safe] obtain s' ft' ot' pool' where
    r: "sweep_large_heap ?m = Some s'" "large_inv s' ft' ot' pool'" "same_limits ?m s'" "right_spine ot'"
    and o: "blocks (TREENODES_LIST s') ot' = map remark (filter isMarked (blocks (TREENODES_LIST ?m) (spine [a, b, c])))"
    and f': "blocks (TREENODES_LIST s') ft' = fold ins_region (dead_post (TREENODES_LIST ?m) (spine [a, b, c]))
      (blocks (TREENODES_LIST ?m) (Node Leaf f Leaf))" by auto
  have o': "blocks (TREENODES_LIST s') ot' = [new_object M 4096, new_object (M + 8192) 4096]"
    unfolding o using b3 d by (auto simp: remark_def new_object_def)
  have f'': "blocks (TREENODES_LIST s') ft' = [new_object (M + 4096) 4096, new_object (M + 12288) (H - 12288)]"
    unfolding f' ft using heap_offsets [OF ok H]
    using b3 d by (auto simp: ins_region_def join_left_def join_right_def Let_def not_le)
  obtain a' c' where ac: "inorder ot' = [a', c']" using o' by (auto simp: blocks_def)
  obtain x y where xy: "inorder ft' = [x, y]" "prio (TREENODES_LIST s') x = 4096" "prio (TREENODES_LIST s') y = H - 12288"
    using f'' by (auto simp: blocks_def new_object_def)
  have "12288 \<le> H" using H by (simp add: word_le_nat_alt)
  then have "prio (TREENODES_LIST s') x < prio (TREENODES_LIST s') y"
    using H xy by (simp add: word_less_nat_alt unat_sub_no_wrap)
  moreover have "maxheap (prio (TREENODES_LIST s')) ft'" using r(2) by (simp add: large_inv_def)
  ultimately have "ft' = Node (Node Leaf x Leaf) y Leaf" by (intro two_nodes [OF xy(1)])
  moreover have "ot' = spine [a', c']" using right_spine_spine [OF r(4)] ac by simp
  moreover have "same_limits s s'" using r(3) by (simp add: same_limits_def mark_nodes_def)
  ultimately show ?thesis using r(1,2) o' f'' by blast
qed

text \<open>The second sweep: the first object alone is marked.\<close>

lemma join_all:
  assumes "heap_ok H M" and "20480 \<le> unat H"
  shows "ins_region (new_object (M + 8192) 4096) [new_object (M + 4096) 4096, new_object (M + 12288) (H - 12288)]
    = [new_object (M + 4096) (H - 4096)]"
proof -
  have l: "M + 4096 \<le> M + 8192" "\<not> M + 12288 \<le> M + 8192" "M + 8192 < M + 12288" "\<not> M + 8192 < M + 4096"
    using heap_offsets [OF assms] by auto
  have u: "(new_object a n)\<lparr>addr := b, bsize := k\<rparr> = new_object b k" "(new_object a n)\<lparr>bsize := k\<rparr> = new_object a k" for a n b k
    by (simp_all add: new_object_def)
  show ?thesis by (simp add: ins_region_def join_left_def join_right_def Let_def l u)
qed

lemma sweep_two:
  assumes inv: "large_inv s (Node (Node Leaf x Leaf) y Leaf) (spine [a, c]) pool" and ok: "heap_ok H M" and H: "20480 \<le> unat H"
    and bl: "blocks (TREENODES_LIST s) (spine [a, c]) = [new_object M 4096, new_object (M + 8192) 4096]"
    and bf: "blocks (TREENODES_LIST s) (Node (Node Leaf x Leaf) y Leaf) = [new_object (M + 4096) 4096, new_object (M + 12288) (H - 12288)]"
  shows "\<exists>s' f a' pool'. sweep_large_heap (mark_nodes {a} s) = Some s'
    \<and> large_inv s' (Node Leaf f Leaf) (spine [a']) pool' \<and> same_limits s s'
    \<and> block (TREENODES_LIST s' a') = new_object M 4096
    \<and> block (TREENODES_LIST s' f) = new_object (M + 4096) (H - 4096)"
proof -
  let ?m = "mark_nodes {a} s"
  have d: "a \<noteq> c" using inv by (auto simp: large_inv_def)
  have b2: "block (TREENODES_LIST s a) = new_object M 4096" "block (TREENODES_LIST s c) = new_object (M + 8192) 4096"
    using bl by simp_all
  have "large_inv ?m (Node (Node Leaf x Leaf) y Leaf) (spine [a, c]) pool"
    and ft: "blocks (TREENODES_LIST ?m) (Node (Node Leaf x Leaf) y Leaf) = [new_object (M + 4096) 4096, new_object (M + 12288) (H - 12288)]"
    using mark_nodes_inv [OF inv, of "{a}"] by (simp_all only: bf) simp_all
  from sweep_large_heap_refines [OF this(1) right_spine_safe] obtain s' ft' ot' pool' where
    r: "sweep_large_heap ?m = Some s'" "large_inv s' ft' ot' pool'" "same_limits ?m s'" "right_spine ot'"
    and o: "blocks (TREENODES_LIST s') ot' = map remark (filter isMarked (blocks (TREENODES_LIST ?m) (spine [a, c])))"
    and f': "blocks (TREENODES_LIST s') ft' = fold ins_region (dead_post (TREENODES_LIST ?m) (spine [a, c]))
      (blocks (TREENODES_LIST ?m) (Node (Node Leaf x Leaf) y Leaf))" by auto
  have o': "blocks (TREENODES_LIST s') ot' = [new_object M 4096]"
    unfolding o using b2 d by (auto simp: remark_def new_object_def)
  have f'': "blocks (TREENODES_LIST s') ft' = [new_object (M + 4096) (H - 4096)]"
    unfolding f' ft using b2 d by (simp add: join_all [OF ok H])
  obtain a' f where af: "inorder ot' = [a']" "inorder ft' = [f]" using o' f'' by (auto simp: blocks_def)
  have "ot' = Node Leaf a' Leaf" "ft' = Node Leaf f Leaf" using af by (simp_all only: one_node)
  moreover have "same_limits s s'" using r(3) by (simp add: same_limits_def mark_nodes_def)
  ultimately show ?thesis using r(1,2) o' f'' by auto
qed

text \<open>The small heap, of which no block is in use.\<close>

definition idle_small :: "size_t \<Rightarrow> small_state \<Rightarrow> mem \<Rightarrow> bool" where
  "idle_small H s m \<longleftrightarrow> sweep_ready H s m \<and> (\<forall>i < BLOCKS_COUNT H. is_bitmap_empty m (blk (START_ALLOCATOR_HEAP s) i))"

lemma idle_swept:
  assumes "idle_small H s m"
  shows "\<exists>s' m'. sweep_small_heap H (s, m) = Some (s', m') \<and> idle_small H s' m'"
proof -
  let ?B = "START_ALLOCATOR_HEAP s"
  have e: "\<forall>i < BLOCKS_COUNT H. \<forall>n < 512. \<not> slot_marked m (blk ?B i) n" using assms by (simp add: idle_small_def is_bitmap_empty_marks)
  obtain s' m' es ss where r: "sweep_small_heap H (s, m) = Some (s', m')" "small_inv H s' m' (\<lambda>i. destination m (blk ?B i)) es ss"
    "\<forall>i < BLOCKS_COUNT H. \<forall>n < 512. slot_marked m' (blk ?B i) n = slot_marked m (blk ?B i) n" "same_frame s s'"
    using sweep_ready_runs assms unfolding idle_small_def by blast
  have B: "START_ALLOCATOR_HEAP s' = ?B" "nodes_cache s' = nodes_cache s" using r(4) by (simp_all add: same_frame_def)
  have e': "\<forall>i < BLOCKS_COUNT H. is_bitmap_empty m' (blk ?B i)" using r(3) e by (simp add: is_bitmap_empty_marks)
  moreover have "\<forall>t k. size_ok k \<longrightarrow> nodes_cache s t k = None" using assms by (auto simp: idle_small_def sweep_ready_def)
  moreover have "small_ok H s' m' (\<lambda>i. destination m (blk ?B i))" using r(2) by (auto simp: small_ok_def)
  ultimately have "idle_small H s' m'" unfolding idle_small_def sweep_ready_def B by blast
  then show ?thesis using r(1) by blast
qed

lemma idle_sweep:
  assumes "idle_small H (small hp) (bytes hp)" and "sweep_large_heap (large hp) = Some l"
  shows "\<exists>hp'. sweep H hp = Some hp' \<and> large hp' = l \<and> idle_small H (small hp') (bytes hp')"
  using idle_swept [OF assms(1)] assms(2) by (auto simp: sweep_def)

lemma untraced_idle:
  assumes "untraced H hp (\<lambda>_. In_empty) Leaf []"
  shows "idle_small H (small hp) (bytes hp)"
  using assms unfolding untraced_def idle_small_def sweep_ready_def cached_by_def by auto

text \<open>Marks of nodes.\<close>

lemma set_isMarked_true: "large (set_isMarked n True hp) = mark_nodes {n} (large hp)"
  unfolding set_isMarked_def mark_nodes_def node_of_def
  by simp (rule arg_cong [where f = "\<lambda>h. (large hp)\<lparr>TREENODES_LIST := h\<rparr>"], auto simp: set_block_def)

lemma set_isMarked_false:
  assumes "\<not> isMarked (block (node_of hp n))"
  shows "large (set_isMarked n False hp) = large hp"
proof -
  have "set_block n ((block (node_of hp n))\<lparr>isMarked := False\<rparr>) (TREENODES_LIST (large hp)) = TREENODES_LIST (large hp)"
    using assms by (intro ext) (simp add: set_block_def node_of_def)
  then show ?thesis by (simp add: set_isMarked_def)
qed

lemma set_isMarked_small [simp]: "small (set_isMarked n v hp) = small hp" "bytes (set_isMarked n v hp) = bytes hp"
  by (simp_all add: set_isMarked_def)

lemma mark_nodes_twice: "mark_nodes A (mark_nodes B s) = mark_nodes (A \<union> B) s"
  unfolding mark_nodes_def by simp (rule arg_cong [where f = "\<lambda>h. s\<lparr>TREENODES_LIST := h\<rparr>"], auto)

lemma node_of_set [simp]:
  "left (node_of (set_isMarked n v hp) k) = left (node_of hp k)" "right (node_of (set_isMarked n v hp) k) = right (node_of hp k)"
  "isMarked (block (node_of (set_isMarked n v hp) k)) = (if k = n then v else isMarked (block (node_of hp k)))"
  by (auto simp: set_isMarked_def node_of_def set_block_def)

text \<open>The three requests, the walk over them and the marks.\<close>

lemma fill_runs:
  assumes f: "fresh_inv H M (large hp) Leaf pool []" and ok: "heap_ok H M" and ne: "M \<noteq> 0" and H: "20480 \<le> unat H"
  shows "\<exists>hp' s a b c f pool. tree_search_fill H t service hp = Some hp' \<and> large hp' = mark_nodes {a, c} s
    \<and> large_inv s (Node Leaf f Leaf) (spine [a, b, c]) pool \<and> START_BIG_ALLOCATOR_HEAP s = Some M
    \<and> blocks (TREENODES_LIST s) (spine [a, b, c]) = [new_object M 4096, new_object (M + 4096) 4096, new_object (M + 8192) 4096]
    \<and> block (TREENODES_LIST s f) = new_object (M + 12288) (H - 12288) \<and> small hp' = small hp \<and> bytes hp' = bytes hp"
proof -
  have sz: "MAX_OBJECT_SIZE < (4096 :: size_t)" "4096 \<le> H" using H by (simp_all add: MAX_OBJECT_SIZE_def word_le_nat_alt)
  obtain h3 ot pool' where run: "gc_mallocs H t service [4096, 4096, 4096] hp = Some (map addr (layout (unat M) [4096, 4096, 4096]), h3)"
    and f3: "fresh_inv H M (large h3) ot pool' [4096, 4096, 4096]" and sm: "small h3 = small hp" "bytes h3 = bytes hp"
    using gc_mallocs_fresh [OF f ok ne, of "[4096, 4096, 4096]" t service] sz H by (auto simp: aligned_sizes)
  obtain f where inv: "large_inv (large h3) (Node Leaf f Leaf) ot pool'" and st: "START_BIG_ALLOCATOR_HEAP (large h3) = Some M"
    and sp: "right_spine ot" and bf: "block (TREENODES_LIST (large h3) f) = new_object (M + 12288) (H - 12288)"
    and bl: "blocks (TREENODES_LIST (large h3)) ot = [new_object M 4096, new_object (M + 4096) 4096, new_object (M + 8192) 4096]"
    using f3 by (auto simp: fresh_inv_def run_inv_def spine_below_def new_object_def)
  obtain a b c where "inorder ot = [a, b, c]" using bl by (auto simp: blocks_def)
  then have ot: "ot = spine [a, b, c]" using right_spine_spine [OF sp] by simp
  have d: "a \<noteq> b" "b \<noteq> c" "a \<noteq> c" and fr: "free_root (large h3) = Some f" and oc: "occupied_root (large h3) = Some a"
    and n: "right (node_of h3 a) = Some b" "right (node_of h3 b) = Some c" "right (node_of h3 c) = None"
    using inv unfolding ot by (auto simp: large_inv_def node_of_def)
  have bs: "block (node_of h3 a) = new_object M 4096" "block (node_of h3 b) = new_object (M + 4096) 4096"
    "block (node_of h3 c) = new_object (M + 8192) 4096" "block (node_of h3 f) = new_object (M + 12288) (H - 12288)"
    using bl bf unfolding ot by (simp_all add: node_of_def)
  have new [simp]: "addr (new_object q k) = q" "isMarked (new_object q k) = False" for q k by (simp_all add: new_object_def)
  have walk: "walk_right h3 (Some a) 0 = Some 3"
    by (simp add: walk_right.simps [of h3 "Some a"] walk_right.simps [of h3 "Some b"] walk_right.simps [of h3 "Some c"]
        walk_right.simps [of h3 None] n bs get_large_heap_start_def st)
  let ?h = "set_isMarked c True (set_isMarked b False (set_isMarked a True h3))"
  have "tree_search_fill H t service hp = Some ?h"
    using run by (auto simp: tree_search_fill_def bind_eq_Some_conv get_occupied_root_def get_free_root_def get_large_heap_start_def
        oc fr st walk n bs Let_def)
  moreover have "large ?h = mark_nodes {a, c} (large h3)"
    using d bs by (simp add: set_isMarked_true set_isMarked_false mark_nodes_twice insert_commute)
  ultimately show ?thesis using inv st bl bf sm unfolding ot by (metis set_isMarked_small)
qed

lemma first_runs:
  assumes inv: "large_inv (large hp) (Node (Node Leaf x Leaf) y Leaf) (spine [a, c]) pool" and st: "START_BIG_ALLOCATOR_HEAP (large hp) = Some M"
    and bl: "blocks (TREENODES_LIST (large hp)) (spine [a, c]) = [new_object M 4096, new_object (M + 8192) 4096]"
    and bf: "blocks (TREENODES_LIST (large hp)) (Node (Node Leaf x Leaf) y Leaf) = [new_object (M + 4096) 4096, new_object (M + 12288) (H - 12288)]"
  shows "\<exists>hp'. tree_search_first hp = Some hp' \<and> large hp' = mark_nodes {a} (large hp) \<and> small hp' = small hp \<and> bytes hp' = bytes hp"
proof -
  have d: "a \<noteq> c" and fr: "free_root (large hp) = Some y" and oc: "occupied_root (large hp) = Some a"
    and n: "right (node_of hp a) = Some c" "left (node_of hp y) = Some x"
    using inv by (auto simp: large_inv_def node_of_def)
  have bs: "block (node_of hp a) = new_object M 4096" "block (node_of hp c) = new_object (M + 8192) 4096"
    "block (node_of hp x) = new_object (M + 4096) 4096" "block (node_of hp y) = new_object (M + 12288) (H - 12288)"
    using bl bf by (simp_all add: node_of_def)
  have new [simp]: "addr (new_object q k) = q" "isMarked (new_object q k) = False" for q k by (simp_all add: new_object_def)
  let ?h = "set_isMarked c False (set_isMarked a True hp)"
  have "tree_search_first hp = Some ?h"
    by (simp add: tree_search_first_def get_occupied_root_def get_free_root_def get_large_heap_start_def oc fr st n bs Let_def)
  moreover have "large ?h = mark_nodes {a} (large hp)" using d bs by (simp add: set_isMarked_true set_isMarked_false)
  ultimately show ?thesis by (metis set_isMarked_small)
qed

lemma second_runs:
  assumes inv: "large_inv (large hp) (Node Leaf f Leaf) (spine [a]) pool" and st: "START_BIG_ALLOCATOR_HEAP (large hp) = Some M"
    and ba: "block (TREENODES_LIST (large hp) a) = new_object M 4096"
    and bf: "block (TREENODES_LIST (large hp) f) = new_object (M + 4096) (H - 4096)"
  shows "tree_search_second H hp = Some hp"
  using inv st ba bf
  by (simp add: tree_search_second_def large_inv_def get_occupied_root_def get_free_root_def get_large_heap_start_def node_of_def new_object_def)

text \<open>C25: the test \<^verbatim>\<open>tree-search-and-insert.c\<close> passes: in a process whose heap was just set up, three objects
  of a page each stand in the occupied tree in the order of their addresses; a sweep with the middle
  one unmarked frees exactly that one, and a sweep with the last one unmarked joins it with the two
  free regions around it into one region; no assertion fails and no null pointer is read.\<close>

theorem tree_search_passes:
  assumes "small_room H B" and "B \<noteq> -1" and "4096 dvd unat H" and "fresh H B (small hp) (bytes hp)" and "occupied_root (large hp) = None"
    and "heap_ok H M" and "M \<noteq> 0" and "unat M + unat H + 4096 < 2 ^ 64"
    and "unat M + unat H \<le> unat B \<or> unat B + unat H \<le> unat M" and "20480 \<le> unat H"
  shows "\<exists>hp' hp''. init_allocator H B (Some nodes) True True M hp = Some hp' \<and> tree_search_main H t service hp' = Some hp''"
proof -
  have "0 < unat H" using assms(10) by simp
  then obtain hp' where i: "init_allocator H B (Some nodes) True True M hp = Some hp'" and un: "untraced H hp' (\<lambda>_. In_empty) Leaf []"
    using init_allocator_runs [OF assms(1-3) _ assms(4-6,8,9), of nodes] by blast
  obtain pool where "fresh_inv H M (large hp') Leaf pool []" using init_fresh [OF assms(5,6) i] by blast
  from fill_runs [OF this assms(6,7,10)] obtain h1 s a b c f pool where h1: "tree_search_fill H t service hp' = Some h1" "large h1 = mark_nodes {a, c} s"
    and s: "large_inv s (Node Leaf f Leaf) (spine [a, b, c]) pool" "START_BIG_ALLOCATOR_HEAP s = Some M"
      "blocks (TREENODES_LIST s) (spine [a, b, c]) = [new_object M 4096, new_object (M + 4096) 4096, new_object (M + 8192) 4096]"
      "block (TREENODES_LIST s f) = new_object (M + 12288) (H - 12288)" and k1: "small h1 = small hp'" "bytes h1 = bytes hp'"
    by blast
  from sweep_three [OF s(1) assms(6,10) s(3,4)] obtain s2 x y a2 c2 pool2 where s2: "sweep_large_heap (large h1) = Some s2" "same_limits s s2"
      "large_inv s2 (Node (Node Leaf x Leaf) y Leaf) (spine [a2, c2]) pool2"
      "blocks (TREENODES_LIST s2) (spine [a2, c2]) = [new_object M 4096, new_object (M + 8192) 4096]"
      "blocks (TREENODES_LIST s2) (Node (Node Leaf x Leaf) y Leaf) = [new_object (M + 4096) 4096, new_object (M + 12288) (H - 12288)]"
    unfolding h1(2) by blast
  have "idle_small H (small h1) (bytes h1)" using untraced_idle [OF un] by (simp add: k1)
  from idle_sweep [OF this s2(1)] obtain h2 where h2: "sweep H h1 = Some h2" "large h2 = s2" "idle_small H (small h2) (bytes h2)" by blast
  have st2: "START_BIG_ALLOCATOR_HEAP s2 = Some M" using s(2) s2(2) by (simp add: same_limits_def)
  from first_runs [OF s2(3) [folded h2(2)] st2 [folded h2(2)] s2(4,5) [folded h2(2)]] obtain h3 where
    h3: "tree_search_first h2 = Some h3" "large h3 = mark_nodes {a2} s2" "small h3 = small h2" "bytes h3 = bytes h2" unfolding h2(2) by blast
  from sweep_two [OF s2(3) assms(6,10) s2(4,5)] obtain s4 f4 a4 pool4 where s4: "sweep_large_heap (large h3) = Some s4"
      "large_inv s4 (Node Leaf f4 Leaf) (spine [a4]) pool4" "same_limits s2 s4"
      "block (TREENODES_LIST s4 a4) = new_object M 4096" "block (TREENODES_LIST s4 f4) = new_object (M + 4096) (H - 4096)"
    unfolding h3(2) by blast
  have "idle_small H (small h3) (bytes h3)" using h2(3) h3(3,4) by simp
  from idle_sweep [OF this s4(1)] obtain h4 where h4: "sweep H h3 = Some h4" "large h4 = s4" by blast
  have "START_BIG_ALLOCATOR_HEAP s4 = Some M" using st2 s4(3) by (simp add: same_limits_def)
  then have "tree_search_second H h4 = Some h4" using second_runs [of h4 f4 a4 pool4 M H] s4 h4(2) by simp
  then have "tree_search_main H t service hp' = Some h4" by (simp add: tree_search_main_def h1(1) h2(1) h3(1) h4(1))
  then show ?thesis using i by blast
qed

text \<open>A process whose two heaps have 40 pages.\<close>

lemma ex_start_ready:
  "small_room 163840 4096" "(4096 :: size_t) \<noteq> -1" "4096 dvd unat (163840 :: size_t)" "fresh 163840 4096 (small ex_start) (bytes ex_start)"
  "occupied_root (large ex_start) = None" "heap_ok 163840 167936" "(167936 :: size_t) \<noteq> 0"
  "unat (167936 :: size_t) + unat (163840 :: size_t) + 4096 < 2 ^ 64"
  "unat (167936 :: size_t) + unat (163840 :: size_t) \<le> unat (4096 :: size_t) \<or> unat (4096 :: size_t) + unat (163840 :: size_t) \<le> unat (167936 :: size_t)"
  "20480 \<le> unat (163840 :: size_t)" "137000 \<le> unat (163840 :: size_t)" "0 < unat (163840 :: size_t)"
  by (simp_all add: small_room_def fresh_def blank_small_def ex_start_def ex_blank_def heap_ok_def)

theorem tree_search_passes_witness:
  "\<exists>hp' hp''. init_allocator 163840 4096 (Some (\<lambda>_. leaf_node 0 0)) True True 167936 ex_start = Some hp'
    \<and> tree_search_main 163840 0 Some hp' = Some hp''"
  by (rule tree_search_passes [OF ex_start_ready(1-10)])

theorem allocation_big_obj_passes_witness:
  "\<exists>hp' hp''. init_allocator 163840 4096 (Some (\<lambda>_. leaf_node 0 0)) True True 167936 ex_start = Some hp'
    \<and> allocation_big_obj_main 163840 0 Some hp' = Some hp''"
proof -
  obtain hp' where "init_allocator 163840 4096 (Some (\<lambda>_. leaf_node 0 0)) True True 167936 ex_start = Some hp'"
    using init_allocator_runs [OF ex_start_ready(1-3,12,4-6,8,9), of "\<lambda>_. leaf_node 0 0"] by blast
  then show ?thesis using allocation_big_obj_passes [OF ex_start_ready(5-7) _ ex_start_ready(11), of 4096 "\<lambda>_. leaf_node 0 0" hp' 0 Some] by blast
qed

end
