(* ===== verification/Test_Driver.thy ===== *)
theory Test_Driver
  imports Prelude
begin

text \<open>
  \<^verbatim>\<open>testing_system/testing_system.c\<close>: the program that compiles and runs the tests. What the shell, the
  compiler and a compiled test do is not under the sources: a host carries it, with a state of its own
  (the files of the directory) that every command may change.
\<close>

unbundle bit_operations_syntax

section \<open>The host\<close>

text \<open>How a process ends, and the status word that \<^verbatim>\<open>waitpid\<close> stores for it.\<close>

datatype outcome =
  Exits nat
| Killed nat bool

fun wait_status :: "outcome \<Rightarrow> 32 word" where
  "wait_status (Exits n) = push_bit 8 (of_nat n AND 0xff)"
| "wait_status (Killed sig core) = of_nat sig OR (if core then 0x80 else 0)"

definition WTERMSIG :: "32 word \<Rightarrow> 32 word" where
  "WTERMSIG st = st AND 0x7f"

definition WIFEXITED :: "32 word \<Rightarrow> bool" where
  "WIFEXITED st \<longleftrightarrow> WTERMSIG st = 0"

definition WEXITSTATUS :: "32 word \<Rightarrow> 32 word" where
  "WEXITSTATUS st = drop_bit 8 (st AND 0xff00)"

definition WIFSIGNALED :: "32 word \<Rightarrow> bool" where
  "WIFSIGNALED st \<longleftrightarrow> 0 < sint (ucast (WTERMSIG st + 1) :: 8 word) div 2"

text \<open>What \<^verbatim>\<open>execl\<close> of \<^verbatim>\<open>./test\<close> leads to: the call is refused, the test ends, or it never does.\<close>

datatype 'w execution =
  Refused
| Runs outcome 'w
| Hangs

record 'w host =
  run_command :: "string \<Rightarrow> 'w \<Rightarrow> 32 word \<times> 'w"
  can_fork :: "'w \<Rightarrow> bool"
  run_test :: "'w \<Rightarrow> 'w execution"
  name_memory :: "nat \<Rightarrow> bool"

text \<open>The lines on the standard error stream.\<close>

datatype report =
  Testing string
| Compilation_failed
| Compiled_successfully
| Exec_failed
| Executed_successfully
| Runtime_error
| Terminated_by "32 word"
| Unknown_error
| Ended_successfully


section \<open>The program\<close>

definition BUFSIZ :: nat where
  "BUFSIZ = 8192"

text \<open>\<^verbatim>\<open>fnmatch("*.c", name, 0) == 0\<close>.\<close>

definition matches_c :: "string \<Rightarrow> bool" where
  "matches_c s \<longleftrightarrow> 2 \<le> length s \<and> drop (length s - 2) s = ''.c''"

definition is_test :: "string \<Rightarrow> bool" where
  "is_test s \<longleftrightarrow> matches_c s \<and> s \<noteq> ''testing_system.c''"

definition test_path :: "string \<Rightarrow> string" where
  "test_path s = ''./testing_system/'' @ s"

text \<open>
  The loop over the directory. The name is built in a buffer, copied, and its copy entered into an
  array of fixed length; \<open>None\<close> is a write outside one of them or through a null pointer.
\<close>

fun collect_names :: "'w host \<Rightarrow> string list \<Rightarrow> string list \<Rightarrow> string list option" where
  "collect_names e [] matched = Some matched"
| "collect_names e (d # ds) matched =
     (if is_test d
      then (let ans = test_path d
            in if BUFSIZ \<le> length ans \<or> BUFSIZ \<le> length matched \<or> \<not> name_memory e (length matched) then None
               else collect_names e ds (matched @ [ans]))
      else collect_names e ds matched)"

text \<open>The child: compile the test, for the Lisp interpreter with a library of its own, and become it.\<close>

definition child :: "'w host \<Rightarrow> string \<Rightarrow> 'w \<Rightarrow> (outcome \<times> report list \<times> 'w) option" where
  "child e name w =
     (let command = ''gcc -pthread -Wl,--no-undefined '' @ take (length name + 1) name;
          flag = (name = ''./testing_system/lisp_test.c'');
          w = (if flag then snd (run_command e ''make lisp_test'' w) else w);
          command = command @ take 24 '' -L./ -l:build/libgc.so'';
          command = command @ take 18 '' -o test -w''
      in if BUFSIZ \<le> length command then None
         else let (compilation_result, w) = run_command e command w
              in if compilation_result = 256 then Some (Exits 1, [Compilation_failed], w)
                 else let w = (if flag then snd (run_command e ''make clean all'' w) else w)
                      in case run_test e w of
                           Refused \<Rightarrow> Some (Exits 1, [Compiled_successfully, Exec_failed], w)
                         | Runs res w \<Rightarrow> Some (res, [Compiled_successfully], w)
                         | Hangs \<Rightarrow> None)"

text \<open>The parent's reading of the status: the line it writes, and whether it goes on.\<close>

definition judge :: "32 word \<Rightarrow> report \<times> bool" where
  "judge status =
     (if WTERMSIG status = 10 then (Executed_successfully, True)
      else if WIFEXITED status
      then (if WEXITSTATUS status = 0 then (Executed_successfully, True) else (Runtime_error, False))
      else if WIFSIGNALED status then (Terminated_by (WTERMSIG status), False)
      else (Unknown_error, False))"

text \<open>
  One test after the other. Where \<^verbatim>\<open>fork\<close> fails, its answer -1 leads into the parent's branch and
  \<^verbatim>\<open>waitpid(-1, ...)\<close>, without any child, leaves the status 0.
\<close>

fun run_tests :: "'w host \<Rightarrow> string list \<Rightarrow> 'w \<Rightarrow> (bool \<times> report list \<times> 'w) option" where
  "run_tests e [] w = Some (True, [], w)"
| "run_tests e (name # names) w = do {
     (status, rs, w) \<leftarrow> (if can_fork e w
       then map_option (\<lambda>(res, rs, w). (wait_status res, rs, w)) (child e name w)
       else Some (0, [], w));
     let (r, go) = judge status;
     if go then map_option (\<lambda>(ok, rs', w). (ok, Testing name # rs @ r # rs', w)) (run_tests e names w)
     else Some (False, Testing name # rs @ [r], w)
   }"

definition driver_main :: "'w host \<Rightarrow> string list option \<Rightarrow> 'w \<Rightarrow> (nat \<times> report list \<times> 'w) option" where
  "driver_main e directory w = do {
     entries \<leftarrow> directory;
     matched_names \<leftarrow> collect_names e entries [];
     (ok, rs, w) \<leftarrow> run_tests e matched_names w;
     if ok then Some (0, rs @ [Ended_successfully], snd (run_command e ''rm test'' w))
     else Some (1, rs, w)
   }"


section \<open>Its verdict\<close>

text \<open>A test is passed if its process ends with the answer 0 (of which a byte is kept) or by signal 10.\<close>

fun test_ok :: "outcome \<Rightarrow> bool" where
  "test_ok (Exits n) \<longleftrightarrow> n mod 256 = 0"
| "test_ok (Killed sig core) \<longleftrightarrow> sig = 10"

fun signal_ok :: "outcome \<Rightarrow> bool" where
  "signal_ok (Exits n) \<longleftrightarrow> True"
| "signal_ok (Killed sig core) \<longleftrightarrow> 1 \<le> sig \<and> sig \<le> 64"

lemma exit_bits:
  "(push_bit 8 (x AND 0xff) :: 32 word) AND 0x7f = 0"
  "drop_bit 8 ((push_bit 8 (x AND 0xff) :: 32 word) AND 0xff00) = x AND 0xff"
proof -
  have m: "(0x7f :: 32 word) = mask 7" "(0xff :: 32 word) = mask 8" "(0xff00 :: 32 word) = push_bit 8 (mask 8)"
    by (simp_all add: mask_eq_exp_minus_1 push_bit_eq_mult)
  show "(push_bit 8 (x AND 0xff) :: 32 word) AND 0x7f = 0"
    unfolding m by (rule bit_word_eqI) (auto simp: bit_simps)
  show "drop_bit 8 ((push_bit 8 (x AND 0xff) :: 32 word) AND 0xff00) = x AND 0xff"
    unfolding m by (rule bit_word_eqI) (auto simp: bit_simps)
qed

lemma byte_zero: "(of_nat n :: 32 word) AND 0xff = 0 \<longleftrightarrow> n mod 256 = 0"
proof -
  have "(of_nat n :: 32 word) AND 0xff = take_bit 8 (of_nat n)" by (simp add: take_bit_eq_mask mask_eq_exp_minus_1)
  also have "\<dots> = of_nat (n mod 256)" by (simp add: take_bit_of_nat take_bit_eq_mod [of 8 n])
  finally have b: "(of_nat n :: 32 word) AND 0xff = of_nat (n mod 256)" .
  have u: "unat (of_nat (n mod 256) :: 32 word) = n mod 256"
    by (simp add: unat_of_nat mod_less [OF less_trans [OF mod_less_divisor]])
  show ?thesis unfolding b by (subst unat_eq_zero [symmetric]) (simp only: u)
qed

lemma signal_bits:
  assumes "sig \<le> 64"
  shows "WTERMSIG (wait_status (Killed sig core)) = of_nat sig"
proof -
  have "(of_nat sig :: 32 word) AND 0x7f = take_bit 7 (of_nat sig)" by (simp add: take_bit_eq_mask mask_eq_exp_minus_1)
  also have "\<dots> = of_nat sig" using assms by (simp add: take_bit_of_nat take_bit_nat_eq_self)
  finally show ?thesis by (simp add: WTERMSIG_def bit.conj_disj_distrib2)
qed

lemma of_nat_signal: "sig \<le> 64 \<Longrightarrow> k \<le> 64 \<Longrightarrow> (of_nat sig :: 32 word) = of_nat k \<longleftrightarrow> sig = k"
  by (simp add: word_unat_eq_iff unat_of_nat)

lemma exit_status:
  "WTERMSIG (wait_status (Exits n)) = 0" "WEXITSTATUS (wait_status (Exits n)) = of_nat n AND 0xff"
  by (simp_all only: WTERMSIG_def WEXITSTATUS_def wait_status.simps exit_bits)

lemma judge_outcome: "signal_ok res \<Longrightarrow> snd (judge (wait_status res)) = test_ok res"
proof (cases res)
  case (Exits n)
  then show ?thesis by (simp add: judge_def WIFEXITED_def exit_status byte_zero del: wait_status.simps)
next
  case (Killed sig core)
  moreover assume "signal_ok res"
  ultimately have s: "1 \<le> sig" "sig \<le> 64" by simp_all
  show ?thesis
    using signal_bits [OF s(2), of core] of_nat_signal [OF s(2), of 10] of_nat_signal [OF s(2), of 0] s Killed
    by (simp add: judge_def WIFEXITED_def del: wait_status.simps)
qed

lemma collect_all:
  "\<forall>d \<in> set ds. length d \<le> 255 \<Longrightarrow> length matched + length (filter is_test ds) \<le> BUFSIZ
    \<Longrightarrow> \<forall>i < BUFSIZ. name_memory e i
    \<Longrightarrow> collect_names e ds matched = Some (matched @ map test_path (filter is_test ds))"
  by (induction ds arbitrary: matched) (auto simp: Let_def BUFSIZ_def test_path_def)

text \<open>The verdict on a list of tests, over the ends of their processes: \<open>None\<close> where one never ends.\<close>

fun judged :: "'w host \<Rightarrow> string list \<Rightarrow> 'w \<Rightarrow> bool option" where
  "judged e [] w = Some True"
| "judged e (t # ts) w =
     (if can_fork e w
      then (case child e t w of
              None \<Rightarrow> None
            | Some (res, _, w') \<Rightarrow> if test_ok res then judged e ts w' else Some False)
      else judged e ts w)"

lemma child_signal_ok:
  "\<forall>w res w'. run_test e w = Runs res w' \<longrightarrow> signal_ok res \<Longrightarrow> child e t w = Some (res, rs, w') \<Longrightarrow> signal_ok res"
  by (auto simp: child_def Let_def split: if_splits prod.splits execution.splits)

lemma judge_no_child: "snd (judge 0)"
  by (simp add: judge_def WTERMSIG_def WIFEXITED_def WEXITSTATUS_def)

lemma run_tests_judged:
  assumes "\<forall>w res w'. run_test e w = Runs res w' \<longrightarrow> signal_ok res"
  shows "map_option fst (run_tests e ts w) = judged e ts w"
proof (induction ts arbitrary: w)
  case (Cons t ts)
  have go: "map_option fst (map_option (\<lambda>(ok, rs', w). (ok, f rs', w)) (run_tests e ts v)) = judged e ts v"
    for v and f :: "report list \<Rightarrow> report list"
    by (subst Cons.IH [symmetric]) (simp add: option.map_comp comp_def case_prod_beta)
  show ?case
  proof (cases "can_fork e w")
    case False
    then show ?thesis using judge_no_child go by (auto simp: Let_def split: prod.split)
  next
    case True
    show ?thesis
    proof (cases "child e t w")
      case None
      then show ?thesis using True by simp
    next
      case (Some c)
      obtain res rs v where c: "c = (res, rs, v)" by (metis prod_cases3)
      obtain r g where j: "judge (wait_status res) = (r, g)" by (metis surj_pair)
      then have "g = test_ok res" using judge_outcome [OF child_signal_ok [OF assms Some [unfolded c]]] by simp
      then show ?thesis using True Some c j go by simp
    qed
  qed
qed simp

text \<open>C26: the test driver returns 0 if every test passes and 1 if one fails. For a readable directory whose
  names fit, of at most \<open>BUFSIZ\<close> tests: the answer is that of the tests alone, the files \<open>*.c\<close> other
  than the driver itself, in the order of the directory, each in the world its predecessors left; the first test
  that neither ends with the answer 0 nor by signal 10 ends the run with 1. A test for which no
  process can be made is passed over as if it had succeeded.\<close>

theorem driver_main_correct:
  assumes "\<forall>d \<in> set entries. length d \<le> 255" and "length (filter is_test entries) \<le> BUFSIZ"
    and "\<forall>i < BUFSIZ. name_memory e i" and "\<forall>w res w'. run_test e w = Runs res w' \<longrightarrow> signal_ok res"
  shows "map_option fst (driver_main e (Some entries) w)
    = map_option (\<lambda>ok. if ok then 0 else 1) (judged e (map test_path (filter is_test entries)) w)"
proof -
  have c: "collect_names e entries [] = Some (map test_path (filter is_test entries))"
    using collect_all [of entries "[]" e] assms(1-3) by simp
  show ?thesis
    unfolding run_tests_judged [OF assms(4), symmetric] driver_main_def
    by (cases "run_tests e (map test_path (filter is_test entries)) w") (auto simp: c)
qed

text \<open>A host that keeps the commands: the second program ends by an abort.\<close>

definition ex_host :: "string list host" where
  "ex_host = \<lparr>run_command = (\<lambda>c w. (0, w @ [c])), can_fork = (\<lambda>_. True),
     run_test = (\<lambda>w. Runs (if length w < 4 then Exits 0 else Killed 6 True) w), name_memory = (\<lambda>_. True)\<rparr>"

theorem driver_main_correct_witness:
  "map_option fst (driver_main ex_host (Some [''gc.h'', ''lisp_test.c'', ''testing_system.c'', ''b.c'']) []) = Some 1"
proof -
  have f: "filter is_test [''gc.h'', ''lisp_test.c'', ''testing_system.c'', ''b.c''] = [''lisp_test.c'', ''b.c'']"
    by (simp add: is_test_def matches_c_def)
  have h: "\<forall>d \<in> set [''gc.h'', ''lisp_test.c'', ''testing_system.c'', ''b.c'']. length d \<le> 255"
    "length (filter is_test [''gc.h'', ''lisp_test.c'', ''testing_system.c'', ''b.c'']) \<le> BUFSIZ"
    "\<forall>i < BUFSIZ. name_memory ex_host i" "\<forall>w res w'. run_test ex_host w = Runs res w' \<longrightarrow> signal_ok res"
    by (auto simp: f BUFSIZ_def ex_host_def)
  have j: "judged ex_host (map test_path [''lisp_test.c'', ''b.c'']) [] = Some False"
    by (simp add: ex_host_def child_def BUFSIZ_def test_path_def)
  show ?thesis by (simp only: driver_main_correct [OF h] f j) simp
qed

end
