(* ===== verification/Spec2Isabelle.thy ===== *)
theory Spec2Isabelle
  imports Gc_Properties World_Properties Log_Properties Small_Concurrent Lifetime Registers Show_Bitmap Test_Programs Test_Driver
begin

text \<open>
  A verification development for the mark-and-sweep garbage collector for C programs in this
  repository (\<^verbatim>\<open>src/\<close>), as the default build compiles it: \<^verbatim>\<open>LOG\<close> and \<^verbatim>\<open>DEBUG\<close> are not defined (but for
  the theories of the log, which cover a build with \<^verbatim>\<open>LOG\<close> too).

  \<^bold>\<open>The program.\<close> A client calls \<^verbatim>\<open>gc_malloc\<close>, \<^verbatim>\<open>gc_calloc\<close>, \<^verbatim>\<open>gc_realloc\<close> (\<^verbatim>\<open>gc.c\<close>). Requests of
  1 to 2008 bytes go to the small allocator (\<^verbatim>\<open>allocator/small-allocator.c\<close>: blocks of 4096 bytes with
  a header of slider, object size and mark bitmap, in lists per object size and caches per thread),
  larger ones to the large allocator (\<^verbatim>\<open>allocator/large-allocator.c\<close>: regions described by tree nodes,
  the free ones in a treap, \<^verbatim>\<open>treap.c\<close>, the occupied ones in a search tree,
  \<^verbatim>\<open>binary-search-tree.c\<close>). When a request fails, the service thread (\<^verbatim>\<open>mt-safety/\<close>) stops all
  threads, marks what their stacks and the data segments reach (\<^verbatim>\<open>marker/\<close>, through the view of both
  heaps in \<^verbatim>\<open>allocator/object.c\<close>), sweeps both heaps (\<^verbatim>\<open>sweeper/sweep.c\<close>) and starts the threads again.

  \<^bold>\<open>Theories.\<close>
  \<^item> \<^theory_text>\<open>Prelude\<close>: constants and macros of the headers, word lemmas. \<^theory_text>\<open>Chains\<close>: linked lists in a
    store, and segments of them. \<^theory_text>\<open>Index_Trees\<close>, \<^theory_text>\<open>Tree_Store\<close>: trees of node indices, their abstract
    search tree and treap operations, and their representation by pointers in a node store.
  \<^item> \<^theory_text>\<open>Memory\<close> (\<^verbatim>\<open>memops/gc_mem.c\<close>): byte memory, 64-bit loads and stores (the locale of word
    memories), \<^verbatim>\<open>gc_memset\<close> and \<^verbatim>\<open>gc_memcpy\<close>.
  \<^item> \<^theory_text>\<open>Log\<close> (\<^verbatim>\<open>logging/log.c\<close>): the accounting that the default build keeps.
  \<^item> \<^theory_text>\<open>Regions\<close>, \<^theory_text>\<open>Bst\<close>, \<^theory_text>\<open>Node_Pool\<close>, \<^theory_text>\<open>Treap\<close>, \<^theory_text>\<open>Large_Allocator\<close>, \<^theory_text>\<open>Free_List\<close>, \<^theory_text>\<open>Sweep_Large\<close>:
    the large heap. The state is the store of tree nodes and the two roots; the invariant
    \<open>large_inv\<close> says that both are search trees on disjoint nodes (the free one with the heap order),
    that the other nodes are in the pool, and that the regions tile the mapping. Initialisation,
    allocation and sweep are shown to keep it and what they return is shown free, aligned, disjoint.
  \<^item> \<^theory_text>\<open>Bitmap\<close> (\<^verbatim>\<open>bitmap.c\<close>), \<^theory_text>\<open>Small_Allocator\<close> (the definitions of \<^verbatim>\<open>small-allocator.c\<close>),
    \<^theory_text>\<open>Small_Blocks\<close>, \<^theory_text>\<open>Small_Heap\<close>, \<^theory_text>\<open>Small_Runs\<close>, \<^theory_text>\<open>Sweep_Small\<close>, \<^theory_text>\<open>Small_Properties\<close>: the small
    heap. \<open>small_inv\<close> places every block in exactly one of: the empty list, the list of its size,
    one thread's cache, or none (full); \<open>free_bytes\<close> is the abstract free space that requests take
    from and the sweep rebuilds from the marks.
  \<^item> \<^theory_text>\<open>Small_Threads\<close> (\<^verbatim>\<open>small-allocator.c\<close> with its spin locks): requests of several threads at once, as
    interleaved steps on the lists, the locks and the headers. \<^theory_text>\<open>Small_Interleaving\<close>: the invariant,
    which thread has which block in hand and what room is left. \<^theory_text>\<open>Small_Steps\<close>: every step keeps it and
    the room only shrinks. \<^theory_text>\<open>Small_Alone\<close>: the atomic function is one of the schedules.
    \<^theory_text>\<open>Small_Concurrent\<close>: disjoint objects, safe survivors and progress under every interleaving.
  \<^item> \<^theory_text>\<open>Object\<close>, \<^theory_text>\<open>Object_Marks\<close>, \<^theory_text>\<open>Object_Lookup\<close>, \<^theory_text>\<open>Object_Properties\<close> (\<^verbatim>\<open>object.c\<close>): the two heaps
    together; which object an address means; marks as a store with set and test (a locale).
  \<^item> \<^theory_text>\<open>Mark_Stack\<close> (\<^verbatim>\<open>marker/stack.c\<close>), \<^theory_text>\<open>Threads_Storage\<close> (\<^verbatim>\<open>mt-safety/threads-storage.c\<close>).
  \<^item> \<^theory_text>\<open>Object_Graph\<close>: tracing on an abstract graph, with the invariant of marked and pending
    objects. \<^theory_text>\<open>Marking\<close>, \<^theory_text>\<open>Mark_Correct\<close>, \<^theory_text>\<open>Mark_Reach\<close> (\<^verbatim>\<open>marker/marking.c\<close>): the marker and its
    refinement of that graph search.
  \<^item> \<^theory_text>\<open>Collector\<close> (\<^verbatim>\<open>sweep\<close>, and \<^verbatim>\<open>mark\<close> followed by \<^verbatim>\<open>sweep\<close>): a collection on both heaps keeps exactly what
    was marked before or is reachable without passing a marked object. \<^theory_text>\<open>Gc\<close> (\<^verbatim>\<open>allocator/allocator.c\<close>, \<^verbatim>\<open>gc.c\<close>): the interface of the client. \<^theory_text>\<open>Gc_View\<close>: which
    changes of the heap leave its objects and their references as they are. \<^theory_text>\<open>Gc_Safe\<close>,
    \<^theory_text>\<open>Gc_Properties\<close>: what the interface promises, with the collections in between.
  \<^item> \<^theory_text>\<open>World\<close> (\<^verbatim>\<open>mt-safety/mt-safety.c\<close>, \<^verbatim>\<open>mt-safety/stop-the-world.c\<close>): client threads, their stop handlers
    and the service thread as interleaved steps, over any number of threads. \<^theory_text>\<open>Stop_World\<close>: the
    invariant of locks, registered threads and the phases of a stop. \<^theory_text>\<open>Call_Service\<close>: the handshake of
    \<^verbatim>\<open>call_service_thread\<close>. \<^theory_text>\<open>Stop_Ends\<close>: a bound on the steps of a stop, and that it is never
    stuck while no thread ends. \<^theory_text>\<open>World_Properties\<close>: what holds while the collector works, and the runs in
    which it fails. The theories of the heap take from here that a collection runs alone, with the
    caches of all threads empty (\<^theory_text>\<open>stop_threads\<close> in \<^theory_text>\<open>Gc_Safe\<close>).
  \<^item> \<^theory_text>\<open>Log_Text\<close>, \<^theory_text>\<open>Log_Properties\<close> (\<^verbatim>\<open>logging/log.c\<close> with \<^verbatim>\<open>LOG\<close>): the lines, the buffer and the file of a
    logging build.
  \<^item> \<^theory_text>\<open>Lifetime\<close> (the constructor and destructor of \<^verbatim>\<open>allocator.c\<close>): pages, memory and locks that the
    allocators take and give back. \<^theory_text>\<open>Registers\<close> (the inline assembly of \<^verbatim>\<open>marking.c\<close>): what the marker sees
    of the registers. \<^theory_text>\<open>Show_Bitmap\<close> (\<^verbatim>\<open>allocator/utils.c\<close>): the bitmap as text.
  \<^item> \<^theory_text>\<open>Fresh_Heap\<close>: large requests on a heap that was just set up. \<^theory_text>\<open>Test_Programs\<close>
    (\<^verbatim>\<open>testing_system/allocation_big_obj.c\<close>, \<^verbatim>\<open>tree-search-and-insert.c\<close>): two clients whose assertions hold.
    \<^theory_text>\<open>Test_Driver\<close> (\<^verbatim>\<open>testing_system/testing_system.c\<close>): the program that compiles and runs the tests, over a
    host that carries shell, compiler and tests.

  \<^bold>\<open>Conventions.\<close> \<^verbatim>\<open>HEAP_SIZE\<close> is a compile-time parameter of the program and an argument \<open>H\<close> here.
  Pointers to tree nodes, block nodes and thread cells are indices in a store, \<^verbatim>\<open>NULL\<close> is \<open>None\<close>;
  addresses of heap memory are 64-bit words and the memory is a map from them to bytes. An
  operation returns an option: \<open>None\<close> is a failed assertion, an exit, the dereference of a null
  pointer, or a loop that does not end (the loops are \<open>partial_function (option)\<close>), so that every
  theorem that an operation returns also says that its loops end. Results of \<^verbatim>\<open>mmap\<close>, \<^verbatim>\<open>calloc\<close>,
  \<^verbatim>\<open>realloc\<close>, the stack bounds that the thread library reports and the bounds of the data segments
  are arguments. In the theories of the heap an operation is atomic, but for \<^theory_text>\<open>Small_Threads\<close> and its
  successors, which take an access to a list or a lock, or a turn of the inner loop, as one step; the
  mutex of the large allocator, held throughout \<^verbatim>\<open>allocate_large_object\<close>, is not modelled. The step model
  of \<^theory_text>\<open>World\<close> has the locks of \<^verbatim>\<open>mt-safety/\<close> and
  the allocation lock, and takes POSIX for granted. Neither step model has fuel or a bound on threads or steps. The small heap is assumed not to reach the last page of the address
  space (\<open>small_room\<close>).

  \<^bold>\<open>Not modelled.\<close> The characters of a log line and errors of the file that counts builds; the other
  programs of \<^verbatim>\<open>testing_system/\<close>, which depend on where the compiler keeps their variables or on how
  threads are scheduled, and the standard output of those that are; of \<^verbatim>\<open>__destroy_mt_safety\<close>, what
  follows the end of the service thread (locks are destroyed).
\<close>

end
